(* ===== verification/Prelude.thy ===== *)
theory Prelude
  imports Main "HOL-Library.Word"
begin

text \<open>
  Shared vocabulary of the development: the machine integers of the compiler's C code as words,
  its byte buffers as lists with the bounds-checked writes of \<^verbatim>\<open>memcpy\<close>, \<^verbatim>\<open>memmove\<close> and
  \<^verbatim>\<open>memset\<close>, and the generic list and word lemmas that several components use.

  A C operation whose behaviour is undefined (a copy outside of a buffer, \<^verbatim>\<open>memcpy\<close> on
  overlapping ranges, an index outside of an array) has no value: these operations return an
  option, and \<open>None\<close> is the undefined behaviour.
\<close>

unbundle bit_operations_syntax

type_synonym u8 = "8 word"
type_synonym u16 = "16 word"
type_synonym u32 = "32 word"
type_synonym i32 = "32 word"
type_synonym u64 = "64 word"
type_synonym i64 = "64 word"

named_theorems mem_simps \<open>reads and writes of byte buffers within their bounds\<close>

section \<open>Byte buffers\<close>

definition mem_write :: "'a list \<Rightarrow> nat \<Rightarrow> 'a list \<Rightarrow> 'a list option" where
  "mem_write buf off bs =
     (if off + length bs \<le> length buf
      then Some (take off buf @ bs @ drop (off + length bs) buf) else None)"

definition mem_read :: "'a list \<Rightarrow> nat \<Rightarrow> nat \<Rightarrow> 'a list option" where
  "mem_read buf off n = (if off + n \<le> length buf then Some (take n (drop off buf)) else None)"

definition mem_move :: "'a list \<Rightarrow> nat \<Rightarrow> nat \<Rightarrow> nat \<Rightarrow> 'a list option" where
  "mem_move buf dst src n =
     (case mem_read buf src n of None \<Rightarrow> None | Some bs \<Rightarrow> mem_write buf dst bs)"

definition mem_copy_within :: "'a list \<Rightarrow> nat \<Rightarrow> nat \<Rightarrow> nat \<Rightarrow> 'a list option" where
  "mem_copy_within buf dst src n =
     (if n = 0 \<or> dst + n \<le> src \<or> src + n \<le> dst then mem_move buf dst src n else None)"

lemma mem_write_length: "mem_write buf off bs = Some buf' \<Longrightarrow> length buf' = length buf"
  by (auto simp: mem_write_def split: if_splits)

lemma mem_write_eq [mem_simps]:
  "off + length bs \<le> length buf \<Longrightarrow>
     mem_write buf off bs = Some (take off buf @ bs @ drop (off + length bs) buf)"
  by (simp add: mem_write_def)

lemma mem_read_eq [mem_simps]: "off + n \<le> length buf \<Longrightarrow> mem_read buf off n = Some (take n (drop off buf))"
  by (simp add: mem_read_def)

lemma mem_write_read_same:
  assumes "mem_write buf off bs = Some buf'" and "n = length bs"
  shows "mem_read buf' off n = Some bs"
  using assms by (auto simp: mem_write_def mem_read_def split: if_splits)

lemma mem_write_read_before:
  assumes "mem_write buf off bs = Some buf'" and "p + n \<le> off"
  shows "mem_read buf' p n = mem_read buf p n"
proof -
  from assms have len: "off + length bs \<le> length buf"
    and buf': "buf' = take off buf @ bs @ drop (off + length bs) buf"
    by (auto simp: mem_write_def split: if_splits)
  have "take n (drop p buf') = take n (drop p (take off buf))"
    using assms(2) len by (simp add: buf')
  also have "\<dots> = take n (drop p buf)"
    using assms(2) by (simp add: drop_take min_absorb1)
  finally show ?thesis using len assms(2) by (simp add: mem_read_def buf')
qed

lemma mem_write_read_after:
  assumes "mem_write buf off bs = Some buf'" and "off + length bs \<le> p"
  shows "mem_read buf' p n = mem_read buf p n"
proof -
  from assms have len: "off + length bs \<le> length buf"
    and buf': "buf' = take off buf @ bs @ drop (off + length bs) buf"
    by (auto simp: mem_write_def split: if_splits)
  have "drop p buf' = drop p buf"
    using assms(2) len by (simp add: buf')
  then show ?thesis using len by (simp add: mem_read_def buf')
qed

lemma mem_write_read_inside:
  assumes "mem_write buf off bs = Some buf'" and "k + m \<le> length bs"
  shows "mem_read buf' (off + k) m = Some (take m (drop k bs))"
proof -
  from assms have len: "off + length bs \<le> length buf"
    and buf': "buf' = take off buf @ bs @ drop (off + length bs) buf"
    by (auto simp: mem_write_def split: if_splits)
  have "drop (off + k) buf' = drop k (bs @ drop (off + length bs) buf)"
    using len by (simp add: buf')
  then show ?thesis
    using assms(2) len by (simp add: mem_read_def buf')
qed

lemma mem_move_length: "mem_move buf dst src n = Some buf' \<Longrightarrow> length buf' = length buf"
  by (auto simp: mem_move_def dest: mem_write_length split: option.splits)

lemma mem_move_defined:
  assumes "src + n \<le> length buf" and "dst + n \<le> length buf"
  obtains buf' where "mem_move buf dst src n = Some buf'"
  using assms by (auto simp: mem_move_def mem_read_eq mem_write_def)

lemma mem_move_read_before:
  assumes "mem_move buf dst src n = Some buf'" and "p + m \<le> dst"
  shows "mem_read buf' p m = mem_read buf p m"
  using assms by (auto simp: mem_move_def mem_write_read_before split: option.splits)

lemma mem_move_read_moved:
  assumes "mem_move buf dst src n = Some buf'" and "k + m \<le> n"
  shows "mem_read buf' (dst + k) m = mem_read buf (src + k) m"
proof -
  from assms(1) obtain bs where bs: "mem_read buf src n = Some bs" "mem_write buf dst bs = Some buf'"
    by (auto simp: mem_move_def split: option.splits)
  then have src: "src + n \<le> length buf" "bs = take n (drop src buf)"
    by (auto simp: mem_read_def split: if_splits)
  then have "mem_read buf' (dst + k) m = Some (take m (drop k bs))"
    using mem_write_read_inside [OF bs(2)] assms(2) by simp
  also have "take m (drop k bs) = take m (drop (src + k) buf)"
    unfolding src(2) using assms(2) by (simp add: drop_take add.commute [of k src])
  also have "Some \<dots> = mem_read buf (src + k) m"
    using src assms(2) by (simp add: mem_read_def)
  finally show ?thesis .
qed

section \<open>The allocator\<close>

text \<open>
  The C allocator is a parameter: whether a request of a size succeeds, and what the bytes of fresh
  memory hold. \<^verbatim>\<open>calloc\<close> returns zeros, \<^verbatim>\<open>realloc\<close> keeps the old bytes that fit, and both
  return \<open>None\<close> for the null pointer when they fail.
\<close>

record allocator =
  alloc_ok :: "nat \<Rightarrow> bool"
  fresh_byte :: "nat \<Rightarrow> u8"

definition c_calloc :: "allocator \<Rightarrow> nat \<Rightarrow> u8 list option" where
  "c_calloc al n = (if alloc_ok al n then Some (replicate n 0) else None)"

definition c_realloc :: "allocator \<Rightarrow> u8 list \<Rightarrow> nat \<Rightarrow> u8 list option" where
  "c_realloc al buf n =
     (if alloc_ok al n then Some (take n buf @ map (fresh_byte al) [length buf..<n]) else None)"

lemma c_realloc_length: "c_realloc al buf n = Some buf' \<Longrightarrow> length buf' = n"
  by (auto simp: c_realloc_def split: if_splits)

lemma c_realloc_read:
  assumes "c_realloc al buf n = Some buf'" and "p + m \<le> length buf" and "length buf \<le> n"
  shows "mem_read buf' p m = mem_read buf p m"
  using assms by (auto simp: c_realloc_def mem_read_def split: if_splits)

section \<open>Lists\<close>

lemma nth_append_take_drop:
  assumes "j < off" and "off \<le> length xs"
  shows "(take off xs @ ys) ! j = xs ! j"
  using assms by (simp add: nth_append)

lemma filter_index_mem: "x \<in> set (filter P [0..<n]) \<longleftrightarrow> x < n \<and> P x"
  by auto

lemma distinct_update_fresh:
  assumes "distinct xs" and "y \<notin> set xs"
  shows "distinct (xs[i := y])"
  using assms by (induction xs arbitrary: i) (auto split: nat.splits dest!: set_update_subset_insert [THEN subsetD])

section \<open>Little-endian encodings\<close>

text \<open>The \<^verbatim>\<open>n\<close> low bytes of a value, lowest first: how the x64 host stores an integer, and how
  the assembler and the object writers put one into their output.\<close>

fun le_bytes :: "nat \<Rightarrow> 'a::len word \<Rightarrow> u8 list" where
  "le_bytes 0 v = []"
| "le_bytes (Suc n) v = ucast v # le_bytes n (drop_bit 8 v)"

fun le_value :: "u8 list \<Rightarrow> nat" where
  "le_value [] = 0"
| "le_value (b # bs) = unat b + 256 * le_value bs"

lemma length_le_bytes [simp]: "length (le_bytes n v) = n"
  by (induction n arbitrary: v) auto

lemma le_value_le_bytes: "le_value (le_bytes n v) = unat v mod 2 ^ (8 * n)"
proof (induction n arbitrary: v)
  case 0
  then show ?case by simp
next
  case (Suc n)
  have byte: "unat (ucast v :: u8) = unat v mod 256"
    by (simp add: unsigned_ucast_eq take_bit_eq_mod)
  have rest: "unat (drop_bit 8 v) = unat v div 256"
    by (subst unat_drop_bit_eq) (simp add: drop_bit_eq_div)
  have "unat v mod (256 * 2 ^ (8 * n)) = 256 * (unat v div 256 mod 2 ^ (8 * n)) + unat v mod 256"
    by (rule mod_mult2_eq)
  then show ?case
    using Suc.IH [of "drop_bit 8 v"] by (simp add: byte rest power_add)
qed

lemma le_value_bound: "le_value bs < 2 ^ (8 * length bs)"
proof (induction bs)
  case Nil
  then show ?case by simp
next
  case (Cons b bs)
  have "unat b < 256" using unsigned_less [of b] by simp
  with Cons show ?case by (simp add: power_add)
qed

section \<open>Maximum of a measure over a loop\<close>

lemma foldl_invariant:
  assumes "P s" and "\<And>s x. x \<in> set xs \<Longrightarrow> P s \<Longrightarrow> P (f s x)"
  shows "P (foldl f s xs)"
  using assms by (induction xs arbitrary: s) auto

end
