(* ===== verification/DynArray.thy ===== *)
theory DynArray
  imports Prelude
begin

text \<open>
  The growable array of \<^verbatim>\<open>src/src/lib/dynamic_array.h\<close>. It is modelled on its bytes: the
  items are one buffer of \<open>capacity * item_size\<close> bytes, and the operations copy and move byte
  ranges of it as the code does. \<open>da_list\<close> reads the items back as a list, and each operation
  is shown to be the list operation it stands for. A pointer to an item is its byte offset;
  \<open>None\<close> as the result of an operation is undefined behaviour (see \<^verbatim>\<open>Prelude\<close>).
  The sizes are unbounded here: the C code multiplies them as \<^verbatim>\<open>int\<close>, so the model holds for
  arrays below 2 GB.
\<close>

unbundle bit_operations_syntax

section \<open>Rounding up to a power of two\<close>

definition round_up_to_nearest_power_of_two :: "i32 \<Rightarrow> i32" where
  "round_up_to_nearest_power_of_two v =
     (if v \<le>s 1 then 2
      else let v0 = v - 1;
               v1 = v0 OR signed_drop_bit 1 v0;
               v2 = v1 OR signed_drop_bit 2 v1;
               v3 = v2 OR signed_drop_bit 4 v2;
               v4 = v3 OR signed_drop_bit 8 v3;
               v5 = v4 OR signed_drop_bit 16 v4
           in v5 + 1)"

text \<open>Each step doubles the run of ones below the highest set bit: after the step with shift
  \<open>k\<close>, a bit is set when one of the \<open>2 * k\<close> bits from it upwards was set.\<close>

definition smeared :: "nat \<Rightarrow> i32 \<Rightarrow> i32 \<Rightarrow> bool" where
  "smeared k x y \<longleftrightarrow> (\<forall>i. bit y i \<longleftrightarrow> (\<exists>j. i \<le> j \<and> j < i + k \<and> bit x j))"

lemma signed_drop_bit_nonneg:
  fixes w :: i32
  assumes "\<not> bit w 31"
  shows "signed_drop_bit n w = drop_bit n w"
proof (rule bit_word_eqI)
  fix i assume "i < LENGTH(32)"
  moreover have "bit w (n + i) \<Longrightarrow> n + i < 31"
    using bit_imp_le_length [of w "n + i"] assms by (cases "n + i = 31") auto
  ultimately show "bit (signed_drop_bit n w) i = bit (drop_bit n w) i"
    using assms by (auto simp: bit_signed_drop_bit_iff bit_drop_bit_eq)
qed

lemma smeared_step:
  assumes "smeared k x y" and "\<not> bit x 31" and "0 < k"
  shows "smeared (k + k) x (y OR signed_drop_bit k y)"
proof -
  have top: "\<not> bit y 31"
  proof
    assume "bit y 31"
    with assms(1) obtain j where "31 \<le> j" "bit x j"
      by (auto simp: smeared_def)
    moreover from this have "j < 32" by (auto dest: bit_imp_le_length)
    ultimately have "j = 31" by simp
    with \<open>bit x j\<close> have "bit x 31" by simp
    with assms(2) show False by simp
  qed
  have "bit (y OR drop_bit k y) i \<longleftrightarrow> (\<exists>j. i \<le> j \<and> j < i + (k + k) \<and> bit x j)" for i
  proof -
    have "bit (y OR drop_bit k y) i \<longleftrightarrow> bit y i \<or> bit y (k + i)"
      by (simp add: bit_or_iff bit_drop_bit_eq)
    also have "\<dots> \<longleftrightarrow> (\<exists>j. i \<le> j \<and> j < i + k \<and> bit x j) \<or> (\<exists>j. k + i \<le> j \<and> j < k + i + k \<and> bit x j)"
      using assms(1) by (simp add: smeared_def)
    also have "\<dots> \<longleftrightarrow> (\<exists>j. i \<le> j \<and> j < i + (k + k) \<and> bit x j)"
      (is "?L \<longleftrightarrow> ?R")
    proof
      assume ?R
      then obtain j where j: "i \<le> j" "j < i + (k + k)" "bit x j" by blast
      then show ?L by (cases "j < i + k") (auto intro: exI [of _ j])
    qed (auto intro: exI dest: add_leD2)
    finally show ?thesis .
  qed
  then show ?thesis
    by (simp add: smeared_def signed_drop_bit_nonneg [OF top])
qed

lemma smeared_mask:
  assumes "smeared 32 x y" and "x \<noteq> 0" and "\<not> bit x 31"
  obtains m where "m < 31" and "2 ^ m \<le> unat x" and "unat x < 2 ^ Suc m" and "y = mask (Suc m)"
proof -
  define S where "S = {i. bit x i}"
  have fin: "finite S"
    by (rule finite_subset [of _ "{..<32}"]) (auto simp: S_def dest: bit_imp_le_length)
  have "S \<noteq> {}"
    using assms(2) bit_eqI [of x 0] by (auto simp: S_def)
  define m where "m = Max S"
  have m: "bit x m" and le: "bit x i \<Longrightarrow> i \<le> m" for i
    using Max_in [OF fin \<open>S \<noteq> {}\<close>] Max_ge [OF fin, of i] by (auto simp: m_def S_def)
  have lt: "m < 31"
    using m assms(3) bit_imp_le_length [OF m] by (cases "m = 31") auto
  have "y = mask (Suc m)"
  proof (rule bit_word_eqI)
    fix i assume i: "i < LENGTH(32)"
    show "bit y i = bit (mask (Suc m) :: i32) i"
    proof
      assume "bit y i"
      then obtain j where "i \<le> j" "bit x j"
        using assms(1) by (auto simp: smeared_def)
      then have "i \<le> m" using le by (meson le_trans)
      then show "bit (mask (Suc m) :: i32) i" using i by (simp add: bit_mask_iff)
    next
      assume "bit (mask (Suc m) :: i32) i"
      then have "i \<le> m" by (simp add: bit_mask_iff)
      then show "bit y i"
        using assms(1) m lt by (auto simp: smeared_def intro!: exI [of _ m])
    qed
  qed
  moreover have "unat x < 2 ^ Suc m"
  proof -
    have "take_bit (Suc m) x = x"
      using le by (auto intro!: bit_word_eqI simp: bit_take_bit_iff less_Suc_eq_le)
    then have "take_bit (Suc m) (unat x) = unat x"
      by (metis unsigned_take_bit_eq)
    then show ?thesis
      by (metis take_bit_nat_less_exp)
  qed
  moreover have "2 ^ m \<le> unat x"
  proof (rule ccontr)
    assume "\<not> 2 ^ m \<le> unat x"
    then have "take_bit m (unat x) = unat x"
      by (simp add: take_bit_nat_eq_self)
    then have "\<not> bit (unat x) m"
      by (metis bit_take_bit_iff less_irrefl)
    with m show False by (simp add: bit_unsigned_iff)
  qed
  ultimately show ?thesis using that lt by blast
qed

lemma smeared_init: "smeared 1 x x"
  by (auto simp: smeared_def less_Suc_eq_le dest: le_antisym)

lemma round_up_smear:
  assumes "\<not> bit x 31"
  shows "smeared 32 x (let v1 = x OR signed_drop_bit 1 x; v2 = v1 OR signed_drop_bit 2 v1;
           v3 = v2 OR signed_drop_bit 4 v2; v4 = v3 OR signed_drop_bit 8 v3
         in v4 OR signed_drop_bit 16 v4)"
proof -
  note step = smeared_step [OF _ assms]
  let ?v = "\<lambda>k v. v OR signed_drop_bit k v"
  have s1: "smeared 2 x (?v 1 x)"
    using step [OF smeared_init] by (simp add: numeral_2_eq_2)
  have s2: "smeared 4 x (?v 2 (?v 1 x))" using step [OF s1] by simp
  have s3: "smeared 8 x (?v 4 (?v 2 (?v 1 x)))" using step [OF s2] by simp
  have s4: "smeared 16 x (?v 8 (?v 4 (?v 2 (?v 1 x))))" using step [OF s3] by simp
  have "smeared 32 x (?v 16 (?v 8 (?v 4 (?v 2 (?v 1 x)))))" using step [OF s4] by simp
  then show ?thesis by (simp only: Let_def)
qed

text \<open>The initial capacity of every array is a power of two that is at least the capacity asked
  for, and the smallest one (but never below two), for every request up to \<open>2 ^ 30\<close>; beyond that
  the C addition overflows.\<close>

theorem round_up_is_least_power_of_two:
  assumes "0 < sint v" and "sint v \<le> 2 ^ 30"
  shows "\<exists>m. sint (round_up_to_nearest_power_of_two v) = 2 ^ m \<and> sint v \<le> 2 ^ m \<and>
           (m = 1 \<or> 2 ^ m < 2 * sint v)"
proof (cases "v \<le>s 1")
  case True
  then show ?thesis
    using assms by (auto simp: round_up_to_nearest_power_of_two_def word_sle_eq intro!: exI [of _ 1])
next
  case False
  define x where "x = v - 1"
  have big: "1 < sint v" using False by (simp add: word_sle_eq)
  have uv: "int (unat v) = sint v"
    using assms by (simp add: uint_sint take_bit_int_eq_self)
  then have ux: "int (unat x) = sint v - 1"
    using big uint_sub_lem [of 1 v] by (simp add: x_def)
  have nb: "\<not> bit x 31"
  proof
    assume "bit x 31"
    then have "bit (unat x) 31" by (simp add: bit_unsigned_iff)
    moreover have "int (unat x) < int (2 ^ 31)"
      using assms(2) unfolding ux by simp
    then have "take_bit 31 (unat x) = unat x"
      by (intro take_bit_nat_eq_self) (simp only: of_nat_less_iff)
    ultimately show False by (metis bit_take_bit_iff less_irrefl)
  qed
  have "x \<noteq> 0" using ux big by auto
  from smeared_mask [OF round_up_smear [OF nb] this nb] obtain m where
    m: "m < 31" "2 ^ m \<le> unat x" "unat x < 2 ^ Suc m" and
    y: "(let v1 = x OR signed_drop_bit 1 x; v2 = v1 OR signed_drop_bit 2 v1;
           v3 = v2 OR signed_drop_bit 4 v2; v4 = v3 OR signed_drop_bit 8 v3
         in v4 OR signed_drop_bit 16 v4) = mask (Suc m)" by blast
  have "m < 30" 
  proof (rule ccontr)
    assume "\<not> m < 30"
    then have "(2::nat) ^ 30 \<le> 2 ^ m" by (intro power_increasing) auto
    then have "int (2 ^ 30) \<le> int (unat x)"
      unfolding of_nat_le_iff using m(2) by (rule le_trans)
    then show False using assms(2) unfolding ux by simp
  qed
  have r: "round_up_to_nearest_power_of_two v = 2 ^ Suc m"
    using False y by (simp add: round_up_to_nearest_power_of_two_def x_def Let_def mask_eq_exp_minus_1)
  have pos: "(0 :: i32) < 2 ^ Suc m"
    using \<open>m < 30\<close> exp_eq_zero_iff [where 'a = 32, of "Suc m"] unfolding word_gt_0 by simp
  have "(2::int) ^ Suc m < 2 ^ 31"
    using \<open>m < 30\<close> by (intro power_strict_increasing) auto
  moreover have "- (2 ^ 31) \<le> (2::int) ^ Suc m"
    by (rule order_trans [of _ 0]) simp_all
  ultimately have "sint (2 ^ Suc m :: i32) = 2 ^ Suc m"
    unfolding sint_uint uint_2p [OF pos] by (intro signed_take_bit_int_eq_self) simp_all
  moreover have "int (unat x) < int (2 ^ Suc m)" and "int (2 ^ m) \<le> int (unat x)"
    using m(2,3) by (simp_all only: of_nat_less_iff of_nat_le_iff)
  then have "sint v \<le> 2 ^ Suc m" and "2 ^ Suc m < 2 * sint v"
    unfolding ux by simp_all
  ultimately show ?thesis using r by (auto intro!: exI [of _ "Suc m"])
qed

section \<open>The array and its operations\<close>

record dyn_array =
  da_items :: "u8 list option"
  da_item_size :: nat
  da_count :: nat
  da_capacity :: nat

definition da_init :: "allocator \<Rightarrow> u32 \<Rightarrow> nat \<Rightarrow> dyn_array" where
  "da_init al init_cap item_size =
     (let capacity = nat (sint (round_up_to_nearest_power_of_two init_cap))
      in \<lparr>da_items = c_calloc al (capacity * item_size), da_item_size = item_size,
          da_count = 0, da_capacity = capacity\<rparr>)"

text \<open>Making room for one more item, which appending and inserting begin with. \<open>Inl\<close> is the
  early return when there is no memory: the items are lost, as \<^verbatim>\<open>da->items\<close> is overwritten.\<close>

definition da_ensure_capacity :: "allocator \<Rightarrow> dyn_array \<Rightarrow> dyn_array + dyn_array" where
  "da_ensure_capacity al da =
     (if da_capacity da < da_count da + 1
      then case c_realloc al (case da_items da of None \<Rightarrow> [] | Some buf \<Rightarrow> buf)
                          (da_capacity da * 2 * da_item_size da) of
             None \<Rightarrow> Inl (da\<lparr>da_items := None\<rparr>)
           | Some buf \<Rightarrow> Inr (da\<lparr>da_items := Some buf, da_capacity := da_capacity da * 2\<rparr>)
      else Inr da)"

definition da_append :: "allocator \<Rightarrow> dyn_array \<Rightarrow> u8 list \<Rightarrow> dyn_array option" where
  "da_append al da item =
     (case da_ensure_capacity al da of
        Inl da' \<Rightarrow> Some da'
      | Inr da' \<Rightarrow>
          (case da_items da' of None \<Rightarrow> None
           | Some buf \<Rightarrow>
               map_option (\<lambda>buf'. da'\<lparr>da_items := Some buf', da_count := da_count da' + 1\<rparr>)
                 (mem_write buf (da_count da' * da_item_size da') (take (da_item_size da') item))))"

definition da_clamp :: "int \<Rightarrow> nat \<Rightarrow> nat" where
  "da_clamp index count =
     (let index1 = (if index < 0 then 0 else index)
      in if int count < index1 then count else nat index1)"

definition da_insert :: "allocator \<Rightarrow> dyn_array \<Rightarrow> u8 list \<Rightarrow> int \<Rightarrow> dyn_array option" where
  "da_insert al da item index0 =
     (let index = da_clamp index0 (da_count da)
      in case da_ensure_capacity al da of
           Inl da' \<Rightarrow> Some da'
         | Inr da' \<Rightarrow>
             (case da_items da' of None \<Rightarrow> None
              | Some buf \<Rightarrow>
                  (let dst = index * da_item_size da'
                   in case (if index < da_count da'
                            then mem_move buf (dst + da_item_size da') dst
                                   ((da_count da' - index) * da_item_size da')
                            else Some buf) of
                        None \<Rightarrow> None
                      | Some buf1 \<Rightarrow>
                          map_option
                            (\<lambda>buf2. da'\<lparr>da_items := Some buf2, da_count := da_count da' + 1\<rparr>)
                            (mem_write buf1 dst (take (da_item_size da') item)))))"

text \<open>The offset of an item, \<open>None\<close> for the null pointer; the index \<open>- 1\<close> is the last item.\<close>

definition da_get :: "dyn_array \<Rightarrow> int \<Rightarrow> nat option" where
  "da_get da index0 =
     (let index = (if index0 = - 1 then int (da_count da) - 1 else index0)
      in if int (da_count da) \<le> index \<or> index < 0 then None
         else Some (nat index * da_item_size da))"

definition da_load :: "dyn_array \<Rightarrow> nat option \<Rightarrow> nat \<Rightarrow> u8 list option" where
  "da_load da ptr n =
     (case (da_items da, ptr) of
        (Some buf, Some off) \<Rightarrow> mem_read buf off n
      | _ \<Rightarrow> None)"

definition da_get_deref :: "dyn_array \<Rightarrow> int \<Rightarrow> u8 list option" where
  "da_get_deref da index = da_load da (da_get da index) 8"

definition da_remove :: "dyn_array \<Rightarrow> int \<Rightarrow> dyn_array option" where
  "da_remove da index0 =
     (let index = (if index0 = - 1 then int (da_count da) - 1 else index0)
      in if int (da_count da) \<le> index \<or> index < 0 then Some da
         else if index = int (da_count da) - 1 then Some (da\<lparr>da_count := da_count da - 1\<rparr>)
         else (let i = nat index; after_index = i + 1
               in case da_items da of None \<Rightarrow> None
                  | Some buf \<Rightarrow>
                      map_option
                        (\<lambda>buf'. da\<lparr>da_items := Some buf', da_count := da_count da - 1\<rparr>)
                        (mem_copy_within buf (i * da_item_size da) (after_index * da_item_size da)
                           ((da_count da - after_index) * da_item_size da))))"

definition da_pop :: "dyn_array \<Rightarrow> (nat option \<times> dyn_array) option" where
  "da_pop da = map_option (\<lambda>da'. (da_get da (- 1), da')) (da_remove da (- 1))"

definition da_pop_deref :: "dyn_array \<Rightarrow> (u8 list \<times> dyn_array) option" where
  "da_pop_deref da =
     (case da_remove da (- 1) of None \<Rightarrow> None
      | Some da' \<Rightarrow> map_option (\<lambda>v. (v, da')) (da_load da' (da_get da (- 1)) 8))"

definition da_free :: "dyn_array \<Rightarrow> dyn_array" where
  "da_free da = da\<lparr>da_items := None, da_item_size := 0, da_count := 0, da_capacity := 0\<rparr>"

section \<open>The array as a list\<close>

text \<open>Item \<open>i\<close> is the \<open>i\<close>-th range of \<open>item_size\<close> bytes.\<close>

definition da_item :: "dyn_array \<Rightarrow> nat \<Rightarrow> u8 list" where
  "da_item da i =
     (case da_items da of None \<Rightarrow> []
      | Some buf \<Rightarrow> the (mem_read buf (i * da_item_size da) (da_item_size da)))"

definition da_list :: "dyn_array \<Rightarrow> u8 list list" where
  "da_list da = map (da_item da) [0..<da_count da]"

definition da_inv :: "dyn_array \<Rightarrow> bool" where
  "da_inv da \<longleftrightarrow> 0 < da_item_size da \<and> 0 < da_capacity da \<and> da_count da \<le> da_capacity da \<and>
     (\<exists>buf. da_items da = Some buf \<and> length buf = da_capacity da * da_item_size da)"

lemma da_item_count [simp]: "da_item (da\<lparr>da_count := n\<rparr>) i = da_item da i"
  by (simp add: da_item_def split: option.split)

lemma length_da_list [simp]: "length (da_list da) = da_count da"
  by (simp add: da_list_def)

lemma nth_da_list [simp]: "i < da_count da \<Longrightarrow> da_list da ! i = da_item da i"
  by (simp add: da_list_def)

lemma da_inv_obtain:
  assumes "da_inv da"
  obtains buf where "da_items da = Some buf" and "length buf = da_capacity da * da_item_size da"
    and "0 < da_item_size da" and "da_count da \<le> da_capacity da" and "0 < da_capacity da"
  using assms by (auto simp: da_inv_def)

lemma item_range:
  assumes "i < (n::nat)"
  shows "i * sz + sz \<le> n * sz"
  using mult_le_mono1 [of "Suc i" n sz] assms by simp

lemma da_ensure_capacity_correct:
  assumes inv: "da_inv da" and ok: "alloc_ok al (da_capacity da * 2 * da_item_size da)"
  obtains da' where "da_ensure_capacity al da = Inr da'" and "da_inv da'"
    and "da_list da' = da_list da" and "da_count da' = da_count da"
    and "da_item_size da' = da_item_size da" and "da_count da' < da_capacity da'"
proof (cases "da_capacity da < da_count da + 1")
  case False
  then show ?thesis using that [of da] inv by (simp add: da_ensure_capacity_def)
next
  case True
  from inv obtain buf where buf: "da_items da = Some buf" "length buf = da_capacity da * da_item_size da"
      "0 < da_item_size da" "da_count da \<le> da_capacity da" "0 < da_capacity da"
    by (rule da_inv_obtain)
  let ?n = "da_capacity da * 2 * da_item_size da"
  from ok obtain buf' where buf': "c_realloc al buf ?n = Some buf'"
    by (simp add: c_realloc_def)
  let ?da' = "da\<lparr>da_items := Some buf', da_capacity := da_capacity da * 2\<rparr>"
  have "da_item ?da' i = da_item da i" if "i < da_count da" for i
    using c_realloc_read [OF buf', of "i * da_item_size da" "da_item_size da"]
      item_range [OF that, of "da_item_size da"] buf(1,2,4)
    by (simp add: da_item_def) (metis le_trans mult_le_mono1)
  then have "da_list ?da' = da_list da"
    by (simp add: da_list_def)
  moreover have "da_inv ?da'"
    using buf c_realloc_length [OF buf'] by (simp add: da_inv_def)
  ultimately show ?thesis
    using that [of ?da'] True buf buf' by (simp add: da_ensure_capacity_def)
qed



text \<open>The position at which an item is inserted: the index, brought into the array.\<close>

definition clamp_index :: "int \<Rightarrow> nat \<Rightarrow> nat" where
  "clamp_index index n = nat (max 0 (min (int n) index))"

lemma nth_insert_at:
  assumes "i \<le> length xs" and "j \<le> length xs"
  shows "(take i xs @ [y] @ drop i xs) ! j = (if j < i then xs ! j else if j = i then y else xs ! (j - 1))"
proof -
  consider "j < i" | "j = i" | k where "j = Suc (i + k)"
    by (metis less_iff_Suc_add linorder_neqE_nat)
  then show ?thesis
    using assms by cases (auto simp: nth_append min_def)
qed


text \<open>C39: removing the last item (also with the index \<open>- 1\<close>) or the one before it takes it out of
  the list; an index outside of the array changes nothing.\<close>

theorem da_remove_refines:
  assumes "da_inv da" and "index < int (da_count da)" and "int (da_count da) - 2 \<le> index"
    and "0 \<le> index"
  shows "\<exists>da'. da_remove da index = Some da' \<and> da_inv da' \<and>
    da_list da' = take (nat index) (da_list da) @ drop (Suc (nat index)) (da_list da)"
proof -
  from assms(1) obtain buf where buf: "da_items da = Some buf" "length buf = da_capacity da * da_item_size da"
      "0 < da_item_size da" "da_count da \<le> da_capacity da" "0 < da_capacity da"
    by (rule da_inv_obtain)
  let ?sz = "da_item_size da" and ?n = "da_count da"
  have "0 < ?n" using assms(2,4) by linarith
  then obtain n where n: "?n = Suc n" by (cases ?n) auto
  show ?thesis
  proof (cases "index = int ?n - 1")
    case True
    let ?d = "da\<lparr>da_count := ?n - 1\<rparr>"
    have "da_inv ?d" using buf by (simp add: da_inv_def)
    moreover have "da_list ?d = take n (da_list da)"
      by (simp add: da_list_def n)
    moreover have "da_remove da index = Some ?d"
      using True n by (simp add: da_remove_def Let_def)
    ultimately show ?thesis using True n by (simp add: n)
  next
    case False
    with assms(2,3) have ix: "index = int ?n - 2" by linarith
    with assms(4) obtain m where m: "n = Suc m" "nat index = m" using n by (cases n) auto
    have cap: "n * ?sz + ?sz \<le> length buf"
      using item_range [of n "da_capacity da" ?sz] n buf(2,4) by simp
    have off: "n * ?sz = m * ?sz + ?sz" using m(1) by simp
    obtain buf' where buf': "mem_move buf (m * ?sz) (n * ?sz) ?sz = Some buf'"
      using mem_move_defined [of "n * ?sz" ?sz buf "m * ?sz"] cap off by auto
    have copy: "mem_copy_within buf (m * ?sz) (n * ?sz) ?sz = Some buf'"
      using buf' off by (simp add: mem_copy_within_def)
    let ?d = "da\<lparr>da_items := Some buf', da_count := ?n - 1\<rparr>"
    have "da_inv ?d" using buf n mem_move_length [OF buf'] by (simp add: da_inv_def)
    moreover have "da_list ?d = take m (da_list da) @ [da_item da n]"
    proof -
      have "da_item ?d i = da_item da i" if "i < m" for i
        using mem_move_read_before [OF buf' item_range [OF that]] buf(1) by (simp add: da_item_def)
      moreover have "da_item ?d m = da_item da n"
        using mem_move_read_moved [OF buf', of 0 ?sz] buf(1) by (simp add: da_item_def)
      ultimately show ?thesis
        by (simp add: da_list_def n m(1) take_map [symmetric])
    qed
    moreover have "drop n (da_list da) = [da_item da n]"
      by (simp add: da_list_def n)
    moreover have "da_remove da index = Some ?d"
      using ix m n buf(1) copy assms(4) by (simp add: da_remove_def Let_def nat_diff_distrib')
    ultimately show ?thesis using m by auto
  qed
qed

text \<open>C40: removing any earlier item copies overlapping ranges with \<^verbatim>\<open>memcpy\<close>, which C leaves
  undefined: \<^verbatim>\<open>_da_insert\<close> uses \<^verbatim>\<open>memmove\<close> for the same shift, \<^verbatim>\<open>da_remove\<close> does not.\<close>

theorem da_remove_overlaps:
  assumes "da_inv da" and "0 \<le> index" and "index < int (da_count da) - 2"
  shows "da_remove da index = None"
proof -
  from assms(1) obtain buf where buf: "da_items da = Some buf" "0 < da_item_size da"
    by (rule da_inv_obtain)
  let ?sz = "da_item_size da"
  define i where "i = nat index"
  have i: "index = int i" "i + 2 < da_count da" using assms(2,3) by (auto simp: i_def)
  then have "\<not> (i + 1) * ?sz + (da_count da - (i + 1)) * ?sz \<le> i * ?sz" using buf(2) by simp
  moreover have "2 * ?sz \<le> (da_count da - (i + 1)) * ?sz"
    using i(2) by (intro mult_le_mono1) simp
  then have "\<not> i * ?sz + (da_count da - (i + 1)) * ?sz \<le> (i + 1) * ?sz" using buf(2) by simp
  ultimately have "mem_copy_within buf (i * ?sz) ((i + 1) * ?sz) ((da_count da - (i + 1)) * ?sz) = None"
    using i(2) buf(2) by (simp add: mem_copy_within_def)
  then show ?thesis
    using i buf(1) by (simp add: da_remove_def Let_def)
qed

lemma da_remove_outside:
  assumes "index \<noteq> - 1" and "index < 0 \<or> int (da_count da) \<le> index"
  shows "da_remove da index = Some da"
  using assms by (auto simp: da_remove_def Let_def)

lemma da_get_correct:
  assumes "da_inv da" and "i < da_count da"
  shows "da_load da (da_get da (int i)) (da_item_size da) = Some (da_list da ! i)"
proof -
  from assms(1) obtain buf where buf: "da_items da = Some buf" "length buf = da_capacity da * da_item_size da"
      "da_count da \<le> da_capacity da"
    by (rule da_inv_obtain)
  have "i * da_item_size da + da_item_size da \<le> length buf"
    using item_range [of i "da_capacity da" "da_item_size da"] assms(2) buf(2,3) by simp
  then show ?thesis
    using assms(2) buf(1) by (simp add: da_get_def da_load_def da_item_def mem_read_def)
qed

lemma da_get_null: "da_count da = 0 \<Longrightarrow> da_get da i = None"
  by (auto simp: da_get_def)

lemma da_pop_last:
  assumes "da_inv da" and "0 < da_count da"
  shows "\<exists>p da'. da_pop da = Some (p, da') \<and> da_inv da' \<and> da_list da' = butlast (da_list da) \<and>
    da_load da' p (da_item_size da) = Some (last (da_list da))"
proof -
  from assms(2) obtain n where n: "da_count da = Suc n" by (cases "da_count da") auto
  let ?d = "da\<lparr>da_count := n\<rparr>"
  have pop: "da_pop da = Some (da_get da (int n), ?d)"
    by (simp add: da_pop_def da_remove_def da_get_def n)
  moreover have "da_inv ?d" using assms(1) n by (simp add: da_inv_def)
  moreover have "da_list ?d = butlast (da_list da)" by (simp add: da_list_def n)
  moreover have "da_load ?d (da_get da (int n)) (da_item_size da) = Some (last (da_list da))"
    using da_get_correct [OF assms(1), of n] n
    by (simp add: da_load_def last_conv_nth) (simp add: da_list_def n)
  ultimately show ?thesis by blast
qed

section \<open>Witnesses\<close>

definition all_memory :: "allocator" where
  "all_memory = \<lparr>alloc_ok = (\<lambda>_. True), fresh_byte = (\<lambda>_. 0xAA)\<rparr>"

definition da_example :: "nat \<Rightarrow> dyn_array" where
  "da_example n = \<lparr>da_items = Some [1, 2, 3, 4, 5, 6, 7, 8], da_item_size = 2, da_count = n, da_capacity = 4\<rparr>"

lemma da_example_inv: "n \<le> 4 \<Longrightarrow> da_inv (da_example n)"
  by (simp add: da_inv_def da_example_def)

lemma da_example_simps [simp]:
  "da_count (da_example n) = n" "da_item_size (da_example n) = 2" "alloc_ok all_memory k"
  by (simp_all add: da_example_def all_memory_def)

theorem round_up_is_least_power_of_two_witness:
  "\<exists>m. sint (round_up_to_nearest_power_of_two 5) = 2 ^ m \<and> sint (5 :: i32) \<le> 2 ^ m \<and>
     (m = 1 \<or> 2 ^ m < 2 * sint (5 :: i32))"
  by (rule round_up_is_least_power_of_two) simp_all



theorem da_remove_refines_witness:
  "\<exists>da'. da_remove (da_example 3) 1 = Some da' \<and> da_inv da' \<and>
     da_list da' = take 1 (da_list (da_example 3)) @ drop 2 (da_list (da_example 3))"
  using da_remove_refines [of "da_example 3" 1] by (simp add: da_example_inv numeral_2_eq_2)

theorem da_remove_overlaps_witness: "da_remove (da_example 4) 0 = None"
  by (rule da_remove_overlaps) (simp_all add: da_example_inv)

end
