(* ===== verification/IR.thy ===== *)
theory IR
  imports Prelude
begin

text \<open>
  The intermediate representation of \<^verbatim>\<open>src/src/ir.h\<close> and the operations of \<^verbatim>\<open>src/src/ir.c\<close> that
  build a function and read its instructions. Virtual registers, slots and globals are numbers, as
  in the code, and \<open>- 1\<close> stands for no register (\<^verbatim>\<open>IR_NO_VREG\<close>).

  A pointer to a block is the number of the block: \<^verbatim>\<open>ir_block_new\<close> numbers the blocks of a function
  in the order it makes them, so \<open>f_made\<close>, the list of all blocks made, is the heap of blocks and
  block \<open>n\<close> is its entry \<open>n\<close>. \<open>f_layout\<close> is the array \<^verbatim>\<open>blocks\<close> of the function: the blocks
  in the order they are emitted. A null pointer to a block is \<open>None\<close>. The bits of a float constant
  stand for its value. The call record of an instruction is only read when it is a call.
\<close>

section \<open>Types, operations and predicates\<close>

datatype ir_type = IR_VOID | IR_I8 | IR_I16 | IR_I32 | IR_I64 | IR_F32 | IR_F64 | IR_PTR | IR_TYPE_COUNT

datatype ir_op =
    IR_NOP
  | IR_CONST | IR_CONST_FLOAT | IR_COPY | IR_SLOT_ADDR | IR_GLOBAL_ADDR
  | IR_LOAD | IR_STORE | IR_PTR_ADD | IR_MEMCPY | IR_MEMSET
  | IR_ADD | IR_SUB | IR_MUL | IR_SDIV | IR_UDIV | IR_SREM | IR_UREM
  | IR_AND | IR_OR | IR_XOR | IR_SHL | IR_LSHR | IR_ASHR | IR_NEG | IR_NOT
  | IR_FADD | IR_FSUB | IR_FMUL | IR_FDIV | IR_FNEG
  | IR_ICMP | IR_FCMP
  | IR_SEXT | IR_ZEXT | IR_TRUNC | IR_SITOFP | IR_UITOFP | IR_FPTOSI | IR_FPTOUI
  | IR_FPEXT | IR_FPTRUNC | IR_BITCAST
  | IR_CALL
  | IR_OP_COUNT

datatype ir_cmp =
    IR_CMP_NONE
  | IR_CMP_EQ | IR_CMP_NE | IR_CMP_SLT | IR_CMP_SLE | IR_CMP_SGT | IR_CMP_SGE
  | IR_CMP_ULT | IR_CMP_ULE | IR_CMP_UGT | IR_CMP_UGE
  | IR_CMP_OEQ | IR_CMP_UNE | IR_CMP_OLT | IR_CMP_OLE | IR_CMP_OGT | IR_CMP_OGE

text \<open>The enumerations are ordered by their C values, which the range checks of the code compare.\<close>

fun ir_type_number :: "ir_type \<Rightarrow> nat" where
  "ir_type_number IR_VOID = 0"
| "ir_type_number IR_I8 = 1"
| "ir_type_number IR_I16 = 2"
| "ir_type_number IR_I32 = 3"
| "ir_type_number IR_I64 = 4"
| "ir_type_number IR_F32 = 5"
| "ir_type_number IR_F64 = 6"
| "ir_type_number IR_PTR = 7"
| "ir_type_number IR_TYPE_COUNT = 8"

lemma ir_type_number_inject [simp]: "ir_type_number s = ir_type_number t \<longleftrightarrow> s = t"
  by (cases s; cases t) simp_all

instantiation ir_type :: linorder
begin

definition less_eq_ir_type :: "ir_type \<Rightarrow> ir_type \<Rightarrow> bool" where
  "s \<le> t \<longleftrightarrow> ir_type_number s \<le> ir_type_number t"

definition less_ir_type :: "ir_type \<Rightarrow> ir_type \<Rightarrow> bool" where
  "s < t \<longleftrightarrow> ir_type_number s < ir_type_number t"

instance
  by standard (auto simp: less_eq_ir_type_def less_ir_type_def)

end

fun ir_cmp_number :: "ir_cmp \<Rightarrow> nat" where
  "ir_cmp_number IR_CMP_NONE = 0"
| "ir_cmp_number IR_CMP_EQ = 1"
| "ir_cmp_number IR_CMP_NE = 2"
| "ir_cmp_number IR_CMP_SLT = 3"
| "ir_cmp_number IR_CMP_SLE = 4"
| "ir_cmp_number IR_CMP_SGT = 5"
| "ir_cmp_number IR_CMP_SGE = 6"
| "ir_cmp_number IR_CMP_ULT = 7"
| "ir_cmp_number IR_CMP_ULE = 8"
| "ir_cmp_number IR_CMP_UGT = 9"
| "ir_cmp_number IR_CMP_UGE = 10"
| "ir_cmp_number IR_CMP_OEQ = 11"
| "ir_cmp_number IR_CMP_UNE = 12"
| "ir_cmp_number IR_CMP_OLT = 13"
| "ir_cmp_number IR_CMP_OLE = 14"
| "ir_cmp_number IR_CMP_OGT = 15"
| "ir_cmp_number IR_CMP_OGE = 16"

lemma ir_cmp_number_inject [simp]: "ir_cmp_number s = ir_cmp_number t \<longleftrightarrow> s = t"
  by (cases s; cases t) simp_all

instantiation ir_cmp :: linorder
begin

definition less_eq_ir_cmp :: "ir_cmp \<Rightarrow> ir_cmp \<Rightarrow> bool" where
  "s \<le> t \<longleftrightarrow> ir_cmp_number s \<le> ir_cmp_number t"

definition less_ir_cmp :: "ir_cmp \<Rightarrow> ir_cmp \<Rightarrow> bool" where
  "s < t \<longleftrightarrow> ir_cmp_number s < ir_cmp_number t"

instance
  by standard (auto simp: less_eq_ir_cmp_def less_ir_cmp_def)

end

fun ir_type_size :: "ir_type \<Rightarrow> nat" where
  "ir_type_size IR_VOID = 0"
| "ir_type_size IR_I8 = 1"
| "ir_type_size IR_I16 = 2"
| "ir_type_size IR_I32 = 4"
| "ir_type_size IR_I64 = 8"
| "ir_type_size IR_F32 = 4"
| "ir_type_size IR_F64 = 8"
| "ir_type_size IR_PTR = 8"
| "ir_type_size _ = 0"

definition ir_type_is_int :: "ir_type \<Rightarrow> bool" where
  "ir_type_is_int t \<longleftrightarrow> IR_I8 \<le> t \<and> t \<le> IR_I64"

definition ir_type_is_int_or_ptr :: "ir_type \<Rightarrow> bool" where
  "ir_type_is_int_or_ptr t \<longleftrightarrow> ir_type_is_int t \<or> t = IR_PTR"

definition ir_type_is_float :: "ir_type \<Rightarrow> bool" where
  "ir_type_is_float t \<longleftrightarrow> t = IR_F32 \<or> t = IR_F64"

definition ir_cmp_is_int :: "ir_cmp \<Rightarrow> bool" where
  "ir_cmp_is_int c \<longleftrightarrow> IR_CMP_EQ \<le> c \<and> c \<le> IR_CMP_UGE"

definition ir_cmp_is_float :: "ir_cmp \<Rightarrow> bool" where
  "ir_cmp_is_float c \<longleftrightarrow> IR_CMP_OEQ \<le> c \<and> c \<le> IR_CMP_OGE"

fun ir_type_name :: "ir_type \<Rightarrow> string" where
  "ir_type_name IR_VOID = ''void''"
| "ir_type_name IR_I8 = ''i8''"
| "ir_type_name IR_I16 = ''i16''"
| "ir_type_name IR_I32 = ''i32''"
| "ir_type_name IR_I64 = ''i64''"
| "ir_type_name IR_F32 = ''f32''"
| "ir_type_name IR_F64 = ''f64''"
| "ir_type_name IR_PTR = ''ptr''"
| "ir_type_name _ = ''???''"

fun ir_op_name :: "ir_op \<Rightarrow> string" where
  "ir_op_name IR_NOP = ''nop''"
| "ir_op_name IR_CONST = ''const''"
| "ir_op_name IR_CONST_FLOAT = ''fconst''"
| "ir_op_name IR_COPY = ''copy''"
| "ir_op_name IR_SLOT_ADDR = ''slot_addr''"
| "ir_op_name IR_GLOBAL_ADDR = ''global_addr''"
| "ir_op_name IR_LOAD = ''load''"
| "ir_op_name IR_STORE = ''store''"
| "ir_op_name IR_PTR_ADD = ''ptradd''"
| "ir_op_name IR_MEMCPY = ''memcpy''"
| "ir_op_name IR_MEMSET = ''memset''"
| "ir_op_name IR_ADD = ''add''"
| "ir_op_name IR_SUB = ''sub''"
| "ir_op_name IR_MUL = ''mul''"
| "ir_op_name IR_SDIV = ''sdiv''"
| "ir_op_name IR_UDIV = ''udiv''"
| "ir_op_name IR_SREM = ''srem''"
| "ir_op_name IR_UREM = ''urem''"
| "ir_op_name IR_AND = ''and''"
| "ir_op_name IR_OR = ''or''"
| "ir_op_name IR_XOR = ''xor''"
| "ir_op_name IR_SHL = ''shl''"
| "ir_op_name IR_LSHR = ''lshr''"
| "ir_op_name IR_ASHR = ''ashr''"
| "ir_op_name IR_NEG = ''neg''"
| "ir_op_name IR_NOT = ''not''"
| "ir_op_name IR_FADD = ''fadd''"
| "ir_op_name IR_FSUB = ''fsub''"
| "ir_op_name IR_FMUL = ''fmul''"
| "ir_op_name IR_FDIV = ''fdiv''"
| "ir_op_name IR_FNEG = ''fneg''"
| "ir_op_name IR_ICMP = ''icmp''"
| "ir_op_name IR_FCMP = ''fcmp''"
| "ir_op_name IR_SEXT = ''sext''"
| "ir_op_name IR_ZEXT = ''zext''"
| "ir_op_name IR_TRUNC = ''trunc''"
| "ir_op_name IR_SITOFP = ''sitofp''"
| "ir_op_name IR_UITOFP = ''uitofp''"
| "ir_op_name IR_FPTOSI = ''fptosi''"
| "ir_op_name IR_FPTOUI = ''fptoui''"
| "ir_op_name IR_FPEXT = ''fpext''"
| "ir_op_name IR_FPTRUNC = ''fptrunc''"
| "ir_op_name IR_BITCAST = ''bitcast''"
| "ir_op_name IR_CALL = ''call''"
| "ir_op_name _ = ''???''"

fun ir_cmp_name :: "ir_cmp \<Rightarrow> string" where
  "ir_cmp_name IR_CMP_NONE = ''none''"
| "ir_cmp_name IR_CMP_EQ = ''eq''"
| "ir_cmp_name IR_CMP_NE = ''ne''"
| "ir_cmp_name IR_CMP_SLT = ''slt''"
| "ir_cmp_name IR_CMP_SLE = ''sle''"
| "ir_cmp_name IR_CMP_SGT = ''sgt''"
| "ir_cmp_name IR_CMP_SGE = ''sge''"
| "ir_cmp_name IR_CMP_ULT = ''ult''"
| "ir_cmp_name IR_CMP_ULE = ''ule''"
| "ir_cmp_name IR_CMP_UGT = ''ugt''"
| "ir_cmp_name IR_CMP_UGE = ''uge''"
| "ir_cmp_name IR_CMP_OEQ = ''oeq''"
| "ir_cmp_name IR_CMP_UNE = ''une''"
| "ir_cmp_name IR_CMP_OLT = ''olt''"
| "ir_cmp_name IR_CMP_OLE = ''ole''"
| "ir_cmp_name IR_CMP_OGT = ''ogt''"
| "ir_cmp_name IR_CMP_OGE = ''oge''"

lemmas ir_type_order = less_eq_ir_type_def less_ir_type_def

lemma ir_type_is_int_iff [simp]:
  "ir_type_is_int t \<longleftrightarrow> t = IR_I8 \<or> t = IR_I16 \<or> t = IR_I32 \<or> t = IR_I64"
  by (cases t) (simp_all add: ir_type_is_int_def ir_type_order)

section \<open>Instructions, blocks, functions and modules\<close>

abbreviation IR_NO_VREG :: int where "IR_NO_VREG \<equiv> - 1"

datatype ir_addr_kind = IR_ADDR_NONE | IR_ADDR_VREG | IR_ADDR_SLOT | IR_ADDR_GLOBAL

record ir_addr =
  addr_kind :: ir_addr_kind
  addr_base :: int
  addr_offset :: int

datatype ir_callee_kind = IR_CALLEE_DIRECT | IR_CALLEE_VREG

record ir_call =
  callee_kind :: ir_callee_kind
  callee :: int
  call_return_type :: ir_type
  call_args :: "int list"
  arg_is_vararg :: "bool list"

record ir_inst =
  i_op :: ir_op
  i_type :: ir_type
  i_cmp :: ir_cmp
  i_dst :: int
  i_a :: int
  i_b :: int
  i_addr :: ir_addr
  i_imm :: int
  i_imm2 :: int
  i_fimm :: u64
  i_call :: ir_call
  i_line :: int
  i_scope :: int

datatype ir_term_kind = IR_TERM_NONE | IR_TERM_JMP | IR_TERM_BR | IR_TERM_RET

record ir_term =
  t_kind :: ir_term_kind
  t_cond :: int
  t_value :: int
  t_target :: "nat option"
  t_else_target :: "nat option"

record ir_block =
  b_id :: nat
  b_index :: nat
  b_name :: "string option"
  b_is_placed :: bool
  b_insts :: "ir_inst list"
  b_term :: ir_term
  b_preds :: "nat list"

record ir_slot =
  s_size :: int
  s_align :: int
  s_name :: "string option"

record ir_function =
  f_name :: string
  f_global :: nat
  f_is_entry_point :: bool
  f_return_type :: ir_type
  f_vreg_types :: "ir_type list"
  f_params :: "int list"
  f_slots :: "ir_slot list"
  f_layout :: "nat list"
  f_made :: "ir_block list"

text \<open>The number of the next block is the number of blocks made.\<close>

definition next_block_id :: "ir_function \<Rightarrow> nat" where
  "next_block_id func = length (f_made func)"

definition block_at :: "ir_function \<Rightarrow> nat \<Rightarrow> ir_block" where
  "block_at func b = f_made func ! (f_layout func ! b)"

definition block_count :: "ir_function \<Rightarrow> nat" where
  "block_count func = length (f_layout func)"

definition vreg_count :: "ir_function \<Rightarrow> nat" where
  "vreg_count func = length (f_vreg_types func)"

section \<open>Construction\<close>

text \<open>A new register of a type; \<open>None\<close> is the failed assertion that it has a type.\<close>

definition ir_new_vreg :: "ir_function \<Rightarrow> ir_type \<Rightarrow> (int \<times> ir_function) option" where
  "ir_new_vreg func type =
     (if type = IR_VOID then None
      else Some (int (length (f_vreg_types func)),
                 func\<lparr>f_vreg_types := f_vreg_types func @ [type]\<rparr>))"

definition ir_vreg_type :: "ir_function \<Rightarrow> int \<Rightarrow> ir_type" where
  "ir_vreg_type func vreg =
     (if vreg < 0 \<or> int (length (f_vreg_types func)) \<le> vreg then IR_VOID
      else f_vreg_types func ! nat vreg)"

definition ir_new_slot :: "ir_function \<Rightarrow> int \<Rightarrow> int \<Rightarrow> string option \<Rightarrow> nat \<times> ir_function" where
  "ir_new_slot func sz align name =
     (let slot = \<lparr>s_size = (if 0 < sz then sz else 1),
                  s_align = (if 0 < align then align else 1), s_name = name\<rparr>
      in (length (f_slots func), func\<lparr>f_slots := f_slots func @ [slot]\<rparr>))"

definition ir_block_new :: "ir_function \<Rightarrow> string option \<Rightarrow> nat \<times> ir_function" where
  "ir_block_new func name =
     (let block = \<lparr>b_id = next_block_id func, b_index = 0, b_name = name, b_is_placed = False,
                   b_insts = [],
                   b_term = \<lparr>t_kind = IR_TERM_NONE, t_cond = IR_NO_VREG, t_value = IR_NO_VREG,
                             t_target = None, t_else_target = None\<rparr>,
                   b_preds = []\<rparr>
      in (b_id block, func\<lparr>f_made := f_made func @ [block]\<rparr>))"

definition ir_block_successor_count :: "ir_block \<Rightarrow> nat" where
  "ir_block_successor_count block =
     (case t_kind (b_term block) of IR_TERM_JMP \<Rightarrow> 1 | IR_TERM_BR \<Rightarrow> 2 | _ \<Rightarrow> 0)"

definition ir_block_successor :: "ir_block \<Rightarrow> nat \<Rightarrow> nat option" where
  "ir_block_successor block i =
     (if i = 0 then t_target (b_term block) else t_else_target (b_term block))"

definition ir_block_successors :: "ir_block \<Rightarrow> nat option list" where
  "ir_block_successors block =
     map (ir_block_successor block) [0..<ir_block_successor_count block]"

section \<open>Uses and definitions\<close>

definition ir_inst_use_count :: "ir_inst \<Rightarrow> nat" where
  "ir_inst_use_count inst =
     (if i_a inst \<noteq> IR_NO_VREG then 1 else 0) +
     (if i_b inst \<noteq> IR_NO_VREG then 1 else 0) +
     (if (i_op inst = IR_LOAD \<or> i_op inst = IR_STORE) \<and> addr_kind (i_addr inst) = IR_ADDR_VREG
      then 1 else 0) +
     (if i_op inst = IR_CALL
      then (if callee_kind (i_call inst) = IR_CALLEE_VREG then 1 else 0) + length (call_args (i_call inst))
      else 0)"

text \<open>The tests of \<^verbatim>\<open>ir_inst_use\<close> in their order: each optional operand that is there either is the
  one asked for or moves the index down by one.\<close>

definition take_use :: "bool \<Rightarrow> int \<Rightarrow> (nat \<Rightarrow> int) \<Rightarrow> nat \<Rightarrow> int" where
  "take_use present vreg rest i =
     (if present then (if i = 0 then vreg else rest (i - 1)) else rest i)"

definition ir_inst_use :: "ir_inst \<Rightarrow> nat \<Rightarrow> int" where
  "ir_inst_use inst =
     take_use (i_a inst \<noteq> IR_NO_VREG) (i_a inst)
      (take_use (i_b inst \<noteq> IR_NO_VREG) (i_b inst)
        (take_use ((i_op inst = IR_LOAD \<or> i_op inst = IR_STORE) \<and> addr_kind (i_addr inst) = IR_ADDR_VREG)
           (addr_base (i_addr inst))
          (\<lambda>i. if i_op inst = IR_CALL
               then take_use (callee_kind (i_call inst) = IR_CALLEE_VREG) (callee (i_call inst))
                      (\<lambda>i. if i < length (call_args (i_call inst)) then call_args (i_call inst) ! i
                           else IR_NO_VREG) i
               else IR_NO_VREG)))"

definition ir_inst_is_call_like :: "ir_inst \<Rightarrow> bool" where
  "ir_inst_is_call_like inst \<longleftrightarrow> i_op inst = IR_CALL \<or> i_op inst = IR_MEMCPY \<or> i_op inst = IR_MEMSET"

definition ir_term_use_count :: "ir_term \<Rightarrow> nat" where
  "ir_term_use_count term =
     (if t_kind term = IR_TERM_BR then 1
      else if t_kind term = IR_TERM_RET \<and> t_value term \<noteq> IR_NO_VREG then 1 else 0)"

definition ir_term_use :: "ir_term \<Rightarrow> nat \<Rightarrow> int" where
  "ir_term_use term i = (if t_kind term = IR_TERM_BR then t_cond term else t_value term)"

text \<open>The uses of an instruction or a terminator as a list: what the loops over
  \<^verbatim>\<open>ir_inst_use_count\<close> and \<^verbatim>\<open>ir_inst_use\<close> read, in their order.\<close>

definition ir_inst_uses :: "ir_inst \<Rightarrow> int list" where
  "ir_inst_uses inst = map (ir_inst_use inst) [0..<ir_inst_use_count inst]"

definition ir_term_uses :: "ir_term \<Rightarrow> int list" where
  "ir_term_uses term = map (ir_term_use term) [0..<ir_term_use_count term]"

text \<open>The operands of an instruction, read from its fields.\<close>

definition inst_operands :: "ir_inst \<Rightarrow> int list" where
  "inst_operands inst =
     (if i_a inst \<noteq> IR_NO_VREG then [i_a inst] else []) @
     (if i_b inst \<noteq> IR_NO_VREG then [i_b inst] else []) @
     (if (i_op inst = IR_LOAD \<or> i_op inst = IR_STORE) \<and> addr_kind (i_addr inst) = IR_ADDR_VREG
      then [addr_base (i_addr inst)] else []) @
     (if i_op inst = IR_CALL
      then (if callee_kind (i_call inst) = IR_CALLEE_VREG then [callee (i_call inst)] else []) @
           call_args (i_call inst)
      else [])"

lemma map_take_use:
  "map (take_use p v rest) [0..<(if p then 1 else 0) + n] = (if p then [v] else []) @ map rest [0..<n]"
proof (cases p)
  case True
  have "map (take_use True v rest) [0..<Suc n] = v # map (\<lambda>i. take_use True v rest (Suc i)) [0..<n]"
    by (rule nth_equalityI) (auto simp: take_use_def nth_Cons split: nat.splits simp del: upt_Suc)
  then show ?thesis using True by (simp add: take_use_def)
qed (simp add: take_use_def)

lemma ir_inst_uses_eq: "ir_inst_uses inst = inst_operands inst"
proof -
  have args: "map (\<lambda>i. if i < length xs then xs ! i else c) [0..<length xs] = xs" for xs and c :: int
    by (rule nth_equalityI) simp_all
  show ?thesis
    unfolding ir_inst_uses_def ir_inst_use_count_def ir_inst_use_def add.assoc map_take_use inst_operands_def
    by (simp add: args map_take_use)
qed

text \<open>The two functions that every pass goes through enumerate exactly the operands of an
  instruction, each once and in the order a, b, address, callee, arguments.\<close>

theorem ir_inst_uses_are_operands: "ir_inst_uses inst = inst_operands inst"
  by (rule ir_inst_uses_eq)

lemma ir_term_uses_eq:
  "ir_term_uses term =
     (if t_kind term = IR_TERM_BR then [t_cond term]
      else if t_kind term = IR_TERM_RET \<and> t_value term \<noteq> IR_NO_VREG then [t_value term] else [])"
  by (simp add: ir_term_uses_def ir_term_use_count_def ir_term_use_def)

lemma ir_vreg_type_new:
  assumes "ir_new_vreg func type = Some (v, func')"
  shows "ir_vreg_type func' v = type \<and> (\<forall>w. ir_vreg_type func w \<noteq> IR_VOID \<longrightarrow> ir_vreg_type func' w = ir_vreg_type func w)"
  using assms by (auto simp: ir_new_vreg_def ir_vreg_type_def nth_append split: if_splits)

end
