(* ===== verification/Bitset.thy ===== *)
theory Bitset
  imports Prelude
begin

text \<open>
  The bit sets of \<^verbatim>\<open>src/src/ir.c\<close>: arrays of 64-bit words. The locale \<open>register_set\<close> is the
  interface that the liveness analysis needs of them; its laws say what each operation does to the
  set of numbers that a bit set stands for, and it is interpreted on the words at the end.
\<close>

unbundle bit_operations_syntax

section \<open>The operations on words\<close>

type_synonym ir_bitset = "u64 list"

definition ir_bitset_new :: "nat \<Rightarrow> ir_bitset" where
  "ir_bitset_new bit_count =
     (let word_count = (bit_count + 63) div 64
      in replicate (if word_count = 0 then 1 else word_count) 0)"

definition ir_bitset_get :: "ir_bitset \<Rightarrow> nat \<Rightarrow> bool" where
  "ir_bitset_get s b = (drop_bit (b mod 64) (s ! (b div 64)) AND 1 \<noteq> 0)"

definition ir_bitset_set :: "ir_bitset \<Rightarrow> nat \<Rightarrow> ir_bitset" where
  "ir_bitset_set s b = s[b div 64 := s ! (b div 64) OR push_bit (b mod 64) 1]"

definition ir_bitset_clear :: "ir_bitset \<Rightarrow> nat \<Rightarrow> ir_bitset" where
  "ir_bitset_clear s b = s[b div 64 := s ! (b div 64) AND NOT (push_bit (b mod 64) 1)]"

text \<open>One word after the other; the flag is whether a word changed.\<close>

definition union_word :: "ir_bitset \<Rightarrow> ir_bitset \<times> bool \<Rightarrow> nat \<Rightarrow> ir_bitset \<times> bool" where
  "union_word src = (\<lambda>(dst, changed) i.
     let merged = dst ! i OR src ! i
     in if merged \<noteq> dst ! i then (dst[i := merged], True) else (dst, changed))"

definition ir_bitset_union_into :: "ir_bitset \<Rightarrow> ir_bitset \<Rightarrow> ir_bitset \<times> bool" where
  "ir_bitset_union_into dst src = foldl (union_word src) (dst, False) [0..<length dst]"

definition ir_bitset_copy :: "ir_bitset \<Rightarrow> ir_bitset \<Rightarrow> ir_bitset" where
  "ir_bitset_copy dst src = take (length dst) src"

text \<open>The transfer of a block, word by word: \<^verbatim>\<open>use | (live_out & ~def)\<close>.\<close>

definition ir_bitset_transfer :: "ir_bitset \<Rightarrow> ir_bitset \<Rightarrow> ir_bitset \<Rightarrow> ir_bitset \<Rightarrow> ir_bitset" where
  "ir_bitset_transfer scratch uses live_out defs =
     map (\<lambda>w. uses ! w OR (live_out ! w AND NOT (defs ! w))) [0..<length scratch]"

section \<open>The interface\<close>

text \<open>\<open>elems\<close> is the set that a value stands for, \<open>wf n\<close> that it has room for numbers below
  \<open>n\<close>.\<close>

locale register_set =
  fixes wf :: "nat \<Rightarrow> 's \<Rightarrow> bool"
    and elems :: "'s \<Rightarrow> nat set"
    and empty_set :: "nat \<Rightarrow> 's"
    and get :: "'s \<Rightarrow> nat \<Rightarrow> bool"
    and put :: "'s \<Rightarrow> nat \<Rightarrow> 's"
    and clear :: "'s \<Rightarrow> nat \<Rightarrow> 's"
    and union_into :: "'s \<Rightarrow> 's \<Rightarrow> 's \<times> bool"
    and transfer :: "'s \<Rightarrow> 's \<Rightarrow> 's \<Rightarrow> 's \<Rightarrow> 's"
  assumes wf_empty: "wf n (empty_set n)"
    and elems_empty: "elems (empty_set n) = {}"
    and get_elems: "wf n s \<Longrightarrow> b < n \<Longrightarrow> get s b \<longleftrightarrow> b \<in> elems s"
    and wf_put: "wf n s \<Longrightarrow> b < n \<Longrightarrow> wf n (put s b)"
    and elems_put: "wf n s \<Longrightarrow> b < n \<Longrightarrow> elems (put s b) = insert b (elems s)"
    and wf_clear: "wf n s \<Longrightarrow> b < n \<Longrightarrow> wf n (clear s b)"
    and elems_clear: "wf n s \<Longrightarrow> b < n \<Longrightarrow> elems (clear s b) = elems s - {b}"
    and wf_union: "wf n d \<Longrightarrow> wf n s \<Longrightarrow> wf n (fst (union_into d s))"
    and elems_union: "wf n d \<Longrightarrow> wf n s \<Longrightarrow> elems (fst (union_into d s)) = elems d \<union> elems s"
    and changed_union: "wf n d \<Longrightarrow> wf n s \<Longrightarrow> snd (union_into d s) \<longleftrightarrow> \<not> elems s \<subseteq> elems d"
    and wf_transfer: "wf n c \<Longrightarrow> wf n u \<Longrightarrow> wf n l \<Longrightarrow> wf n d \<Longrightarrow> wf n (transfer c u l d)"
    and elems_transfer: "wf n c \<Longrightarrow> wf n u \<Longrightarrow> wf n l \<Longrightarrow> wf n d \<Longrightarrow>
      elems (transfer c u l d) = elems u \<union> (elems l - elems d)"
    and finite_elems: "finite (elems s)"
begin

lemma union_unchanged:
  assumes "wf n d" and "wf n s" and "\<not> snd (union_into d s)"
  shows "elems (fst (union_into d s)) = elems d"
  using assms changed_union elems_union by blast

lemma fold_put:
  assumes "wf n s" and "\<And>b. b \<in> set bs \<Longrightarrow> b < n"
  shows "wf n (foldl put s bs) \<and> elems (foldl put s bs) = elems s \<union> set bs"
  using assms
proof (induction bs arbitrary: s)
  case (Cons b bs)
  then have w: "wf n (put s b)" and e: "elems (put s b) = insert b (elems s)"
    by (simp_all add: wf_put elems_put)
  show ?case
    using Cons.IH [OF w] Cons.prems(2) by (auto simp: e)
qed simp

lemma fold_clear:
  assumes "wf n s" and "\<And>b. b \<in> set bs \<Longrightarrow> b < n"
  shows "wf n (foldl clear s bs) \<and> elems (foldl clear s bs) = elems s - set bs"
  using assms
proof (induction bs arbitrary: s)
  case (Cons b bs)
  then have w: "wf n (clear s b)" and e: "elems (clear s b) = elems s - {b}"
    by (simp_all add: wf_clear elems_clear)
  show ?case
    using Cons.IH [OF w] Cons.prems(2) by (auto simp: e)
qed simp

text \<open>Recording the uses that come before a definition: each number goes into \<open>u\<close> unless it is in
  \<open>d\<close>.\<close>

lemma fold_put_unless:
  assumes "wf n u" and "wf n d" and "\<And>b. b \<in> set bs \<Longrightarrow> b < n"
  shows "wf n (foldl (\<lambda>u b. if get d b then u else put u b) u bs) \<and>
    elems (foldl (\<lambda>u b. if get d b then u else put u b) u bs) = elems u \<union> (set bs - elems d)"
  using assms
proof (induction bs arbitrary: u)
  case (Cons b bs)
  let ?u = "if get d b then u else put u b"
  have w: "wf n ?u" and e: "elems ?u = elems u \<union> ({b} - elems d)"
    using Cons.prems by (simp_all add: wf_put elems_put get_elems) auto
  have "wf n (foldl (\<lambda>u b. if get d b then u else put u b) ?u bs) \<and>
    elems (foldl (\<lambda>u b. if get d b then u else put u b) ?u bs) = elems ?u \<union> (set bs - elems d)"
    using Cons.prems by (intro Cons.IH w) simp_all
  then show ?case unfolding e by auto
qed simp

end

section \<open>The words implement it\<close>

definition bitset_wf :: "nat \<Rightarrow> ir_bitset \<Rightarrow> bool" where
  "bitset_wf n s \<longleftrightarrow> length s = (if (n + 63) div 64 = 0 then 1 else (n + 63) div 64)"

definition bitset_elems :: "ir_bitset \<Rightarrow> nat set" where
  "bitset_elems s = {b. b div 64 < length s \<and> bit (s ! (b div 64)) (b mod 64)}"

lemma bitset_wf_in_range:
  assumes "bitset_wf n s" and "b < n"
  shows "b div 64 < length s"
proof -
  have "b div 64 < (n + 63) div 64" using assms(2) by linarith
  then show ?thesis using assms(1) by (auto simp: bitset_wf_def)
qed

lemma bitset_elemsI: "b div 64 < length s \<Longrightarrow> b \<in> bitset_elems s \<longleftrightarrow> bit (s ! (b div 64)) (b mod 64)"
  by (simp add: bitset_elems_def)

lemma finite_bitset_elems: "finite (bitset_elems s)"
proof (rule finite_subset)
  show "bitset_elems s \<subseteq> {..<64 * length s}"
    by (auto simp: bitset_elems_def)
qed simp

lemma union_word_fold:
  assumes "k \<le> length d" and "length s = length d"
  shows "foldl (union_word s) (d, False) [0..<k] =
    (map (\<lambda>i. if i < k then d ! i OR s ! i else d ! i) [0..<length d],
     \<exists>i<k. d ! i OR s ! i \<noteq> d ! i)"
  using assms(1)
proof (induction k)
  case 0
  then show ?case by (simp add: map_nth)
next
  case (Suc k)
  then have k: "k < length d" by simp
  let ?m = "\<lambda>k. map (\<lambda>i. if i < k then d ! i OR s ! i else d ! i) [0..<length d]"
  have upd: "(?m k)[k := d ! k OR s ! k] = ?m (Suc k)"
    using k by (auto intro!: nth_equalityI simp: nth_list_update less_Suc_eq)
  have same: "d ! k OR s ! k = d ! k \<Longrightarrow> ?m k = ?m (Suc k)"
    by (auto intro!: nth_equalityI simp: less_Suc_eq)
  show ?case
    using Suc k upd same by (auto simp: union_word_def Let_def less_Suc_eq)
qed

lemma ir_bitset_union_into_eq:
  assumes "length s = length d"
  shows "ir_bitset_union_into d s = (map2 (OR) d s, map2 (OR) d s \<noteq> d)"
proof -
  have m: "map (\<lambda>i. if i < length d then d ! i OR s ! i else d ! i) [0..<length d] = map2 (OR) d s"
    using assms by (auto intro!: nth_equalityI)
  have "(\<exists>i<length d. d ! i OR s ! i \<noteq> d ! i) \<longleftrightarrow> map2 (OR) d s \<noteq> d"
    using assms by (auto simp: list_eq_iff_nth_eq)
  then show ?thesis
    unfolding ir_bitset_union_into_def union_word_fold [OF order_refl assms] m by simp
qed

lemma bitset_elems_map2:
  assumes "length s = length d"
  shows "bitset_elems (map2 (OR) d s) = bitset_elems d \<union> bitset_elems s"
  using assms by (auto simp: bitset_elems_def bit_or_iff)

lemma bitset_elems_inject:
  assumes "length s = length d" and "bitset_elems s = bitset_elems d"
  shows "s = d"
proof (rule nth_equalityI [OF assms(1)])
  fix i assume i: "i < length s"
  show "s ! i = d ! i"
  proof (rule bit_word_eqI)
    fix n assume "n < LENGTH(64)"
    then have n: "(64 * i + n) div 64 = i" "(64 * i + n) mod 64 = n" by simp_all
    have "64 * i + n \<in> bitset_elems s \<longleftrightarrow> 64 * i + n \<in> bitset_elems d"
      using assms(2) by simp
    then show "bit (s ! i) n = bit (d ! i) n"
      unfolding bitset_elems_def mem_Collect_eq n using i assms(1) by simp
  qed
qed

lemma bit_push_one: "bit (2 ^ k :: u64) n \<longleftrightarrow> n = k \<and> k < 64"
  by (auto simp: bit_exp_iff)

lemma div_mod_same: "(a::nat) div 64 = b div 64 \<Longrightarrow> a mod 64 = b mod 64 \<Longrightarrow> a = b"
  by (metis div_mult_mod_eq)

interpretation bits: register_set bitset_wf bitset_elems ir_bitset_new ir_bitset_get ir_bitset_set
  ir_bitset_clear ir_bitset_union_into ir_bitset_transfer
proof unfold_locales
  show "bitset_wf n (ir_bitset_new n)" for n
    by (simp add: bitset_wf_def ir_bitset_new_def Let_def)
  show "bitset_elems (ir_bitset_new n) = {}" for n
    by (auto simp: bitset_elems_def ir_bitset_new_def Let_def)
  show "ir_bitset_get s b \<longleftrightarrow> b \<in> bitset_elems s" if "bitset_wf n s" "b < n" for n s b
    using bitset_wf_in_range [OF that]
    by (simp add: ir_bitset_get_def bitset_elems_def and_one_eq odd_iff_mod_2_eq_one [symmetric] bit_iff_odd_drop_bit)
  show "bitset_wf n (ir_bitset_set s b)" if "bitset_wf n s" "b < n" for n s b
    using that by (simp add: bitset_wf_def ir_bitset_set_def)
  show "bitset_wf n (ir_bitset_clear s b)" if "bitset_wf n s" "b < n" for n s b
    using that by (simp add: bitset_wf_def ir_bitset_clear_def)
  show "bitset_elems (ir_bitset_set s b) = insert b (bitset_elems s)" if "bitset_wf n s" "b < n" for n s b
    using bitset_wf_in_range [OF that]
    by (auto dest: div_mod_same simp: bitset_elems_def ir_bitset_set_def nth_list_update bit_or_iff bit_push_one)
  show "bitset_elems (ir_bitset_clear s b) = bitset_elems s - {b}" if "bitset_wf n s" "b < n" for n s b
    using bitset_wf_in_range [OF that]
    by (auto dest: div_mod_same simp: bitset_elems_def ir_bitset_clear_def nth_list_update bit_and_iff bit_not_iff bit_push_one)
  fix n d s assume "bitset_wf n d" and "bitset_wf n s"
  then have l: "length s = length d" by (simp add: bitset_wf_def)
  show "bitset_wf n (fst (ir_bitset_union_into d s))"
    using \<open>bitset_wf n d\<close> l by (simp add: ir_bitset_union_into_eq bitset_wf_def)
  show "bitset_elems (fst (ir_bitset_union_into d s)) = bitset_elems d \<union> bitset_elems s"
    using l by (simp add: ir_bitset_union_into_eq bitset_elems_map2)
  show "snd (ir_bitset_union_into d s) \<longleftrightarrow> \<not> bitset_elems s \<subseteq> bitset_elems d"
    using bitset_elems_inject [of "map2 (OR) d s" d] bitset_elems_map2 [OF l] l
    by (auto simp: ir_bitset_union_into_eq)
next
  fix n c u l d :: ir_bitset and m
  assume "bitset_wf m c" "bitset_wf m u" "bitset_wf m l" "bitset_wf m d"
  then have len: "length u = length c" "length l = length c" "length d = length c"
    by (simp_all add: bitset_wf_def)
  show "bitset_wf m (ir_bitset_transfer c u l d)"
    using \<open>bitset_wf m c\<close> by (simp add: bitset_wf_def ir_bitset_transfer_def)
  show "bitset_elems (ir_bitset_transfer c u l d) = bitset_elems u \<union> (bitset_elems l - bitset_elems d)"
    using len by (auto simp: bitset_elems_def ir_bitset_transfer_def bit_or_iff bit_and_iff bit_not_iff)
qed (rule finite_bitset_elems)

end
