(* ===== verification/Liveness.thy ===== *)
theory Liveness
  imports IR Bitset "HOL-Library.While_Combinator"
begin

text \<open>
  The liveness analysis of \<^verbatim>\<open>src/src/ir.c\<close> (\<^verbatim>\<open>ir_compute_liveness\<close>): for each block of the
  layout the registers that are live into it and out of it, as bit sets that grow until a pass over
  the blocks changes nothing. The loop is a \<open>while_option\<close>; it is shown to stop, and its result to
  be exact: a register is in the set of a block when, and only when, some path from there reads it
  before it is written.

  A successor that is the null pointer, or that is not in the layout, is out of bounds for the C
  code; \<open>ir_wf\<close> says that there is none and that every register exists. The verifier of
  \<^verbatim>\<open>IrVerify\<close> and \<^verbatim>\<open>ir_function_finalize\<close> establish it.
\<close>

section \<open>The analysis\<close>

record ir_liveness =
  live_in :: "ir_bitset list"
  live_out :: "ir_bitset list"

text \<open>What a block reads before it writes it, and what it writes.\<close>

definition note_uses :: "ir_bitset \<Rightarrow> ir_bitset \<Rightarrow> int list \<Rightarrow> ir_bitset" where
  "note_uses defs uses vregs =
     foldl (\<lambda>u v. if ir_bitset_get defs v then u else ir_bitset_set u v) uses (map nat vregs)"

definition note_inst :: "ir_bitset \<times> ir_bitset \<Rightarrow> ir_inst \<Rightarrow> ir_bitset \<times> ir_bitset" where
  "note_inst = (\<lambda>(uses, defs) inst.
     (note_uses defs uses (ir_inst_uses inst),
      if i_dst inst \<noteq> IR_NO_VREG then ir_bitset_set defs (nat (i_dst inst)) else defs))"

definition block_uses_defs :: "ir_function \<Rightarrow> nat \<Rightarrow> ir_bitset \<times> ir_bitset" where
  "block_uses_defs func b =
     (let block = block_at func b; n = vreg_count func;
          (uses, defs) = foldl note_inst (ir_bitset_new n, ir_bitset_new n) (b_insts block)
      in (note_uses defs uses (ir_term_uses (b_term block)), defs))"

definition successor_index :: "ir_function \<Rightarrow> nat \<Rightarrow> nat" where
  "successor_index func t = b_index (f_made func ! t)"

text \<open>The body of the inner loop, for block \<open>b\<close>; the flag is the \<^verbatim>\<open>changed\<close> of the code.\<close>

definition live_succ :: "ir_function \<Rightarrow> nat \<Rightarrow> ir_liveness \<times> bool \<Rightarrow> nat option \<Rightarrow> ir_liveness \<times> bool" where
  "live_succ func b = (\<lambda>(live, changed) succ.
     case succ of None \<Rightarrow> (live, changed)
     | Some t \<Rightarrow>
         (let (out, grew) = ir_bitset_union_into (live_out live ! b) (live_in live ! successor_index func t)
          in (live\<lparr>live_out := (live_out live)[b := out]\<rparr>, changed \<or> grew)))"

definition live_block :: "ir_function \<Rightarrow> ir_liveness \<times> bool \<Rightarrow> nat \<Rightarrow> ir_liveness \<times> bool" where
  "live_block func st b =
     (let (live, changed) = foldl (live_succ func b) st (ir_block_successors (block_at func b));
          (uses, defs) = block_uses_defs func b;
          scratch = ir_bitset_transfer (ir_bitset_new (vreg_count func)) uses (live_out live ! b) defs;
          (inn, grew) = ir_bitset_union_into (live_in live ! b) scratch
      in (live\<lparr>live_in := (live_in live)[b := inn]\<rparr>, changed \<or> grew))"

definition live_pass :: "ir_function \<Rightarrow> ir_liveness \<Rightarrow> ir_liveness \<times> bool" where
  "live_pass func live = foldl (live_block func) (live, False) (rev [0..<block_count func])"

definition live_start :: "ir_function \<Rightarrow> ir_liveness" where
  "live_start func =
     \<lparr>live_in = replicate (block_count func) (ir_bitset_new (vreg_count func)),
      live_out = replicate (block_count func) (ir_bitset_new (vreg_count func))\<rparr>"

definition ir_compute_liveness :: "ir_function \<Rightarrow> ir_liveness option" where
  "ir_compute_liveness func =
     map_option fst
       (while_option (\<lambda>(live, changed). changed) (\<lambda>(live, changed). live_pass func live)
          (live_start func, True))"

section \<open>What liveness means\<close>

definition vreg_ok :: "ir_function \<Rightarrow> int \<Rightarrow> bool" where
  "vreg_ok func v \<longleftrightarrow> 0 \<le> v \<and> v < int (vreg_count func)"

definition inst_uses :: "ir_inst \<Rightarrow> nat set" where
  "inst_uses inst = nat ` set (ir_inst_uses inst)"

definition inst_defs :: "ir_inst \<Rightarrow> nat set" where
  "inst_defs inst = (if i_dst inst = IR_NO_VREG then {} else {nat (i_dst inst)})"

definition term_uses :: "ir_term \<Rightarrow> nat set" where
  "term_uses term = nat ` set (ir_term_uses term)"

definition insts_of :: "ir_function \<Rightarrow> nat \<Rightarrow> ir_inst list" where
  "insts_of func b = b_insts (block_at func b)"

definition successors :: "ir_function \<Rightarrow> nat \<Rightarrow> nat set" where
  "successors func b = {successor_index func t | t. Some t \<in> set (ir_block_successors (block_at func b))}"

definition ir_wf :: "ir_function \<Rightarrow> bool" where
  "ir_wf func \<longleftrightarrow>
     (\<forall>b < block_count func.
        (\<forall>inst \<in> set (insts_of func b).
           (\<forall>v \<in> set (ir_inst_uses inst). vreg_ok func v) \<and>
           (i_dst inst \<noteq> IR_NO_VREG \<longrightarrow> vreg_ok func (i_dst inst))) \<and>
        (\<forall>v \<in> set (ir_term_uses (b_term (block_at func b))). vreg_ok func v) \<and>
        successors func b \<subseteq> {..<block_count func}) \<and>
     (\<forall>v \<in> set (f_params func). vreg_ok func v)"

text \<open>A program point \<open>(b, i)\<close> is before instruction \<open>i\<close> of block \<open>b\<close>, or before its
  terminator when \<open>i\<close> is the number of its instructions. A register is live there when some path
  from there reads it before it is written.\<close>

inductive live_at :: "ir_function \<Rightarrow> nat \<Rightarrow> nat \<Rightarrow> nat \<Rightarrow> bool" for func where
  used_here: "i < length (insts_of func b) \<Longrightarrow> v \<in> inst_uses (insts_of func b ! i) \<Longrightarrow> live_at func b i v"
| used_later: "i < length (insts_of func b) \<Longrightarrow> v \<notin> inst_defs (insts_of func b ! i) \<Longrightarrow>
    live_at func b (Suc i) v \<Longrightarrow> live_at func b i v"
| used_at_end: "v \<in> term_uses (b_term (block_at func b)) \<Longrightarrow> live_at func b (length (insts_of func b)) v"
| used_after: "s \<in> successors func b \<Longrightarrow> live_at func s 0 v \<Longrightarrow>
    live_at func b (length (insts_of func b)) v"

inductive_cases live_at_cases: "live_at func b i v"

section \<open>One block\<close>

text \<open>The registers live before a sequence of instructions, given those live after it.\<close>

fun exposed :: "ir_inst list \<Rightarrow> nat set \<Rightarrow> nat set" where
  "exposed [] after = after"
| "exposed (inst # insts) after = inst_uses inst \<union> (exposed insts after - inst_defs inst)"

definition all_defs :: "ir_inst list \<Rightarrow> nat set" where
  "all_defs insts = (\<Union>inst \<in> set insts. inst_defs inst)"

lemma exposed_split: "exposed insts (S \<union> T) = exposed insts S \<union> (T - all_defs insts)"
  by (induction insts) (auto simp: all_defs_def)

lemma exposed_empty_split: "exposed insts T = exposed insts {} \<union> (T - all_defs insts)"
  using exposed_split [of insts "{}" T] by simp

definition insts_ok :: "nat \<Rightarrow> ir_inst list \<Rightarrow> bool" where
  "insts_ok n insts \<longleftrightarrow>
     (\<forall>inst \<in> set insts. (\<forall>v \<in> set (ir_inst_uses inst). 0 \<le> v \<and> v < int n) \<and>
        (i_dst inst \<noteq> IR_NO_VREG \<longrightarrow> 0 \<le> i_dst inst \<and> i_dst inst < int n))"

lemma note_uses_correct:
  assumes "bitset_wf n uses" and "bitset_wf n defs" and "\<And>v. v \<in> set vs \<Longrightarrow> 0 \<le> v \<and> v < int n"
  shows "bitset_wf n (note_uses defs uses vs) \<and>
    bitset_elems (note_uses defs uses vs) = bitset_elems uses \<union> (nat ` set vs - bitset_elems defs)"
  unfolding note_uses_def
  using bits.fold_put_unless [OF assms(1,2), of "map nat vs"] assms(3) by fastforce

lemma note_insts_correct:
  assumes "bitset_wf n u" and "bitset_wf n d" and "insts_ok n insts"
    and "foldl note_inst (u, d) insts = (u', d')"
  shows "bitset_wf n u' \<and> bitset_wf n d' \<and>
    bitset_elems u' = bitset_elems u \<union> (exposed insts {} - bitset_elems d) \<and>
    bitset_elems d' = bitset_elems d \<union> all_defs insts"
  using assms
proof (induction insts arbitrary: u d)
  case Nil
  then show ?case by (simp add: all_defs_def)
next
  case (Cons inst insts)
  let ?u = "note_uses d u (ir_inst_uses inst)"
  let ?d = "if i_dst inst \<noteq> IR_NO_VREG then ir_bitset_set d (nat (i_dst inst)) else d"
  have ok: "insts_ok n insts" using Cons.prems(3) by (simp add: insts_ok_def)
  have u: "bitset_wf n ?u" "bitset_elems ?u = bitset_elems u \<union> (inst_uses inst - bitset_elems d)"
    using note_uses_correct [OF Cons.prems(1,2), of "ir_inst_uses inst"] Cons.prems(3)
    by (auto simp: insts_ok_def inst_uses_def)
  have "nat (i_dst inst) < n" if "i_dst inst \<noteq> IR_NO_VREG"
    using that Cons.prems(3) by (auto simp: insts_ok_def)
  then have d: "bitset_wf n ?d" "bitset_elems ?d = bitset_elems d \<union> inst_defs inst"
    using Cons.prems(2) by (auto simp: bits.wf_put bits.elems_put inst_defs_def)
  have "foldl note_inst (?u, ?d) insts = (u', d')"
    using Cons.prems(4) by (simp add: note_inst_def)
  from Cons.IH [OF u(1) d(1) ok this] show ?case
    unfolding u(2) d(2) by (auto simp: all_defs_def)
qed

definition block_use :: "ir_function \<Rightarrow> nat \<Rightarrow> nat set" where
  "block_use func b = exposed (insts_of func b) (term_uses (b_term (block_at func b)))"

definition block_def :: "ir_function \<Rightarrow> nat \<Rightarrow> nat set" where
  "block_def func b = all_defs (insts_of func b)"

lemma ir_wf_insts_ok: "ir_wf func \<Longrightarrow> b < block_count func \<Longrightarrow> insts_ok (vreg_count func) (insts_of func b)"
  by (auto simp: ir_wf_def insts_ok_def vreg_ok_def)

lemma block_uses_defs_correct:
  assumes "ir_wf func" and "b < block_count func" and "block_uses_defs func b = (u, d)"
  shows "bitset_wf (vreg_count func) u \<and> bitset_wf (vreg_count func) d \<and>
    bitset_elems u = block_use func b \<and> bitset_elems d = block_def func b"
proof -
  let ?n = "vreg_count func"
  obtain u0 d0 where f: "foldl note_inst (ir_bitset_new ?n, ir_bitset_new ?n) (insts_of func b) = (u0, d0)"
    by fastforce
  have 0: "bitset_wf ?n u0" "bitset_wf ?n d0" "bitset_elems u0 = exposed (insts_of func b) {}"
      "bitset_elems d0 = block_def func b"
    using note_insts_correct [OF bits.wf_empty bits.wf_empty ir_wf_insts_ok [OF assms(1,2)] f]
    by (simp_all add: bits.elems_empty block_def_def)
  have t: "0 \<le> v \<and> v < int ?n" if "v \<in> set (ir_term_uses (b_term (block_at func b)))" for v
    using assms(1,2) that by (auto simp: ir_wf_def vreg_ok_def)
  have ud: "u = note_uses d0 u0 (ir_term_uses (b_term (block_at func b)))" "d = d0"
    using assms(3) unfolding block_uses_defs_def Let_def insts_of_def [symmetric] f by auto
  show ?thesis
    using note_uses_correct [OF 0(1,2) t] 0 exposed_empty_split [of "insts_of func b" "term_uses (b_term (block_at func b))"]
    by (simp add: ud block_use_def block_def_def term_uses_def)
qed

text \<open>The registers live after a block, and what is live at a point of it.\<close>

definition live_after :: "ir_function \<Rightarrow> nat \<Rightarrow> nat set" where
  "live_after func b = {v. \<exists>s \<in> successors func b. live_at func s 0 v}"

lemma live_at_step:
  "i < length (insts_of func b) \<Longrightarrow>
     live_at func b i v \<longleftrightarrow> v \<in> inst_uses (insts_of func b ! i) \<or>
       (v \<notin> inst_defs (insts_of func b ! i) \<and> live_at func b (Suc i) v)"
  by (auto elim: live_at_cases intro: live_at.intros)

lemma live_at_end:
  "live_at func b (length (insts_of func b)) v \<longleftrightarrow>
     v \<in> term_uses (b_term (block_at func b)) \<or> v \<in> live_after func b"
  by (auto simp: live_after_def elim: live_at_cases intro: live_at.intros)

lemma live_at_exposed:
  assumes "i \<le> length (insts_of func b)"
  shows "live_at func b i v \<longleftrightarrow>
    v \<in> exposed (drop i (insts_of func b)) (term_uses (b_term (block_at func b)) \<union> live_after func b)"
  using assms
proof (induction "length (insts_of func b) - i" arbitrary: i)
  case 0
  then have "i = length (insts_of func b)" by simp
  then show ?case by (simp add: live_at_end)
next
  case (Suc k)
  then have i: "i < length (insts_of func b)" by simp
  have "k = length (insts_of func b) - Suc i" using Suc.hyps(2) by simp
  from Suc.hyps(1) [OF this] i show ?case
    by (auto simp: live_at_step Cons_nth_drop_Suc [symmetric])
qed

lemma live_at_start:
  "live_at func b 0 v \<longleftrightarrow> v \<in> block_use func b \<or> (v \<in> live_after func b \<and> v \<notin> block_def func b)"
  using live_at_exposed [of 0 func b v]
  by (simp add: exposed_split block_use_def block_def_def)

section \<open>Growing the sets\<close>

text \<open>A fold whose steps only grow a value, and raise the flag when they change it: so does the
  fold, and when it changes nothing no step would.\<close>

lemma growing_fold:
  assumes step: "\<And>x a. ok x \<Longrightarrow> a \<in> set as \<Longrightarrow>
      \<exists>x'. (\<forall>c. f (x, c) a = (x', c \<or> x' \<noteq> x)) \<and> ok x' \<and> le x x'"
    and refl: "\<And>x. le x x" and trans: "\<And>x y z. le x y \<Longrightarrow> le y z \<Longrightarrow> le x z"
    and antisym: "\<And>x y. ok x \<Longrightarrow> ok y \<Longrightarrow> le x y \<Longrightarrow> le y x \<Longrightarrow> x = y"
    and "ok x"
  shows "\<exists>x'. (\<forall>c. foldl f (x, c) as = (x', c \<or> x' \<noteq> x)) \<and> ok x' \<and> le x x' \<and>
    (x' = x \<longrightarrow> (\<forall>a \<in> set as. \<forall>c. f (x, c) a = (x, c)))"
  using step \<open>ok x\<close>
proof (induction as arbitrary: x)
  case Nil
  then show ?case by (simp add: refl)
next
  case (Cons a as)
  obtain y where y: "\<And>c. f (x, c) a = (y, c \<or> y \<noteq> x)" "ok y" "le x y"
    using Cons.prems(1) [OF Cons.prems(2), of a] by auto
  have "\<exists>x'. (\<forall>c. f (x, c) a = (x', c \<or> x' \<noteq> x)) \<and> ok x' \<and> le x x'" if "ok x" "a \<in> set as" for x a
    using Cons.prems(1) that by simp
  from Cons.IH [OF this y(2)]
  obtain z where z: "\<And>c. foldl f (y, c) as = (z, c \<or> z \<noteq> y)" "ok z" "le y z"
      "z = y \<longrightarrow> (\<forall>a \<in> set as. \<forall>c. f (y, c) a = (y, c))"
    by blast
  have same: "y = x \<and> z = y" if "z = x"
    using antisym [OF Cons.prems(2) y(2) y(3)] z(3) that by blast
  have le: "le x z" by (rule trans [OF y(3) z(3)])
  have fold: "foldl f (x, c) (a # as) = (z, c \<or> z \<noteq> x)" for c
    unfolding foldl.simps y(1) z(1) using same by blast
  have still: "z = x \<longrightarrow> (\<forall>a' \<in> set (a # as). \<forall>c. f (x, c) a' = (x, c))"
  proof
    assume "z = x"
    with same have "y = x" "z = y" by blast+
    then show "\<forall>a' \<in> set (a # as). \<forall>c. f (x, c) a' = (x, c)"
      using y(1) z(4) by simp
  qed
  show ?case
    using fold z(2) le still by blast
qed

definition live_wf :: "ir_function \<Rightarrow> ir_liveness \<Rightarrow> bool" where
  "live_wf func live \<longleftrightarrow>
     length (live_in live) = block_count func \<and> length (live_out live) = block_count func \<and>
     (\<forall>b < block_count func. bitset_wf (vreg_count func) (live_in live ! b) \<and>
        bitset_wf (vreg_count func) (live_out live ! b))"

abbreviation In :: "ir_liveness \<Rightarrow> nat \<Rightarrow> nat set" where
  "In live b \<equiv> bitset_elems (live_in live ! b)"

abbreviation Out :: "ir_liveness \<Rightarrow> nat \<Rightarrow> nat set" where
  "Out live b \<equiv> bitset_elems (live_out live ! b)"

text \<open>The sets never hold a register that is not live.\<close>

definition live_ok :: "ir_function \<Rightarrow> ir_liveness \<Rightarrow> bool" where
  "live_ok func live \<longleftrightarrow> live_wf func live \<and>
     (\<forall>b < block_count func. In live b \<subseteq> {v. live_at func b 0 v} \<and> Out live b \<subseteq> live_after func b)"

definition live_le :: "ir_function \<Rightarrow> ir_liveness \<Rightarrow> ir_liveness \<Rightarrow> bool" where
  "live_le func l l' \<longleftrightarrow> (\<forall>b < block_count func. In l b \<subseteq> In l' b \<and> Out l b \<subseteq> Out l' b)"

lemma live_le_refl: "live_le func l l"
  by (simp add: live_le_def)

lemma live_le_trans: "live_le func l m \<Longrightarrow> live_le func m k \<Longrightarrow> live_le func l k"
  unfolding live_le_def by blast

lemma live_le_antisym:
  assumes "live_wf func l" and "live_wf func m" and "live_le func l m" and "live_le func m l"
  shows "l = m"
proof -
  have "live_in l = live_in m" and "live_out l = live_out m"
    using assms by (auto intro!: nth_equalityI bitset_elems_inject simp: live_wf_def live_le_def bitset_wf_def)
  then show ?thesis by (simp add: ir_liveness.equality)
qed

lemma live_ok_antisym:
  "live_ok func l \<Longrightarrow> live_ok func m \<Longrightarrow> live_le func l m \<Longrightarrow> live_le func m l \<Longrightarrow> l = m"
  using live_le_antisym by (auto simp: live_ok_def)

text \<open>Merging a set into one of the sets of a block.\<close>

lemma union_into_changed:
  assumes "bitset_wf n d" and "bitset_wf n s" and "ir_bitset_union_into d s = (d', grew)"
  shows "bitset_wf n d' \<and> bitset_elems d' = bitset_elems d \<union> bitset_elems s \<and> grew = (d' \<noteq> d)"
proof -
  have l: "length s = length d" using assms(1,2) by (simp add: bitset_wf_def)
  show ?thesis
    using bits.wf_union [OF assms(1,2)] bits.elems_union [OF assms(1,2)] assms(3)
    by (auto simp: ir_bitset_union_into_eq [OF l])
qed

lemma merge_out:
  assumes "live_ok func l" and "b < block_count func" and "bitset_wf (vreg_count func) s"
    and "bitset_elems s \<subseteq> live_after func b"
    and "ir_bitset_union_into (live_out l ! b) s = (d', grew)"
    and "l' = l\<lparr>live_out := (live_out l)[b := d']\<rparr>"
  shows "grew = (l' \<noteq> l) \<and> live_ok func l' \<and> live_le func l l' \<and>
    (l' = l \<longrightarrow> bitset_elems s \<subseteq> Out l b)"
proof -
  have b: "b < length (live_out l)" using assms(1,2) by (simp add: live_ok_def live_wf_def)
  have "bitset_wf (vreg_count func) (live_out l ! b)"
    using assms(1,2) by (simp add: live_ok_def live_wf_def)
  from union_into_changed [OF this assms(3,5)]
  have d: "bitset_wf (vreg_count func) d'" "bitset_elems d' = Out l b \<union> bitset_elems s"
    "grew = (d' \<noteq> live_out l ! b)" by simp_all
  have out: "live_out l' ! b = d'" "\<And>c. c \<noteq> b \<Longrightarrow> live_out l' ! c = live_out l ! c" "live_in l' = live_in l"
    using b by (simp_all add: assms(6))
  have changed: "grew = (l' \<noteq> l)"
    using d(3) out(1) list_update_id [of "live_out l" b] by (auto simp: assms(6) dest: arg_cong [of _ _ live_out])
  have wf: "live_wf func l'"
    using assms(1,2) d(1) b unfolding live_ok_def live_wf_def
    by (auto simp: assms(6) nth_list_update)
  have ok: "live_ok func l'"
    using assms(1,4) wf d(2) out unfolding live_ok_def by (metis Un_subset_iff)
  have le: "live_le func l l'"
    unfolding live_le_def using d(2) out by (metis Un_upper1 order_refl)
  show ?thesis using changed ok le d(2) out(1) by (metis Un_upper2)
qed

lemma merge_in:
  assumes "live_ok func l" and "b < block_count func" and "bitset_wf (vreg_count func) s"
    and "bitset_elems s \<subseteq> {v. live_at func b 0 v}"
    and "ir_bitset_union_into (live_in l ! b) s = (d', grew)"
    and "l' = l\<lparr>live_in := (live_in l)[b := d']\<rparr>"
  shows "grew = (l' \<noteq> l) \<and> live_ok func l' \<and> live_le func l l' \<and>
    (l' = l \<longrightarrow> bitset_elems s \<subseteq> In l b)"
proof -
  have b: "b < length (live_in l)" using assms(1,2) by (simp add: live_ok_def live_wf_def)
  have "bitset_wf (vreg_count func) (live_in l ! b)"
    using assms(1,2) by (simp add: live_ok_def live_wf_def)
  from union_into_changed [OF this assms(3,5)]
  have d: "bitset_wf (vreg_count func) d'" "bitset_elems d' = In l b \<union> bitset_elems s"
    "grew = (d' \<noteq> live_in l ! b)" by simp_all
  have out: "live_in l' ! b = d'" "\<And>c. c \<noteq> b \<Longrightarrow> live_in l' ! c = live_in l ! c" "live_out l' = live_out l"
    using b by (simp_all add: assms(6))
  have changed: "grew = (l' \<noteq> l)"
    using d(3) out(1) list_update_id [of "live_in l" b] by (auto simp: assms(6) dest: arg_cong [of _ _ live_in])
  have wf: "live_wf func l'"
    using assms(1,2) d(1) b unfolding live_ok_def live_wf_def
    by (auto simp: assms(6) nth_list_update)
  have ok: "live_ok func l'"
    using assms(1,4) wf d(2) out unfolding live_ok_def by (metis Un_subset_iff)
  have le: "live_le func l l'"
    unfolding live_le_def using d(2) out by (metis Un_upper1 order_refl)
  show ?thesis using changed ok le d(2) out(1) by (metis Un_upper2)
qed

section \<open>A pass\<close>

lemma live_growing_fold:
  assumes step: "\<And>x a. live_ok func x \<Longrightarrow> a \<in> set as \<Longrightarrow>
      \<exists>x'. (\<forall>c. f (x, c) a = (x', c \<or> x' \<noteq> x)) \<and> live_ok func x' \<and> live_le func x x'"
    and "live_ok func x"
  shows "\<exists>x'. (\<forall>c. foldl f (x, c) as = (x', c \<or> x' \<noteq> x)) \<and> live_ok func x' \<and> live_le func x x' \<and>
    (x' = x \<longrightarrow> (\<forall>a \<in> set as. \<forall>c. f (x, c) a = (x, c)))"
proof (rule growing_fold [where ok = "live_ok func"])
  show "live_le func x z" if "live_le func x y" "live_le func y z" for x y z
    using live_le_trans that .
  show "x = y" if "live_ok func x" "live_ok func y" "live_le func x y" "live_le func y x" for x y
    using live_ok_antisym that .
qed (use assms live_le_refl in blast)+

lemma succ_in_range:
  assumes "ir_wf func" and "b < block_count func" and "Some t \<in> set (ir_block_successors (block_at func b))"
  shows "successor_index func t \<in> successors func b" and "successor_index func t < block_count func"
  using assms by (auto simp: ir_wf_def successors_def)

lemma live_succ_step:
  assumes wf: "ir_wf func" and b: "b < block_count func" and ok: "live_ok func l"
    and a: "a \<in> set (ir_block_successors (block_at func b))"
  shows "\<exists>l'. (\<forall>c. live_succ func b (l, c) a = (l', c \<or> l' \<noteq> l)) \<and> live_ok func l' \<and> live_le func l l' \<and>
    (l' = l \<longrightarrow> (\<forall>t. a = Some t \<longrightarrow> In l (successor_index func t) \<subseteq> Out l b))"
proof (cases a)
  case None
  then show ?thesis using ok by (auto simp: live_succ_def live_le_refl)
next
  case (Some t)
  let ?s = "successor_index func t"
  have s: "?s \<in> successors func b" "?s < block_count func"
    using succ_in_range [OF wf b] a Some by simp_all
  have w: "bitset_wf (vreg_count func) (live_in l ! ?s)"
    using ok s(2) by (simp add: live_ok_def live_wf_def)
  have sub: "In l ?s \<subseteq> live_after func b"
    using ok s by (auto simp: live_ok_def live_after_def)
  obtain d' grew where u: "ir_bitset_union_into (live_out l ! b) (live_in l ! ?s) = (d', grew)"
    by fastforce
  let ?l = "l\<lparr>live_out := (live_out l)[b := d']\<rparr>"
  note m = merge_out [OF ok b w sub u refl]
  have "live_succ func b (l, c) a = (?l, c \<or> ?l \<noteq> l)" for c
    using m Some u by (simp add: live_succ_def)
  then show ?thesis
    using m Some by blast
qed

lemma live_block_step:
  assumes wf: "ir_wf func" and b: "b < block_count func" and ok: "live_ok func l"
  shows "\<exists>l'. (\<forall>c. live_block func (l, c) b = (l', c \<or> l' \<noteq> l)) \<and> live_ok func l' \<and> live_le func l l' \<and>
    (l' = l \<longrightarrow> (\<forall>s \<in> successors func b. In l s \<subseteq> Out l b) \<and>
                block_use func b \<union> (Out l b - block_def func b) \<subseteq> In l b)"
proof -
  let ?ss = "ir_block_successors (block_at func b)"
  have "\<exists>x'. (\<forall>c. live_succ func b (x, c) a = (x', c \<or> x' \<noteq> x)) \<and> live_ok func x' \<and> live_le func x x'"
    if "live_ok func x" "a \<in> set ?ss" for x a
    using live_succ_step [OF wf b that] by blast
  note fold = live_growing_fold [of func ?ss "live_succ func b", OF this ok]
  obtain m where m: "\<And>c. foldl (live_succ func b) (l, c) ?ss = (m, c \<or> m \<noteq> l)" "live_ok func m"
      "live_le func l m" "m = l \<longrightarrow> (\<forall>a \<in> set ?ss. \<forall>c. live_succ func b (l, c) a = (l, c))"
    using fold by blast
  obtain u d where ud: "block_uses_defs func b = (u, d)" by fastforce
  note bu = block_uses_defs_correct [OF wf b ud]
  have out: "bitset_wf (vreg_count func) (live_out m ! b)" "Out m b \<subseteq> live_after func b"
    using m(2) b by (simp_all add: live_ok_def live_wf_def)
  let ?t = "ir_bitset_transfer (ir_bitset_new (vreg_count func)) u (live_out m ! b) d"
  have t: "bitset_wf (vreg_count func) ?t" "bitset_elems ?t = block_use func b \<union> (Out m b - block_def func b)"
    using bu out(1) bits.wf_transfer [OF bits.wf_empty, of "vreg_count func" u "live_out m ! b" d]
      bits.elems_transfer [OF bits.wf_empty, of "vreg_count func" u "live_out m ! b" d] by simp_all
  have sub: "bitset_elems ?t \<subseteq> {v. live_at func b 0 v}"
    using out(2) by (auto simp: t(2) live_at_start)
  obtain d' grew where un: "ir_bitset_union_into (live_in m ! b) ?t = (d', grew)" by fastforce
  let ?l = "m\<lparr>live_in := (live_in m)[b := d']\<rparr>"
  note i = merge_in [OF m(2) b t(1) sub un refl]
  have le: "live_le func l ?l" using live_le_trans m(3) i by blast
  have same: "m = l" if "?l = l"
    using live_ok_antisym [OF ok m(2) m(3)] i that by metis
  have 1: "live_block func (l, c) b = (?l, c \<or> ?l \<noteq> l)" for c
  proof -
    have "live_block func (l, c) b = (?l, (c \<or> m \<noteq> l) \<or> grew)"
      by (simp add: live_block_def m(1) ud un)
    then show ?thesis using i same by auto
  qed
  have 2: "(\<forall>s \<in> successors func b. In l s \<subseteq> Out l b) \<and>
      block_use func b \<union> (Out l b - block_def func b) \<subseteq> In l b" if "?l = l"
  proof
    have ml: "m = l" using same that .
    show "\<forall>s \<in> successors func b. In l s \<subseteq> Out l b"
    proof
      fix s assume "s \<in> successors func b"
      then obtain t where t: "s = successor_index func t" "Some t \<in> set ?ss"
        by (auto simp: successors_def)
      show "In l s \<subseteq> Out l b"
        using live_succ_step [OF wf b ok t(2)] m(4) ml t by auto
    qed
    show "block_use func b \<union> (Out l b - block_def func b) \<subseteq> In l b"
      using i t(2) ml that by auto
  qed
  show ?thesis
    using 1 i le 2 by blast
qed

definition live_solution :: "ir_function \<Rightarrow> ir_liveness \<Rightarrow> bool" where
  "live_solution func l \<longleftrightarrow> (\<forall>b < block_count func. (\<forall>s \<in> successors func b. In l s \<subseteq> Out l b) \<and>
     block_use func b \<union> (Out l b - block_def func b) \<subseteq> In l b)"

lemma live_pass_step:
  assumes wf: "ir_wf func" and ok: "live_ok func l" and p: "live_pass func l = (l', changed)"
  shows "changed = (l' \<noteq> l) \<and> live_ok func l' \<and> live_le func l l' \<and> (l' = l \<longrightarrow> live_solution func l)"
proof -
  let ?bs = "rev [0..<block_count func]"
  have "\<exists>x'. (\<forall>c. live_block func (x, c) b = (x', c \<or> x' \<noteq> x)) \<and> live_ok func x' \<and> live_le func x x'"
    if "live_ok func x" "b \<in> set ?bs" for x b
    using live_block_step [OF wf _ that(1), of b] that(2) by auto
  note fold = live_growing_fold [of func ?bs "live_block func", OF this ok]
  obtain m where m: "\<And>c. foldl (live_block func) (l, c) ?bs = (m, c \<or> m \<noteq> l)" "live_ok func m"
      "live_le func l m" "m = l \<longrightarrow> (\<forall>b \<in> set ?bs. \<forall>c. live_block func (l, c) b = (l, c))"
    using fold by blast
  have "l' = m" "changed = (m \<noteq> l)" using p m(1) by (auto simp: live_pass_def)
  moreover have "live_solution func l" if "m = l"
    unfolding live_solution_def
  proof (intro allI impI)
    fix b assume b: "b < block_count func"
    then have "live_block func (l, c) b = (l, c)" for c using m(4) that by simp
    then show "(\<forall>s \<in> successors func b. In l s \<subseteq> Out l b) \<and>
        block_use func b \<union> (Out l b - block_def func b) \<subseteq> In l b"
      using live_block_step [OF wf b ok] by auto
  qed
  ultimately show ?thesis using m(2,3) by simp
qed

section \<open>The loop\<close>

text \<open>Every pass but the last makes a set larger, and the sets have room for so many registers.\<close>

definition live_room :: "ir_function \<Rightarrow> nat" where
  "live_room func = 64 * (if (vreg_count func + 63) div 64 = 0 then 1 else (vreg_count func + 63) div 64)"

definition live_size :: "ir_function \<Rightarrow> ir_liveness \<Rightarrow> nat" where
  "live_size func l = (\<Sum>b < block_count func. card (In l b) + card (Out l b))"

lemma card_bitset:
  assumes "bitset_wf (vreg_count func) s"
  shows "card (bitset_elems s) \<le> live_room func"
proof -
  have len: "64 * length s = live_room func"
    using assms by (simp add: live_room_def bitset_wf_def)
  have "bitset_elems s \<subseteq> {..<64 * length s}"
    by (auto simp: bitset_elems_def)
  then have "card (bitset_elems s) \<le> card {..<64 * length s}"
    by (rule card_mono [OF finite_lessThan])
  then show ?thesis using len by simp
qed

lemma live_size_bound:
  assumes "live_wf func l"
  shows "live_size func l \<le> block_count func * (2 * live_room func)"
proof -
  have "card (In l b) + card (Out l b) \<le> 2 * live_room func" if "b < block_count func" for b
    using assms that card_bitset [of func "live_in l ! b"] card_bitset [of func "live_out l ! b"]
    by (auto simp: live_wf_def)
  then have "live_size func l \<le> (\<Sum>b < block_count func. 2 * live_room func)"
    unfolding live_size_def by (intro sum_mono) simp
  then show ?thesis by simp
qed

lemma live_size_grows:
  assumes "live_wf func l" and "live_wf func m" and "live_le func l m" and "l \<noteq> m"
  shows "live_size func l < live_size func m"
proof -
  have "\<not> live_le func m l" using live_le_antisym [OF assms(1-3)] assms(4) by blast
  then obtain b where b: "b < block_count func" "\<not> (In m b \<subseteq> In l b \<and> Out m b \<subseteq> Out l b)"
    unfolding live_le_def by blast
  have le: "card (In l c) \<le> card (In m c)" "card (Out l c) \<le> card (Out m c)" if "c < block_count func" for c
    using assms(3) that by (auto simp: live_le_def intro!: card_mono finite_bitset_elems)
  have "In l b \<subset> In m b \<or> Out l b \<subset> Out m b"
    using assms(3) b unfolding live_le_def by blast
  then have "card (In l b) < card (In m b) \<or> card (Out l b) < card (Out m b)"
    using psubset_card_mono [OF finite_bitset_elems] by blast
  then have "card (In l b) + card (Out l b) < card (In m b) + card (Out m b)"
    using le [OF b(1)] by linarith
  then show ?thesis
    unfolding live_size_def using b(1) le
    by (intro sum_strict_mono_ex1) (auto intro: add_mono)
qed

lemma live_start_ok: "live_ok func (live_start func)"
  using bits.wf_empty [of "vreg_count func"] bits.elems_empty [of "vreg_count func"]
  by (simp add: live_ok_def live_wf_def live_start_def)

lemma ir_compute_liveness_stops:
  assumes wf: "ir_wf func"
  obtains l where "ir_compute_liveness func = Some l" and "live_ok func l" and "live_solution func l"
proof -
  let ?P = "\<lambda>(l, changed). live_ok func l \<and> (\<not> changed \<longrightarrow> live_solution func l)"
  let ?M = "\<lambda>(l, changed). if changed then Suc (block_count func * (2 * live_room func) - live_size func l) else 0"
  have step: "?P (live_pass func l) \<and> ?M (live_pass func l) < ?M (l, True)" if ok: "live_ok func l" for l
  proof -
    obtain m changed where p: "live_pass func l = (m, changed)" by fastforce
    note st = live_pass_step [OF wf ok p]
    have "live_size func l < live_size func m" if "changed"
      using st ok that live_size_grows by (auto simp: live_ok_def)
    moreover have "live_size func m \<le> block_count func * (2 * live_room func)"
      using st live_size_bound by (auto simp: live_ok_def)
    ultimately show ?thesis using st p by auto
  qed
  have step: "?P (case s of (l, changed) \<Rightarrow> live_pass func l) \<and>
      ?M (case s of (l, changed) \<Rightarrow> live_pass func l) < ?M s"
    if "?P s" "case s of (l, changed) \<Rightarrow> changed" for s
    using step [of "fst s"] that by (cases s) simp
  have start: "?P (live_start func, True)" using live_start_ok by simp
  have "\<exists>t. while_option (\<lambda>(l, changed). changed) (\<lambda>(l, changed). live_pass func l) (live_start func, True) = Some t"
    by (rule measure_while_option_Some [where P = ?P and f = ?M, OF step start])
  then obtain l changed where t: "while_option (\<lambda>(l, changed). changed) (\<lambda>(l, changed). live_pass func l)
      (live_start func, True) = Some (l, changed)" by auto
  have "\<not> changed" using while_option_stop [OF t] by simp
  moreover have "?P (l, changed)"
    by (rule while_option_rule [where P = ?P, OF conjunct1 [OF step] t start])
  ultimately show thesis using that t by (simp add: ir_compute_liveness_def)
qed

lemma live_solution_complete:
  assumes wf: "ir_wf func" and sol: "live_solution func l" and "live_at func b i v" and "b < block_count func"
    and "i \<le> length (insts_of func b)"
  shows "v \<in> exposed (drop i (insts_of func b)) (term_uses (b_term (block_at func b)) \<union> Out l b)"
  using assms(3-5)
proof (induction rule: live_at.induct)
  case (used_after s b v)
  have s: "s < block_count func" using wf used_after by (auto simp: ir_wf_def)
  then have "v \<in> block_use func s \<union> (Out l s - block_def func s)"
    using used_after.IH by (simp add: exposed_split block_use_def block_def_def)
  then have "v \<in> In l s" using sol s by (auto simp: live_solution_def)
  then have "v \<in> Out l b" using sol used_after.hyps(1) used_after.prems(1) unfolding live_solution_def by blast
  then show ?case by simp
qed (auto simp: Cons_nth_drop_Suc [symmetric])

lemma liveness_sets:
  assumes "ir_wf func" and ok: "live_ok func l" and sol: "live_solution func l"
  shows "\<forall>b < block_count func. In l b = {v. live_at func b 0 v} \<and> Out l b = live_after func b"
proof -
  have complete: "{v. live_at func b 0 v} \<subseteq> In l b" if b: "b < block_count func" for b
  proof
    fix v assume "v \<in> {v. live_at func b 0 v}"
    then have "v \<in> block_use func b \<union> (Out l b - block_def func b)"
      using live_solution_complete [OF assms(1) sol _ b, of 0 v] by (simp add: exposed_split block_use_def block_def_def)
    then show "v \<in> In l b" using sol b by (auto simp: live_solution_def)
  qed
  have "live_after func b \<subseteq> Out l b" if b: "b < block_count func" for b
    using complete sol b assms(1) unfolding live_solution_def live_after_def ir_wf_def by blast
  then show ?thesis
    using ok complete by (auto simp: live_ok_def)
qed


section \<open>A concrete function\<close>

text \<open>\<^verbatim>\<open>while (v1 < v0) v1 = v1 + v0; return v1\<close>, in four blocks.\<close>

definition example_inst :: "ir_op \<Rightarrow> ir_type \<Rightarrow> int \<Rightarrow> int \<Rightarrow> int \<Rightarrow> ir_inst" where
  "example_inst op type dst a b =
     \<lparr>i_op = op, i_type = type, i_cmp = (if op = IR_ICMP then IR_CMP_SLT else IR_CMP_NONE),
      i_dst = dst, i_a = a, i_b = b,
      i_addr = \<lparr>addr_kind = IR_ADDR_NONE, addr_base = 0, addr_offset = 0\<rparr>,
      i_imm = 0, i_imm2 = 0, i_fimm = 0,
      i_call = \<lparr>callee_kind = IR_CALLEE_DIRECT, callee = 0, call_return_type = IR_VOID,
                call_args = [], arg_is_vararg = []\<rparr>,
      i_line = 0, i_scope = 0\<rparr>"

definition example_block :: "nat \<Rightarrow> ir_inst list \<Rightarrow> ir_term \<Rightarrow> ir_block" where
  "example_block n insts term =
     \<lparr>b_id = n, b_index = n, b_name = None, b_is_placed = True, b_insts = insts, b_term = term, b_preds = []\<rparr>"

definition example_jmp :: "nat \<Rightarrow> ir_term" where
  "example_jmp t = \<lparr>t_kind = IR_TERM_JMP, t_cond = IR_NO_VREG, t_value = IR_NO_VREG,
                    t_target = Some t, t_else_target = None\<rparr>"

definition example_br :: "int \<Rightarrow> nat \<Rightarrow> nat \<Rightarrow> ir_term" where
  "example_br c t e = \<lparr>t_kind = IR_TERM_BR, t_cond = c, t_value = IR_NO_VREG,
                       t_target = Some t, t_else_target = Some e\<rparr>"

definition example_ret :: "int \<Rightarrow> ir_term" where
  "example_ret v = \<lparr>t_kind = IR_TERM_RET, t_cond = IR_NO_VREG, t_value = v,
                    t_target = None, t_else_target = None\<rparr>"

definition example_function :: "ir_type list \<Rightarrow> int list \<Rightarrow> ir_block list \<Rightarrow> ir_function" where
  "example_function types params blocks =
     \<lparr>f_name = ''f'', f_global = 0, f_is_entry_point = False, f_return_type = IR_I64,
      f_vreg_types = types, f_params = params, f_slots = [],
      f_layout = [0..<length blocks], f_made = blocks\<rparr>"

definition loop_example :: ir_function where
  "loop_example = example_function [IR_I64, IR_I64, IR_I8] [0]
     [example_block 0 [example_inst IR_CONST IR_I64 1 IR_NO_VREG IR_NO_VREG] (example_jmp 1),
      example_block 1 [example_inst IR_ICMP IR_I64 2 1 0] (example_br 2 2 3),
      example_block 2 [example_inst IR_ADD IR_I64 1 1 0] (example_jmp 1),
      example_block 3 [] (example_ret 1)]"

lemmas example_defs = example_inst_def example_block_def example_jmp_def example_br_def example_ret_def
  example_function_def

text \<open>\<open>ir_wf\<close> over lists, to evaluate it.\<close>

definition ir_wf_check :: "ir_function \<Rightarrow> bool" where
  "ir_wf_check func \<longleftrightarrow>
     list_all (\<lambda>b.
        list_all (\<lambda>inst. list_all (vreg_ok func) (ir_inst_uses inst) \<and>
           (i_dst inst \<noteq> IR_NO_VREG \<longrightarrow> vreg_ok func (i_dst inst))) (insts_of func b) \<and>
        list_all (vreg_ok func) (ir_term_uses (b_term (block_at func b))) \<and>
        list_all (\<lambda>succ. case succ of None \<Rightarrow> True | Some t \<Rightarrow> successor_index func t < block_count func)
          (ir_block_successors (block_at func b)))
       [0..<block_count func] \<and>
     list_all (vreg_ok func) (f_params func)"

lemma ir_wf_checked: "ir_wf func \<longleftrightarrow> ir_wf_check func"
proof -
  have "successors func b \<subseteq> {..<block_count func} \<longleftrightarrow>
      (\<forall>succ \<in> set (ir_block_successors (block_at func b)).
         case succ of None \<Rightarrow> True | Some t \<Rightarrow> successor_index func t < block_count func)" for b
    by (auto simp: successors_def split: option.splits)
  then show ?thesis
    by (simp add: ir_wf_def ir_wf_check_def list_all_iff Ball_def)
qed

lemma loop_example_wf: "ir_wf loop_example"
  unfolding ir_wf_checked by code_simp


end
