(* ===== verification/Finalize.thy ===== *)
theory Finalize
  imports Liveness
begin

text \<open>
  \<^verbatim>\<open>ir_function_finalize\<close> of \<^verbatim>\<open>src/src/ir.c\<close>: it marks the blocks that can be reached from the
  entry with a stack, drops the others from the layout, numbers the blocks that stay, and computes
  their predecessors. The array \<^verbatim>\<open>reachable\<close> is a list of flags by block number, and a store to
  a field of a block is an update of \<open>f_made\<close>.
\<close>

section \<open>The code\<close>

definition mark_succ :: "nat list \<times> bool list \<Rightarrow> nat option \<Rightarrow> nat list \<times> bool list" where
  "mark_succ = (\<lambda>(stack, reachable) succ.
     case succ of None \<Rightarrow> (stack, reachable)
     | Some s \<Rightarrow> if \<not> reachable ! s then (stack @ [s], reachable[s := True]) else (stack, reachable))"

definition mark_step :: "ir_function \<Rightarrow> nat list \<times> bool list \<Rightarrow> nat list \<times> bool list" where
  "mark_step func = (\<lambda>(stack, reachable).
     foldl mark_succ (butlast stack, reachable) (ir_block_successors (f_made func ! last stack)))"

definition mark_reachable :: "ir_function \<Rightarrow> bool list option" where
  "mark_reachable func =
     (let entry = hd (f_layout func)
      in map_option snd
           (while_option (\<lambda>(stack, reachable). stack \<noteq> []) (mark_step func)
              ([entry], (replicate (next_block_id func) False)[entry := True])))"

definition keep_block :: "bool list \<Rightarrow> ir_block list \<times> nat list \<Rightarrow> nat \<Rightarrow> ir_block list \<times> nat list" where
  "keep_block reachable = (\<lambda>(made, kept) b.
     if reachable ! b
     then (made[b := (made ! b)\<lparr>b_index := length kept, b_preds := []\<rparr>], kept @ [b])
     else (made, kept))"

definition add_pred :: "nat \<Rightarrow> ir_block list \<Rightarrow> nat option \<Rightarrow> ir_block list" where
  "add_pred b made succ =
     (case succ of None \<Rightarrow> made
      | Some s \<Rightarrow> made[s := (made ! s)\<lparr>b_preds := b_preds (made ! s) @ [b]\<rparr>])"

definition add_preds :: "ir_block list \<Rightarrow> nat \<Rightarrow> ir_block list" where
  "add_preds made b = foldl (add_pred b) made (ir_block_successors (made ! b))"

definition ir_function_finalize :: "ir_function \<Rightarrow> ir_function option" where
  "ir_function_finalize func =
     (if f_layout func = [] then Some func
      else case mark_reachable func of
        None \<Rightarrow> None
      | Some reachable \<Rightarrow>
          (let (made, kept) = foldl (keep_block reachable) (f_made func, []) (f_layout func)
           in Some (func\<lparr>f_layout := kept, f_made := foldl add_preds made kept\<rparr>)))"

section \<open>The blocks of a function\<close>

text \<open>The pointers of a function are to its blocks, and no block is in the layout twice.\<close>

definition blocks_ok :: "ir_function \<Rightarrow> bool" where
  "blocks_ok func \<longleftrightarrow>
     (\<forall>b \<in> set (f_layout func). b < next_block_id func) \<and> distinct (f_layout func) \<and>
     (\<forall>b < next_block_id func. \<forall>s. Some s \<in> set (ir_block_successors (f_made func ! b)) \<longrightarrow> s < next_block_id func)"

definition edge :: "ir_function \<Rightarrow> nat \<Rightarrow> nat \<Rightarrow> bool" where
  "edge func b s \<longleftrightarrow> Some s \<in> set (ir_block_successors (f_made func ! b))"

inductive reaches :: "ir_function \<Rightarrow> nat \<Rightarrow> bool" for func where
  entry: "f_layout func \<noteq> [] \<Longrightarrow> reaches func (hd (f_layout func))"
| successor: "reaches func b \<Longrightarrow> edge func b s \<Longrightarrow> reaches func s"

section \<open>Marking\<close>

definition marked :: "bool list \<Rightarrow> nat set" where
  "marked r = {b. b < length r \<and> r ! b}"

lemma marked_update: "s < length r \<Longrightarrow> marked (r[s := True]) = insert s (marked r)"
  by (auto simp: marked_def nth_list_update split: if_splits)

lemma marked_start: "marked (replicate n False) = {}"
  by (auto simp: marked_def)

lemma finite_marked: "finite (marked r)"
  by (simp add: marked_def)

lemma card_marked: "card (marked r) \<le> length r"
proof -
  have "marked r \<subseteq> {..<length r}" by (auto simp: marked_def)
  then show ?thesis using card_mono [OF finite_lessThan] by fastforce
qed

text \<open>Following the successors of a block: the new ones go on the stack, each once.\<close>

lemma mark_succs:
  assumes "\<And>s. Some s \<in> set succs \<Longrightarrow> s < length r"
    and "foldl mark_succ (stack, r) succs = (stack', r')"
  shows "length r' = length r \<and> marked r' = marked r \<union> {s. Some s \<in> set succs} \<and>
    set stack' = set stack \<union> (marked r' - marked r) \<and>
    length stack' + card (marked r) = length stack + card (marked r')"
  using assms
proof (induction succs arbitrary: stack r)
  case Nil
  then show ?case by simp
next
  case (Cons a succs)
  show ?case
  proof (cases a)
    case None
    then show ?thesis using Cons.IH [of r stack] Cons.prems by (simp add: mark_succ_def)
  next
    case (Some s)
    then have s: "s < length r" using Cons.prems(1) by simp
    show ?thesis
    proof (cases "r ! s")
      case True
      then have "s \<in> marked r" using s by (simp add: marked_def)
      then show ?thesis using Cons.IH [of r stack] Cons.prems Some True
        by (auto simp: mark_succ_def)
    next
      case False
      then have new: "s \<notin> marked r" by (simp add: marked_def)
      have "foldl mark_succ (stack @ [s], r[s := True]) succs = (stack', r')"
        using Cons.prems(2) Some False by (simp add: mark_succ_def)
      note IH = Cons.IH [OF _ this]
      have "length r' = length r \<and> marked r' = insert s (marked r) \<union> {s. Some s \<in> set succs} \<and>
          set stack' = set (stack @ [s]) \<union> (marked r' - insert s (marked r)) \<and>
          length stack' + card (insert s (marked r)) = length (stack @ [s]) + card (marked r')"
        using IH Cons.prems(1) by (simp add: marked_update [OF s])
      moreover have "s \<in> marked r'" using calculation by auto
      ultimately show ?thesis
        using new Some card_insert_disjoint [OF finite_marked new] by auto
    qed
  qed
qed

text \<open>The blocks on the stack are marked, the marked ones reachable, and the successors of a marked
  block that is off the stack are marked.\<close>

definition mark_inv :: "ir_function \<Rightarrow> nat list \<times> bool list \<Rightarrow> bool" where
  "mark_inv func = (\<lambda>(stack, r).
     length r = next_block_id func \<and> set stack \<subseteq> marked r \<and>
     hd (f_layout func) \<in> marked r \<and> (\<forall>b \<in> marked r. reaches func b) \<and>
     (\<forall>b \<in> marked r - set stack. \<forall>s. edge func b s \<longrightarrow> s \<in> marked r))"

definition mark_measure :: "nat list \<times> bool list \<Rightarrow> nat" where
  "mark_measure = (\<lambda>(stack, r). length stack + (length r - card (marked r)))"

lemma mark_step_inv:
  assumes ok: "blocks_ok func" and inv: "mark_inv func st" and "fst st \<noteq> []"
  shows "mark_inv func (mark_step func st) \<and> mark_measure (mark_step func st) < mark_measure st"
proof -
  obtain stack r where st: "st = (stack, r)" by fastforce
  obtain rest b where stack: "stack = rest @ [b]"
    using assms(3) st by (cases stack rule: rev_cases) auto
  have len: "length r = next_block_id func" and sub: "set stack \<subseteq> marked r"
    and ent: "hd (f_layout func) \<in> marked r" and sound: "\<And>b. b \<in> marked r \<Longrightarrow> reaches func b"
    and closed: "\<And>b s. b \<in> marked r \<Longrightarrow> b \<notin> set stack \<Longrightarrow> edge func b s \<Longrightarrow> s \<in> marked r"
    using inv unfolding st mark_inv_def prod.case by blast+
  have b: "b \<in> marked r" using sub stack by simp
  then have "b < next_block_id func" using len by (simp add: marked_def)
  let ?succs = "ir_block_successors (f_made func ! b)"
  obtain stack' r' where f: "foldl mark_succ (rest, r) ?succs = (stack', r')" by fastforce
  have "s < length r" if "Some s \<in> set ?succs" for s
    using ok \<open>b < next_block_id func\<close> len that unfolding blocks_ok_def by metis
  from mark_succs [OF this f]
  have m: "length r' = length r" "marked r' = marked r \<union> {s. edge func b s}"
    "set stack' = set rest \<union> (marked r' - marked r)"
    "length stack' + card (marked r) = length rest + card (marked r')"
    by (simp_all add: edge_def)
  have step: "mark_step func st = (stack', r')"
    by (simp add: mark_step_def st stack f)
  have "mark_inv func (stack', r')"
    unfolding mark_inv_def prod.case
  proof (intro conjI ballI allI impI)
    show "length r' = next_block_id func" "set stack' \<subseteq> marked r'" "hd (f_layout func) \<in> marked r'"
      using len sub ent m stack by auto
    show "reaches func c" if "c \<in> marked r'" for c
      using that m(2) sound reaches.successor [OF sound [OF b]] by blast
    show "s \<in> marked r'" if c: "c \<in> marked r' - set stack'" "edge func c s" for c s
    proof (cases "c = b")
      case True
      then show ?thesis using m(2) c(2) by simp
    next
      case False
      then have "c \<in> marked r" "c \<notin> set stack" using m(3) c(1) stack by auto
      then show ?thesis using closed c(2) m(2) by blast
    qed
  qed
  moreover have "mark_measure (stack', r') < mark_measure st"
    using m(1,4) stack st card_marked [of r'] card_marked [of r] by (simp add: mark_measure_def)
  ultimately show ?thesis using step by simp
qed

lemma mark_reachable_correct:
  assumes ok: "blocks_ok func" and "f_layout func \<noteq> []"
  obtains r where "mark_reachable func = Some r" and "length r = next_block_id func"
    and "\<And>b. b \<in> marked r \<longleftrightarrow> reaches func b"
proof -
  let ?n = "next_block_id func" and ?e = "hd (f_layout func)"
  let ?s = "([?e], (replicate ?n False)[?e := True])"
  have e: "?e < ?n" using assms by (auto simp: blocks_ok_def)
  have start: "mark_inv func ?s"
    using assms(2) e by (auto simp: mark_inv_def marked_update marked_start intro: reaches.entry)
  have step: "mark_inv func (mark_step func s) \<and> mark_measure (mark_step func s) < mark_measure s"
    if "mark_inv func s" "case s of (stack, reachable) \<Rightarrow> stack \<noteq> []" for s
    using mark_step_inv [OF ok that(1)] that(2) by (cases s) simp
  have "\<exists>t. while_option (\<lambda>(stack, reachable). stack \<noteq> []) (mark_step func) ?s = Some t"
    by (rule measure_while_option_Some [where P = "mark_inv func" and f = mark_measure, OF step start])
  then obtain t where t: "while_option (\<lambda>(stack, reachable). stack \<noteq> []) (mark_step func) ?s = Some t" ..
  obtain r where r: "t = ([], r)"
    using while_option_stop [OF t] by (cases t) auto
  have inv: "mark_inv func t"
    by (rule while_option_rule [where P = "mark_inv func", OF conjunct1 [OF step] t start])
  have len: "length r = next_block_id func" and ent: "?e \<in> marked r"
    and sound: "\<And>b. b \<in> marked r \<Longrightarrow> reaches func b"
    and closed: "\<And>b s. b \<in> marked r \<Longrightarrow> edge func b s \<Longrightarrow> s \<in> marked r"
    using inv unfolding r mark_inv_def prod.case by (blast, blast, blast, auto)
  have "b \<in> marked r" if "reaches func b" for b
    using that by induction (use ent closed in blast)+
  then have "b \<in> marked r \<longleftrightarrow> reaches func b" for b
    using sound by blast
  moreover have "mark_reachable func = Some r"
    using t r by (simp add: mark_reachable_def Let_def)
  ultimately show thesis using that len by blast
qed

section \<open>Numbering and predecessors\<close>

lemma keep_blocks:
  assumes "distinct bs" and "\<And>b. b \<in> set bs \<Longrightarrow> b < length made"
    and "foldl (keep_block r) (made, kept) bs = (made', kept')"
  shows "kept' = kept @ filter ((!) r) bs \<and> length made' = length made \<and>
    (\<forall>t. t \<notin> set (filter ((!) r) bs) \<longrightarrow> made' ! t = made ! t) \<and>
    (\<forall>k < length (filter ((!) r) bs). made' ! (filter ((!) r) bs ! k) =
        (made ! (filter ((!) r) bs ! k))\<lparr>b_index := length kept + k, b_preds := []\<rparr>)"
  using assms
proof (induction bs arbitrary: made kept)
  case Nil
  then show ?case by simp
next
  case (Cons b bs)
  show ?case
  proof (cases "r ! b")
    case False
    then have "foldl (keep_block r) (made, kept) bs = (made', kept')"
      using Cons.prems(3) by (simp add: keep_block_def)
    from Cons.IH [OF _ _ this] Cons.prems False show ?thesis by simp
  next
    case True
    let ?m = "made[b := (made ! b)\<lparr>b_index := length kept, b_preds := []\<rparr>]"
    have "foldl (keep_block r) (?m, kept @ [b]) bs = (made', kept')"
      using Cons.prems(3) True by (simp add: keep_block_def)
    from Cons.IH [OF _ _ this] Cons.prems
    have IH: "kept' = kept @ b # filter ((!) r) bs" "length made' = length made"
      "\<And>t. t \<notin> set (filter ((!) r) bs) \<Longrightarrow> made' ! t = ?m ! t"
      "\<And>k. k < length (filter ((!) r) bs) \<Longrightarrow> made' ! (filter ((!) r) bs ! k) =
        (?m ! (filter ((!) r) bs ! k))\<lparr>b_index := length (kept @ [b]) + k, b_preds := []\<rparr>"
      by simp_all
    have b: "b \<notin> set (filter ((!) r) bs)" "b < length made" using Cons.prems by auto
    have "made' ! ((b # filter ((!) r) bs) ! k) =
        (made ! ((b # filter ((!) r) bs) ! k))\<lparr>b_index := length kept + k, b_preds := []\<rparr>"
      if "k < length (b # filter ((!) r) bs)" for k
    proof (cases k)
      case 0
      then show ?thesis using IH(3) [OF b(1)] b(2) by simp
    next
      case (Suc j)
      then have j: "j < length (filter ((!) r) bs)" using that by simp
      then have "filter ((!) r) bs ! j \<noteq> b" using b(1) nth_mem by metis
      then show ?thesis using IH(4) [OF j] Suc by simp
    qed
    then show ?thesis using IH(1-3) True by auto
  qed
qed

lemma add_pred_succs:
  assumes "t < length made"
  shows "length (foldl (add_pred b) made succs) = length made \<and>
    foldl (add_pred b) made succs ! t =
      (made ! t)\<lparr>b_preds := b_preds (made ! t) @ replicate (count_list succs (Some t)) b\<rparr>"
  using assms
proof (induction succs arbitrary: made)
  case (Cons a succs)
  have "t < length (add_pred b made a)"
    using Cons.prems by (simp add: add_pred_def split: option.splits)
  from Cons.IH [OF this] show ?case
    using Cons.prems by (auto simp: add_pred_def nth_list_update replicate_app_Cons_same split: option.splits)
qed simp

lemma add_preds_all:
  assumes "t < length made" and "\<And>b. b \<in> set bs \<Longrightarrow> b < length made"
  shows "length (foldl add_preds made bs) = length made \<and>
    foldl add_preds made bs ! t = (made ! t)\<lparr>b_preds := b_preds (made ! t) @
      concat (map (\<lambda>b. replicate (count_list (ir_block_successors (made ! b)) (Some t)) b) bs)\<rparr>"
  using assms
proof (induction bs arbitrary: made)
  case (Cons b bs)
  let ?m = "add_preds made b"
  have len: "length ?m = length made"
    using add_pred_succs Cons.prems(1) by (simp add: add_preds_def)
  have at: "?m ! c = (made ! c)\<lparr>b_preds := b_preds (made ! c) @
      replicate (count_list (ir_block_successors (made ! b)) (Some c)) b\<rparr>" if "c < length made" for c
    using add_pred_succs [OF that] by (simp add: add_preds_def)
  have same: "ir_block_successors (?m ! c) = ir_block_successors (made ! c)" if "c < length made" for c
    unfolding at [OF that]
    by (simp add: ir_block_successors_def ir_block_successor_count_def ir_block_successor_def fun_eq_iff)
  have eq: "map (\<lambda>c. replicate (count_list (ir_block_successors (?m ! c)) (Some t)) c) bs =
      map (\<lambda>c. replicate (count_list (ir_block_successors (made ! c)) (Some t)) c) bs"
    using same Cons.prems(2) by simp
  then show ?case
    using Cons.IH [of ?m] Cons.prems len at [OF Cons.prems(1)] unfolding eq by simp
qed simp

section \<open>The finished function\<close>

text \<open>C31: finishing a function stops; it keeps exactly the blocks that can be reached from the
  entry, in their order, numbers them from 0, lists the predecessors of each once per edge, and
  changes no instruction.\<close>

theorem finalize_correct:
  assumes ok: "blocks_ok func" and ne: "f_layout func \<noteq> []"
  shows "\<exists>func'. ir_function_finalize func = Some func' \<and>
    f_layout func' = filter (reaches func) (f_layout func) \<and>
    (\<forall>k < block_count func'. b_index (block_at func' k) = k) \<and>
    (\<forall>b \<in> set (f_layout func'). b_preds (f_made func' ! b) =
       concat (map (\<lambda>p. replicate (count_list (ir_block_successors (f_made func ! p)) (Some b)) p) (f_layout func'))) \<and>
    (\<forall>b < next_block_id func. b_insts (f_made func' ! b) = b_insts (f_made func ! b) \<and>
       b_term (f_made func' ! b) = b_term (f_made func ! b))"
proof -
  obtain r where r: "mark_reachable func = Some r" "length r = next_block_id func"
      "\<And>b. b \<in> marked r \<longleftrightarrow> reaches func b"
    using mark_reachable_correct [OF ok ne] by blast
  let ?L = "f_layout func" and ?n = "next_block_id func"
  have L: "distinct ?L" "\<And>b. b \<in> set ?L \<Longrightarrow> b < length (f_made func)"
    using ok by (auto simp: blocks_ok_def next_block_id_def)
  define K where "K = filter (reaches func) ?L"
  have K: "filter ((!) r) ?L = K"
    unfolding K_def using L(2) r(2,3) by (intro filter_cong) (auto simp: marked_def next_block_id_def)
  obtain made kept where k: "foldl (keep_block r) (f_made func, []) ?L = (made, kept)" by fastforce
  from keep_blocks [OF L k] have kept: "kept = K" "length made = length (f_made func)"
    "\<And>t. t \<notin> set K \<Longrightarrow> made ! t = f_made func ! t"
    "\<And>i. i < length K \<Longrightarrow> made ! (K ! i) = (f_made func ! (K ! i))\<lparr>b_index := i, b_preds := []\<rparr>"
    unfolding K by simp_all
  have Kn: "b < length made" if "b \<in> set K" for b using that L(2) kept(2) by (simp add: K_def)
  have same: "b_insts (made ! b) = b_insts (f_made func ! b) \<and> b_term (made ! b) = b_term (f_made func ! b)" for b
  proof (cases "b \<in> set K")
    case True
    then obtain i where "i < length K" "b = K ! i" by (auto simp: in_set_conv_nth)
    then show ?thesis using kept(4) by simp
  qed (use kept(3) in simp)
  then have succs: "ir_block_successors (made ! b) = ir_block_successors (f_made func ! b)" for b
    by (simp add: ir_block_successors_def ir_block_successor_count_def ir_block_successor_def fun_eq_iff)
  let ?f = "func\<lparr>f_layout := K, f_made := foldl add_preds made K\<rparr>"
  have made': "foldl add_preds made K ! t = (made ! t)\<lparr>b_preds := b_preds (made ! t) @
      concat (map (\<lambda>b. replicate (count_list (ir_block_successors (f_made func ! b)) (Some t)) b) K)\<rparr>"
    if "t < length made" for t
    using add_preds_all [OF that Kn] by (simp add: succs)
  have 1: "ir_function_finalize func = Some ?f"
    using ne r(1) k kept(1) by (simp add: ir_function_finalize_def)
  have 2: "b_index (block_at ?f k) = k" if "k < block_count ?f" for k
    using that kept(4) made' [OF Kn] by (simp add: block_at_def block_count_def)
  have 3: "b_preds (f_made ?f ! b) =
      concat (map (\<lambda>p. replicate (count_list (ir_block_successors (f_made func ! p)) (Some b)) p) (f_layout ?f))"
    if "b \<in> set (f_layout ?f)" for b
  proof -
    have b: "b \<in> set K" using that by simp
    then obtain i where "i < length K" "b = K ! i" by (auto simp: in_set_conv_nth)
    then have "b_preds (made ! b) = []" using kept(4) by simp
    then show ?thesis using made' [OF Kn [OF b]] by simp
  qed
  have 4: "b_insts (f_made ?f ! b) = b_insts (f_made func ! b) \<and> b_term (f_made ?f ! b) = b_term (f_made func ! b)"
    if "b < ?n" for b
    using that made' same kept(2) by (simp add: next_block_id_def)
  show ?thesis
    using 1 2 3 4 by (intro exI [of _ ?f]) (simp add: K_def)
qed

text \<open>A layout with a block that is not reachable, and its predecessors.\<close>

definition dead_example :: ir_function where
  "dead_example = example_function [IR_I64] [0]
     [example_block 0 [] (example_jmp 2), example_block 1 [] (example_jmp 2), example_block 2 [] (example_ret 0)]"

lemma finalize_correct_witness:
  "\<exists>func'. ir_function_finalize dead_example = Some func' \<and>
    f_layout func' = filter (reaches dead_example) (f_layout dead_example) \<and>
    (\<forall>k < block_count func'. b_index (block_at func' k) = k) \<and>
    (\<forall>b \<in> set (f_layout func'). b_preds (f_made func' ! b) =
       concat (map (\<lambda>p. replicate (count_list (ir_block_successors (f_made dead_example ! p)) (Some b)) p) (f_layout func'))) \<and>
    (\<forall>b < next_block_id dead_example. b_insts (f_made func' ! b) = b_insts (f_made dead_example ! b) \<and>
       b_term (f_made func' ! b) = b_term (f_made dead_example ! b))"
  by (rule finalize_correct)
    (auto simp: blocks_ok_def dead_example_def example_defs next_block_id_def less_Suc_eq nth_Cons'
      ir_block_successors_def ir_block_successor_def ir_block_successor_count_def split: if_splits)

end
