(* ===== verification/RegAlloc.thy ===== *)
theory RegAlloc
  imports Finalize "HOL-Library.Multiset"
begin

text \<open>
  The linear scan register allocator of \<^verbatim>\<open>src/src/regalloc.c\<close>: the numbering of the
  instructions, the live interval of each register, the intervals that span a call, and the scan
  over the intervals in the order of their starts, with its free registers, its active intervals
  and its spills. This theory has the code, and shows what the scan gives for any intervals;
  \<^verbatim>\<open>RegAllocCorrect\<close> shows what that means for the function that is compiled.

  A \<^verbatim>\<open>Location\<close> is a datatype, a tagged union in C. Positions are unbounded: the code keeps them
  as \<^verbatim>\<open>int\<close>, which is enough for functions of less than a billion instructions.
\<close>

section \<open>The data\<close>

datatype reg_class = REG_CLASS_GPR | REG_CLASS_FPR

definition TARGET_MAX_REGS :: nat where "TARGET_MAX_REGS = 64"

record target_desc =
  allocatable :: "reg_class \<Rightarrow> nat list"
  is_callee_saved :: "nat \<Rightarrow> bool"

datatype location = LOCATION_NONE | LOCATION_REG nat | LOCATION_SPILL nat

record live_interval =
  iv_vreg :: nat
  iv_start :: int
  iv_end :: int
  iv_class :: reg_class
  crosses_call :: bool

record regalloc_result =
  ra_vreg_count :: nat
  ra_locations :: "location list"
  ra_intervals :: "live_interval list"
  spill_slot_count :: nat
  used_callee_saved :: "bool list"
  ra_inst_positions :: "int list"

definition INT32_MAX :: int where "INT32_MAX = 2147483647"

definition reg_class_of :: "ir_type \<Rightarrow> reg_class" where
  "reg_class_of type = (if ir_type_is_float type then REG_CLASS_FPR else REG_CLASS_GPR)"

definition interval_extend :: "live_interval \<Rightarrow> int \<Rightarrow> live_interval" where
  "interval_extend iv pos =
     (let iv = (if pos < iv_start iv then iv\<lparr>iv_start := pos\<rparr> else iv)
      in if iv_end iv < pos then iv\<lparr>iv_end := pos\<rparr> else iv)"

section \<open>Numbering\<close>

record numbering =
  n_pos :: int
  block_start :: "int list"
  block_end :: "int list"
  inst_positions :: "int list"
  call_positions :: "int list"

definition number_inst :: "numbering \<Rightarrow> ir_inst \<Rightarrow> numbering" where
  "number_inst n inst =
     n\<lparr>inst_positions := inst_positions n @ [n_pos n],
       call_positions := (if ir_inst_is_call_like inst then call_positions n @ [n_pos n] else call_positions n),
       n_pos := n_pos n + 2\<rparr>"

definition number_block :: "ir_function \<Rightarrow> numbering \<Rightarrow> nat \<Rightarrow> numbering" where
  "number_block func n b =
     (let n = n\<lparr>block_start := block_start n @ [n_pos n]\<rparr>;
          n = foldl number_inst n (b_insts (block_at func b))
      in n\<lparr>block_end := block_end n @ [n_pos n], n_pos := n_pos n + 2\<rparr>)"

definition number_function :: "ir_function \<Rightarrow> numbering" where
  "number_function func =
     foldl (number_block func)
       \<lparr>n_pos = 2, block_start = [], block_end = [], inst_positions = [], call_positions = []\<rparr>
       [0..<block_count func]"

section \<open>Intervals\<close>

definition empty_intervals :: "ir_function \<Rightarrow> live_interval list" where
  "empty_intervals func =
     map (\<lambda>v. \<lparr>iv_vreg = v, iv_start = INT32_MAX, iv_end = - 1,
               iv_class = reg_class_of (f_vreg_types func ! v), crosses_call = False\<rparr>)
       [0..<vreg_count func]"

definition extend_vreg :: "live_interval list \<Rightarrow> int \<times> int \<Rightarrow> live_interval list" where
  "extend_vreg ivs = (\<lambda>(v, pos). ivs[nat v := interval_extend (ivs ! nat v) pos])"

definition extend_live :: "ir_liveness \<Rightarrow> numbering \<Rightarrow> nat \<Rightarrow> live_interval list \<Rightarrow> nat \<Rightarrow> live_interval list" where
  "extend_live live n b ivs v =
     (let ivs = (if ir_bitset_get (live_in live ! b) v then extend_vreg ivs (int v, block_start n ! b) else ivs)
      in if ir_bitset_get (live_out live ! b) v then extend_vreg ivs (int v, block_end n ! b) else ivs)"

definition extend_inst :: "numbering \<Rightarrow> live_interval list \<times> nat \<Rightarrow> ir_inst \<Rightarrow> live_interval list \<times> nat" where
  "extend_inst n = (\<lambda>(ivs, inst_index) inst.
     let inst_pos = inst_positions n ! inst_index;
         ivs = foldl (\<lambda>ivs v. extend_vreg ivs (v, inst_pos)) ivs (ir_inst_uses inst);
         ivs = (if i_dst inst \<noteq> IR_NO_VREG then extend_vreg ivs (i_dst inst, inst_pos) else ivs)
     in (ivs, Suc inst_index))"

definition extend_block :: "ir_function \<Rightarrow> ir_liveness \<Rightarrow> numbering \<Rightarrow> live_interval list \<times> nat \<Rightarrow> nat \<Rightarrow>
    live_interval list \<times> nat" where
  "extend_block func live n = (\<lambda>(ivs, inst_index) b.
     let ivs = foldl (extend_live live n b) ivs [0..<vreg_count func];
         (ivs, inst_index) = foldl (extend_inst n) (ivs, inst_index) (b_insts (block_at func b));
         ivs = foldl (\<lambda>ivs v. extend_vreg ivs (v, block_end n ! b)) ivs (ir_term_uses (b_term (block_at func b)))
     in (ivs, inst_index))"

definition build_intervals :: "ir_function \<Rightarrow> ir_liveness \<Rightarrow> numbering \<Rightarrow> live_interval list" where
  "build_intervals func live n =
     (let ivs = foldl (\<lambda>ivs v. extend_vreg ivs (v, 0)) (empty_intervals func) (f_params func)
      in fst (foldl (extend_block func live n) (ivs, 0) [0..<block_count func]))"

text \<open>The loop over the calls stops at the first that the interval spans.\<close>

definition mark_crossing :: "int list \<Rightarrow> live_interval \<Rightarrow> live_interval" where
  "mark_crossing calls iv =
     (if list_ex (\<lambda>call_pos. iv_start iv < call_pos \<and> call_pos < iv_end iv) calls
      then iv\<lparr>crosses_call := True\<rparr> else iv)"

section \<open>The scan\<close>

text \<open>\<^verbatim>\<open>qsort\<close> with a comparison function, as an insertion sort.\<close>

definition compare_intervals_by_start :: "live_interval list \<Rightarrow> nat \<Rightarrow> nat \<Rightarrow> int" where
  "compare_intervals_by_start ivs a b =
     (let x = ivs ! a; y = ivs ! b
      in if iv_start x \<noteq> iv_start y then iv_start x - iv_start y
         else int (iv_vreg x) - int (iv_vreg y))"

fun qsort_insert :: "(nat \<Rightarrow> nat \<Rightarrow> int) \<Rightarrow> nat \<Rightarrow> nat list \<Rightarrow> nat list" where
  "qsort_insert cmp x [] = [x]"
| "qsort_insert cmp x (y # ys) = (if cmp x y \<le> 0 then x # y # ys else y # qsort_insert cmp x ys)"

definition qsort :: "(nat \<Rightarrow> nat \<Rightarrow> int) \<Rightarrow> nat list \<Rightarrow> nat list" where
  "qsort cmp xs = foldr (qsort_insert cmp) xs []"

definition scan_order :: "live_interval list \<Rightarrow> nat list" where
  "scan_order ivs =
     qsort (compare_intervals_by_start ivs)
       (filter (\<lambda>v. iv_start (ivs ! v) \<le> iv_end (ivs ! v)) [0..<length ivs])"

record scan_state =
  locations :: "location list"
  reg_free :: "bool list"
  active :: "nat list"
  spills :: nat

text \<open>The register of an active interval; an interval that has none has no register to give back.\<close>

fun loc_reg :: "location \<Rightarrow> nat" where
  "loc_reg (LOCATION_REG r) = r"
| "loc_reg _ = 0"

definition expire_at :: "scan_state \<Rightarrow> nat \<Rightarrow> scan_state" where
  "expire_at sc a =
     sc\<lparr>reg_free := (reg_free sc)[loc_reg (locations sc ! (active sc ! a)) := True],
        active := butlast ((active sc)[a := last (active sc)])\<rparr>"

function expire :: "live_interval list \<Rightarrow> int \<Rightarrow> nat \<Rightarrow> scan_state \<Rightarrow> scan_state" where
  "expire ivs start a sc =
     (if a < length (active sc)
      then if iv_end (ivs ! (active sc ! a)) < start then expire ivs start a (expire_at sc a)
           else expire ivs start (Suc a) sc
      else sc)"
  by pat_completeness auto
termination
  by (relation "measure (\<lambda>(ivs, start, a, sc). length (active sc) - a)") (auto simp: expire_at_def)

declare expire.simps [simp del]

definition choose_register :: "target_desc \<Rightarrow> live_interval \<Rightarrow> bool list \<Rightarrow> nat option" where
  "choose_register target iv free =
     find (\<lambda>reg. free ! reg \<and> (crosses_call iv \<longrightarrow> is_callee_saved target reg)) (allocatable target (iv_class iv))"

definition better_victim :: "target_desc \<Rightarrow> live_interval list \<Rightarrow> live_interval \<Rightarrow> scan_state \<Rightarrow>
    nat option \<Rightarrow> nat \<Rightarrow> nat option" where
  "better_victim target ivs iv sc victim a =
     (let other = active sc ! a in
      if iv_class (ivs ! other) \<noteq> iv_class iv then victim
      else if crosses_call iv \<and> \<not> is_callee_saved target (loc_reg (locations sc ! other)) then victim
      else case victim of None \<Rightarrow> Some a
           | Some w \<Rightarrow> if iv_end (ivs ! (active sc ! w)) < iv_end (ivs ! other) then Some a else victim)"

definition choose_victim :: "target_desc \<Rightarrow> live_interval list \<Rightarrow> live_interval \<Rightarrow> scan_state \<Rightarrow> nat option" where
  "choose_victim target ivs iv sc =
     foldl (better_victim target ivs iv sc) None [0..<length (active sc)]"

definition scan_vreg :: "target_desc \<Rightarrow> live_interval list \<Rightarrow> scan_state \<Rightarrow> nat \<Rightarrow> scan_state" where
  "scan_vreg target ivs sc v =
     (let iv = ivs ! v;
          sc = expire ivs (iv_start iv) 0 sc;
          spilled = sc\<lparr>locations := (locations sc)[v := LOCATION_SPILL (spills sc)], spills := Suc (spills sc)\<rparr>
      in case choose_register target iv (reg_free sc) of
           Some chosen \<Rightarrow>
             sc\<lparr>reg_free := (reg_free sc)[chosen := False],
                locations := (locations sc)[v := LOCATION_REG chosen],
                active := active sc @ [v]\<rparr>
         | None \<Rightarrow>
            (case choose_victim target ivs iv sc of
               None \<Rightarrow> spilled
             | Some a \<Rightarrow>
                (let victim = active sc ! a in
                 if iv_end iv < iv_end (ivs ! victim)
                 then sc\<lparr>locations := ((locations sc)[v := LOCATION_REG (loc_reg (locations sc ! victim))])
                            [victim := LOCATION_SPILL (spills sc)],
                         spills := Suc (spills sc),
                         active := (active sc)[a := v]\<rparr>
                 else spilled)))"

definition linear_scan :: "target_desc \<Rightarrow> live_interval list \<Rightarrow> scan_state" where
  "linear_scan target ivs =
     foldl (scan_vreg target ivs)
       \<lparr>locations = replicate (length ivs) LOCATION_NONE, reg_free = replicate TARGET_MAX_REGS True,
        active = [], spills = 0\<rparr>
       (scan_order ivs)"

definition mark_used :: "target_desc \<Rightarrow> bool list \<Rightarrow> location \<Rightarrow> bool list" where
  "mark_used target used loc =
     (case loc of LOCATION_REG r \<Rightarrow> if is_callee_saved target r then used[r := True] else used | _ \<Rightarrow> used)"

definition regalloc_function :: "ir_function \<Rightarrow> target_desc \<Rightarrow> regalloc_result option" where
  "regalloc_function func target =
     (let n = number_function func in
      case ir_compute_liveness func of None \<Rightarrow> None
      | Some live \<Rightarrow>
         (let ivs = map (mark_crossing (call_positions n)) (build_intervals func live n);
              sc = linear_scan target ivs
          in Some \<lparr>ra_vreg_count = vreg_count func, ra_locations = locations sc, ra_intervals = ivs,
                   spill_slot_count = spills sc,
                   used_callee_saved = foldl (mark_used target) (replicate TARGET_MAX_REGS False) (locations sc),
                   ra_inst_positions = inst_positions n\<rparr>))"

section \<open>Sorting\<close>

lemma mset_qsort_insert: "mset (qsort_insert cmp x ys) = add_mset x (mset ys)"
  by (induction ys) auto

lemma mset_qsort [simp]: "mset (qsort cmp xs) = mset xs"
  by (induction xs) (auto simp: qsort_def mset_qsort_insert)

lemma set_qsort [simp]: "set (qsort cmp xs) = set xs"
  by (metis mset_qsort set_mset_mset)

lemma distinct_qsort [simp]: "distinct (qsort cmp xs) = distinct xs"
  by (metis mset_qsort mset_eq_imp_distinct_iff)

text \<open>Sorted by the starts of the intervals.\<close>

lemma sorted_qsort_insert:
  assumes "sorted_wrt (\<lambda>a b. iv_start (ivs ! a) \<le> iv_start (ivs ! b)) ys"
  shows "sorted_wrt (\<lambda>a b. iv_start (ivs ! a) \<le> iv_start (ivs ! b))
    (qsort_insert (compare_intervals_by_start ivs) x ys)"
  using assms
proof (induction ys)
  case (Cons y ys)
  have le: "iv_start (ivs ! x) \<le> iv_start (ivs ! y) \<longleftrightarrow> True" if "compare_intervals_by_start ivs x y \<le> 0"
    using that by (auto simp: compare_intervals_by_start_def Let_def split: if_splits)
  have ge: "iv_start (ivs ! y) \<le> iv_start (ivs ! x)" if "\<not> compare_intervals_by_start ivs x y \<le> 0"
    using that by (auto simp: compare_intervals_by_start_def Let_def split: if_splits)
  have "set (qsort_insert (compare_intervals_by_start ivs) x ys) = insert x (set ys)"
    by (metis mset_qsort_insert set_mset_add_mset_insert set_mset_mset)
  then show ?case using Cons le ge by (auto intro: order_trans)
qed simp

lemma sorted_scan_order:
  "sorted_wrt (\<lambda>a b. iv_start (ivs ! a) \<le> iv_start (ivs ! b)) (scan_order ivs)"
proof -
  have "sorted_wrt (\<lambda>a b. iv_start (ivs ! a) \<le> iv_start (ivs ! b)) (qsort (compare_intervals_by_start ivs) xs)" for xs
    by (induction xs) (auto simp: qsort_def sorted_qsort_insert)
  then show ?thesis by (simp add: scan_order_def)
qed

lemma set_scan_order: "set (scan_order ivs) = {v. v < length ivs \<and> iv_start (ivs ! v) \<le> iv_end (ivs ! v)}"
  by (auto simp: scan_order_def)

lemma distinct_scan_order: "distinct (scan_order ivs)"
  by (simp add: scan_order_def)

section \<open>The active intervals\<close>

text \<open>Taking an entry out of an array by moving the last one to its place.\<close>

lemma swap_remove:
  assumes "distinct xs" and "a < length xs"
  shows "distinct (butlast (xs[a := last xs])) \<and> set (butlast (xs[a := last xs])) = set xs - {xs ! a} \<and>
    (\<forall>i < a. butlast (xs[a := last xs]) ! i = xs ! i)"
proof -
  obtain ys y where xs: "xs = ys @ [y]" using assms(2) by (cases xs rule: rev_cases) auto
  show ?thesis
  proof (cases "a = length ys")
    case True
    then show ?thesis using assms(1) xs by (auto simp: nth_append)
  next
    case False
    then have a: "a < length ys" using assms(2) xs by simp
    have "butlast (xs[a := last xs]) = ys[a := y]"
      using xs a by (simp add: list_update_append)
    moreover have "distinct (ys[a := y])"
      using assms(1) xs by (intro distinct_update_fresh) auto
    moreover have "set (ys[a := y]) = insert y (set ys - {ys ! a})"
      using assms(1) xs a by (simp add: set_update_distinct)
    ultimately show ?thesis using assms(1) xs a nth_mem [OF a] by (auto simp: nth_append)
  qed
qed

text \<open>The active intervals have registers that are taken, each its own.\<close>

definition active_inv :: "scan_state \<Rightarrow> bool" where
  "active_inv sc \<longleftrightarrow>
     length (reg_free sc) = TARGET_MAX_REGS \<and> distinct (active sc) \<and>
     (\<forall>v \<in> set (active sc). \<exists>r < TARGET_MAX_REGS. locations sc ! v = LOCATION_REG r \<and> \<not> reg_free sc ! r) \<and>
     (\<forall>v \<in> set (active sc). \<forall>w \<in> set (active sc). locations sc ! v = locations sc ! w \<longrightarrow> v = w)"

lemma expire_at_inv:
  assumes "active_inv sc" and "a < length (active sc)"
  shows "active_inv (expire_at sc a)"
    and "set (active (expire_at sc a)) = set (active sc) - {active sc ! a}"
    and "\<And>i. i < a \<Longrightarrow> active (expire_at sc a) ! i = active sc ! i"
proof -
  let ?sc = "expire_at sc a" and ?o = "active sc ! a"
  have d: "distinct (active sc)" using assms(1) by (simp add: active_inv_def)
  note sr = swap_remove [OF d assms(2)]
  show set: "set (active ?sc) = set (active sc) - {?o}"
    and "\<And>i. i < a \<Longrightarrow> active ?sc ! i = active sc ! i"
    using sr by (simp_all add: expire_at_def)
  have o: "?o \<in> set (active sc)" using assms(2) by simp
  then obtain r where r: "r < TARGET_MAX_REGS" "locations sc ! ?o = LOCATION_REG r"
    using assms(1) unfolding active_inv_def by blast
  have loc: "locations ?sc = locations sc" and free: "reg_free ?sc = (reg_free sc)[r := True]"
    using r(2) by (simp_all add: expire_at_def)
  have "\<exists>q < TARGET_MAX_REGS. locations ?sc ! v = LOCATION_REG q \<and> \<not> reg_free ?sc ! q" if v: "v \<in> set (active ?sc)" for v
  proof -
    have v': "v \<in> set (active sc)" "v \<noteq> ?o" using v set by auto
    then obtain q where q: "q < TARGET_MAX_REGS" "locations sc ! v = LOCATION_REG q" "\<not> reg_free sc ! q"
      using assms(1) unfolding active_inv_def by blast
    have "q \<noteq> r"
      using assms(1) v' o q(2) r(2) unfolding active_inv_def by metis
    then show ?thesis using q loc free by auto
  qed
  moreover have "length (reg_free ?sc) = TARGET_MAX_REGS" "distinct (active ?sc)"
    using assms(1) sr free by (auto simp: active_inv_def expire_at_def)
  moreover have "v = w" if "v \<in> set (active ?sc)" "w \<in> set (active ?sc)" "locations ?sc ! v = locations ?sc ! w" for v w
    using assms(1) that set loc unfolding active_inv_def by (metis DiffD1)
  ultimately show "active_inv ?sc"
    unfolding active_inv_def by blast
qed

lemma expire_inv:
  assumes "active_inv sc" and "\<forall>i < a. i < length (active sc) \<longrightarrow> start \<le> iv_end (ivs ! (active sc ! i))"
  shows "active_inv (expire ivs start a sc) \<and>
    set (active (expire ivs start a sc)) = {v \<in> set (active sc). start \<le> iv_end (ivs ! v)} \<and>
    locations (expire ivs start a sc) = locations sc \<and> spills (expire ivs start a sc) = spills sc"
  using assms
proof (induction ivs start a sc rule: expire.induct)
  case (1 ivs start a sc)
  show ?case
  proof (cases "a < length (active sc)")
    case False
    then have "start \<le> iv_end (ivs ! v)" if "v \<in> set (active sc)" for v
      using 1(4) that by (auto simp: in_set_conv_nth)
    then show ?thesis using False 1(3) by (subst (1 2 3 4) expire.simps) auto
  next
    case True
    show ?thesis
    proof (cases "iv_end (ivs ! (active sc ! a)) < start")
      case True': True
      note e = expire_at_inv [OF 1(3) True]
      have "\<forall>i < a. i < length (active (expire_at sc a)) \<longrightarrow> start \<le> iv_end (ivs ! (active (expire_at sc a) ! i))"
        using e(3) 1(4) True by simp
      from 1(1) [OF True True' e(1) this] have IH:
        "active_inv (expire ivs start a (expire_at sc a))"
        "set (active (expire ivs start a (expire_at sc a))) = {v \<in> set (active sc) - {active sc ! a}. start \<le> iv_end (ivs ! v)}"
        "locations (expire ivs start a (expire_at sc a)) = locations sc"
        "spills (expire ivs start a (expire_at sc a)) = spills sc"
        unfolding e(2) by (simp_all add: expire_at_def)
      have eq: "expire ivs start a sc = expire ivs start a (expire_at sc a)"
        using True True' by (subst expire.simps) simp
      have "{v \<in> set (active sc) - {active sc ! a}. start \<le> iv_end (ivs ! v)} =
          {v \<in> set (active sc). start \<le> iv_end (ivs ! v)}"
        using True' by force
      then show ?thesis unfolding eq IH(2-4) using IH(1) by simp
    next
      case False
      have "\<forall>i < Suc a. i < length (active sc) \<longrightarrow> start \<le> iv_end (ivs ! (active sc ! i))"
        using 1(4) False by (auto simp: less_Suc_eq)
      from 1(2) [OF True False 1(3) this] show ?thesis
        using True False by (subst (1 2 3 4) expire.simps) simp
    qed
  qed
qed

section \<open>The scan keeps overlapping intervals apart\<close>

definition overlap :: "live_interval \<Rightarrow> live_interval \<Rightarrow> bool" where
  "overlap i j \<longleftrightarrow> iv_start i \<le> iv_end j \<and> iv_start j \<le> iv_end i"

definition target_ok :: "target_desc \<Rightarrow> bool" where
  "target_ok target \<longleftrightarrow> (\<forall>c. \<forall>r \<in> set (allocatable target c). r < TARGET_MAX_REGS)"

definition reg_allowed :: "target_desc \<Rightarrow> live_interval \<Rightarrow> nat \<Rightarrow> bool" where
  "reg_allowed target iv r \<longleftrightarrow>
     r \<in> set (allocatable target (iv_class iv)) \<and> (crosses_call iv \<longrightarrow> is_callee_saved target r)"

text \<open>What holds of the locations of the intervals \<open>D\<close> seen so far: no two of them that overlap share
  a location, a register is one the interval may have, and a spill slot is one of those given out.\<close>

definition locations_ok :: "target_desc \<Rightarrow> live_interval list \<Rightarrow> nat set \<Rightarrow> location list \<Rightarrow> nat \<Rightarrow> bool" where
  "locations_ok target ivs D locs n \<longleftrightarrow>
     (\<forall>v \<in> D. \<forall>w \<in> D. \<forall>r. v \<noteq> w \<longrightarrow> locs ! v = LOCATION_REG r \<longrightarrow> locs ! w = LOCATION_REG r \<longrightarrow>
        \<not> overlap (ivs ! v) (ivs ! w)) \<and>
     (\<forall>v \<in> D. \<forall>w \<in> D. \<forall>s. v \<noteq> w \<longrightarrow> locs ! v = LOCATION_SPILL s \<longrightarrow> locs ! w \<noteq> LOCATION_SPILL s) \<and>
     (\<forall>v \<in> D. \<forall>r. locs ! v = LOCATION_REG r \<longrightarrow> reg_allowed target (ivs ! v) r) \<and>
     (\<forall>v \<in> D. \<forall>s. locs ! v = LOCATION_SPILL s \<longrightarrow> s < n)"

lemma locations_ok_register:
  assumes ok: "locations_ok target ivs D locs n" and v: "v \<notin> D" and allowed: "reg_allowed target (ivs ! v) r"
    and at: "\<And>w. locs' ! w = (if w = v then LOCATION_REG r else locs ! w)"
    and new: "\<And>w. w \<in> D \<Longrightarrow> locs ! w = LOCATION_REG r \<Longrightarrow>
      \<not> overlap (ivs ! v) (ivs ! w) \<and> \<not> overlap (ivs ! w) (ivs ! v)"
  shows "locations_ok target ivs (insert v D) locs' n"
proof -
  have old: "locs' ! w = locs ! w" if "w \<in> D" for w using that v at by auto
  have v': "locs' ! v = LOCATION_REG r" using at by simp
  show ?thesis
    using ok new allowed unfolding locations_ok_def by (simp add: old v' ball_simps)
qed

lemma locations_ok_spill:
  assumes ok: "locations_ok target ivs D locs n"
    and at: "\<And>w. locs' ! w = (if w = v then LOCATION_SPILL n else locs ! w)"
  shows "locations_ok target ivs (insert v D) locs' (Suc n)"
proof -
  have lt: "s < n" if "w \<in> D" "locs ! w = LOCATION_SPILL s" for w s
    using ok that unfolding locations_ok_def by blast
  show ?thesis
    unfolding locations_ok_def
  proof (intro conjI ballI allI impI)
    fix u w r assume "u \<in> insert v D" "w \<in> insert v D" "u \<noteq> w" "locs' ! u = LOCATION_REG r" "locs' ! w = LOCATION_REG r"
    moreover from this have "u \<noteq> v" "w \<noteq> v" using at by auto
    ultimately have "u \<in> D" "w \<in> D" "locs ! u = LOCATION_REG r" "locs ! w = LOCATION_REG r" "u \<noteq> w" using at by auto
    then show "\<not> overlap (ivs ! u) (ivs ! w)" using ok unfolding locations_ok_def by blast
  next
    fix u w s assume uw: "u \<in> insert v D" "w \<in> insert v D" "u \<noteq> w" "locs' ! u = LOCATION_SPILL s"
    show "locs' ! w \<noteq> LOCATION_SPILL s"
    proof (cases "u = v \<or> w = v")
      case True
      then show ?thesis using uw at lt by (auto split: if_splits)
    next
      case False
      then show ?thesis using uw at ok unfolding locations_ok_def by (metis insertE)
    qed
  next
    fix u r assume "u \<in> insert v D" "locs' ! u = LOCATION_REG r"
    then show "reg_allowed target (ivs ! u) r"
      using at ok unfolding locations_ok_def by (metis insertE location.distinct(5))
  next
    fix u s assume "u \<in> insert v D" "locs' ! u = LOCATION_SPILL s"
    then show "s < Suc n" using at lt [of u s] by (auto split: if_splits)
  qed
qed

definition scan_inv :: "target_desc \<Rightarrow> live_interval list \<Rightarrow> int \<Rightarrow> nat set \<Rightarrow> scan_state \<Rightarrow> bool" where
  "scan_inv target ivs cur D sc \<longleftrightarrow>
     active_inv sc \<and> length (locations sc) = length ivs \<and> D \<subseteq> {..<length ivs} \<and> set (active sc) \<subseteq> D \<and>
     (\<forall>v < length ivs. locations sc ! v = LOCATION_NONE \<longleftrightarrow> v \<notin> D) \<and>
     (\<forall>v \<in> D. iv_start (ivs ! v) \<le> cur) \<and>
     (\<forall>v \<in> D - set (active sc). \<forall>r. locations sc ! v = LOCATION_REG r \<longrightarrow> iv_end (ivs ! v) < cur) \<and>
     locations_ok target ivs D (locations sc) (spills sc)"

lemma scan_inv_expire:
  assumes "scan_inv target ivs cur D sc" and "cur \<le> start"
  shows "scan_inv target ivs start D (expire ivs start 0 sc)"
proof -
  have a: "active_inv sc" using assms(1) by (simp add: scan_inv_def)
  note e = expire_inv [OF a, of 0 start ivs, simplified]
  have out: "iv_end (ivs ! v) < start"
    if "v \<in> D - set (active (expire ivs start 0 sc))" "locations sc ! v = LOCATION_REG r" for v r
  proof (cases "v \<in> set (active sc)")
    case True
    then show ?thesis using that(1) e by auto
  next
    case False
    then have "iv_end (ivs ! v) < cur" using assms(1) that unfolding scan_inv_def by blast
    then show ?thesis using assms(2) by simp
  qed
  have st: "iv_start (ivs ! v) \<le> start" if "v \<in> D" for v
    using assms that unfolding scan_inv_def by force
  show ?thesis
    using assms(1) e out st unfolding scan_inv_def by auto
qed

lemma place_register:
  assumes inv: "scan_inv target ivs cur D sc" and v: "v < length ivs" "v \<notin> D" "iv_start (ivs ! v) = cur"
    and r: "r < TARGET_MAX_REGS" "reg_allowed target (ivs ! v) r"
    and unused: "\<And>w. w \<in> set (active sc) \<Longrightarrow> locations sc ! w \<noteq> LOCATION_REG r"
  shows "scan_inv target ivs cur (insert v D)
    (sc\<lparr>reg_free := (reg_free sc)[r := False], locations := (locations sc)[v := LOCATION_REG r],
        active := active sc @ [v]\<rparr>)" (is "scan_inv _ _ _ _ ?sc")
proof -
  have len: "length (locations sc) = length ivs" "D \<subseteq> {..<length ivs}" "set (active sc) \<subseteq> D"
    and act: "active_inv sc" and none: "\<And>w. w < length ivs \<Longrightarrow> locations sc ! w = LOCATION_NONE \<longleftrightarrow> w \<notin> D"
    and start: "\<And>w. w \<in> D \<Longrightarrow> iv_start (ivs ! w) \<le> cur"
    and out: "\<And>w q. w \<in> D - set (active sc) \<Longrightarrow> locations sc ! w = LOCATION_REG q \<Longrightarrow> iv_end (ivs ! w) < cur"
    and ok: "locations_ok target ivs D (locations sc) (spills sc)"
    using inv unfolding scan_inv_def by blast+
  have at: "locations ?sc ! w = (if w = v then LOCATION_REG r else locations sc ! w)" for w
    using v(1) len(1) by simp
  have notin: "v \<notin> set (active sc)" using v(2) len(3) by blast
  have "active_inv ?sc"
    unfolding active_inv_def
  proof (intro conjI ballI impI)
    show "length (reg_free ?sc) = TARGET_MAX_REGS" "distinct (active ?sc)"
      using act notin by (simp_all add: active_inv_def)
    show "\<exists>q < TARGET_MAX_REGS. locations ?sc ! w = LOCATION_REG q \<and> \<not> reg_free ?sc ! q" if "w \<in> set (active ?sc)" for w
    proof (cases "w = v")
      case True
      then show ?thesis using r(1) at act by (auto simp: active_inv_def)
    next
      case False
      then have "w \<in> set (active sc)" using that by simp
      then obtain q where q: "q < TARGET_MAX_REGS" "locations sc ! w = LOCATION_REG q" "\<not> reg_free sc ! q"
        using act unfolding active_inv_def by blast
      have "\<not> reg_free ?sc ! q"
        using q(1,3) act by (cases "q = r") (simp_all add: active_inv_def)
      then show ?thesis using q(1,2) at False by auto
    qed
    show "u = w" if "u \<in> set (active ?sc)" "w \<in> set (active ?sc)" "locations ?sc ! u = locations ?sc ! w" for u w
      using that at unused act unfolding active_inv_def by (auto split: if_splits)
  qed
  moreover have "locations_ok target ivs (insert v D) (locations ?sc) (spills ?sc)"
  proof -
    have new: "\<not> overlap (ivs ! v) (ivs ! w) \<and> \<not> overlap (ivs ! w) (ivs ! v)"
      if "w \<in> D" "locations sc ! w = LOCATION_REG r" for w
    proof -
      have "w \<notin> set (active sc)" using unused that(2) by blast
      then have "iv_end (ivs ! w) < cur" using out that by blast
      then show ?thesis using v(3) by (simp add: overlap_def)
    qed
    have "locations_ok target ivs (insert v D) (locations ?sc) (spills sc)"
      by (rule locations_ok_register [OF ok v(2) r(2) at new])
    then show ?thesis by simp
  qed
  moreover have "\<forall>w \<in> insert v D - set (active ?sc). \<forall>q. locations ?sc ! w = LOCATION_REG q \<longrightarrow> iv_end (ivs ! w) < cur"
    using out at by auto
  moreover have "\<forall>w < length ivs. locations ?sc ! w = LOCATION_NONE \<longleftrightarrow> w \<notin> insert v D"
    using none at by auto
  ultimately show ?thesis
    using len v start unfolding scan_inv_def by auto
qed

lemma spill_new:
  assumes inv: "scan_inv target ivs cur D sc" and v: "v < length ivs" "v \<notin> D" "iv_start (ivs ! v) = cur"
  shows "scan_inv target ivs cur (insert v D)
    (sc\<lparr>locations := (locations sc)[v := LOCATION_SPILL (spills sc)], spills := Suc (spills sc)\<rparr>)"
    (is "scan_inv _ _ _ _ ?sc")
proof -
  have len: "length (locations sc) = length ivs" "D \<subseteq> {..<length ivs}" "set (active sc) \<subseteq> D"
    and act: "active_inv sc" and none: "\<And>w. w < length ivs \<Longrightarrow> locations sc ! w = LOCATION_NONE \<longleftrightarrow> w \<notin> D"
    and start: "\<And>w. w \<in> D \<Longrightarrow> iv_start (ivs ! w) \<le> cur"
    and out: "\<And>w q. w \<in> D - set (active sc) \<Longrightarrow> locations sc ! w = LOCATION_REG q \<Longrightarrow> iv_end (ivs ! w) < cur"
    and ok: "locations_ok target ivs D (locations sc) (spills sc)"
    using inv unfolding scan_inv_def by blast+
  have at: "locations ?sc ! w = (if w = v then LOCATION_SPILL (spills sc) else locations sc ! w)" for w
    using v(1) len(1) by simp
  have same: "locations ?sc ! w = locations sc ! w" if "w \<in> set (active sc)" for w
    using that at v(2) len(3) by auto
  have "active_inv ?sc"
    using act same unfolding active_inv_def by simp
  moreover have "locations_ok target ivs (insert v D) (locations ?sc) (spills ?sc)"
    using locations_ok_spill [OF ok at] by simp
  moreover have "\<forall>w \<in> insert v D - set (active ?sc). \<forall>q. locations ?sc ! w = LOCATION_REG q \<longrightarrow> iv_end (ivs ! w) < cur"
    using out at by auto
  moreover have "\<forall>w < length ivs. locations ?sc ! w = LOCATION_NONE \<longleftrightarrow> w \<notin> insert v D"
    using none at by auto
  ultimately show ?thesis
    using len v start unfolding scan_inv_def by auto
qed

lemma steal_register:
  assumes inv: "scan_inv target ivs cur D sc" and v: "v < length ivs" "v \<notin> D" "iv_start (ivs ! v) = cur"
    and a: "a < length (active sc)" and r: "locations sc ! (active sc ! a) = LOCATION_REG r"
    and allowed: "reg_allowed target (ivs ! v) r"
  shows "scan_inv target ivs cur (insert v D)
    (sc\<lparr>locations := ((locations sc)[v := LOCATION_REG r])[active sc ! a := LOCATION_SPILL (spills sc)],
        spills := Suc (spills sc), active := (active sc)[a := v]\<rparr>)" (is "scan_inv _ _ _ _ ?sc")
proof -
  let ?o = "active sc ! a"
  have len: "length (locations sc) = length ivs" "D \<subseteq> {..<length ivs}" "set (active sc) \<subseteq> D"
    and act: "active_inv sc" and none: "\<And>w. w < length ivs \<Longrightarrow> locations sc ! w = LOCATION_NONE \<longleftrightarrow> w \<notin> D"
    and start: "\<And>w. w \<in> D \<Longrightarrow> iv_start (ivs ! w) \<le> cur"
    and out: "\<And>w q. w \<in> D - set (active sc) \<Longrightarrow> locations sc ! w = LOCATION_REG q \<Longrightarrow> iv_end (ivs ! w) < cur"
    and ok: "locations_ok target ivs D (locations sc) (spills sc)"
    using inv unfolding scan_inv_def by blast+
  have o: "?o \<in> set (active sc)" "?o \<in> D" "?o \<noteq> v" "?o < length ivs"
    using nth_mem [OF a] len(2,3) v(2) by (blast, blast, metis subsetD, blast)
  have at: "locations ?sc ! w =
      (if w = ?o then LOCATION_SPILL (spills sc) else if w = v then LOCATION_REG r else locations sc ! w)" for w
    using v(1) len(1) o(3,4) by simp
  have d: "distinct (active sc)" using act by (simp add: active_inv_def)
  have set: "set (active ?sc) = insert v (set (active sc) - {?o})"
    using set_update_distinct [OF d a] by simp
  have notin: "v \<notin> set (active sc)" using v(2) len(3) by blast
  have unused: "locations sc ! w \<noteq> LOCATION_REG r" if "w \<in> set (active sc)" "w \<noteq> ?o" for w
    using act that o(1) r unfolding active_inv_def by metis
  have "active_inv ?sc"
    unfolding active_inv_def
  proof (intro conjI ballI impI)
    show "length (reg_free ?sc) = TARGET_MAX_REGS" using act by (simp add: active_inv_def)
    show "distinct (active ?sc)" using distinct_update_fresh [OF d notin] by simp
    show "\<exists>q < TARGET_MAX_REGS. locations ?sc ! w = LOCATION_REG q \<and> \<not> reg_free ?sc ! q" if "w \<in> set (active ?sc)" for w
    proof (cases "w = v")
      case True
      have "\<exists>q < TARGET_MAX_REGS. locations sc ! ?o = LOCATION_REG q \<and> \<not> reg_free sc ! q"
        using act o(1) unfolding active_inv_def by blast
      then show ?thesis using True at r o(3) by auto
    next
      case False
      then have w: "w \<in> set (active sc)" "w \<noteq> ?o" using that set by auto
      then have "\<exists>q < TARGET_MAX_REGS. locations sc ! w = LOCATION_REG q \<and> \<not> reg_free sc ! q"
        using act unfolding active_inv_def by blast
      then show ?thesis using at w(2) False by auto
    qed
    show "u = w" if uw: "u \<in> set (active ?sc)" "w \<in> set (active ?sc)" "locations ?sc ! u = locations ?sc ! w" for u w
    proof -
      have "u \<noteq> ?o" "w \<noteq> ?o" using uw set o(3) by auto
      moreover have "u \<in> set (active sc) \<or> u = v" "w \<in> set (active sc) \<or> w = v" using uw set by auto
      moreover have "x = y" if "x \<in> set (active sc)" "y \<in> set (active sc)" "locations sc ! x = locations sc ! y" for x y
        using act that unfolding active_inv_def by blast
      ultimately show ?thesis using uw(3) at unused by metis
    qed
  qed
  moreover have "locations_ok target ivs (insert v D) (locations ?sc) (spills ?sc)"
  proof -
    have new: "\<not> overlap (ivs ! v) (ivs ! w) \<and> \<not> overlap (ivs ! w) (ivs ! v)"
      if "w \<in> D" "w \<noteq> ?o" "locations sc ! w = LOCATION_REG r" for w
    proof -
      have "w \<notin> set (active sc)" using unused that(2,3) by blast
      then have "iv_end (ivs ! w) < cur" using out that by blast
      then show ?thesis using v(3) by (simp add: overlap_def)
    qed
    let ?l = "(locations sc)[?o := LOCATION_SPILL (spills sc)]"
    have l: "?l ! w = (if w = ?o then LOCATION_SPILL (spills sc) else locations sc ! w)" for w
      using len(1) o(4) by simp
    have "locations_ok target ivs D ?l (Suc (spills sc))"
      using locations_ok_spill [OF ok l] o(2) by (simp add: insert_absorb)
    moreover have "locations ?sc ! w = (if w = v then LOCATION_REG r else ?l ! w)" for w
      using at l o(3) by simp
    moreover have "\<not> overlap (ivs ! v) (ivs ! w) \<and> \<not> overlap (ivs ! w) (ivs ! v)"
      if "w \<in> D" "?l ! w = LOCATION_REG r" for w
      using new [OF that(1)] that(2) l by (auto split: if_splits)
    ultimately have "locations_ok target ivs (insert v D) (locations ?sc) (Suc (spills sc))"
      using locations_ok_register [OF _ v(2) allowed] by blast
    then show ?thesis by simp
  qed
  moreover have "\<forall>w \<in> insert v D - set (active ?sc). \<forall>q. locations ?sc ! w = LOCATION_REG q \<longrightarrow> iv_end (ivs ! w) < cur"
    using out at unfolding set by auto
  moreover have "\<forall>w < length ivs. locations ?sc ! w = LOCATION_NONE \<longleftrightarrow> w \<notin> insert v D"
    using none at o(2) by auto
  ultimately show ?thesis
    using len v start unfolding scan_inv_def set by auto
qed

text \<open>The victim is an active interval of the same class, whose register the new one may have.\<close>

definition victim_ok :: "target_desc \<Rightarrow> live_interval list \<Rightarrow> live_interval \<Rightarrow> scan_state \<Rightarrow> nat \<Rightarrow> bool" where
  "victim_ok target ivs iv sc a \<longleftrightarrow> a < length (active sc) \<and> iv_class (ivs ! (active sc ! a)) = iv_class iv \<and>
     (crosses_call iv \<longrightarrow> is_callee_saved target (loc_reg (locations sc ! (active sc ! a))))"

lemma choose_victim_ok:
  assumes "choose_victim target ivs iv sc = Some a"
  shows "victim_ok target ivs iv sc a"
proof -
  have "\<forall>a. choose_victim target ivs iv sc = Some a \<longrightarrow> victim_ok target ivs iv sc a"
    unfolding choose_victim_def
    by (rule foldl_invariant [where P = "\<lambda>v. \<forall>a. v = Some a \<longrightarrow> victim_ok target ivs iv sc a"])
      (auto simp: better_victim_def victim_ok_def Let_def split: option.splits if_splits)
  then show ?thesis using assms by simp
qed

lemma scan_vreg_inv:
  assumes t: "target_ok target" and inv: "scan_inv target ivs cur D sc"
    and v: "v < length ivs" "v \<notin> D" "cur \<le> iv_start (ivs ! v)"
  shows "scan_inv target ivs (iv_start (ivs ! v)) (insert v D) (scan_vreg target ivs sc v)"
proof -
  let ?iv = "ivs ! v"
  define sc1 where "sc1 = expire ivs (iv_start ?iv) 0 sc"
  have inv1: "scan_inv target ivs (iv_start ?iv) D sc1"
    unfolding sc1_def by (rule scan_inv_expire [OF inv v(3)])
  note spilled = spill_new [OF inv1 v(1,2) refl]
  show ?thesis
  proof (cases "choose_register target ?iv (reg_free sc1)")
    case (Some r)
    then have r: "r \<in> set (allocatable target (iv_class ?iv))" "reg_free sc1 ! r"
        "crosses_call ?iv \<longrightarrow> is_callee_saved target r"
      by (auto simp: choose_register_def find_Some_iff)
    have "r < TARGET_MAX_REGS" using t r(1) unfolding target_ok_def by blast
    moreover have "locations sc1 ! w \<noteq> LOCATION_REG r" if "w \<in> set (active sc1)" for w
    proof -
      obtain q where "locations sc1 ! w = LOCATION_REG q" "\<not> reg_free sc1 ! q"
        using inv1 \<open>w \<in> set (active sc1)\<close> unfolding scan_inv_def active_inv_def by blast
      then show ?thesis using r(2) by auto
    qed
    ultimately have "scan_inv target ivs (iv_start ?iv) (insert v D)
      (sc1\<lparr>reg_free := (reg_free sc1)[r := False], locations := (locations sc1)[v := LOCATION_REG r],
          active := active sc1 @ [v]\<rparr>)"
      using r(1,3) by (intro place_register [OF inv1 v(1,2) refl]) (simp_all add: reg_allowed_def)
    then show ?thesis using Some by (simp add: scan_vreg_def sc1_def [symmetric])
  next
    case None
    show ?thesis
    proof (cases "choose_victim target ivs ?iv sc1")
      case None': None
      then show ?thesis using None spilled by (simp add: scan_vreg_def sc1_def [symmetric])
    next
      case (Some a)
      note ok = choose_victim_ok [OF Some, unfolded victim_ok_def]
      let ?o = "active sc1 ! a"
      have o: "?o \<in> set (active sc1)" using ok by simp
      then obtain r where r: "locations sc1 ! ?o = LOCATION_REG r"
        using inv1 unfolding scan_inv_def active_inv_def by blast
      have "?o \<in> D" using o inv1 unfolding scan_inv_def by blast
      then have "reg_allowed target (ivs ! ?o) r"
        using inv1 r unfolding scan_inv_def locations_ok_def by blast
      then have "reg_allowed target ?iv r"
        using ok r by (simp add: reg_allowed_def)
      from steal_register [OF inv1 v(1,2) refl conjunct1 [OF ok] r this] spilled
      show ?thesis using None Some r by (simp add: scan_vreg_def sc1_def [symmetric] Let_def)
    qed
  qed
qed

lemma scan_vregs_inv:
  assumes "target_ok target" and "scan_inv target ivs cur D sc"
    and "sorted_wrt (\<lambda>a b. iv_start (ivs ! a) \<le> iv_start (ivs ! b)) vs" and "distinct vs"
    and "\<And>v. v \<in> set vs \<Longrightarrow> v < length ivs \<and> v \<notin> D \<and> cur \<le> iv_start (ivs ! v)"
  shows "\<exists>cur'. scan_inv target ivs cur' (D \<union> set vs) (foldl (scan_vreg target ivs) sc vs)"
  using assms(2-)
proof (induction vs arbitrary: cur D sc)
  case Nil
  then show ?case by auto
next
  case (Cons v vs)
  have "scan_inv target ivs (iv_start (ivs ! v)) (insert v D) (scan_vreg target ivs sc v)"
    using Cons.prems by (intro scan_vreg_inv [OF assms(1) Cons.prems(1)]) auto
  from Cons.IH [OF this] Cons.prems show ?case by auto
qed

lemma scan_start_inv:
  assumes "\<And>v. v < length ivs \<Longrightarrow> cur \<le> iv_start (ivs ! v)"
  shows "scan_inv target ivs cur {}
    \<lparr>locations = replicate (length ivs) LOCATION_NONE, reg_free = replicate TARGET_MAX_REGS True, active = [], spills = 0\<rparr>"
  by (simp add: scan_inv_def active_inv_def locations_ok_def)

lemma linear_scan_inv:
  assumes "target_ok target"
  shows "\<exists>cur. scan_inv target ivs cur {v. v < length ivs \<and> iv_start (ivs ! v) \<le> iv_end (ivs ! v)} (linear_scan target ivs)"
proof -
  define m where "m = Min (insert 0 (iv_start ` set ivs))"
  have m: "m \<le> iv_start (ivs ! v)" if "v < length ivs" for v
    unfolding m_def using that by (intro Min_le) auto
  have "v < length ivs \<and> v \<notin> {} \<and> m \<le> iv_start (ivs ! v)" if "v \<in> set (scan_order ivs)" for v
    using that m by (auto simp: set_scan_order)
  from scan_vregs_inv [OF assms scan_start_inv [OF m] sorted_scan_order distinct_scan_order this]
  show ?thesis by (simp add: linear_scan_def set_scan_order)
qed

definition used_interval :: "live_interval \<Rightarrow> bool" where
  "used_interval iv \<longleftrightarrow> iv_start iv \<le> iv_end iv"

text \<open>What an allocation promises: every interval that is used has a location, and no other;
  intervals that overlap never share one; a register is of the class of its interval, and
  callee-saved when the interval spans a call; the spill slots are counted and used once.\<close>

definition allocation_ok :: "target_desc \<Rightarrow> live_interval list \<Rightarrow> location list \<Rightarrow> nat \<Rightarrow> bool" where
  "allocation_ok target ivs locs n \<longleftrightarrow>
     length locs = length ivs \<and>
     (\<forall>v < length ivs. locs ! v = LOCATION_NONE \<longleftrightarrow> \<not> used_interval (ivs ! v)) \<and>
     (\<forall>v < length ivs. \<forall>w < length ivs. used_interval (ivs ! v) \<longrightarrow> used_interval (ivs ! w) \<longrightarrow> v \<noteq> w \<longrightarrow>
        overlap (ivs ! v) (ivs ! w) \<longrightarrow> locs ! v \<noteq> locs ! w) \<and>
     (\<forall>v < length ivs. \<forall>r. locs ! v = LOCATION_REG r \<longrightarrow> reg_allowed target (ivs ! v) r) \<and>
     (\<forall>v < length ivs. \<forall>s. locs ! v = LOCATION_SPILL s \<longrightarrow> s < n) \<and>
     (\<forall>v < length ivs. \<forall>w < length ivs. \<forall>s. locs ! v = LOCATION_SPILL s \<longrightarrow> locs ! w = LOCATION_SPILL s \<longrightarrow> v = w)"

lemma linear_scan_allocates:
  assumes "target_ok target"
  shows "allocation_ok target ivs (locations (linear_scan target ivs)) (spills (linear_scan target ivs))"
proof -
  let ?locs = "locations (linear_scan target ivs)" and ?n = "spills (linear_scan target ivs)"
  obtain cur where inv: "scan_inv target ivs cur {v. v < length ivs \<and> used_interval (ivs ! v)} (linear_scan target ivs)"
    using linear_scan_inv [OF assms] unfolding used_interval_def by blast
  have len: "length ?locs = length ivs"
    and none: "\<And>v. v < length ivs \<Longrightarrow> ?locs ! v = LOCATION_NONE \<longleftrightarrow> \<not> used_interval (ivs ! v)"
    and ok: "locations_ok target ivs {v. v < length ivs \<and> used_interval (ivs ! v)} ?locs ?n"
    using inv by (auto simp: scan_inv_def)
  have used: "v \<in> {v. v < length ivs \<and> used_interval (ivs ! v)}" if "v < length ivs" "?locs ! v \<noteq> LOCATION_NONE" for v
    using none that by blast
  show ?thesis
    unfolding allocation_ok_def
  proof (intro conjI allI impI)
    fix v w assume vw: "v < length ivs" "w < length ivs" "used_interval (ivs ! v)" "used_interval (ivs ! w)"
      "v \<noteq> w" "overlap (ivs ! v) (ivs ! w)"
    then have in_D: "v \<in> {v. v < length ivs \<and> used_interval (ivs ! v)}" "w \<in> {v. v < length ivs \<and> used_interval (ivs ! v)}"
      by simp_all
    show "?locs ! v \<noteq> ?locs ! w"
    proof (cases "?locs ! v")
      case LOCATION_NONE
      then show ?thesis using none vw by metis
    next
      case (LOCATION_REG r)
      then have "?locs ! w \<noteq> LOCATION_REG r"
        using ok in_D vw(5,6) unfolding locations_ok_def by blast
      then show ?thesis using LOCATION_REG by simp
    next
      case (LOCATION_SPILL s)
      then have "?locs ! w \<noteq> LOCATION_SPILL s"
        using ok in_D vw(5) unfolding locations_ok_def by blast
      then show ?thesis using LOCATION_SPILL by simp
    qed
  next
    fix v r assume "v < length ivs" "?locs ! v = LOCATION_REG r"
    then show "reg_allowed target (ivs ! v) r"
      using ok used [of v] unfolding locations_ok_def by (metis location.distinct(1))
  next
    fix v s assume "v < length ivs" "?locs ! v = LOCATION_SPILL s"
    then show "s < ?n"
      using ok used [of v] unfolding locations_ok_def by (metis location.distinct(3))
  next
    fix v w s assume "v < length ivs" "w < length ivs" "?locs ! v = LOCATION_SPILL s" "?locs ! w = LOCATION_SPILL s"
    moreover from this have "v \<in> {v. v < length ivs \<and> used_interval (ivs ! v)}" "w \<in> {v. v < length ivs \<and> used_interval (ivs ! v)}"
      using used by (metis location.distinct(3))+
    ultimately show "v = w" using ok unfolding locations_ok_def by blast
  qed (use len none in auto)
qed

text \<open>C4: the scan keeps that promise, for any intervals.\<close>

theorem linear_scan_sound:
  assumes "target_ok target"
  shows "allocation_ok target ivs (locations (linear_scan target ivs)) (spills (linear_scan target ivs))"
  by (rule linear_scan_allocates [OF assms])

text \<open>A target with two registers for each class, and three intervals for the integer ones: the last
  spills the first, which ends after it.\<close>

definition small_target :: target_desc where
  "small_target = \<lparr>allocatable = (\<lambda>c. case c of REG_CLASS_GPR \<Rightarrow> [0, 1] | REG_CLASS_FPR \<Rightarrow> [2, 3]),
                   is_callee_saved = (\<lambda>r. r = 1 \<or> r = 3)\<rparr>"

definition small_intervals :: "live_interval list" where
  "small_intervals =
     [\<lparr>iv_vreg = 0, iv_start = 0, iv_end = 20, iv_class = REG_CLASS_GPR, crosses_call = False\<rparr>,
      \<lparr>iv_vreg = 1, iv_start = 2, iv_end = 10, iv_class = REG_CLASS_GPR, crosses_call = True\<rparr>,
      \<lparr>iv_vreg = 2, iv_start = 4, iv_end = 6, iv_class = REG_CLASS_GPR, crosses_call = False\<rparr>]"

lemma small_target_ok: "target_ok small_target"
  by (auto simp: target_ok_def small_target_def TARGET_MAX_REGS_def split: reg_class.splits)

lemma small_scan: "locations (linear_scan small_target small_intervals) =
    [LOCATION_SPILL 0, LOCATION_REG 1, LOCATION_REG 0]"
  by code_simp

lemma linear_scan_sound_witness:
  "allocation_ok small_target small_intervals (locations (linear_scan small_target small_intervals))
     (spills (linear_scan small_target small_intervals))"
  by (rule linear_scan_sound [OF small_target_ok])

end
