(* ===== verification/RegAllocCorrect.thy ===== *)
theory RegAllocCorrect
  imports RegAlloc
begin

text \<open>
  What the register allocation of \<^verbatim>\<open>RegAlloc\<close> means for the function that is compiled. The
  interval of a register covers every point where it is live and every instruction that writes it
  (so registers that are live together have different locations), and a program that keeps every
  register at its location does what the program on registers does, also when the calls clobber
  the caller-saved registers of the target.
\<close>

section \<open>Positions\<close>

definition block_pos :: "ir_function \<Rightarrow> nat \<Rightarrow> int" where
  "block_pos func b = 2 + (\<Sum>c < b. 2 * (int (length (insts_of func c)) + 1))"

text \<open>The position of an instruction, and of the terminator after the last.\<close>

definition point_pos :: "ir_function \<Rightarrow> nat \<Rightarrow> nat \<Rightarrow> int" where
  "point_pos func b i = block_pos func b + 2 * int i"

definition inst_off :: "ir_function \<Rightarrow> nat \<Rightarrow> nat" where
  "inst_off func b = (\<Sum>c < b. length (insts_of func c))"

abbreviation call_indices :: "ir_inst list \<Rightarrow> nat list" where
  "call_indices insts \<equiv> filter (\<lambda>i. ir_inst_is_call_like (insts ! i)) [0..<length insts]"

lemma number_insts:
  "foldl number_inst n insts =
     n\<lparr>inst_positions := inst_positions n @ map (\<lambda>i. n_pos n + 2 * int i) [0..<length insts],
       call_positions := call_positions n @ map (\<lambda>i. n_pos n + 2 * int i) (call_indices insts),
       n_pos := n_pos n + 2 * int (length insts)\<rparr>"
proof (induction insts rule: rev_induct)
  case Nil
  then show ?case by simp
next
  case (snoc inst insts)
  have eq: "call_indices (insts @ [inst]) =
      call_indices insts @ (if ir_inst_is_call_like inst then [length insts] else [])"
    by (auto simp: nth_append intro!: filter_cong)
  show ?case unfolding foldl_append foldl.simps snoc eq by (simp add: number_inst_def)
qed

lemma number_blocks:
  "foldl (number_block func) \<lparr>n_pos = 2, block_start = [], block_end = [], inst_positions = [], call_positions = []\<rparr> [0..<k] =
     \<lparr>n_pos = block_pos func k,
      block_start = map (block_pos func) [0..<k],
      block_end = map (\<lambda>b. point_pos func b (length (insts_of func b))) [0..<k],
      inst_positions = concat (map (\<lambda>b. map (point_pos func b) [0..<length (insts_of func b)]) [0..<k]),
      call_positions = concat (map (\<lambda>b. map (point_pos func b) (call_indices (insts_of func b))) [0..<k])\<rparr>"
proof (induction k)
  case 0
  then show ?case by (simp add: block_pos_def)
next
  case (Suc k)
  then show ?case
    by (simp add: number_block_def Let_def insts_of_def [symmetric] number_insts block_pos_def point_pos_def
        algebra_simps)
qed

lemmas number_function_eq = number_blocks [of func "block_count func" for func, folded number_function_def]

lemma inst_positions_nth:
  assumes "b < k" and "i < length (insts_of func b)"
  shows "concat (map (\<lambda>b. map (point_pos func b) [0..<length (insts_of func b)]) [0..<k]) ! (inst_off func b + i) =
    point_pos func b i"
  using assms(1)
proof (induction k)
  case (Suc k)
  have len: "length (concat (map (\<lambda>b. map (point_pos func b) [0..<length (insts_of func b)]) [0..<k])) = inst_off func k"
    by (induction k) (simp_all add: inst_off_def)
  show ?case
  proof (cases "b = k")
    case True
    then show ?thesis using len assms(2) by (simp add: nth_append)
  next
    case False
    then have b: "b < k" using Suc.prems by simp
    have "inst_off func b + i < inst_off func (Suc b)"
      using assms(2) by (simp add: inst_off_def)
    also have "\<dots> \<le> inst_off func k"
      unfolding inst_off_def using b by (intro sum_mono2) auto
    finally show ?thesis using Suc.IH [OF b] len by (simp add: nth_append)
  qed
qed simp

section \<open>Intervals\<close>

text \<open>What the code extends the intervals by, in its order.\<close>

definition inst_events :: "int \<Rightarrow> ir_inst \<Rightarrow> (int \<times> int) list" where
  "inst_events pos inst =
     map (\<lambda>v. (v, pos)) (ir_inst_uses inst) @ (if i_dst inst \<noteq> IR_NO_VREG then [(i_dst inst, pos)] else [])"

definition live_events :: "ir_liveness \<Rightarrow> numbering \<Rightarrow> nat \<Rightarrow> nat \<Rightarrow> (int \<times> int) list" where
  "live_events live n b v =
     (if ir_bitset_get (live_in live ! b) v then [(int v, block_start n ! b)] else []) @
     (if ir_bitset_get (live_out live ! b) v then [(int v, block_end n ! b)] else [])"

definition block_events :: "ir_function \<Rightarrow> ir_liveness \<Rightarrow> numbering \<Rightarrow> nat \<Rightarrow> (int \<times> int) list" where
  "block_events func live n b =
     concat (map (live_events live n b) [0..<vreg_count func]) @
     concat (map (\<lambda>i. inst_events (inst_positions n ! (inst_off func b + i)) (insts_of func b ! i))
       [0..<length (insts_of func b)]) @
     map (\<lambda>v. (v, block_end n ! b)) (ir_term_uses (b_term (block_at func b)))"

definition events :: "ir_function \<Rightarrow> ir_liveness \<Rightarrow> numbering \<Rightarrow> (int \<times> int) list" where
  "events func live n =
     map (\<lambda>v. (v, 0)) (f_params func) @ concat (map (block_events func live n) [0..<block_count func])"

lemma foldl_extend_map:
  "foldl (\<lambda>ivs v. extend_vreg ivs (v, pos)) ivs vs = foldl extend_vreg ivs (map (\<lambda>v. (v, pos)) vs)"
  by (induction vs arbitrary: ivs) auto

lemma extend_lives:
  "foldl (extend_live live n b) ivs vs = foldl extend_vreg ivs (concat (map (live_events live n b) vs))"
  by (induction vs arbitrary: ivs) (auto simp: extend_live_def live_events_def Let_def)

lemma extend_inst_eq:
  "extend_inst n (ivs, k) inst = (foldl extend_vreg ivs (inst_events (inst_positions n ! k) inst), Suc k)"
  by (simp add: extend_inst_def inst_events_def foldl_extend_map Let_def)

lemma extend_insts:
  "foldl (extend_inst n) (ivs, k) insts =
     (foldl extend_vreg ivs (concat (map (\<lambda>i. inst_events (inst_positions n ! (k + i)) (insts ! i)) [0..<length insts])),
      k + length insts)"
proof (induction insts rule: rev_induct)
  case (snoc inst insts)
  have eq: "map (\<lambda>i. inst_events (inst_positions n ! (k + i)) ((insts @ [inst]) ! i)) [0..<length insts] =
      map (\<lambda>i. inst_events (inst_positions n ! (k + i)) (insts ! i)) [0..<length insts]"
    by (simp add: nth_append)
  show ?case
    using snoc by (simp add: extend_inst_eq eq)
qed simp

lemma extend_blocks:
  "foldl (extend_block func live n) (ivs, 0) [0..<k] =
     (foldl extend_vreg ivs (concat (map (block_events func live n) [0..<k])), inst_off func k)"
proof (induction k)
  case 0
  then show ?case by (simp add: inst_off_def)
next
  case (Suc k)
  then show ?case
    by (simp add: extend_block_def extend_lives insts_of_def [symmetric] extend_insts foldl_extend_map
        block_events_def Let_def) (simp add: inst_off_def)
qed

lemma build_intervals_events:
  "build_intervals func live n = foldl extend_vreg (empty_intervals func) (events func live n)"
  by (simp add: build_intervals_def extend_blocks foldl_extend_map events_def)

definition covers :: "live_interval list \<Rightarrow> nat \<Rightarrow> int \<Rightarrow> bool" where
  "covers ivs v pos \<longleftrightarrow> v < length ivs \<and> iv_start (ivs ! v) \<le> pos \<and> pos \<le> iv_end (ivs ! v)"

lemma interval_extend_simps [simp]:
  "iv_start (interval_extend iv pos) = min (iv_start iv) pos"
  "iv_end (interval_extend iv pos) = max (iv_end iv) pos"
  by (auto simp: interval_extend_def Let_def)

lemma length_extend [simp]: "length (foldl extend_vreg ivs evs) = length ivs"
  by (induction evs arbitrary: ivs) (auto simp: extend_vreg_def)

lemma extend_keeps:
  "covers ivs v pos \<Longrightarrow> covers (foldl extend_vreg ivs evs) v pos"
proof (induction evs arbitrary: ivs)
  case (Cons e evs)
  have "covers (extend_vreg ivs e) v pos"
    using Cons.prems by (cases e; cases "nat (fst e) = v") (auto simp: extend_vreg_def covers_def)
  then show ?case using Cons.IH by simp
qed simp

lemma extend_covers:
  assumes "(v, pos) \<in> set evs" and "nat v < length ivs"
  shows "covers (foldl extend_vreg ivs evs) (nat v) pos"
  using assms
proof (induction evs arbitrary: ivs)
  case (Cons e evs)
  show ?case
  proof (cases "e = (v, pos)")
    case True
    have "covers (extend_vreg ivs e) (nat v) pos"
      using Cons.prems(2) True by (simp add: extend_vreg_def covers_def)
    then show ?thesis using extend_keeps by simp
  next
    case False
    have "length (extend_vreg ivs e) = length ivs" by (cases e) (simp add: extend_vreg_def)
    then show ?thesis
      using Cons.IH [of "extend_vreg ivs e"] Cons.prems False by simp
  qed
qed simp

section \<open>What the intervals cover\<close>

lemma length_empty_intervals [simp]: "length (empty_intervals func) = vreg_count func"
  by (simp add: empty_intervals_def)

lemma event_covers:
  assumes "(v, pos) \<in> set (events func live n)" and "vreg_ok func v"
  shows "covers (build_intervals func live n) (nat v) pos"
  unfolding build_intervals_events
  using assms by (intro extend_covers) (auto simp: vreg_ok_def)

lemma use_event:
  assumes "b < block_count func" and "i < length (insts_of func b)"
    and "v \<in> set (ir_inst_uses (insts_of func b ! i)) \<or> (v = i_dst (insts_of func b ! i) \<and> v \<noteq> IR_NO_VREG)"
  shows "(v, point_pos func b i) \<in> set (events func live (number_function func))"
proof -
  have "(v, point_pos func b i) \<in> set (inst_events (point_pos func b i) (insts_of func b ! i))"
    using assms(3) by (auto simp: inst_events_def)
  moreover have "inst_positions (number_function func) ! (inst_off func b + i) = point_pos func b i"
    using inst_positions_nth [OF assms(1,2)] by (simp add: number_function_eq)
  ultimately have "(v, point_pos func b i) \<in> set (block_events func live (number_function func) b)"
    using assms(2) by (auto simp: block_events_def intro!: bexI [of _ i])
  then show ?thesis using assms(1) by (auto simp: events_def)
qed

lemma term_event:
  assumes "b < block_count func" and "v \<in> set (ir_term_uses (b_term (block_at func b)))"
  shows "(v, point_pos func b (length (insts_of func b))) \<in> set (events func live (number_function func))"
proof -
  have "(v, point_pos func b (length (insts_of func b))) \<in> set (block_events func live (number_function func) b)"
    using assms by (simp add: block_events_def number_function_eq)
  then show ?thesis using assms(1) by (auto simp: events_def)
qed

lemma live_in_event:
  assumes "b < block_count func" and "v < vreg_count func" and "ir_bitset_get (live_in live ! b) v"
  shows "(int v, point_pos func b 0) \<in> set (events func live (number_function func))"
proof -
  have "(int v, point_pos func b 0) \<in> set (live_events live (number_function func) b v)"
    using assms by (simp add: live_events_def number_function_eq point_pos_def)
  then have "(int v, point_pos func b 0) \<in> set (block_events func live (number_function func) b)"
    using assms(2) by (auto simp: block_events_def)
  then show ?thesis using assms(1) by (auto simp: events_def)
qed

lemma live_out_event:
  assumes "b < block_count func" and "v < vreg_count func" and "ir_bitset_get (live_out live ! b) v"
  shows "(int v, point_pos func b (length (insts_of func b))) \<in> set (events func live (number_function func))"
proof -
  have "(int v, point_pos func b (length (insts_of func b))) \<in> set (live_events live (number_function func) b v)"
    using assms by (simp add: live_events_def number_function_eq)
  then have "(int v, point_pos func b (length (insts_of func b))) \<in> set (block_events func live (number_function func) b)"
    using assms(2) by (auto simp: block_events_def)
  then show ?thesis using assms(1) by (auto simp: events_def)
qed

lemma exposed_uses: "v \<in> exposed insts S \<Longrightarrow> (\<exists>inst \<in> set insts. v \<in> inst_uses inst) \<or> v \<in> S"
  by (induction insts) auto

lemma live_next_use:
  assumes "live_at func b i v" and "i \<le> length (insts_of func b)"
  shows "(\<exists>j < length (insts_of func b). i \<le> j \<and> v \<in> inst_uses (insts_of func b ! j)) \<or>
    v \<in> term_uses (b_term (block_at func b)) \<or> v \<in> live_after func b"
proof -
  from assms live_at_exposed have
    "v \<in> exposed (drop i (insts_of func b)) (term_uses (b_term (block_at func b)) \<union> live_after func b)" by blast
  from exposed_uses [OF this] show ?thesis
  proof
    assume "\<exists>inst \<in> set (drop i (insts_of func b)). v \<in> inst_uses inst"
    then obtain k where "k < length (drop i (insts_of func b))" "v \<in> inst_uses (drop i (insts_of func b) ! k)"
      by (auto simp: in_set_conv_nth)
    then show ?thesis by (intro disjI1 exI [of _ "i + k"]) auto
  qed blast
qed

lemma live_prev_def:
  assumes "live_at func b i v" and "i \<le> length (insts_of func b)"
  shows "(\<exists>j < i. v \<in> inst_defs (insts_of func b ! j)) \<or> live_at func b 0 v"
  using assms
proof (induction i)
  case (Suc i)
  then have i: "i < length (insts_of func b)" by simp
  show ?case
  proof (cases "v \<in> inst_defs (insts_of func b ! i)")
    case True
    then show ?thesis by auto
  next
    case False
    have "live_at func b i v" by (rule live_at.used_later [OF i False Suc.prems(1)])
    then show ?thesis using Suc.IH i by (auto simp: less_Suc_eq)
  qed
qed simp

lemma live_at_range:
  assumes "ir_wf func"
  shows "live_at func b i v \<Longrightarrow> b < block_count func \<Longrightarrow> v < vreg_count func"
proof (induction rule: live_at.induct)
  case (used_here i b v)
  then obtain u where "u \<in> set (ir_inst_uses (insts_of func b ! i))" "v = nat u" by (auto simp: inst_uses_def)
  moreover have "insts_of func b ! i \<in> set (insts_of func b)" using used_here by simp
  ultimately have "vreg_ok func u" using assms used_here unfolding ir_wf_def by blast
  then show ?case using \<open>v = nat u\<close> by (auto simp: vreg_ok_def)
next
  case (used_at_end v b)
  then obtain u where "u \<in> set (ir_term_uses (b_term (block_at func b)))" "v = nat u" by (auto simp: term_uses_def)
  moreover from this have "vreg_ok func u" using assms used_at_end unfolding ir_wf_def by blast
  ultimately show ?case by (auto simp: vreg_ok_def)
next
  case (used_after s b v)
  then show ?case using assms by (auto simp: ir_wf_def)
qed

lemma point_pos_mono: "i \<le> j \<Longrightarrow> point_pos func b i \<le> point_pos func b j"
  by (simp add: point_pos_def)

lemma intervals_cover_defs:
  assumes "ir_wf func" and "b < block_count func" and "i < length (insts_of func b)"
    and "i_dst (insts_of func b ! i) \<noteq> IR_NO_VREG"
  shows "covers (build_intervals func live (number_function func)) (nat (i_dst (insts_of func b ! i))) (point_pos func b i)"
proof -
  have "insts_of func b ! i \<in> set (insts_of func b)" using assms(3) by simp
  then have "vreg_ok func (i_dst (insts_of func b ! i))" using assms(1,2,4) unfolding ir_wf_def by blast
  then show ?thesis using assms by (intro event_covers use_event) auto
qed

lemma intervals_cover_live:
  assumes wf: "ir_wf func" and live: "ir_compute_liveness func = Some live" and b: "b < block_count func"
    and i: "i \<le> length (insts_of func b)" and v: "live_at func b i v"
  shows "covers (build_intervals func live (number_function func)) v (point_pos func b i)" (is "covers ?ivs v _")
proof -
  let ?len = "length (insts_of func b)"
  obtain l where l: "ir_compute_liveness func = Some l" "live_ok func l"
      "\<forall>b < block_count func. In l b = {v. live_at func b 0 v} \<and> Out l b = live_after func b"
  proof -
    obtain l where "ir_compute_liveness func = Some l" "live_ok func l" "live_solution func l"
      using ir_compute_liveness_stops [OF wf] .
    then show thesis using that liveness_sets [OF wf] by blast
  qed
  have range: "v < vreg_count func" by (rule live_at_range [OF wf v b])
  have ok: "vreg_ok func (int v)" using range by (simp add: vreg_ok_def)
  have get_in: "ir_bitset_get (live_in live ! b) v \<longleftrightarrow> live_at func b 0 v"
    and get_out: "ir_bitset_get (live_out live ! b) v \<longleftrightarrow> v \<in> live_after func b"
    using l live b range bits.get_elems [of "vreg_count func"] by (auto simp: live_ok_def live_wf_def)
  have cov: "covers ?ivs v pos" if "(int v, pos) \<in> set (events func live (number_function func))" for pos
    using event_covers [OF that ok] by simp
  have upper: "\<exists>j \<ge> i. covers ?ivs v (point_pos func b j)"
    using live_next_use [OF v i]
  proof (elim disjE exE conjE)
    fix j assume j: "j < ?len" "i \<le> j" "v \<in> inst_uses (insts_of func b ! j)"
    then obtain u where u: "u \<in> set (ir_inst_uses (insts_of func b ! j))" "v = nat u" by (auto simp: inst_uses_def)
    have "insts_of func b ! j \<in> set (insts_of func b)" using j by simp
    then have "vreg_ok func u" using wf b u(1) unfolding ir_wf_def by blast
    then have "u = int v" using u(2) by (simp add: vreg_ok_def)
    then show ?thesis using cov [OF use_event [OF b j(1)]] u(1) j(2) by blast
  next
    assume "v \<in> term_uses (b_term (block_at func b))"
    then obtain u where u: "u \<in> set (ir_term_uses (b_term (block_at func b)))" "v = nat u" by (auto simp: term_uses_def)
    then have "u = int v" using wf b by (auto simp: ir_wf_def vreg_ok_def)
    then show ?thesis using cov [OF term_event [OF b]] u(1) i by blast
  next
    assume "v \<in> live_after func b"
    then show ?thesis using cov [OF live_out_event [OF b range]] get_out i by blast
  qed
  have lower: "\<exists>j \<le> i. covers ?ivs v (point_pos func b j)"
    using live_prev_def [OF v i]
  proof (elim disjE exE conjE)
    fix j assume j: "j < i" "v \<in> inst_defs (insts_of func b ! j)"
    then have "covers ?ivs v (point_pos func b j)"
      using intervals_cover_defs [OF wf b, of j live] i by (auto simp: inst_defs_def split: if_splits)
    then show ?thesis using j(1) by (metis less_imp_le)
  next
    assume "live_at func b 0 v"
    then show ?thesis using cov [OF live_in_event [OF b range]] get_in by blast
  qed
  obtain j k where "j \<le> i" "i \<le> k" "covers ?ivs v (point_pos func b j)" "covers ?ivs v (point_pos func b k)"
    using upper lower by blast
  then show ?thesis
    using point_pos_mono [of j i func b] point_pos_mono [of i k func b] by (simp add: covers_def)
qed

section \<open>The allocation of a function\<close>

lemma mark_crossing_simps [simp]:
  "iv_start (mark_crossing calls iv) = iv_start iv"
  "iv_end (mark_crossing calls iv) = iv_end iv"
  "iv_class (mark_crossing calls iv) = iv_class iv"
  by (simp_all add: mark_crossing_def)

lemma covers_mark_crossing [simp]: "covers (map (mark_crossing calls) ivs) v pos = covers ivs v pos"
  by (auto simp: covers_def)

lemma extend_class:
  "map iv_class (foldl extend_vreg ivs evs) = map iv_class ivs"
proof (induction evs arbitrary: ivs)
  case (Cons e evs)
  have "iv_class (interval_extend iv pos) = iv_class iv" for iv pos
    by (auto simp: interval_extend_def Let_def)
  then have "iv_class (extend_vreg ivs e ! i) = iv_class (ivs ! i)" if "i < length ivs" for i
    using that by (cases e; cases "nat (fst e) = i") (simp_all add: extend_vreg_def)
  moreover have "length (extend_vreg ivs e) = length ivs" by (cases e) (simp add: extend_vreg_def)
  ultimately have "map iv_class (extend_vreg ivs e) = map iv_class ivs"
    by (intro nth_equalityI) auto
  then show ?case using Cons.IH by simp
qed simp

text \<open>Everything the later proofs need of a result.\<close>

definition covers_function :: "ir_function \<Rightarrow> regalloc_result \<Rightarrow> bool" where
  "covers_function func r \<longleftrightarrow>
     (\<forall>b < block_count func. \<forall>i \<le> length (insts_of func b). \<forall>v. live_at func b i v \<longrightarrow>
        covers (ra_intervals r) v (point_pos func b i)) \<and>
     (\<forall>b < block_count func. \<forall>i < length (insts_of func b). i_dst (insts_of func b ! i) \<noteq> IR_NO_VREG \<longrightarrow>
        covers (ra_intervals r) (nat (i_dst (insts_of func b ! i))) (point_pos func b i)) \<and>
     (\<forall>v \<in> set (f_params func). covers (ra_intervals r) (nat v) 0) \<and>
     (\<forall>b < block_count func. \<forall>i < length (insts_of func b). \<forall>v < length (ra_intervals r).
        ir_inst_is_call_like (insts_of func b ! i) \<longrightarrow>
        iv_start (ra_intervals r ! v) < point_pos func b i \<longrightarrow> point_pos func b i < iv_end (ra_intervals r ! v) \<longrightarrow>
        crosses_call (ra_intervals r ! v))"

lemma covers_functionD:
  assumes "covers_function func r"
  shows covers_live: "b < block_count func \<Longrightarrow> i \<le> length (insts_of func b) \<Longrightarrow> live_at func b i v \<Longrightarrow>
      covers (ra_intervals r) v (point_pos func b i)"
    and covers_dst: "b < block_count func \<Longrightarrow> i < length (insts_of func b) \<Longrightarrow>
      i_dst (insts_of func b ! i) \<noteq> IR_NO_VREG \<Longrightarrow>
      covers (ra_intervals r) (nat (i_dst (insts_of func b ! i))) (point_pos func b i)"
    and covers_param: "p \<in> set (f_params func) \<Longrightarrow> covers (ra_intervals r) (nat p) 0"
    and covers_call: "b < block_count func \<Longrightarrow> i < length (insts_of func b) \<Longrightarrow> v < length (ra_intervals r) \<Longrightarrow>
      ir_inst_is_call_like (insts_of func b ! i) \<Longrightarrow> iv_start (ra_intervals r ! v) < point_pos func b i \<Longrightarrow>
      point_pos func b i < iv_end (ra_intervals r ! v) \<Longrightarrow> crosses_call (ra_intervals r ! v)"
  using assms unfolding covers_function_def by blast+

lemma call_position:
  assumes "b < block_count func" and "i < length (insts_of func b)" and "ir_inst_is_call_like (insts_of func b ! i)"
  shows "point_pos func b i \<in> set (call_positions (number_function func))"
  using assms by (auto simp: number_function_eq)

lemma regalloc_result:
  assumes wf: "ir_wf func" and t: "target_ok target"
  obtains r where "regalloc_function func target = Some r"
    and "allocation_ok target (ra_intervals r) (ra_locations r) (spill_slot_count r)"
    and "length (ra_intervals r) = vreg_count func"
    and "covers_function func r"
proof -
  obtain live where live: "ir_compute_liveness func = Some live"
    using ir_compute_liveness_stops [OF wf] by blast
  let ?n = "number_function func"
  let ?build = "build_intervals func live ?n"
  let ?ivs = "map (mark_crossing (call_positions ?n)) ?build"
  let ?sc = "linear_scan target ?ivs"
  let ?r = "\<lparr>ra_vreg_count = vreg_count func, ra_locations = locations ?sc, ra_intervals = ?ivs,
             spill_slot_count = spills ?sc,
             used_callee_saved = foldl (mark_used target) (replicate TARGET_MAX_REGS False) (locations ?sc),
             ra_inst_positions = inst_positions ?n\<rparr>"
  have 1: "regalloc_function func target = Some ?r"
    by (simp add: regalloc_function_def live Let_def)
  have 2: "allocation_ok target ?ivs (locations ?sc) (spills ?sc)"
    by (rule linear_scan_allocates [OF t])
  have 3: "length ?ivs = vreg_count func"
    by (simp add: build_intervals_events)
  have "covers ?build (nat v) 0" if "v \<in> set (f_params func)" for v
    using that wf by (intro event_covers) (auto simp: events_def ir_wf_def)
  moreover have crosses: "crosses_call (mark_crossing calls iv)"
    if "c \<in> set calls" "iv_start iv < c" "c < iv_end iv" for calls iv c
    using that by (auto simp: mark_crossing_def list_ex_iff)
  moreover have "crosses_call (?ivs ! v)"
    if "b < block_count func" "i < length (insts_of func b)" "v < length ?ivs" "ir_inst_is_call_like (insts_of func b ! i)"
      "iv_start (?ivs ! v) < point_pos func b i" "point_pos func b i < iv_end (?ivs ! v)" for b i v
    using call_position [OF that(1,2,4)] that(3,5,6) by (simp add: crosses)
  ultimately have 4: "covers_function func ?r"
    unfolding covers_function_def
    using intervals_cover_live [OF wf live] intervals_cover_defs [OF wf]
    by (intro conjI allI impI ballI) simp_all
  show thesis using that [OF 1] 2 3 4 by simp
qed

lemma covers_apart:
  assumes "allocation_ok target ivs locs n" and "covers ivs v pos" and "covers ivs w pos" and "v \<noteq> w"
  shows "locs ! v \<noteq> locs ! w"
proof -
  have "used_interval (ivs ! v)" "used_interval (ivs ! w)" "overlap (ivs ! v) (ivs ! w)"
    using assms(2,3) by (auto simp: covers_def used_interval_def overlap_def)
  then show ?thesis using assms unfolding allocation_ok_def covers_def by blast
qed

text \<open>C3: the allocation of a well-formed function succeeds, and gives different locations to
  registers that are live at the same point, and to the register an instruction writes and any
  other that is live before it, its operands among them.\<close>

theorem live_registers_apart:
  assumes "ir_wf func" and "target_ok target"
  shows "\<exists>r. regalloc_function func target = Some r \<and>
    (\<forall>b < block_count func. \<forall>i \<le> length (insts_of func b). \<forall>v w. live_at func b i v \<longrightarrow> live_at func b i w \<longrightarrow> v \<noteq> w \<longrightarrow>
       ra_locations r ! v \<noteq> ra_locations r ! w) \<and>
    (\<forall>b < block_count func. \<forall>i < length (insts_of func b). \<forall>w. i_dst (insts_of func b ! i) \<noteq> IR_NO_VREG \<longrightarrow>
       live_at func b i w \<longrightarrow> w \<noteq> nat (i_dst (insts_of func b ! i)) \<longrightarrow>
       ra_locations r ! nat (i_dst (insts_of func b ! i)) \<noteq> ra_locations r ! w)"
proof -
  obtain r where r: "regalloc_function func target = Some r" "covers_function func r"
      "allocation_ok target (ra_intervals r) (ra_locations r) (spill_slot_count r)"
    using regalloc_result [OF assms] .
  have "ra_locations r ! v \<noteq> ra_locations r ! w"
    if "b < block_count func" "i \<le> length (insts_of func b)" "live_at func b i v" "live_at func b i w" "v \<noteq> w" for b i v w
    by (rule covers_apart [OF r(3) covers_live [OF r(2) that(1,2,3)] covers_live [OF r(2) that(1,2,4)] that(5)])
  moreover have "ra_locations r ! nat (i_dst (insts_of func b ! i)) \<noteq> ra_locations r ! w"
    if "b < block_count func" "i < length (insts_of func b)" "i_dst (insts_of func b ! i) \<noteq> IR_NO_VREG"
      "live_at func b i w" "w \<noteq> nat (i_dst (insts_of func b ! i))" for b i w
    by (rule covers_apart [OF r(3) covers_dst [OF r(2) that(1,2,3)]
          covers_live [OF r(2) that(1) less_imp_le [OF that(2)] that(4)] that(5) [symmetric]])
  ultimately show ?thesis using r(1) by blast
qed

section \<open>Running a function\<close>

text \<open>The meaning of an instruction is a parameter: \<open>effect inst vals m x m'\<close> says that the
  instruction, with these values of its operands and this memory, can give the value \<open>x\<close> and the
  memory \<open>m'\<close>. A state is a point, the values of the registers, and the memory.\<close>

fun term_target :: "('v \<Rightarrow> bool) \<Rightarrow> (int \<Rightarrow> 'v) \<Rightarrow> ir_term \<Rightarrow> nat option" where
  "term_target taken val term =
     (case t_kind term of
        IR_TERM_JMP \<Rightarrow> t_target term
      | IR_TERM_BR \<Rightarrow> (if taken (val (t_cond term)) then t_target term else t_else_target term)
      | _ \<Rightarrow> None)"

inductive ir_step :: "ir_function \<Rightarrow> (ir_inst \<Rightarrow> 'v list \<Rightarrow> 'm \<Rightarrow> 'v \<Rightarrow> 'm \<Rightarrow> bool) \<Rightarrow> ('v \<Rightarrow> bool) \<Rightarrow>
    nat \<times> nat \<times> (nat \<Rightarrow> 'v) \<times> 'm \<Rightarrow> nat \<times> nat \<times> (nat \<Rightarrow> 'v) \<times> 'm \<Rightarrow> bool"
  for func effect taken where
  ir_inst: "b < block_count func \<Longrightarrow> i < length (insts_of func b) \<Longrightarrow> inst = insts_of func b ! i \<Longrightarrow>
    effect inst (map (\<lambda>v. env (nat v)) (ir_inst_uses inst)) m x m' \<Longrightarrow>
    env' = (if i_dst inst = IR_NO_VREG then env else env(nat (i_dst inst) := x)) \<Longrightarrow>
    ir_step func effect taken (b, i, env, m) (b, Suc i, env', m')"
| ir_goto: "b < block_count func \<Longrightarrow> i = length (insts_of func b) \<Longrightarrow>
    term_target taken (\<lambda>v. env (nat v)) (b_term (block_at func b)) = Some t \<Longrightarrow>
    ir_step func effect taken (b, i, env, m) (successor_index func t, 0, env, m)"

text \<open>The same on locations: an instruction that is a call leaves anything in the caller-saved
  registers, and then writes its result.\<close>

definition clobbered :: "target_desc \<Rightarrow> ir_inst \<Rightarrow> location \<Rightarrow> bool" where
  "clobbered target inst l \<longleftrightarrow>
     ir_inst_is_call_like inst \<and> (\<exists>r. l = LOCATION_REG r \<and> \<not> is_callee_saved target r)"

inductive loc_step :: "ir_function \<Rightarrow> target_desc \<Rightarrow> location list \<Rightarrow> (ir_inst \<Rightarrow> 'v list \<Rightarrow> 'm \<Rightarrow> 'v \<Rightarrow> 'm \<Rightarrow> bool) \<Rightarrow>
    ('v \<Rightarrow> bool) \<Rightarrow> nat \<times> nat \<times> (location \<Rightarrow> 'v) \<times> 'm \<Rightarrow> nat \<times> nat \<times> (location \<Rightarrow> 'v) \<times> 'm \<Rightarrow> bool"
  for func target locs effect taken where
  loc_inst: "b < block_count func \<Longrightarrow> i < length (insts_of func b) \<Longrightarrow> inst = insts_of func b ! i \<Longrightarrow>
    effect inst (map (\<lambda>v. store (locs ! nat v)) (ir_inst_uses inst)) m x m' \<Longrightarrow>
    (\<And>l. \<not> clobbered target inst l \<Longrightarrow> after l = store l) \<Longrightarrow>
    store' = (if i_dst inst = IR_NO_VREG then after else after(locs ! nat (i_dst inst) := x)) \<Longrightarrow>
    loc_step func target locs effect taken (b, i, store, m) (b, Suc i, store', m')"
| loc_goto: "b < block_count func \<Longrightarrow> i = length (insts_of func b) \<Longrightarrow>
    term_target taken (\<lambda>v. store (locs ! nat v)) (b_term (block_at func b)) = Some t \<Longrightarrow>
    loc_step func target locs effect taken (b, i, store, m) (successor_index func t, 0, store, m)"

definition agree :: "ir_function \<Rightarrow> location list \<Rightarrow> nat \<Rightarrow> nat \<Rightarrow> (nat \<Rightarrow> 'v) \<Rightarrow> (location \<Rightarrow> 'v) \<Rightarrow> bool" where
  "agree func locs b i env store \<longleftrightarrow> (\<forall>v. live_at func b i v \<longrightarrow> store (locs ! v) = env v)"

text \<open>What the allocator relies on: a register that is live across a call is a parameter, or is
  defined before the call in the order of the layout.\<close>

definition defined_before :: "ir_function \<Rightarrow> nat \<Rightarrow> nat \<Rightarrow> nat \<Rightarrow> bool" where
  "defined_before func b i v \<longleftrightarrow>
     (\<exists>c < block_count func. \<exists>j < length (insts_of func c). i_dst (insts_of func c ! j) = int v \<and>
        (c < b \<or> (c = b \<and> j < i)))"

definition calls_after_defs :: "ir_function \<Rightarrow> bool" where
  "calls_after_defs func \<longleftrightarrow>
     (\<forall>b < block_count func. \<forall>i < length (insts_of func b). \<forall>v.
        ir_inst_is_call_like (insts_of func b ! i) \<longrightarrow> live_at func b (Suc i) v \<longrightarrow>
        v \<notin> inst_defs (insts_of func b ! i) \<longrightarrow>
        int v \<in> set (f_params func) \<or> defined_before func b i v)"

lemma block_pos_after:
  assumes "c < b" and "j < length (insts_of func c)"
  shows "point_pos func c j < block_pos func b"
proof -
  have "(\<Sum>d < c. 2 * (int (length (insts_of func d)) + 1)) + 2 * (int (length (insts_of func c)) + 1) \<le>
      (\<Sum>d < b. 2 * (int (length (insts_of func d)) + 1))"
    using sum_mono2 [of "{..<b}" "{..<Suc c}" "\<lambda>d. 2 * (int (length (insts_of func d)) + 1)"] assms(1) by simp
  then show ?thesis using assms(2) by (simp add: point_pos_def block_pos_def)
qed

lemma block_pos_positive: "0 < block_pos func b"
proof -
  have "0 \<le> (\<Sum>c < b. 2 * (int (length (insts_of func c)) + 1))" by (intro sum_nonneg) simp
  then show ?thesis by (simp add: block_pos_def)
qed

lemma defined_before_starts:
  assumes cov: "covers_function func r" and "defined_before func b i v \<or> int v \<in> set (f_params func)"
  shows "iv_start (ra_intervals r ! v) < point_pos func b i"
  using assms(2)
proof
  assume "defined_before func b i v"
  then obtain c j where c: "c < block_count func" "j < length (insts_of func c)" "i_dst (insts_of func c ! j) = int v"
      "c < b \<or> (c = b \<and> j < i)"
    unfolding defined_before_def by blast
  have "covers (ra_intervals r) v (point_pos func c j)"
    using covers_dst [OF cov c(1,2)] c(3) by simp
  moreover have "point_pos func c j < point_pos func b i"
    using block_pos_after [OF _ c(2), of b] c(4) by (auto simp: point_pos_def)
  ultimately show ?thesis by (simp add: covers_def)
next
  assume "int v \<in> set (f_params func)"
  then have "covers (ra_intervals r) v 0" using covers_param [OF cov] by force
  then show ?thesis using block_pos_positive [of func b] by (simp add: covers_def point_pos_def)
qed

section \<open>Locations simulate registers\<close>

lemma agree_uses:
  assumes "agree func locs b i env store" and "i < length (insts_of func b)"
  shows "map (\<lambda>v. store (locs ! nat v)) (ir_inst_uses (insts_of func b ! i)) =
    map (\<lambda>v. env (nat v)) (ir_inst_uses (insts_of func b ! i))"
proof (rule map_cong [OF refl])
  fix v assume "v \<in> set (ir_inst_uses (insts_of func b ! i))"
  then have "live_at func b i (nat v)"
    using assms(2) by (intro live_at.used_here) (auto simp: inst_uses_def)
  then show "store (locs ! nat v) = env (nat v)" using assms(1) by (simp add: agree_def)
qed

lemma agree_term:
  assumes "agree func locs b (length (insts_of func b)) env store"
  shows "term_target taken (\<lambda>v. store (locs ! nat v)) (b_term (block_at func b)) =
    term_target taken (\<lambda>v. env (nat v)) (b_term (block_at func b))"
proof (cases "t_kind (b_term (block_at func b)) = IR_TERM_BR")
  case True
  then have "live_at func b (length (insts_of func b)) (nat (t_cond (b_term (block_at func b))))"
    by (intro live_at.used_at_end) (simp add: term_uses_def ir_term_uses_eq)
  then have "store (locs ! nat (t_cond (b_term (block_at func b)))) = env (nat (t_cond (b_term (block_at func b))))"
    using assms by (simp add: agree_def)
  then show ?thesis using True by simp
qed (simp split: ir_term_kind.splits)

lemma ir_block_successors_eq:
  "ir_block_successors block =
     (case t_kind (b_term block) of
        IR_TERM_JMP \<Rightarrow> [t_target (b_term block)]
      | IR_TERM_BR \<Rightarrow> [t_target (b_term block), t_else_target (b_term block)]
      | _ \<Rightarrow> [])"
  by (simp add: ir_block_successors_def ir_block_successor_def ir_block_successor_count_def
      numeral_2_eq_2 split: ir_term_kind.splits)

lemma term_target_successor:
  assumes "term_target taken val (b_term (block_at func b)) = Some t"
  shows "successor_index func t \<in> successors func b"
proof -
  have "Some t \<in> set (ir_block_successors (block_at func b))"
    using assms by (auto simp: ir_block_successors_eq split: ir_term_kind.splits if_splits)
  then show ?thesis by (auto simp: successors_def)
qed

lemma loc_step_simulates:
  assumes wf: "ir_wf func" and calls: "calls_after_defs func" and cov: "covers_function func r"
    and alloc: "allocation_ok target (ra_intervals r) (ra_locations r) n"
    and agree: "agree func (ra_locations r) b i env store"
    and step: "loc_step func target (ra_locations r) effect taken (b, i, store, m) (b', i', store', m')"
  shows "\<exists>env'. ir_step func effect taken (b, i, env, m) (b', i', env', m') \<and> agree func (ra_locations r) b' i' env' store'"
  using step
proof cases
  case (loc_inst inst x after)
  let ?locs = "ra_locations r" and ?p = "point_pos func b i"
  define env' where "env' = (if i_dst inst = IR_NO_VREG then env else env(nat (i_dst inst) := x))"
  have i: "b < block_count func" "i < length (insts_of func b)" "inst = insts_of func b ! i" "b' = b" "i' = Suc i"
    using loc_inst by simp_all
  have "effect inst (map (\<lambda>v. env (nat v)) (ir_inst_uses inst)) m x m'"
    using loc_inst agree_uses [OF agree i(2)] by simp
  then have "ir_step func effect taken (b, i, env, m) (b, Suc i, env', m')"
    by (rule ir_step.ir_inst [OF i(1-3) _ env'_def])
  moreover have "agree func ?locs b (Suc i) env' store'"
    unfolding agree_def
  proof (intro allI impI)
    fix w assume w: "live_at func b (Suc i) w"
    show "store' (?locs ! w) = env' w"
    proof (cases "w \<in> inst_defs inst")
      case True
      then show ?thesis using loc_inst by (simp add: env'_def inst_defs_def split: if_splits)
    next
      case False
      have live: "live_at func b i w"
        using live_at.used_later [OF i(2) _ w] False i(3) by simp
      have cw: "covers (ra_intervals r) w ?p"
        using covers_live [OF cov i(1) less_imp_le [OF i(2)] live] .
      have apart: "?locs ! nat (i_dst inst) \<noteq> ?locs ! w" if "i_dst inst \<noteq> IR_NO_VREG"
        using covers_apart [OF alloc covers_dst [OF cov i(1,2)] cw] that False i(3)
        by (simp add: inst_defs_def)
      have "\<not> clobbered target inst (?locs ! w)"
      proof
        assume clob: "clobbered target inst (?locs ! w)"
        then obtain q where call: "ir_inst_is_call_like inst" and q: "?locs ! w = LOCATION_REG q" "\<not> is_callee_saved target q"
          unfolding clobbered_def by blast
        have "defined_before func b i w \<or> int w \<in> set (f_params func)"
          using calls i call w False unfolding calls_after_defs_def by blast
        then have "iv_start (ra_intervals r ! w) < ?p" by (rule defined_before_starts [OF cov])
        moreover have "point_pos func b (Suc i) \<le> iv_end (ra_intervals r ! w)"
          using covers_live [OF cov i(1) Suc_leI [OF i(2)] w] by (simp add: covers_def)
        then have "?p < iv_end (ra_intervals r ! w)" by (simp add: point_pos_def)
        ultimately have "crosses_call (ra_intervals r ! w)"
          using covers_call [OF cov i(1,2)] call cw i(3) by (simp add: covers_def)
        moreover have "reg_allowed target (ra_intervals r ! w) q"
          using alloc cw q(1) unfolding allocation_ok_def covers_def by blast
        ultimately show False using q(2) by (simp add: reg_allowed_def)
      qed
      then have "after (?locs ! w) = store (?locs ! w)" using loc_inst by blast
      moreover have "store' (?locs ! w) = after (?locs ! w)" using loc_inst apart by auto
      moreover have "env' w = env w" using False by (auto simp: env'_def inst_defs_def)
      ultimately show ?thesis using agree live by (simp add: agree_def)
    qed
  qed
  ultimately show ?thesis using i(4,5) by blast
next
  case (loc_goto t)
  then have i: "i = length (insts_of func b)" by simp
  have t: "term_target taken (\<lambda>v. env (nat v)) (b_term (block_at func b)) = Some t"
    using loc_goto agree_term [OF agree [unfolded i]] by simp
  have "ir_step func effect taken (b, i, env, m) (b', i', env, m')"
    using ir_goto [of b func i taken env t effect m] t loc_goto by simp
  moreover have "agree func (ra_locations r) b' i' env store'"
    unfolding agree_def
  proof (intro allI impI)
    fix w assume "live_at func b' i' w"
    then have "live_at func b i w"
      using live_at.used_after [OF term_target_successor [OF t]] loc_goto by simp
    then show "store' (ra_locations r ! w) = env w" using agree loc_goto by (simp add: agree_def)
  qed
  ultimately show ?thesis by blast
qed


section \<open>Concrete functions\<close>

text \<open>\<^verbatim>\<open>v1 = const; call; v2 = v0 + v1; return v2\<close>: two registers are live across the call.\<close>

definition call_example :: ir_function where
  "call_example = example_function [IR_I64, IR_I64, IR_I64] [0]
     [example_block 0
        [example_inst IR_CONST IR_I64 1 IR_NO_VREG IR_NO_VREG,
         example_inst IR_CALL IR_VOID IR_NO_VREG IR_NO_VREG IR_NO_VREG,
         example_inst IR_ADD IR_I64 2 0 1]
        (example_ret 2)]"

lemma call_example_wf: "ir_wf call_example"
  unfolding ir_wf_checked by code_simp

lemma call_example_calls: "calls_after_defs call_example"
proof -
  have insts: "insts_of call_example 0 =
      [example_inst IR_CONST IR_I64 1 IR_NO_VREG IR_NO_VREG,
       example_inst IR_CALL IR_VOID IR_NO_VREG IR_NO_VREG IR_NO_VREG,
       example_inst IR_ADD IR_I64 2 0 1]"
    and trm: "b_term (block_at call_example 0) = example_ret 2" and count: "block_count call_example = 1"
    and params: "f_params call_example = [0]"
    by (simp_all add: insts_of_def block_at_def block_count_def call_example_def example_function_def example_block_def)
  have after: "live_after call_example 0 = {}"
    using trm by (auto simp: live_after_def successors_def ir_block_successors_eq example_ret_def)
  have "live_at call_example 0 2 v \<Longrightarrow> v = 0 \<or> v = 1" for v
    using live_at_exposed [of 2 call_example 0 v] insts after trm
    by (auto simp: numeral_2_eq_2 inst_uses_def inst_defs_def term_uses_def ir_term_uses_eq example_ret_def
        ir_inst_uses_def ir_inst_use_count_def ir_inst_use_def take_use_def example_inst_def)
  moreover have "defined_before call_example 0 1 1"
    using insts count by (auto simp: defined_before_def example_inst_def intro!: exI [of _ 0])
  moreover have "i = 1" if "ir_inst_is_call_like (insts_of call_example 0 ! i)" "i < 3" for i
    using that insts by (auto simp: less_Suc_eq numeral_eq_Suc ir_inst_is_call_like_def example_inst_def)
  ultimately show ?thesis
    using insts count params unfolding calls_after_defs_def by (fastforce simp: numeral_2_eq_2)
qed

lemma live_registers_apart_witness:
  "\<exists>r. regalloc_function loop_example small_target = Some r \<and>
    (\<forall>b < block_count loop_example. \<forall>i \<le> length (insts_of loop_example b). \<forall>v w.
       live_at loop_example b i v \<longrightarrow> live_at loop_example b i w \<longrightarrow> v \<noteq> w \<longrightarrow> ra_locations r ! v \<noteq> ra_locations r ! w) \<and>
    (\<forall>b < block_count loop_example. \<forall>i < length (insts_of loop_example b). \<forall>w.
       i_dst (insts_of loop_example b ! i) \<noteq> IR_NO_VREG \<longrightarrow> live_at loop_example b i w \<longrightarrow>
       w \<noteq> nat (i_dst (insts_of loop_example b ! i)) \<longrightarrow>
       ra_locations r ! nat (i_dst (insts_of loop_example b ! i)) \<noteq> ra_locations r ! w)"
  by (rule live_registers_apart [OF loop_example_wf small_target_ok])


text \<open>A layout with a call at the start of a block, and the register that is live across it defined
  later in the layout. The test \<^verbatim>\<open>interval->start < call_pos\<close> is false there, so the register does
  not count as live across the call.\<close>

definition late_example :: ir_function where
  "late_example = example_function [IR_I64, IR_I64] []
     [example_block 0 [] (example_jmp 2),
      example_block 1 [example_inst IR_CALL IR_VOID IR_NO_VREG IR_NO_VREG IR_NO_VREG] (example_ret 1),
      example_block 2 [example_inst IR_CONST IR_I64 1 IR_NO_VREG IR_NO_VREG] (example_jmp 1)]"

lemma late_example_live: "live_at late_example 1 0 1 \<and> live_at late_example 1 1 1"
proof -
  have insts: "insts_of late_example 1 = [example_inst IR_CALL IR_VOID IR_NO_VREG IR_NO_VREG IR_NO_VREG]"
    and trm: "b_term (block_at late_example 1) = example_ret 1"
    by (simp_all add: insts_of_def block_at_def late_example_def example_function_def example_block_def)
  have "live_at late_example 1 (length (insts_of late_example 1)) 1"
    using trm by (intro live_at.used_at_end) (simp add: term_uses_def ir_term_uses_eq example_ret_def)
  then show ?thesis
    using insts live_at.used_later [of 0 late_example 1 1] by (simp add: inst_defs_def example_inst_def)
qed

text \<open>C36: a register that is live before and after a call can get a caller-saved register, when the
  call is the first instruction of its block and the definition comes later in the layout; so the
  hypothesis of the preceding theorem is needed.\<close>

theorem late_definition_is_clobbered:
  "ir_wf late_example \<and> target_ok small_target \<and>
   live_at late_example 1 0 1 \<and> live_at late_example 1 1 1 \<and>
   (\<exists>r. regalloc_function late_example small_target = Some r \<and>
      clobbered small_target (insts_of late_example 1 ! 0) (ra_locations r ! 1))"
proof -
  have "ir_wf late_example" unfolding ir_wf_checked by code_simp
  moreover have "map_option ra_locations (regalloc_function late_example small_target) = Some [LOCATION_NONE, LOCATION_REG 0]"
    by code_simp
  then obtain r where "regalloc_function late_example small_target = Some r" "ra_locations r = [LOCATION_NONE, LOCATION_REG 0]"
    by auto
  moreover have "clobbered small_target (insts_of late_example 1 ! 0) (LOCATION_REG 0)"
    by (simp add: clobbered_def small_target_def ir_inst_is_call_like_def insts_of_def block_at_def late_example_def
        example_function_def example_block_def example_inst_def)
  ultimately show ?thesis using late_example_live small_target_ok by auto
qed

end
