(* ===== verification/Probing.thy ===== *)
theory Probing
  imports Prelude "HOL-Library.While_Combinator"
begin

text \<open>
  Hash tables with linear probing, which \<^verbatim>\<open>src/src/ir.c\<close> (the globals by name) and
  \<^verbatim>\<open>src/src/x64_asm.c\<close> (the symbols, the registers by name) each write out. A table is seen here as
  the list of the keys in its slots; \<open>home k\<close> is the slot where the search for a key begins. The
  lemmas say that the search loop ends when a slot is free, that it finds the key when it is there
  and the free slot where it goes when it is not, and that putting it there keeps this so.

  \<open>name_table\<close> is the interface that the rest of those files needs of such a table.
\<close>

text \<open>The table sizes are powers of two, and the code moves on with a mask.\<close>

lemma and_mask_mod: "(x :: nat) AND (2 ^ k - Suc 0) = x mod 2 ^ k"
  unfolding One_nat_def [symmetric] mask_eq_exp_minus_1 [symmetric] take_bit_eq_mask [symmetric] take_bit_eq_mod ..

section \<open>The search\<close>

definition probe :: "('k \<Rightarrow> nat) \<Rightarrow> 'k option list \<Rightarrow> 'k \<Rightarrow> nat \<Rightarrow> nat" where
  "probe home tab k d = (home k + d) mod length tab"

definition probe_stops :: "('k \<Rightarrow> nat) \<Rightarrow> 'k option list \<Rightarrow> 'k \<Rightarrow> nat \<Rightarrow> bool" where
  "probe_stops home tab k d \<longleftrightarrow> tab ! probe home tab k d = None \<or> tab ! probe home tab k d = Some k"

definition probe_slot :: "('k \<Rightarrow> nat) \<Rightarrow> 'k option list \<Rightarrow> 'k \<Rightarrow> nat" where
  "probe_slot home tab k = probe home tab k (LEAST d. probe_stops home tab k d)"

text \<open>Every key in the table is where the search for it stops.\<close>

definition probe_ok :: "('k \<Rightarrow> nat) \<Rightarrow> 'k option list \<Rightarrow> bool" where
  "probe_ok home tab \<longleftrightarrow>
     (\<forall>s < length tab. \<forall>k. tab ! s = Some k \<longrightarrow>
        (\<exists>d. probe home tab k d = s \<and> (\<forall>e < d. \<not> probe_stops home tab k e)))"

definition has_room :: "'k option list \<Rightarrow> bool" where
  "has_room tab \<longleftrightarrow> None \<in> set tab"

lemma probe_less: "0 < length tab \<Longrightarrow> probe home tab k d < length tab"
  by (simp add: probe_def)

lemma probe_reaches:
  assumes "s < length tab"
  shows "\<exists>d. probe home tab k d = s"
proof -
  let ?n = "length tab"
  have "(home k mod ?n + (s + (?n - home k mod ?n))) mod ?n = s"
  proof -
    have "home k mod ?n < ?n" using assms by (intro mod_less_divisor) linarith
    then have "home k mod ?n + (s + (?n - home k mod ?n)) = s + ?n" by simp
    then show ?thesis using assms by simp
  qed
  then have "probe home tab k (s + (?n - home k mod ?n)) = s"
    by (simp add: probe_def mod_add_left_eq)
  then show ?thesis ..
qed

lemma probe_stops_exists:
  assumes "has_room tab"
  shows "\<exists>d. probe_stops home tab k d"
proof -
  obtain s where "s < length tab" "tab ! s = None"
    using assms by (auto simp: has_room_def in_set_conv_nth)
  then show ?thesis using probe_reaches [of s tab home k] by (auto simp: probe_stops_def)
qed

text \<open>The loop of the code, which starts at the home and moves on by one.\<close>

lemma while_least:
  assumes "stops D" and "\<And>d. d < D \<Longrightarrow> \<not> stops d" and "d \<le> D"
    and "\<And>e. b (f e) \<longleftrightarrow> \<not> stops e" and "\<And>e. c (f e) = f (Suc e)"
  shows "while_option b c (f d) = Some (f D)"
  using assms(3)
proof (induction "D - d" arbitrary: d)
  case 0
  then have "d = D" by simp
  then show ?case using assms(1,4) by (simp add: while_option_unfold)
next
  case (Suc n)
  then have d: "d < D" by simp
  then have "b (f d)" using assms(2,4) by simp
  then have "while_option b c (f d) = while_option b c (f (Suc d))"
    using assms(5) by (simp add: while_option_unfold [of b c "f d"])
  also have "\<dots> = Some (f D)"
    using Suc d by (intro Suc.hyps(1)) simp_all
  finally show ?case .
qed

lemma while_search:
  assumes "\<exists>d. stops d" and "start = f 0"
    and "\<And>e. b (f e) \<longleftrightarrow> \<not> stops e" and "\<And>e. c (f e) = f (Suc e)"
  shows "\<exists>D. stops D \<and> while_option b c start = Some (f D)"
proof -
  have "while_option b c (f 0) = Some (f (LEAST d. stops d))"
    by (rule while_least [where stops = stops]) (use assms in \<open>auto intro: LeastI_ex dest: not_less_Least\<close>)
  then show ?thesis using LeastI_ex [OF assms(1)] assms(2) by blast
qed

lemma probe_loop:
  assumes room: "has_room tab"
    and test: "\<And>s. s < length tab \<Longrightarrow> b s \<longleftrightarrow> tab ! s \<noteq> None \<and> tab ! s \<noteq> Some k"
    and step: "\<And>s. s < length tab \<Longrightarrow> c s = (s + 1) mod length tab"
    and start: "start = home k mod length tab"
  shows "while_option b c start = Some (probe_slot home tab k)"
proof -
  let ?D = "LEAST d. probe_stops home tab k d"
  have stops: "probe_stops home tab k ?D"
    using probe_stops_exists [OF room] by (rule LeastI_ex)
  have before: "\<not> probe_stops home tab k d" if "d < ?D" for d
    using not_less_Least [OF that] .
  have less: "probe home tab k d < length tab" for d
    using room by (intro probe_less) (auto simp: has_room_def)
  have "while_option b c (probe home tab k 0) = Some (probe home tab k ?D)"
  proof (rule while_least [where stops = "probe_stops home tab k" and f = "probe home tab k"])
    show "b (probe home tab k e) \<longleftrightarrow> \<not> probe_stops home tab k e" for e
      by (simp add: test [OF less] probe_stops_def)
    show "c (probe home tab k e) = probe home tab k (Suc e)" for e
      by (simp add: step [OF less]) (simp add: probe_def mod_Suc_eq)
    show "probe_stops home tab k ?D" by (rule stops)
    show "\<not> probe_stops home tab k d" if "d < ?D" for d by (rule before [OF that])
  qed simp
  then show ?thesis by (simp add: probe_slot_def probe_def start)
qed

lemma probe_slot_less:
  assumes "has_room tab"
  shows "probe_slot home tab k < length tab"
proof -
  have "0 < length tab" using assms by (auto simp: has_room_def)
  then show ?thesis by (simp add: probe_slot_def probe_less)
qed

lemma probe_slot_stops:
  assumes "has_room tab"
  shows "tab ! probe_slot home tab k = None \<or> tab ! probe_slot home tab k = Some k"
  using LeastI_ex [OF probe_stops_exists [OF assms]] by (auto simp: probe_stops_def probe_slot_def)

text \<open>The search finds a key that is in the table.\<close>

lemma probe_slot_found:
  assumes "probe_ok home tab" and "Some k \<in> set tab"
  shows "tab ! probe_slot home tab k = Some k"
proof -
  obtain s where s: "s < length tab" "tab ! s = Some k"
    using assms(2) by (auto simp: in_set_conv_nth)
  then obtain d where d: "probe home tab k d = s" "\<forall>e < d. \<not> probe_stops home tab k e"
    using assms(1) unfolding probe_ok_def by blast
  have "probe_stops home tab k d" using d(1) s by (simp add: probe_stops_def)
  then have "(LEAST d. probe_stops home tab k d) = d"
    using d(2) by (intro Least_equality) (auto simp: not_less [symmetric])
  then show ?thesis using d(1) s by (simp add: probe_slot_def)
qed

lemma probe_slot_found_iff:
  assumes "probe_ok home tab" and "has_room tab"
  shows "tab ! probe_slot home tab k = (if Some k \<in> set tab then Some k else None)"
proof (cases "Some k \<in> set tab")
  case False
  have "tab ! probe_slot home tab k \<in> set tab" using probe_slot_less [OF assms(2)] by simp
  then have "tab ! probe_slot home tab k \<noteq> Some k" using False by metis
  then show ?thesis using probe_slot_stops [OF assms(2)] False by auto
qed (use probe_slot_found [OF assms(1)] in simp)

text \<open>A key is in the table once.\<close>

lemma probe_ok_unique:
  assumes "probe_ok home tab" and "s < length tab" and "tab ! s = Some k"
  shows "s = probe_slot home tab k"
proof -
  obtain d where d: "probe home tab k d = s" "\<forall>e < d. \<not> probe_stops home tab k e"
    using assms unfolding probe_ok_def by blast
  have "probe_stops home tab k d" using d(1) assms by (simp add: probe_stops_def)
  then have "(LEAST d. probe_stops home tab k d) = d"
    using d(2) by (intro Least_equality) (auto simp: not_less [symmetric])
  then show ?thesis using d(1) by (simp add: probe_slot_def)
qed

section \<open>Putting a key in\<close>

lemma probe_ok_put:
  assumes ok: "probe_ok home tab" and room: "has_room tab"
  shows "probe_ok home (tab[probe_slot home tab k := Some k])"
    and "set (tab[probe_slot home tab k := Some k]) - {None} = insert (Some k) (set tab) - {None}"
proof -
  let ?s = "probe_slot home tab k" and ?tab = "tab[probe_slot home tab k := Some k]"
  have s: "?s < length tab" by (rule probe_slot_less [OF room])
  have len: "length ?tab = length tab" by simp
  have probe: "probe home ?tab j d = probe home tab j d" for j d by (simp add: probe_def)
  have stops: "\<not> probe_stops home ?tab j d"
    if "\<not> probe_stops home tab j d" for j d
    using that s probe_slot_stops [OF room, of home k]
    by (cases "probe home tab j d = ?s") (auto simp: probe_stops_def probe)
  show "probe_ok home ?tab"
    unfolding probe_ok_def
  proof (intro allI impI)
    fix t j assume t: "t < length ?tab" "?tab ! t = Some j"
    show "\<exists>d. probe home ?tab j d = t \<and> (\<forall>e < d. \<not> probe_stops home ?tab j e)"
    proof (cases "t = ?s")
      case True
      let ?D = "LEAST d. probe_stops home tab k d"
      have "j = k" using t True s by simp
      moreover have "probe home ?tab k ?D = ?s" unfolding probe by (simp add: probe_slot_def)
      moreover have "\<not> probe_stops home ?tab k e" if "e < ?D" for e
        using stops not_less_Least [OF that] by blast
      ultimately show ?thesis using True by blast
    next
      case False
      then have "tab ! t = Some j" "t < length tab" using t by simp_all
      then obtain d where "probe home tab j d = t" "\<forall>e < d. \<not> probe_stops home tab j e"
        using ok unfolding probe_ok_def by blast
      then show ?thesis using stops probe by blast
    qed
  qed
  show "set ?tab - {None} = insert (Some k) (set tab) - {None}"
  proof
    show "set ?tab - {None} \<subseteq> insert (Some k) (set tab) - {None}"
      using set_update_subset_insert by fastforce
    show "insert (Some k) (set tab) - {None} \<subseteq> set ?tab - {None}"
    proof
      fix x assume x: "x \<in> insert (Some k) (set tab) - {None}"
      show "x \<in> set ?tab - {None}"
      proof (cases "x = Some k")
        case True
        then show ?thesis using set_update_memI [OF s] by simp
      next
        case False
        then obtain t where t: "t < length tab" "tab ! t = x" using x by (auto simp: in_set_conv_nth)
        then have "t \<noteq> ?s" using probe_slot_stops [OF room, of home k] x False by auto
        then have "?tab ! t = x" using t by simp
        then show ?thesis using t(1) x by (metis Diff_iff len nth_mem)
      qed
    qed
  qed
qed

lemma probe_ok_empty: "probe_ok home (replicate n None)"
  by (simp add: probe_ok_def)

text \<open>A table with more slots than keys has room.\<close>

lemma has_room_card:
  assumes "probe_ok home tab" and "set tab - {None} \<subseteq> Some ` K" and "finite K" and "card K < length tab"
  shows "has_room tab"
proof (rule ccontr)
  assume full: "\<not> has_room tab"
  have inj: "inj_on (\<lambda>s. tab ! s) {..<length tab}"
  proof (rule inj_onI)
    fix s t assume st: "s \<in> {..<length tab}" "t \<in> {..<length tab}" "tab ! s = tab ! t"
    then have "tab ! s \<in> set tab" by simp
    then have "tab ! s \<noteq> None" using full unfolding has_room_def by metis
    then obtain k where "tab ! s = Some k" by blast
    then show "s = t" using probe_ok_unique [OF assms(1)] st by (metis lessThan_iff)
  qed
  have "(\<lambda>s. tab ! s) ` {..<length tab} \<subseteq> Some ` K"
    using assms(2) full by (auto simp: has_room_def)
  then have "card {..<length tab} \<le> card (Some ` K)"
    using card_inj_on_le [OF inj] assms(3) by simp
  then show False using assms(4) by (simp add: card_image)
qed

section \<open>The interface\<close>

text \<open>A store of symbols: \<open>intern\<close> gives the number of a name, and makes a new one when the name has
  none yet. It is what the code generators ask of the module, and the assembler of its object.\<close>

locale symbol_interner =
  fixes wf :: "'t \<Rightarrow> bool"
    and lookup :: "'t \<Rightarrow> 'k \<Rightarrow> nat option"
    and intern :: "'t \<Rightarrow> 'k \<Rightarrow> (nat \<times> 't) option"
  assumes intern_returns: "wf t \<Longrightarrow> \<exists>i t'. intern t k = Some (i, t')"
    and intern_lookup: "wf t \<Longrightarrow> intern t k = Some (i, t') \<Longrightarrow> wf t' \<and> lookup t' = (lookup t)(k \<mapsto> i)"
    and intern_known: "wf t \<Longrightarrow> intern t k = Some (i, t') \<Longrightarrow> lookup t k = Some j \<Longrightarrow> i = j"
    and intern_fresh: "wf t \<Longrightarrow> intern t k = Some (i, t') \<Longrightarrow> lookup t k = None \<Longrightarrow> i \<notin> ran (lookup t)"
begin

lemma intern_keeps:
  assumes "wf t" and "intern t k = Some (i, t')" and "lookup t j = Some n"
  shows "lookup t' j = Some n"
  using intern_lookup [OF assms(1,2)] intern_known [OF assms(1,2)] assms(3) by auto

text \<open>Asking for a name again gives the same number.\<close>

lemma intern_again:
  assumes "wf t" and "intern t k = Some (i, t')" and "intern t' k = Some (j, t'')"
  shows "j = i \<and> lookup t'' = lookup t'"
proof -
  have t': "wf t'" "lookup t' k = Some i" using intern_lookup [OF assms(1,2)] by simp_all
  then have "j = i" using intern_known [OF t'(1) assms(3)] by simp
  then show ?thesis using intern_lookup [OF t'(1) assms(3)] t'(2) by auto
qed

text \<open>Different names have different numbers.\<close>

definition separate :: "'t \<Rightarrow> bool" where
  "separate t \<longleftrightarrow> (\<forall>j k n. lookup t j = Some n \<longrightarrow> lookup t k = Some n \<longrightarrow> j = k)"

lemma intern_separate:
  assumes "wf t" and "separate t" and "intern t k = Some (i, t')"
  shows "separate t'"
proof (cases "lookup t k")
  case None
  then have "i \<notin> ran (lookup t)" using intern_fresh [OF assms(1,3)] by simp
  then have fresh: "lookup t j \<noteq> Some i" for j by (auto simp: ran_def)
  have l: "lookup t' = (lookup t)(k \<mapsto> i)" using intern_lookup [OF assms(1,3)] by simp
  show ?thesis using assms(2) fresh unfolding separate_def l by (metis fun_upd_apply option.inject)
next
  case (Some j)
  then have "lookup t' = lookup t"
    using intern_known [OF assms(1,3)] intern_lookup [OF assms(1,3)] by auto
  then show ?thesis using assms(2) by (simp add: separate_def)
qed

text \<open>A list of names, one after the other.\<close>

definition intern_all :: "'t \<Rightarrow> 'k list \<Rightarrow> 't option" where
  "intern_all t ks = foldl (\<lambda>t k. case t of None \<Rightarrow> None | Some t \<Rightarrow> map_option snd (intern t k)) (Some t) ks"

lemma intern_all_correct:
  assumes "wf t" and "separate t"
  shows "\<exists>t'. intern_all t ks = Some t' \<and> wf t' \<and> separate t' \<and> dom (lookup t') = dom (lookup t) \<union> set ks \<and>
    (\<forall>j n. lookup t j = Some n \<longrightarrow> lookup t' j = Some n)"
  using assms
proof (induction ks arbitrary: t)
  case Nil
  then show ?case by (simp add: intern_all_def)
next
  case (Cons k ks)
  obtain i u where u: "intern t k = Some (i, u)" using intern_returns [OF Cons.prems(1)] by blast
  have l: "wf u" "lookup u = (lookup t)(k \<mapsto> i)" using intern_lookup [OF Cons.prems(1) u] by simp_all
  have "intern_all t (k # ks) = intern_all u ks" by (simp add: intern_all_def u)
  moreover obtain t' where "intern_all u ks = Some t'" "wf t'" "separate t'" "dom (lookup t') = dom (lookup u) \<union> set ks"
      "\<forall>j n. lookup u j = Some n \<longrightarrow> lookup t' j = Some n"
    using Cons.IH [OF l(1) intern_separate [OF Cons.prems u]] by blast
  moreover have "dom (lookup u) = insert k (dom (lookup t))" using l(2) by simp
  moreover have "lookup u j = Some n" if "lookup t j = Some n" for j n
    using intern_keeps [OF Cons.prems(1) u that] .
  ultimately show ?case by auto
qed

end

end
