(* ===== verification/IRModule.thy ===== *)
theory IRModule
  imports IR Probing "HOL-Library.Monad_Syntax"
begin

text \<open>
  The module of \<^verbatim>\<open>src/src/ir.c\<close>: its globals, its functions, and the hash table of the globals by
  name. A pointer to a global or to a function is its index in the module. The table holds
  \<open>1 +\<close> the index of a global, 0 in a free slot. A loop of the code that may not end is a
  \<open>while_option\<close>, so the operations return options; they are shown to return.

  The strings are unbounded but where the code formats them into an array of its own
  (\<open>snprintf\<close>). Memory is there when it is asked for, and the table stays below $2^{31}$ slots.
\<close>

section \<open>Globals and modules\<close>

record ir_reloc =
  reloc_offset :: int
  reloc_target :: int

datatype ir_global_kind = IR_GLOBAL_DATA | IR_GLOBAL_FUNCTION | IR_GLOBAL_EXTERN

record ir_global =
  g_index :: nat
  g_kind :: ir_global_kind
  g_name :: string
  g_readonly :: bool
  g_align :: int
  g_size :: int
  g_data :: "u8 list"
  g_relocs :: "ir_reloc list"
  g_function :: "nat option"
  g_is_saad :: bool
  g_library :: "string option"

record ir_module =
  m_globals :: "ir_global list"
  m_functions :: "ir_function list"
  m_names :: "int list"

definition ir_module_new :: ir_module where
  "ir_module_new = \<lparr>m_globals = [], m_functions = [], m_names = []\<rparr>"

section \<open>Names\<close>

text \<open>FNV-1a.\<close>

definition hash_byte :: "u32 \<Rightarrow> char \<Rightarrow> u32" where
  "hash_byte h c = (h XOR of_nat (of_char c)) * 16777619"

definition ir_hash_name :: "string \<Rightarrow> u32" where
  "ir_hash_name name = foldl hash_byte 2166136261 name"

definition entry_name :: "ir_global list \<Rightarrow> int \<Rightarrow> string" where
  "entry_name globals entry = g_name (globals ! nat (entry - 1))"

definition ir_name_slot :: "ir_global list \<Rightarrow> int list \<Rightarrow> string \<Rightarrow> nat option" where
  "ir_name_slot globals names name =
     (let mask = length names - 1 in
      while_option (\<lambda>slot. names ! slot \<noteq> 0 \<and> entry_name globals (names ! slot) \<noteq> name)
        (\<lambda>slot. (slot + 1) AND mask)
        (unat (ir_hash_name name) AND mask))"

text \<open>The loop that puts the names of the old table into the new one.\<close>

definition rehash_entry :: "ir_global list \<Rightarrow> int list option \<Rightarrow> int \<Rightarrow> int list option" where
  "rehash_entry globals names entry =
     (if entry = 0 then names
      else do {
        names \<leftarrow> names;
        slot \<leftarrow> ir_name_slot globals names (entry_name globals entry);
        Some (names[slot := entry])
      })"

definition grow_names :: "ir_global list \<Rightarrow> int list \<Rightarrow> int list option" where
  "grow_names globals old =
     foldl (rehash_entry globals)
       (Some (replicate (if length old \<noteq> 0 then length old * 2 else 256) 0)) old"

definition ir_name_set :: "ir_module \<Rightarrow> nat \<Rightarrow> ir_module option" where
  "ir_name_set m index = do {
     names \<leftarrow> (if length (m_names m) < 2 * (length (m_globals m) + 1)
              then grow_names (m_globals m) (m_names m) else Some (m_names m));
     slot \<leftarrow> ir_name_slot (m_globals m) names (g_name (m_globals m ! index));
     Some (m\<lparr>m_names := (if names ! slot = 0 then names[slot := int index + 1] else names)\<rparr>)
   }"

definition ir_find_global :: "ir_module \<Rightarrow> string \<Rightarrow> int option" where
  "ir_find_global m name =
     (if length (m_names m) = 0 then Some (- 1)
      else do {
        slot \<leftarrow> ir_name_slot (m_globals m) (m_names m) name;
        Some (m_names m ! slot - 1)
      })"

text \<open>\<^verbatim>\<open>%d\<close> of a number that is not negative, and \<^verbatim>\<open>snprintf\<close> into an array of a size.\<close>

fun decimal :: "nat \<Rightarrow> string" where
  "decimal n = (if n < 10 then [char_of (48 + n)] else decimal (n div 10) @ [char_of (48 + n mod 10)])"

declare decimal.simps [simp del]

definition snprintf :: "nat \<Rightarrow> string \<Rightarrow> string" where
  "snprintf sz text = take (sz - 1) text"

definition numbered_name :: "nat \<Rightarrow> string \<Rightarrow> nat \<Rightarrow> string" where
  "numbered_name sz name n = snprintf sz (name @ ''__'' @ decimal n)"

text \<open>A loop over numbered names, which ends at the first that no global has. The search itself
  returns for a well-formed table, so only the loop is left to end.\<close>

definition is_taken :: "ir_module \<Rightarrow> string \<Rightarrow> bool" where
  "is_taken m name \<longleftrightarrow> (case ir_find_global m name of Some i \<Rightarrow> 0 \<le> i | None \<Rightarrow> True)"

definition ir_unique_name :: "ir_module \<Rightarrow> string \<Rightarrow> nat \<Rightarrow> string option" where
  "ir_unique_name m name sz =
     map_option fst
       (while_option (\<lambda>(unique, n). is_taken m unique)
          (\<lambda>(unique, n). (numbered_name sz name n, n + 1))
          (snprintf sz name, 2))"

section \<open>Making globals and functions\<close>

definition ir_global_new :: "ir_module \<Rightarrow> ir_global_kind \<Rightarrow> string \<Rightarrow> (nat \<times> ir_module) option" where
  "ir_global_new m kind name =
     (let index = length (m_globals m);
          global = \<lparr>g_index = index, g_kind = kind, g_name = name, g_readonly = False, g_align = 1,
                    g_size = 0, g_data = [], g_relocs = [], g_function = None, g_is_saad = False,
                    g_library = None\<rparr>
      in do {
        m \<leftarrow> ir_name_set (m\<lparr>m_globals := m_globals m @ [global]\<rparr>) index;
        Some (index, m)
      })"

definition label_char :: "char \<Rightarrow> bool" where
  "label_char c \<longleftrightarrow>
     (let n = of_char c :: nat in (97 \<le> n \<and> n \<le> 122) \<or> (65 \<le> n \<and> n \<le> 90) \<or> (48 \<le> n \<and> n \<le> 57) \<or> n = 95)"

definition data_name :: "nat \<Rightarrow> string option \<Rightarrow> string" where
  "data_name count debug_name =
     map (\<lambda>c. if label_char c then c else CHR ''_'')
       (snprintf 128 (''__data'' @ decimal count @
          (case debug_name of None \<Rightarrow> [] | Some text \<Rightarrow> ''_'' @ text)))"

definition ir_global_data :: "ir_module \<Rightarrow> string option \<Rightarrow> u8 list option \<Rightarrow> int \<Rightarrow> int \<Rightarrow> bool \<Rightarrow>
    (nat \<times> ir_module) option" where
  "ir_global_data m debug_name bytes sz align readonly =
     do {
       (index, m) \<leftarrow> ir_global_new m IR_GLOBAL_DATA (data_name (length (m_globals m)) debug_name);
       Some (index, m\<lparr>m_globals := (m_globals m)[index := (m_globals m ! index)
          \<lparr>g_size := sz, g_align := (if 0 < align then align else 1), g_readonly := readonly,
           g_data := (let room = replicate (if 0 < sz then nat sz else 1) 0
                      in case bytes of None \<Rightarrow> room | Some bs \<Rightarrow> take (nat sz) bs @ drop (nat sz) room)\<rparr>]\<rparr>)
     }"

text \<open>The loop over the numbers that gives a function of the program another symbol.\<close>

definition renamed :: "ir_module \<Rightarrow> string \<Rightarrow> string option" where
  "renamed m name =
     map_option (numbered_name 256 name)
       (while_option (\<lambda>n. is_taken m (numbered_name 256 name n)) (\<lambda>n. n + 1) 2)"

definition rename_symbol :: "ir_module \<Rightarrow> nat \<Rightarrow> string \<Rightarrow> ir_module" where
  "rename_symbol m i unique =
     (let global = (m_globals m ! i)\<lparr>g_name := unique\<rparr>;
          m = m\<lparr>m_globals := (m_globals m)[i := global]\<rparr>
      in case g_function global of None \<Rightarrow> m
         | Some f \<Rightarrow> m\<lparr>m_functions := (m_functions m)[f := (m_functions m ! f)\<lparr>f_name := unique\<rparr>]\<rparr>)"

definition ir_find_or_add_extern :: "ir_module \<Rightarrow> string \<Rightarrow> (nat \<times> ir_module) option" where
  "ir_find_or_add_extern m name = do {
     existing \<leftarrow> ir_find_global m name;
     if existing < 0 then ir_global_new m IR_GLOBAL_EXTERN name
     else if \<not> g_is_saad (m_globals m ! nat existing) then Some (nat existing, m)
     else do {
       unique \<leftarrow> renamed m name;
       (extern_index, m) \<leftarrow> ir_global_new m IR_GLOBAL_EXTERN name;
       slot \<leftarrow> ir_name_slot (m_globals m) (m_names m) name;
       m \<leftarrow> ir_name_set
              (rename_symbol (m\<lparr>m_names := (m_names m)[slot := int extern_index + 1]\<rparr>) (nat existing) unique)
              (nat existing);
       Some (extern_index, m)
     }
   }"

definition ir_function_new :: "ir_module \<Rightarrow> string \<Rightarrow> (nat \<times> ir_module) option" where
  "ir_function_new m name = do {
     existing \<leftarrow> ir_find_global m name;
     (index, m) \<leftarrow>
       (if 0 \<le> existing \<and> g_kind (m_globals m ! nat existing) = IR_GLOBAL_EXTERN then Some (nat existing, m)
        else ir_global_new m IR_GLOBAL_FUNCTION name);
     let func = \<lparr>f_name = name, f_global = index, f_is_entry_point = False, f_return_type = IR_VOID,
                 f_vreg_types = [], f_params = [], f_slots = [], f_layout = [], f_made = []\<rparr>;
     let f = length (m_functions m);
     let global = (m_globals m ! index)\<lparr>g_kind := IR_GLOBAL_FUNCTION, g_function := Some f\<rparr>;
     Some (f, m\<lparr>m_globals := (m_globals m)[index := global], m_functions := m_functions m @ [func]\<rparr>)
   }"

section \<open>The table of names\<close>

definition name_home :: "string \<Rightarrow> nat" where
  "name_home name = unat (ir_hash_name name)"

definition name_keys :: "ir_global list \<Rightarrow> int list \<Rightarrow> string option list" where
  "name_keys globals names = map (\<lambda>e. if e = 0 then None else Some (entry_name globals e)) names"

definition table_ok :: "ir_global list \<Rightarrow> int list \<Rightarrow> bool" where
  "table_ok globals names \<longleftrightarrow>
     (\<exists>k. length names = 2 ^ k) \<and> (\<forall>e \<in> set names. 0 \<le> e \<and> e \<le> int (length globals)) \<and>
     length globals < length names \<and> probe_ok name_home (name_keys globals names)"

lemma length_name_keys [simp]: "length (name_keys globals names) = length names"
  by (simp add: name_keys_def)

lemma name_keys_nth:
  "s < length names \<Longrightarrow>
     name_keys globals names ! s = (if names ! s = 0 then None else Some (entry_name globals (names ! s)))"
  by (simp add: name_keys_def)

lemma entry_name_in:
  assumes "1 \<le> e" and "e \<le> int (length globals)"
  shows "entry_name globals e \<in> g_name ` set globals"
proof -
  have "nat (e - 1) < length globals" using assms by linarith
  then show ?thesis by (simp add: entry_name_def)
qed

lemma table_has_room:
  assumes "table_ok globals names"
  shows "has_room (name_keys globals names)"
proof (rule has_room_card)
  show "probe_ok name_home (name_keys globals names)" using assms by (simp add: table_ok_def)
  show "set (name_keys globals names) - {None} \<subseteq> Some ` g_name ` set globals"
  proof
    fix x assume "x \<in> set (name_keys globals names) - {None}"
    then obtain e where e: "e \<in> set names" "e \<noteq> 0" "x = Some (entry_name globals e)"
      by (auto simp: name_keys_def split: if_splits)
    then have "1 \<le> e" "e \<le> int (length globals)" using assms by (fastforce simp: table_ok_def)+
    then show "x \<in> Some ` g_name ` set globals" using entry_name_in e(3) by blast
  qed
  show "finite (g_name ` set globals)" by simp
  have "card (g_name ` set globals) \<le> length globals"
    using card_image_le [of "set globals" g_name] card_length [of globals] by simp
  then show "card (g_name ` set globals) < length (name_keys globals names)"
    using assms by (simp add: table_ok_def)
qed

lemma ir_name_slot_eq:
  assumes "table_ok globals names"
  shows "ir_name_slot globals names name = Some (probe_slot name_home (name_keys globals names) name)"
proof -
  obtain k where k: "length names = 2 ^ k" using assms by (auto simp: table_ok_def)
  show ?thesis
    unfolding ir_name_slot_def Let_def
    by (rule probe_loop [OF table_has_room [OF assms]])
      (simp_all add: k and_mask_mod name_home_def name_keys_nth)
qed

text \<open>A table is the set of its entries, one for each name.\<close>

definition entries :: "int list \<Rightarrow> int set" where
  "entries names = set names - {0}"

lemma entry_slot:
  assumes ok: "table_ok globals names" and e: "e \<in> entries names"
  shows "names ! probe_slot name_home (name_keys globals names) (entry_name globals e) = e"
proof -
  obtain s where s: "s < length names" "names ! s = e" using e by (auto simp: entries_def in_set_conv_nth)
  then have "name_keys globals names ! s = Some (entry_name globals e)"
    using e by (simp add: name_keys_nth entries_def)
  then have "s = probe_slot name_home (name_keys globals names) (entry_name globals e)"
    using ok s by (intro probe_ok_unique) (simp_all add: table_ok_def)
  then show ?thesis using s by simp
qed

lemma entry_unique:
  assumes "table_ok globals names" and "e \<in> entries names" and "f \<in> entries names"
    and "entry_name globals e = entry_name globals f"
  shows "e = f"
  using entry_slot [OF assms(1,2)] entry_slot [OF assms(1,3)] unfolding assms(4) by (rule trans [OF sym])

lemma free_slot:
  assumes ok: "table_ok globals names" and none: "\<And>e. e \<in> entries names \<Longrightarrow> entry_name globals e \<noteq> name"
  shows "names ! probe_slot name_home (name_keys globals names) name = 0"
proof -
  let ?s = "probe_slot name_home (name_keys globals names) name"
  have less: "?s < length names" using probe_slot_less [OF table_has_room [OF ok]] by simp
  have "name_keys globals names ! ?s = None \<or> name_keys globals names ! ?s = Some name"
    by (rule probe_slot_stops [OF table_has_room [OF ok]])
  moreover have "names ! ?s \<in> entries names" if "names ! ?s \<noteq> 0"
    using less that by (simp add: entries_def)
  ultimately show ?thesis
    using none [of "names ! ?s"] by (cases "names ! ?s = 0") (simp_all add: name_keys_nth [OF less])
qed

lemma put_entry:
  assumes ok: "table_ok globals names" and e: "1 \<le> e" "e \<le> int (length globals)"
    and s: "s = probe_slot name_home (name_keys globals names) (entry_name globals e)"
  shows "table_ok globals (names[s := e])"
    and "entries (names[s := e]) = insert e {f \<in> entries names. entry_name globals f \<noteq> entry_name globals e}"
proof -
  let ?k = "entry_name globals e"
  have less: "s < length names" using probe_slot_less [OF table_has_room [OF ok]] s by simp
  have keys: "name_keys globals (names[s := e]) = (name_keys globals names)[s := Some ?k]"
    using e by (simp add: name_keys_def map_update)
  have "probe_ok name_home (name_keys globals (names[s := e]))"
    unfolding keys unfolding s
    by (rule probe_ok_put(1) [OF _ table_has_room [OF ok]]) (use ok in \<open>simp add: table_ok_def\<close>)
  moreover have "\<forall>f \<in> set (names[s := e]). 0 \<le> f \<and> f \<le> int (length globals)"
    using ok e set_update_subset_insert [of names s e] by (auto simp: table_ok_def)
  ultimately show ok': "table_ok globals (names[s := e])"
    using ok by (simp add: table_ok_def)
  show "entries (names[s := e]) = insert e {f \<in> entries names. entry_name globals f \<noteq> ?k}"
  proof
    show "entries (names[s := e]) \<subseteq> insert e {f \<in> entries names. entry_name globals f \<noteq> ?k}"
    proof
      fix f assume f: "f \<in> entries (names[s := e])"
      have e': "e \<in> entries (names[s := e])" using less e set_update_memI by (simp add: entries_def)
      show "f \<in> insert e {f \<in> entries names. entry_name globals f \<noteq> ?k}"
        using f entry_unique [OF ok' f e'] set_update_subset_insert [of names s e] by (auto simp: entries_def)
    qed
    show "insert e {f \<in> entries names. entry_name globals f \<noteq> ?k} \<subseteq> entries (names[s := e])"
    proof
      fix f assume "f \<in> insert e {f \<in> entries names. entry_name globals f \<noteq> ?k}"
      then consider "f = e" | "f \<in> entries names" "entry_name globals f \<noteq> ?k" by blast
      then show "f \<in> entries (names[s := e])"
      proof cases
        case 1
        then show ?thesis using less e set_update_memI by (simp add: entries_def)
      next
        case 2
        then obtain t where t: "t < length names" "names ! t = f" "f \<noteq> 0" by (auto simp: entries_def in_set_conv_nth)
        have "t \<noteq> s"
        proof
          assume "t = s"
          then have "names ! s = f" using t by simp
          moreover have "name_keys globals names ! s = None \<or> name_keys globals names ! s = Some ?k"
            unfolding s by (rule probe_slot_stops [OF table_has_room [OF ok]])
          ultimately show False using 2(2) t less by (auto simp: name_keys_nth)
        qed
        then have "names[s := e] ! t = f" using t by simp
        then show ?thesis using t by (metis DiffI entries_def length_list_update nth_mem singletonD)
      qed
    qed
  qed
qed

text \<open>Looking a name up in a table.\<close>

definition lookup_name :: "ir_global list \<Rightarrow> int list \<Rightarrow> string \<Rightarrow> nat option" where
  "lookup_name globals names name =
     (if \<exists>e \<in> entries names. entry_name globals e = name
      then Some (nat ((THE e. e \<in> entries names \<and> entry_name globals e = name) - 1)) else None)"

lemma lookup_entry:
  assumes "table_ok globals names" and "e \<in> entries names" and "entry_name globals e = name"
  shows "lookup_name globals names name = Some (nat (e - 1))"
proof -
  have "(THE e. e \<in> entries names \<and> entry_name globals e = name) = e"
    using assms entry_unique [OF assms(1)] by (intro the_equality) auto
  then show ?thesis using assms(2,3) by (auto simp: lookup_name_def)
qed

lemma lookup_none: "lookup_name globals names name = None \<longleftrightarrow> (\<forall>e \<in> entries names. entry_name globals e \<noteq> name)"
  by (auto simp: lookup_name_def)

lemma slot_lookup:
  assumes ok: "table_ok globals names"
  shows "names ! probe_slot name_home (name_keys globals names) name - 1 =
    (case lookup_name globals names name of None \<Rightarrow> - 1 | Some i \<Rightarrow> int i)"
proof (cases "lookup_name globals names name")
  case None
  then have "names ! probe_slot name_home (name_keys globals names) name = 0"
    by (intro free_slot [OF ok]) (simp add: lookup_none)
  then show ?thesis using None by simp
next
  case (Some i)
  then obtain e where e: "e \<in> entries names" "entry_name globals e = name"
    using lookup_none [of globals names name] by auto
  have "1 \<le> e" using ok e(1) by (fastforce simp: table_ok_def entries_def)
  then show ?thesis
    using lookup_entry [OF ok e] entry_slot [OF ok e(1)] e(2) by simp
qed

lemma lookup_put:
  assumes ok: "table_ok globals names" and e: "1 \<le> e" "e \<le> int (length globals)"
    and s: "s = probe_slot name_home (name_keys globals names) (entry_name globals e)"
  shows "lookup_name globals (names[s := e]) name =
    (if name = entry_name globals e then Some (nat (e - 1)) else lookup_name globals names name)"
proof -
  let ?k = "entry_name globals e"
  have ok': "table_ok globals (names[s := e])" by (rule put_entry(1) [OF ok e s])
  have entries: "f \<in> entries (names[s := e]) \<longleftrightarrow> f = e \<or> (f \<in> entries names \<and> entry_name globals f \<noteq> ?k)" for f
    unfolding put_entry(2) [OF ok e s] by blast
  show ?thesis
  proof (cases "name = ?k")
    case True
    have "e \<in> entries (names[s := e])" using entries by blast
    from lookup_entry [OF ok' this refl] True show ?thesis by simp
  next
    case False
    show ?thesis
    proof (cases "lookup_name globals names name")
      case None
      then have none: "\<forall>f \<in> entries names. entry_name globals f \<noteq> name" by (simp only: lookup_none)
      have "\<forall>f \<in> entries (names[s := e]). entry_name globals f \<noteq> name"
      proof
        fix f assume "f \<in> entries (names[s := e])"
        then show "entry_name globals f \<noteq> name" using entries [of f] none False by metis
      qed
      then have "lookup_name globals (names[s := e]) name = None" unfolding lookup_none .
      then show ?thesis using None False by simp
    next
      case (Some i)
      then obtain f where f: "f \<in> entries names" "entry_name globals f = name"
        using lookup_none [of globals names name] by (metis option.distinct(1))
      then have "f \<in> entries (names[s := e])" using False entries by blast
      from lookup_entry [OF ok' this f(2)] lookup_entry [OF ok f] False show ?thesis by simp
    qed
  qed
qed

section \<open>Growing and setting\<close>

lemma table_ok_empty:
  assumes "length globals < 2 ^ k"
  shows "table_ok globals (replicate (2 ^ k) 0) \<and> entries (replicate (2 ^ k) 0) = {}"
  using assms by (auto simp: table_ok_def entries_def name_keys_def probe_ok_empty)

lemma rehash_entries:
  assumes "table_ok globals names" and "\<forall>e \<in> set es. 0 \<le> e \<and> e \<le> int (length globals)"
    and "\<forall>e \<in> entries names \<union> entries es. \<forall>f \<in> entries names \<union> entries es.
      entry_name globals e = entry_name globals f \<longrightarrow> e = f"
  shows "\<exists>names'. foldl (rehash_entry globals) (Some names) es = Some names' \<and> table_ok globals names' \<and>
    length names' = length names \<and> entries names' = entries names \<union> entries es"
  using assms
proof (induction es arbitrary: names)
  case Nil
  then show ?case by (simp add: entries_def)
next
  case (Cons e es)
  show ?case
  proof (cases "e = 0")
    case True
    have "entries (e # es) = entries es" using True by (auto simp: entries_def)
    then show ?thesis using Cons.IH [OF Cons.prems(1)] Cons.prems True by (simp add: rehash_entry_def)
  next
    case False
    have e: "1 \<le> e" "e \<le> int (length globals)" using Cons.prems(2) False by auto
    have es: "entries (e # es) = insert e (entries es)" using False by (auto simp: entries_def)
    let ?s = "probe_slot name_home (name_keys globals names) (entry_name globals e)"
    let ?n = "names[?s := e]"
    note put = put_entry [OF Cons.prems(1) e refl]
    have eq: "entries ?n = insert e (entries names)"
      unfolding put(2) using Cons.prems(3) unfolding es by blast
    have "rehash_entry globals (Some names) e = Some ?n"
      using False by (simp add: rehash_entry_def ir_name_slot_eq [OF Cons.prems(1)])
    moreover have "\<exists>names'. foldl (rehash_entry globals) (Some ?n) es = Some names' \<and> table_ok globals names' \<and>
        length names' = length ?n \<and> entries names' = entries ?n \<union> entries es"
      using Cons.prems(2,3) by (intro Cons.IH put(1)) (simp_all add: eq es)
    ultimately show ?thesis by (auto simp: eq es)
  qed
qed

lemma entries_eq_lookup: "entries names = entries names' \<Longrightarrow> lookup_name globals names = lookup_name globals names'"
  by (simp add: lookup_name_def fun_eq_iff)

lemma grow_names_ok:
  assumes "names = [] \<and> length globals = 1 \<or> names \<noteq> [] \<and> table_ok globals names \<and> 2 * length globals \<le> length names"
    and ne: "globals \<noteq> []"
  obtains names' where "grow_names globals names = Some names'" and "table_ok globals names'"
    and "lookup_name globals names' = lookup_name globals names" and "2 * (length globals + 1) \<le> length names'"
proof (cases "names = []")
  case True
  then have "table_ok globals (replicate 256 0) \<and> entries (replicate 256 0) = {}"
    using table_ok_empty [of globals 8] assms by simp
  moreover have "grow_names globals names = Some (replicate 256 0)" using True by (simp add: grow_names_def)
  moreover have "entries names = {}" using True by (simp add: entries_def)
  ultimately show thesis
    using that [of "replicate 256 0"] assms True entries_eq_lookup [of "replicate 256 0" names globals] by simp
next
  case False
  then have ok: "table_ok globals names" and len: "2 * length globals \<le> length names" using assms by simp_all
  obtain k where k: "length names = 2 ^ k" using ok by (auto simp: table_ok_def)
  have ge1: "1 \<le> length globals" using ne by (cases globals) simp_all
  have lt: "length globals < 2 ^ Suc k"
    using ok k by (simp add: table_ok_def)
  let ?e = "replicate (2 ^ Suc k) (0 :: int)"
  have e: "table_ok globals ?e" "entries ?e = {}" using table_ok_empty [OF lt] by simp_all
  have uniq: "\<forall>x \<in> entries ?e \<union> entries names. \<forall>y \<in> entries ?e \<union> entries names.
      entry_name globals x = entry_name globals y \<longrightarrow> x = y"
    using entry_unique [OF ok] unfolding e(2) by blast
  obtain names' where n: "foldl (rehash_entry globals) (Some ?e) names = Some names'" "table_ok globals names'"
      "length names' = length ?e" "entries names' = entries names"
    using rehash_entries [OF e(1) _ uniq] ok e(2) unfolding table_ok_def by auto
  have "grow_names globals names = Some names'" using n(1) False k by (simp add: grow_names_def mult.commute)
  moreover have "2 * (length globals + 1) \<le> length names'"
  proof -
    have "length names' = 2 * length names" using n(3) k by simp
    moreover have "2 \<le> length names" using len ge1 by linarith
    ultimately show ?thesis using len unfolding \<open>length names' = 2 * length names\<close> by simp
  qed
  ultimately show thesis using that n(2) entries_eq_lookup [OF n(4)] by blast
qed

definition m_lookup :: "ir_module \<Rightarrow> string \<Rightarrow> nat option" where
  "m_lookup m = lookup_name (m_globals m) (m_names m)"

lemma ir_name_set_ok:
  assumes pre: "m_names m = [] \<and> length (m_globals m) = 1 \<or>
      m_names m \<noteq> [] \<and> table_ok (m_globals m) (m_names m) \<and> 2 * length (m_globals m) \<le> length (m_names m)"
    and i: "index < length (m_globals m)" and name: "name = g_name (m_globals m ! index)"
  obtains m' where "ir_name_set m index = Some m'" and "m_globals m' = m_globals m" and "m_functions m' = m_functions m"
    and "table_ok (m_globals m') (m_names m')" and "2 * (length (m_globals m') + 1) \<le> length (m_names m')"
    and "m_lookup m' = (if m_lookup m name = None then (m_lookup m)(name \<mapsto> index) else m_lookup m)"
proof -
  let ?g = "m_globals m"
  obtain names where n: "(if length (m_names m) < 2 * (length ?g + 1) then grow_names ?g (m_names m) else Some (m_names m)) = Some names"
      "table_ok ?g names" "lookup_name ?g names = m_lookup m" "2 * (length ?g + 1) \<le> length names"
  proof (cases "length (m_names m) < 2 * (length ?g + 1)")
    case True
    then show ?thesis using that grow_names_ok [OF pre] i by (metis m_lookup_def length_0_conv not_less_zero)
  next
    case False
    then have "m_names m \<noteq> []" by auto
    then show ?thesis using that [of "m_names m"] False pre by (simp add: m_lookup_def)
  qed
  let ?s = "probe_slot name_home (name_keys ?g names) name" and ?e = "int index + 1"
  let ?m = "m\<lparr>m_names := (if names ! ?s = 0 then names[?s := ?e] else names)\<rparr>"
  have set: "ir_name_set m index = Some ?m"
    by (simp add: ir_name_set_def n(1) [simplified] ir_name_slot_eq [OF n(2)] name)
  have e: "1 \<le> ?e" "?e \<le> int (length ?g)" and en: "entry_name ?g ?e = name"
    using i by (simp_all add: entry_name_def name)
  have zero: "names ! ?s = 0 \<longleftrightarrow> m_lookup m name = None"
    using slot_lookup [OF n(2), of name] unfolding n(3) by (auto split: option.splits)
  show thesis
  proof (rule that [OF set])
    show "table_ok (m_globals ?m) (m_names ?m)"
      using n(2) put_entry(1) [OF n(2) e, of ?s] en by simp
    show "m_lookup ?m = (if m_lookup m name = None then (m_lookup m)(name \<mapsto> index) else m_lookup m)"
    proof (cases "names ! ?s = 0")
      case True
      have "lookup_name ?g (names[?s := ?e]) = (m_lookup m)(name \<mapsto> index)"
        using lookup_put [OF n(2) e, of ?s] en by (simp add: n(3) fun_eq_iff)
      then show ?thesis using True zero by (simp add: m_lookup_def)
    next
      case False
      then have m: "?m = m\<lparr>m_names := names\<rparr>" by simp
      show ?thesis unfolding m using zero n(3) False by (auto simp: m_lookup_def [of "m\<lparr>m_names := names\<rparr>"])
    qed
  qed (use n(4) in simp_all)
qed

section \<open>Modules\<close>

text \<open>The table of a module has every name, with room to spare, and no name of what is not there.\<close>

definition module_ok :: "ir_module \<Rightarrow> bool" where
  "module_ok m \<longleftrightarrow>
     (m_names m = [] \<and> m_globals m = [] \<or>
      m_names m \<noteq> [] \<and> table_ok (m_globals m) (m_names m) \<and> 2 * (length (m_globals m) + 1) \<le> length (m_names m)) \<and>
     (\<forall>g \<in> set (m_globals m). m_lookup m (g_name g) \<noteq> None)"

lemma module_ok_new: "module_ok ir_module_new"
  by (simp add: module_ok_def ir_module_new_def)

lemma m_lookup_empty: "m_names m = [] \<Longrightarrow> m_lookup m name = None"
  by (simp add: m_lookup_def lookup_none entries_def)

lemma ir_find_global_eq:
  assumes "module_ok m"
  shows "ir_find_global m name = Some (case m_lookup m name of None \<Rightarrow> - 1 | Some i \<Rightarrow> int i)"
proof (cases "m_names m = []")
  case True
  then show ?thesis by (simp add: ir_find_global_def m_lookup_empty)
next
  case False
  then have ok: "table_ok (m_globals m) (m_names m)" using assms by (auto simp: module_ok_def)
  show ?thesis
    using False slot_lookup [OF ok] by (simp add: ir_find_global_def ir_name_slot_eq [OF ok] m_lookup_def)
qed

lemma m_lookup_global:
  assumes "module_ok m" and "m_lookup m name = Some i"
  shows "i < length (m_globals m) \<and> g_name (m_globals m ! i) = name \<and> int i + 1 \<in> entries (m_names m)"
proof -
  have "m_names m \<noteq> []" using assms(2) m_lookup_empty by force
  then have ok: "table_ok (m_globals m) (m_names m)" using assms(1) by (auto simp: module_ok_def)
  obtain e where e: "e \<in> entries (m_names m)" "entry_name (m_globals m) e = name"
    using assms(2) lookup_none [of "m_globals m" "m_names m" name] unfolding m_lookup_def by auto
  then have i: "i = nat (e - 1)" using lookup_entry [OF ok e] assms(2) by (simp add: m_lookup_def)
  have "1 \<le> e" "e \<le> int (length (m_globals m))" using ok e(1) by (fastforce simp: table_ok_def entries_def)+
  then show ?thesis using e i by (auto simp: entry_name_def)
qed

lemma table_ok_names:
  assumes "table_ok globals names" and "\<And>e. e \<in> entries names \<Longrightarrow> entry_name globals' e = entry_name globals e"
    and "length globals \<le> length globals'" and "length globals' < length names"
  shows "table_ok globals' names" and "lookup_name globals' names = lookup_name globals names"
proof -
  have "name_keys globals' names = name_keys globals names"
    using assms(2) by (auto simp: name_keys_def entries_def)
  then show "table_ok globals' names" using assms by (fastforce simp: table_ok_def)
  have "e \<in> entries names \<and> entry_name globals' e = name \<longleftrightarrow> e \<in> entries names \<and> entry_name globals e = name" for e name
    using assms(2) by metis
  then show "lookup_name globals' names = lookup_name globals names"
    unfolding lookup_name_def Bex_def by (simp add: fun_eq_iff)
qed

lemma entry_name_append: "1 \<le> e \<Longrightarrow> e \<le> int (length globals) \<Longrightarrow> entry_name (globals @ gs) e = entry_name globals e"
proof -
  assume "1 \<le> e" "e \<le> int (length globals)"
  then have "nat (e - 1) < length globals" by linarith
  then show ?thesis by (simp add: entry_name_def nth_append)
qed

lemma entries_range:
  assumes "table_ok globals names" and "e \<in> entries names"
  shows "1 \<le> e" and "e \<le> int (length globals)"
  using assms by (fastforce simp: table_ok_def entries_def)+

text \<open>Appending a global, before its name is set.\<close>

lemma push_global:
  assumes ok: "module_ok m" and m1: "m1 = m\<lparr>m_globals := m_globals m @ [g]\<rparr>"
  shows "m_names m1 = [] \<and> length (m_globals m1) = 1 \<or>
      m_names m1 \<noteq> [] \<and> table_ok (m_globals m1) (m_names m1) \<and> 2 * length (m_globals m1) \<le> length (m_names m1)"
    and "m_lookup m1 = m_lookup m"
proof -
  have "m_lookup m1 = m_lookup m \<and>
     (m_names m1 = [] \<and> length (m_globals m1) = 1 \<or>
      m_names m1 \<noteq> [] \<and> table_ok (m_globals m1) (m_names m1) \<and> 2 * length (m_globals m1) \<le> length (m_names m1))"
  proof (cases "m_names m = []")
    case True
    then show ?thesis using ok by (auto simp: module_ok_def m1 m_lookup_empty fun_eq_iff)
  next
    case False
    then have t: "table_ok (m_globals m) (m_names m)" "2 * (length (m_globals m) + 1) \<le> length (m_names m)"
      using ok by (auto simp: module_ok_def)
    have en: "entry_name (m_globals m @ [g]) e = entry_name (m_globals m) e" if "e \<in> entries (m_names m)" for e
      using entries_range [OF t(1) that] by (rule entry_name_append)
    show ?thesis
      using table_ok_names [OF t(1) en] t(2) False by (simp add: m1 m_lookup_def)
  qed
  then show "m_names m1 = [] \<and> length (m_globals m1) = 1 \<or>
      m_names m1 \<noteq> [] \<and> table_ok (m_globals m1) (m_names m1) \<and> 2 * length (m_globals m1) \<le> length (m_names m1)"
    and "m_lookup m1 = m_lookup m" by blast+
qed

definition new_global :: "nat \<Rightarrow> ir_global_kind \<Rightarrow> string \<Rightarrow> ir_global" where
  "new_global index kind name =
     \<lparr>g_index = index, g_kind = kind, g_name = name, g_readonly = False, g_align = 1,
      g_size = 0, g_data = [], g_relocs = [], g_function = None, g_is_saad = False, g_library = None\<rparr>"

lemma ir_global_new_ok:
  assumes ok: "module_ok m"
  obtains m' where "ir_global_new m kind name = Some (length (m_globals m), m')" and "module_ok m'"
    and "m_globals m' = m_globals m @ [new_global (length (m_globals m)) kind name]"
    and "m_functions m' = m_functions m"
    and "m_lookup m' = (if m_lookup m name = None then (m_lookup m)(name \<mapsto> length (m_globals m)) else m_lookup m)"
proof -
  let ?n = "length (m_globals m)" and ?g = "new_global (length (m_globals m)) kind name"
  define m1 where "m1 = m\<lparr>m_globals := m_globals m @ [?g]\<rparr>"
  note push = push_global [OF ok m1_def]
  have i: "?n < length (m_globals m1)" and nm: "name = g_name (m_globals m1 ! ?n)"
    by (simp_all add: m1_def new_global_def)
  obtain m' where m': "ir_name_set m1 ?n = Some m'" "m_globals m' = m_globals m1" "m_functions m' = m_functions m1"
      "table_ok (m_globals m') (m_names m')" "2 * (length (m_globals m') + 1) \<le> length (m_names m')"
      "m_lookup m' = (if m_lookup m1 name = None then (m_lookup m1)(name \<mapsto> ?n) else m_lookup m1)"
    using ir_name_set_ok [OF push(1) i nm] by blast
  have "m_lookup m' (g_name g) \<noteq> None" if "g \<in> set (m_globals m')" for g
  proof (cases "g = ?g")
    case True
    then show ?thesis using m'(6) by (auto simp: new_global_def)
  next
    case False
    then have "g \<in> set (m_globals m)" using that m'(2) by (simp add: m1_def)
    then have "m_lookup m (g_name g) \<noteq> None" using ok by (simp add: module_ok_def)
    then show ?thesis using m'(6) push(2) by auto
  qed
  then have "module_ok m'" using m'(4,5) by (auto simp: module_ok_def)
  moreover have "ir_global_new m kind name = Some (?n, m')"
    using m'(1) by (simp add: ir_global_new_def m1_def new_global_def)
  ultimately show thesis using that m' push(2) by (simp add: m1_def)
qed

section \<open>Numbers in names\<close>

definition digits_value :: "string \<Rightarrow> nat" where
  "digits_value = foldl (\<lambda>v c. 10 * v + (of_char c - 48)) 0"

lemma digits_value_decimal: "digits_value (decimal n) = n"
proof (induction n rule: decimal.induct)
  case (1 n)
  have digit: "of_char (char_of (48 + d) :: char) - (48 :: nat) = d" if "d < 10" for d
    using that by (simp add: of_char_mod_256)
  show ?case
  proof (cases "n < 10")
    case True
    then show ?thesis using digit by (simp add: decimal.simps [of n] digits_value_def)
  next
    case False
    then have "digits_value (decimal (n div 10)) = n div 10" using 1 by simp
    then show ?thesis
      using False digit [of "n mod 10"] by (simp add: decimal.simps [of n] digits_value_def)
  qed
qed

lemma decimal_inject: "decimal m = decimal n \<longleftrightarrow> m = n"
  by (metis digits_value_decimal)

lemma decimal_length_mono: "m \<le> n \<Longrightarrow> length (decimal m) \<le> length (decimal n)"
proof (induction n arbitrary: m rule: decimal.induct)
  case (1 n)
  show ?case
  proof (cases "m < 10")
    case True
    then show ?thesis by (simp add: decimal.simps [of m] decimal.simps [of n])
  next
    case False
    then have "\<not> n < 10" using 1(2) by simp
    then have "length (decimal (m div 10)) \<le> length (decimal (n div 10))" using 1 by (simp add: div_le_mono)
    then show ?thesis using False \<open>\<not> n < 10\<close> by (simp add: decimal.simps [of m] decimal.simps [of n])
  qed
qed

lemma numbered_name_inject:
  assumes "length name + 2 + length (decimal k) < sz" and "m \<le> k" and "n \<le> k"
  shows "numbered_name sz name m = numbered_name sz name n \<longleftrightarrow> m = n"
proof -
  have "length (decimal m) \<le> length (decimal k)" "length (decimal n) \<le> length (decimal k)"
    using assms decimal_length_mono by blast+
  then show ?thesis using assms(1) by (simp add: numbered_name_def snprintf_def decimal_inject)
qed

text \<open>One of the first numbered names is not taken, as there are only so many globals.\<close>

definition name_fits :: "ir_module \<Rightarrow> string \<Rightarrow> nat \<Rightarrow> bool" where
  "name_fits m name sz \<longleftrightarrow> length name + 2 + length (decimal (length (m_globals m) + 2)) < sz"

lemma is_taken_eq:
  assumes "module_ok m"
  shows "is_taken m name \<longleftrightarrow> m_lookup m name \<noteq> None"
  by (simp add: is_taken_def ir_find_global_eq [OF assms] split: option.splits)

lemma some_name_free:
  assumes ok: "module_ok m" and fits: "name_fits m name sz"
  shows "\<exists>n \<ge> 2. n \<le> length (m_globals m) + 2 \<and> \<not> is_taken m (numbered_name sz name n)"
proof (rule ccontr)
  assume none: "\<not> (\<exists>n \<ge> 2. n \<le> length (m_globals m) + 2 \<and> \<not> is_taken m (numbered_name sz name n))"
  let ?N = "{2..length (m_globals m) + 2}"
  have "numbered_name sz name ` ?N \<subseteq> g_name ` set (m_globals m)"
  proof (rule image_subsetI)
    fix n assume "n \<in> ?N"
    then have "is_taken m (numbered_name sz name n)" using none by simp
    then obtain i where "m_lookup m (numbered_name sz name n) = Some i"
      unfolding is_taken_eq [OF ok] by blast
    from m_lookup_global [OF ok this] show "numbered_name sz name n \<in> g_name ` set (m_globals m)"
      by (metis image_eqI nth_mem)
  qed
  then have "card (numbered_name sz name ` ?N) \<le> card (g_name ` set (m_globals m))"
    by (intro card_mono) simp_all
  also have "\<dots> \<le> length (m_globals m)"
    using card_image_le [of "set (m_globals m)" g_name] card_length [of "m_globals m"] by simp
  also have "inj_on (numbered_name sz name) ?N"
    using numbered_name_inject [OF fits [unfolded name_fits_def]] by (auto intro!: inj_onI)
  then have "card (numbered_name sz name ` ?N) = length (m_globals m) + 1"
    by (simp add: card_image)
  finally show False by simp
qed

lemma renamed_free:
  assumes "module_ok m" and "name_fits m name 256"
  obtains unique where "renamed m name = Some unique" and "m_lookup m unique = None"
proof -
  let ?free = "\<lambda>n. \<not> is_taken m (numbered_name 256 name (n + 2))"
  obtain n where n: "2 \<le> n" "\<not> is_taken m (numbered_name 256 name n)"
    using some_name_free [OF assms] by blast
  then obtain d where "n = d + 2" by (metis le_add_diff_inverse2)
  then have ex: "\<exists>d. ?free d" using n(2) by blast
  have "\<exists>D. ?free D \<and> while_option (\<lambda>n. is_taken m (numbered_name 256 name n)) (\<lambda>n. n + 1) 2 = Some (D + 2)"
    by (rule while_search [where stops = ?free and f = "\<lambda>d. d + 2"]) (use ex in simp_all)
  then obtain D where D: "?free D" "while_option (\<lambda>n. is_taken m (numbered_name 256 name n)) (\<lambda>n. n + 1) 2 = Some (D + 2)"
    by blast
  have "renamed m name = Some (numbered_name 256 name (D + 2))" unfolding renamed_def D(2) by simp
  then show thesis using that D(1) unfolding is_taken_eq [OF assms(1)] by simp
qed

section \<open>Externs and functions\<close>

text \<open>A function of the program that has the name of a C function gets another symbol.\<close>

lemma rename_global:
  assumes ok: "module_ok m" and l: "m_lookup m name = Some ex" and fits: "name_fits m name 256"
    and saad: "g_is_saad (m_globals m ! ex)"
  obtains unique m' where "ir_find_or_add_extern m name = Some (length (m_globals m), m')" and "module_ok m'"
    and "m_lookup m unique = None"
    and "m_lookup m' = (m_lookup m)(name \<mapsto> length (m_globals m), unique \<mapsto> ex)"
    and "m_globals m' = (m_globals m)[ex := (m_globals m ! ex)\<lparr>g_name := unique\<rparr>] @
           [new_global (length (m_globals m)) IR_GLOBAL_EXTERN name]"
proof -
  let ?n = "length (m_globals m)"
  have ex: "ex < ?n" "g_name (m_globals m ! ex) = name" using m_lookup_global [OF ok l] by simp_all
  obtain unique where u: "renamed m name = Some unique" "m_lookup m unique = None"
    using renamed_free [OF ok fits] .
  have ne: "unique \<noteq> name" using u(2) l by auto
  obtain m1 where m1: "ir_global_new m IR_GLOBAL_EXTERN name = Some (?n, m1)" "module_ok m1"
      "m_globals m1 = m_globals m @ [new_global ?n IR_GLOBAL_EXTERN name]" "m_functions m1 = m_functions m"
      "m_lookup m1 = m_lookup m"
    using ir_global_new_ok [OF ok, of IR_GLOBAL_EXTERN name] l by auto
  have t1: "table_ok (m_globals m1) (m_names m1)" "2 * (length (m_globals m1) + 1) \<le> length (m_names m1)"
    using m1(2,3) by (auto simp: module_ok_def)
  let ?e = "int ?n + 1"
  have e: "1 \<le> ?e" "?e \<le> int (length (m_globals m1))" and en: "entry_name (m_globals m1) ?e = name"
    by (simp_all add: m1(3) entry_name_def new_global_def)
  let ?s = "probe_slot name_home (name_keys (m_globals m1) (m_names m1)) name"
  define m2 where "m2 = m1\<lparr>m_names := (m_names m1)[?s := ?e]\<rparr>"
  have t2: "table_ok (m_globals m1) (m_names m2)" and entries2: "entries (m_names m2) =
      insert ?e {f \<in> entries (m_names m1). entry_name (m_globals m1) f \<noteq> name}"
    using put_entry [OF t1(1) e, of ?s] en by (simp_all add: m2_def)
  have l2: "m_lookup m2 = (m_lookup m)(name \<mapsto> ?n)"
    using lookup_put [OF t1(1) e, of ?s] en m1(5) by (simp add: m2_def m_lookup_def fun_eq_iff)
  define m4 where "m4 = rename_symbol m2 ex unique"
  have m4: "m_globals m4 = (m_globals m2)[ex := (m_globals m2 ! ex)\<lparr>g_name := unique\<rparr>]" "m_names m4 = m_names m2"
    by (simp_all add: m4_def rename_symbol_def Let_def split: option.splits)
  have g2: "m_globals m2 = m_globals m1" by (simp add: m2_def)
  have g1ex: "m_globals m1 ! ex = m_globals m ! ex" using ex(1) m1(3) by (simp add: nth_append)
  have same: "entry_name (m_globals m4) f = entry_name (m_globals m1) f" if f: "f \<in> entries (m_names m2)" for f
  proof -
    have "nat (f - 1) \<noteq> ex"
    proof (cases "f = ?e")
      case True
      then show ?thesis using ex(1) by simp
    next
      case False
      then have "f \<in> entries (m_names m1)" "entry_name (m_globals m1) f \<noteq> name" using f entries2 by auto
      then show ?thesis using ex(2) g1ex by (auto simp: entry_name_def)
    qed
    then show ?thesis by (simp add: m4(1) g2 entry_name_def)
  qed
  have len: "length (m_globals m4) = Suc ?n" by (simp add: m4(1) g2 m1(3))
  have t3: "table_ok (m_globals m4) (m_names m2)" "lookup_name (m_globals m4) (m_names m2) = m_lookup m2"
    using table_ok_names [OF t2 same] t1(2) by (simp_all add: len m1(3) m2_def m_lookup_def)
  have pre: "m_names m4 = [] \<and> length (m_globals m4) = 1 \<or> m_names m4 \<noteq> [] \<and> table_ok (m_globals m4) (m_names m4) \<and>
      2 * length (m_globals m4) \<le> length (m_names m4)"
    using t3(1) t1(2) by (auto simp: m4(2) len m2_def m1(3))
  have exn: "ex < length (m_globals m4)" using ex(1) by (simp add: len)
  have nm: "unique = g_name (m_globals m4 ! ex)" using ex(1) by (simp add: m4(1) g2 m1(3))
  have l4: "m_lookup m4 = (m_lookup m)(name \<mapsto> ?n)" using t3(2) l2 by (simp add: m_lookup_def m4(2))
  obtain m5 where m5: "ir_name_set m4 ex = Some m5" "m_globals m5 = m_globals m4"
      "table_ok (m_globals m5) (m_names m5)" "2 * (length (m_globals m5) + 1) \<le> length (m_names m5)"
      "m_lookup m5 = (if m_lookup m4 unique = None then (m_lookup m4)(unique \<mapsto> ex) else m_lookup m4)"
    using ir_name_set_ok [OF pre exn nm] by blast
  have l5: "m_lookup m5 = (m_lookup m)(name \<mapsto> ?n, unique \<mapsto> ex)"
    using m5(5) l4 u(2) ne by simp
  have globals: "m_globals m5 = (m_globals m)[ex := (m_globals m ! ex)\<lparr>g_name := unique\<rparr>] @
      [new_global ?n IR_GLOBAL_EXTERN name]"
    using ex(1) by (simp add: m5(2) m4(1) g2 m1(3) nth_append list_update_append)
  have "m_lookup m5 (g_name g) \<noteq> None" if "g \<in> set (m_globals m5)" for g
  proof -
    have "g \<in> set (m_globals m) \<or> g_name g = unique \<or> g_name g = name"
      using that subsetD [OF set_update_subset_insert, of g "m_globals m" ex] unfolding globals
      by (fastforce simp: new_global_def)
    then show ?thesis using ok l5 unfolding module_ok_def by auto
  qed
  then have "module_ok m5" using m5(3,4) by (auto simp: module_ok_def)
  moreover have "ir_find_or_add_extern m name = Some (?n, m5)"
    using l saad u(1) m1(1) m5(1)
    by (simp add: ir_find_or_add_extern_def ir_find_global_eq [OF ok] ir_name_slot_eq [OF t1(1)] Let_def
        m2_def [symmetric] m4_def [symmetric])
  ultimately show thesis using that u(2) l5 globals by blast
qed

text \<open>C32: asking for an extern of a well-formed module, with a name of a sensible length, returns
  the global that has the name from then on, and it is not one of the program. No other name is
  lost: every other name leads to the global it led to, and when the name was that of a function
  of the program, that function is found under a new name, which no global had.\<close>

theorem find_or_add_extern_correct:
  assumes ok: "module_ok m" and fits: "name_fits m name 256"
  shows "\<exists>i m'. ir_find_or_add_extern m name = Some (i, m') \<and> module_ok m' \<and> m_lookup m' name = Some i \<and>
    g_name (m_globals m' ! i) = name \<and> \<not> g_is_saad (m_globals m' ! i) \<and>
    (\<forall>other j. other \<noteq> name \<longrightarrow> m_lookup m other = Some j \<longrightarrow> m_lookup m' other = Some j) \<and>
    (\<forall>j. m_lookup m name = Some j \<longrightarrow> j \<noteq> i \<longrightarrow>
       (\<exists>unique. m_lookup m unique = None \<and> m_lookup m' unique = Some j \<and> g_name (m_globals m' ! j) = unique))"
proof (cases "m_lookup m name")
  case None
  obtain m' where m': "ir_global_new m IR_GLOBAL_EXTERN name = Some (length (m_globals m), m')" "module_ok m'"
      "m_globals m' = m_globals m @ [new_global (length (m_globals m)) IR_GLOBAL_EXTERN name]"
      "m_lookup m' = (m_lookup m)(name \<mapsto> length (m_globals m))"
    using ir_global_new_ok [OF ok, of IR_GLOBAL_EXTERN name] None by auto
  have "ir_find_or_add_extern m name = Some (length (m_globals m), m')"
    using None m'(1) by (simp add: ir_find_or_add_extern_def ir_find_global_eq [OF ok])
  then show ?thesis
    using m'(2-4) None
    by (intro exI [of _ "length (m_globals m)"] exI [of _ m']) (simp add: new_global_def)
next
  case (Some ex)
  note ex = m_lookup_global [OF ok Some]
  show ?thesis
  proof (cases "g_is_saad (m_globals m ! ex)")
    case False
    then have "ir_find_or_add_extern m name = Some (ex, m)"
      using Some by (simp add: ir_find_or_add_extern_def ir_find_global_eq [OF ok])
    then show ?thesis using ok ex False Some by (intro exI [of _ ex] exI [of _ m]) simp
  next
    case True
    let ?n = "length (m_globals m)"
    obtain unique m' where m': "ir_find_or_add_extern m name = Some (?n, m')" "module_ok m'"
        "m_lookup m unique = None" "m_lookup m' = (m_lookup m)(name \<mapsto> ?n, unique \<mapsto> ex)"
        "m_globals m' = (m_globals m)[ex := (m_globals m ! ex)\<lparr>g_name := unique\<rparr>] @ [new_global ?n IR_GLOBAL_EXTERN name]"
      using rename_global [OF ok Some fits True] by blast
    have ne: "unique \<noteq> name" using m'(3) Some by auto
    have n: "m_globals m' ! ?n = new_global ?n IR_GLOBAL_EXTERN name" by (simp add: m'(5) nth_append)
    have e: "m_globals m' ! ex = (m_globals m ! ex)\<lparr>g_name := unique\<rparr>"
      using ex by (simp add: m'(5) nth_append)
    have "m_lookup m' other = Some j" if "other \<noteq> name" "m_lookup m other = Some j" for other j
      using that m'(3,4) by auto
    moreover have "m_lookup m' unique = Some ex" "m_lookup m' name = Some ?n" using m'(4) ne by simp_all
    ultimately show ?thesis
      using m'(1-3) n e Some
      by (intro exI [of _ ?n] exI [of _ m'] conjI allI impI exI [of _ unique]) (auto simp: new_global_def)
  qed
qed

text \<open>C34: the name of a global made by \<^verbatim>\<open>ir_unique_name\<close> belongs to no global, and the search for
  it ends.\<close>

theorem unique_name_is_free:
  assumes ok: "module_ok m" and fits: "name_fits m name sz"
  shows "\<exists>unique. ir_unique_name m name sz = Some unique \<and> m_lookup m unique = None"
proof -
  let ?name = "\<lambda>n. if n = 1 then snprintf sz name else numbered_name sz name n"
  let ?f = "\<lambda>d. (?name (d + 1), d + 2)"
  let ?free = "\<lambda>d. \<not> is_taken m (?name (d + 1))"
  obtain n where n: "2 \<le> n" "\<not> is_taken m (numbered_name sz name n)"
    using some_name_free [OF assms] by blast
  then obtain k where "n = k + 2" by (metis le_add_diff_inverse2)
  then have ex: "\<exists>d. ?free d" using n(2) by (intro exI [of _ "k + 1"]) simp
  have "\<exists>D. ?free D \<and> while_option (\<lambda>(unique, n). is_taken m unique)
      (\<lambda>(unique, n). (numbered_name sz name n, n + 1)) (snprintf sz name, 2) = Some (?f D)"
    by (rule while_search [where stops = ?free and f = ?f]) (use ex in simp_all)
  then obtain D where D: "?free D" "while_option (\<lambda>(unique, n). is_taken m unique)
      (\<lambda>(unique, n). (numbered_name sz name n, n + 1)) (snprintf sz name, 2) = Some (?f D)" by blast
  have "ir_unique_name m name sz = Some (?name (D + 1))" unfolding ir_unique_name_def D(2) by simp
  then show ?thesis using D(1) unfolding is_taken_eq [OF ok] not_not by (intro exI conjI)
qed


section \<open>The module as a store of symbols\<close>

text \<open>As long as no function of the program takes the name of a C function, externs are interned.\<close>

definition extern_module :: "ir_module \<Rightarrow> bool" where
  "extern_module m \<longleftrightarrow> module_ok m \<and> (\<forall>g \<in> set (m_globals m). \<not> g_is_saad g)"

interpretation externs: symbol_interner extern_module m_lookup ir_find_or_add_extern
proof unfold_locales
  fix m :: ir_module and name i m' j
  assume m: "extern_module m"
  then have ok: "module_ok m" by (simp add: extern_module_def)
  have run: "if m_lookup m name = None
      then \<exists>m'. ir_find_or_add_extern m name = Some (length (m_globals m), m') \<and> extern_module m' \<and>
             m_lookup m' = (m_lookup m)(name \<mapsto> length (m_globals m))
      else ir_find_or_add_extern m name = Some (the (m_lookup m name), m)"
  proof (cases "m_lookup m name")
    case None
    obtain m' where m': "ir_global_new m IR_GLOBAL_EXTERN name = Some (length (m_globals m), m')" "module_ok m'"
        "m_globals m' = m_globals m @ [new_global (length (m_globals m)) IR_GLOBAL_EXTERN name]"
        "m_lookup m' = (m_lookup m)(name \<mapsto> length (m_globals m))"
      using ir_global_new_ok [OF ok, of IR_GLOBAL_EXTERN name] None by auto
    then show ?thesis using None m
      by (auto simp: ir_find_or_add_extern_def ir_find_global_eq [OF ok] extern_module_def new_global_def)
  next
    case (Some ex)
    then have "\<not> g_is_saad (m_globals m ! ex)" using m m_lookup_global [OF ok Some] by (simp add: extern_module_def)
    then show ?thesis using Some by (simp add: ir_find_or_add_extern_def ir_find_global_eq [OF ok])
  qed
  show "\<exists>i m'. ir_find_or_add_extern m name = Some (i, m')" using run by (auto split: if_splits)
  show "extern_module m' \<and> m_lookup m' = (m_lookup m)(name \<mapsto> i)" if "ir_find_or_add_extern m name = Some (i, m')"
    using run that m by (auto split: if_splits)
  show "i = j" if "ir_find_or_add_extern m name = Some (i, m')" "m_lookup m name = Some j"
    using run that by simp
  show "i \<notin> ran (m_lookup m)" if "ir_find_or_add_extern m name = Some (i, m')" "m_lookup m name = None"
    using run that m_lookup_global [OF ok] by (fastforce simp: ran_def)
qed

text \<open>C35: the externs of a list of names, in a module that was just made: every name has a global,
  no other name has, and different names have different globals.\<close>

theorem externs_of_names:
  "\<exists>m. externs.intern_all ir_module_new names = Some m \<and> dom (m_lookup m) = set names \<and>
     inj_on (m_lookup m) (set names)"
proof -
  have new: "extern_module ir_module_new" "m_lookup ir_module_new = Map.empty"
    using module_ok_new by (simp_all add: extern_module_def ir_module_new_def m_lookup_empty fun_eq_iff)
  then have "externs.separate ir_module_new" by (simp add: externs.separate_def)
  from externs.intern_all_correct [OF new(1) this, of names]
  obtain m where m: "externs.intern_all ir_module_new names = Some m" "externs.separate m"
      "dom (m_lookup m) = set names"
    using new(2) by auto
  have "inj_on (m_lookup m) (set names)"
  proof (rule inj_onI)
    fix a b assume ab: "a \<in> set names" "b \<in> set names" "m_lookup m a = m_lookup m b"
    then obtain i where "m_lookup m a = Some i" using m(3) by blast
    then show "a = b" using m(2) ab(3) unfolding externs.separate_def by metis
  qed
  then show ?thesis using m by blast
qed

section \<open>Concrete modules\<close>

lemma puts_fits: "name_fits ir_module_new ''puts'' 256"
  by (simp add: name_fits_def ir_module_new_def decimal.simps)

lemma find_or_add_extern_correct_witness:
  "\<exists>i m'. ir_find_or_add_extern ir_module_new ''puts'' = Some (i, m') \<and> module_ok m' \<and> m_lookup m' ''puts'' = Some i \<and>
    g_name (m_globals m' ! i) = ''puts'' \<and> \<not> g_is_saad (m_globals m' ! i) \<and>
    (\<forall>other j. other \<noteq> ''puts'' \<longrightarrow> m_lookup ir_module_new other = Some j \<longrightarrow> m_lookup m' other = Some j) \<and>
    (\<forall>j. m_lookup ir_module_new ''puts'' = Some j \<longrightarrow> j \<noteq> i \<longrightarrow>
       (\<exists>unique. m_lookup ir_module_new unique = None \<and> m_lookup m' unique = Some j \<and> g_name (m_globals m' ! j) = unique))"
  by (rule find_or_add_extern_correct [OF module_ok_new puts_fits])

lemma unique_name_is_free_witness:
  "\<exists>unique. ir_unique_name ir_module_new ''puts'' 256 = Some unique \<and> m_lookup ir_module_new unique = None"
  by (rule unique_name_is_free [OF module_ok_new puts_fits])


end
