(* ===== verification/IRVerify.thy ===== *)
theory IRVerify
  imports RegAllocCorrect IRModule
begin

text \<open>
  The verifier of \<^verbatim>\<open>src/src/ir.c\<close> (\<^verbatim>\<open>ir_verify_module\<close>). The code prints each problem and
  counts it; the messages are not modelled, so each check is the number of problems it finds.
  The verifier is compared with the rules that the comment of \<^verbatim>\<open>src/src/ir.h\<close> states: typing rules
  for the instructions (\<open>ir_typed\<close>), and \<open>ir_valid\<close> for a function.

  An instruction has operand fields that its operation does not read. The verifier does not look at
  them, and later code counts them as operands, so the comparison assumes that they are empty
  (\<open>fields_ok\<close>), as the lowering leaves them.
\<close>

section \<open>The checks of an instruction\<close>

definition problem :: "bool \<Rightarrow> nat" where
  "problem p = (if p then 1 else 0)"

definition ir_verify_operand :: "ir_function \<Rightarrow> int \<Rightarrow> ir_type \<Rightarrow> nat" where
  "ir_verify_operand func vreg expected =
     (if vreg = IR_NO_VREG then 1
      else if vreg < 0 \<or> int (length (f_vreg_types func)) \<le> vreg then 1
      else problem (expected \<noteq> IR_VOID \<and> ir_vreg_type func vreg \<noteq> expected))"

definition ir_verify_addr :: "ir_module \<Rightarrow> ir_function \<Rightarrow> ir_addr \<Rightarrow> nat" where
  "ir_verify_addr m func addr =
     (case addr_kind addr of
        IR_ADDR_VREG \<Rightarrow> ir_verify_operand func (addr_base addr) IR_PTR
      | IR_ADDR_SLOT \<Rightarrow> problem (addr_base addr < 0 \<or> int (length (f_slots func)) \<le> addr_base addr)
      | IR_ADDR_GLOBAL \<Rightarrow> problem (addr_base addr < 0 \<or> int (length (m_globals m)) \<le> addr_base addr)
      | IR_ADDR_NONE \<Rightarrow> 1)"

definition needs_dst :: "ir_op \<Rightarrow> bool" where
  "needs_dst op \<longleftrightarrow> \<not> (op = IR_STORE \<or> op = IR_MEMCPY \<or> op = IR_MEMSET \<or> op = IR_NOP \<or> op = IR_CALL)"

definition conversion_ok :: "ir_op \<Rightarrow> ir_type \<Rightarrow> ir_type \<Rightarrow> bool" where
  "conversion_ok op src type =
     (let fs = ir_type_size src; ts = ir_type_size type in
      case op of
        IR_SEXT \<Rightarrow> ir_type_is_int src \<and> ir_type_is_int type \<and> fs < ts
      | IR_ZEXT \<Rightarrow> ir_type_is_int src \<and> ir_type_is_int type \<and> fs < ts
      | IR_TRUNC \<Rightarrow> ir_type_is_int src \<and> ir_type_is_int type \<and> ts < fs
      | IR_SITOFP \<Rightarrow> ir_type_is_int src \<and> ir_type_is_float type
      | IR_UITOFP \<Rightarrow> ir_type_is_int src \<and> ir_type_is_float type
      | IR_FPTOSI \<Rightarrow> ir_type_is_float src \<and> ir_type_is_int type
      | IR_FPTOUI \<Rightarrow> ir_type_is_float src \<and> ir_type_is_int type
      | IR_FPEXT \<Rightarrow> src = IR_F32 \<and> type = IR_F64
      | IR_FPTRUNC \<Rightarrow> src = IR_F64 \<and> type = IR_F32
      | IR_BITCAST \<Rightarrow> fs = ts \<and> src \<noteq> type
      | _ \<Rightarrow> False)"

definition ir_verify_call :: "ir_module \<Rightarrow> ir_function \<Rightarrow> ir_inst \<Rightarrow> nat" where
  "ir_verify_call m func inst =
     (let call = i_call inst in
      (if callee_kind call = IR_CALLEE_VREG then ir_verify_operand func (callee call) IR_PTR
       else problem (callee call < 0 \<or> int (length (m_globals m)) \<le> callee call \<or>
              g_kind (m_globals m ! nat (callee call)) = IR_GLOBAL_DATA)) +
      sum_list (map (\<lambda>v. ir_verify_operand func v IR_VOID) (call_args call)) +
      problem (call_return_type call = IR_VOID \<and> i_dst inst \<noteq> IR_NO_VREG) +
      problem (i_dst inst \<noteq> IR_NO_VREG \<and> ir_vreg_type func (i_dst inst) \<noteq> call_return_type call))"

definition ir_verify_op :: "ir_module \<Rightarrow> ir_function \<Rightarrow> ir_inst \<Rightarrow> ir_op \<Rightarrow> nat" where
  "ir_verify_op m func inst op =
     (let type = i_type inst;
          left_right = ir_verify_operand func (i_a inst) type + ir_verify_operand func (i_b inst) type
      in case op of
        IR_NOP \<Rightarrow> 0
      | IR_CONST \<Rightarrow> problem (\<not> ir_type_is_int_or_ptr type)
      | IR_CONST_FLOAT \<Rightarrow> problem (\<not> ir_type_is_float type)
      | IR_COPY \<Rightarrow> ir_verify_operand func (i_a inst) type
      | IR_SLOT_ADDR \<Rightarrow> problem (type \<noteq> IR_PTR) + problem (i_imm inst < 0 \<or> int (length (f_slots func)) \<le> i_imm inst)
      | IR_GLOBAL_ADDR \<Rightarrow> problem (type \<noteq> IR_PTR) + problem (i_imm inst < 0 \<or> int (length (m_globals m)) \<le> i_imm inst)
      | IR_LOAD \<Rightarrow> problem (type = IR_VOID) + ir_verify_addr m func (i_addr inst)
      | IR_STORE \<Rightarrow> problem (type = IR_VOID) + ir_verify_operand func (i_a inst) type + ir_verify_addr m func (i_addr inst)
      | IR_PTR_ADD \<Rightarrow> problem (type \<noteq> IR_PTR) + ir_verify_operand func (i_a inst) IR_PTR + ir_verify_operand func (i_b inst) IR_I64
      | IR_MEMCPY \<Rightarrow> ir_verify_operand func (i_a inst) IR_PTR + ir_verify_operand func (i_b inst) IR_PTR + problem (i_imm inst \<le> 0)
      | IR_MEMSET \<Rightarrow> ir_verify_operand func (i_a inst) IR_PTR + problem (i_imm inst \<le> 0)
      | IR_ADD \<Rightarrow> problem (\<not> ir_type_is_int type) + left_right
      | IR_SUB \<Rightarrow> problem (\<not> ir_type_is_int type) + left_right
      | IR_MUL \<Rightarrow> problem (\<not> ir_type_is_int type) + left_right
      | IR_SDIV \<Rightarrow> problem (\<not> ir_type_is_int type) + left_right
      | IR_UDIV \<Rightarrow> problem (\<not> ir_type_is_int type) + left_right
      | IR_SREM \<Rightarrow> problem (\<not> ir_type_is_int type) + left_right
      | IR_UREM \<Rightarrow> problem (\<not> ir_type_is_int type) + left_right
      | IR_AND \<Rightarrow> problem (\<not> ir_type_is_int type) + left_right
      | IR_OR \<Rightarrow> problem (\<not> ir_type_is_int type) + left_right
      | IR_XOR \<Rightarrow> problem (\<not> ir_type_is_int type) + left_right
      | IR_SHL \<Rightarrow> problem (\<not> ir_type_is_int type) + left_right
      | IR_LSHR \<Rightarrow> problem (\<not> ir_type_is_int type) + left_right
      | IR_ASHR \<Rightarrow> problem (\<not> ir_type_is_int type) + left_right
      | IR_NEG \<Rightarrow> problem (\<not> ir_type_is_int type) + ir_verify_operand func (i_a inst) type
      | IR_NOT \<Rightarrow> problem (\<not> ir_type_is_int type) + ir_verify_operand func (i_a inst) type
      | IR_FADD \<Rightarrow> problem (\<not> ir_type_is_float type) + left_right
      | IR_FSUB \<Rightarrow> problem (\<not> ir_type_is_float type) + left_right
      | IR_FMUL \<Rightarrow> problem (\<not> ir_type_is_float type) + left_right
      | IR_FDIV \<Rightarrow> problem (\<not> ir_type_is_float type) + left_right
      | IR_FNEG \<Rightarrow> problem (\<not> ir_type_is_float type) + ir_verify_operand func (i_a inst) type
      | IR_ICMP \<Rightarrow> problem (\<not> ir_cmp_is_int (i_cmp inst)) + problem (\<not> ir_type_is_int_or_ptr type) +
                   problem (ir_vreg_type func (i_dst inst) \<noteq> IR_I8) + left_right
      | IR_FCMP \<Rightarrow> problem (\<not> ir_cmp_is_float (i_cmp inst)) + problem (\<not> ir_type_is_float type) +
                   problem (ir_vreg_type func (i_dst inst) \<noteq> IR_I8) + left_right
      | IR_CALL \<Rightarrow> ir_verify_call m func inst
      | IR_OP_COUNT \<Rightarrow> 1
      | _ \<Rightarrow> ir_verify_operand func (i_a inst) IR_VOID +
             problem (\<not> conversion_ok op (ir_vreg_type func (i_a inst)) type))"

definition ir_verify_inst :: "ir_module \<Rightarrow> ir_function \<Rightarrow> ir_inst \<Rightarrow> nat" where
  "ir_verify_inst m func inst =
     (if needs_dst (i_op inst) \<and> i_dst inst = IR_NO_VREG then 1
      else problem (i_dst inst \<noteq> IR_NO_VREG \<and> i_op inst \<noteq> IR_ICMP \<and> i_op inst \<noteq> IR_FCMP \<and> i_op inst \<noteq> IR_CALL \<and>
             ir_vreg_type func (i_dst inst) \<noteq> i_type inst) +
           ir_verify_op m func inst (i_op inst))"

section \<open>The checks of a function\<close>

definition is_placed :: "ir_function \<Rightarrow> nat option \<Rightarrow> bool" where
  "is_placed func target \<longleftrightarrow> (case target of None \<Rightarrow> False | Some t \<Rightarrow> b_is_placed (f_made func ! t))"

definition ir_verify_term :: "ir_function \<Rightarrow> ir_term \<Rightarrow> nat" where
  "ir_verify_term func term =
     (case t_kind term of
        IR_TERM_NONE \<Rightarrow> 1
      | IR_TERM_JMP \<Rightarrow> problem (\<not> is_placed func (t_target term))
      | IR_TERM_BR \<Rightarrow> problem (\<not> is_placed func (t_target term) \<or> \<not> is_placed func (t_else_target term)) +
                      problem (t_cond term = IR_NO_VREG \<or> ir_vreg_type func (t_cond term) \<noteq> IR_I8)
      | IR_TERM_RET \<Rightarrow> problem (f_return_type func = IR_VOID \<and> t_value term \<noteq> IR_NO_VREG) +
                       problem (f_return_type func \<noteq> IR_VOID \<and>
                         (t_value term = IR_NO_VREG \<or> ir_vreg_type func (t_value term) \<noteq> f_return_type func)))"

text \<open>The state of the loops: the problems so far, and how often each register is defined.\<close>

definition count_def :: "nat list \<Rightarrow> int \<Rightarrow> nat list" where
  "count_def counts vreg = counts[nat vreg := counts ! nat vreg + 1]"

definition verify_param :: "ir_function \<Rightarrow> nat \<times> nat list \<Rightarrow> int \<Rightarrow> nat \<times> nat list" where
  "verify_param func = (\<lambda>(errors, counts) vreg.
     if vreg < 0 \<or> int (vreg_count func) \<le> vreg then (errors + 1, counts)
     else (errors, count_def counts vreg))"

definition verify_inst :: "ir_module \<Rightarrow> ir_function \<Rightarrow> nat \<times> nat list \<Rightarrow> ir_inst \<Rightarrow> nat \<times> nat list" where
  "verify_inst m func = (\<lambda>(errors, counts) inst.
     (errors + ir_verify_inst m func inst,
      if i_dst inst \<noteq> IR_NO_VREG \<and> 0 \<le> i_dst inst \<and> i_dst inst < int (vreg_count func)
      then count_def counts (i_dst inst) else counts))"

definition verify_block :: "ir_module \<Rightarrow> ir_function \<Rightarrow> nat \<times> nat list \<Rightarrow> nat \<Rightarrow> nat \<times> nat list" where
  "verify_block m func = (\<lambda>(errors, counts) b.
     let block = block_at func b;
         (errors, counts) = foldl (verify_inst m func) (errors + problem (b_index block \<noteq> b), counts) (b_insts block)
     in (errors + ir_verify_term func (b_term block), counts))"

definition verify_uses :: "ir_function \<Rightarrow> nat list \<Rightarrow> nat \<Rightarrow> nat" where
  "verify_uses func counts b =
     (let block = block_at func b in
      sum_list (map (\<lambda>inst. sum_list (map (\<lambda>v. problem (counts ! nat v = 0)) (ir_inst_uses inst))) (b_insts block)) +
      sum_list (map (\<lambda>v. problem (v < 0 \<or> int (vreg_count func) \<le> v \<or> counts ! nat v = 0)) (ir_term_uses (b_term block))))"

definition verify_entry :: "ir_function \<Rightarrow> ir_liveness \<Rightarrow> nat" where
  "verify_entry func live =
     (let entry = foldl ir_bitset_clear (live_in live ! 0) (map nat (f_params func))
      in sum_list (map (\<lambda>v. problem (ir_bitset_get entry v)) [0..<vreg_count func]))"

definition ir_verify_function :: "ir_module \<Rightarrow> ir_function \<Rightarrow> bool option" where
  "ir_verify_function m func =
     (if block_count func = 0 then Some False
      else
        let counts = replicate (if 0 < vreg_count func then vreg_count func else 1) 0;
            (errors, counts) = foldl (verify_param func) (0, counts) (f_params func);
            (errors, counts) = foldl (verify_block m func) (errors, counts) [0..<block_count func];
            errors = errors + sum_list (map (\<lambda>v. problem (1 < counts ! v)) [0..<vreg_count func]);
            errors = (if errors = 0 then sum_list (map (verify_uses func counts) [0..<block_count func]) else errors)
        in if errors = 0
           then map_option (\<lambda>live. verify_entry func live = 0) (ir_compute_liveness func)
           else Some False)"

text \<open>\<open>None\<close> would be a liveness analysis that does not end.\<close>

definition ir_verify_module :: "ir_module \<Rightarrow> bool option" where
  "ir_verify_module m =
     foldl (\<lambda>ok func. case ok of None \<Rightarrow> None
              | Some ok \<Rightarrow> map_option (\<lambda>verified. ok \<and> verified) (ir_verify_function m func))
       (Some True) (m_functions m)"

section \<open>The rules of the IR\<close>

definition has_type :: "ir_function \<Rightarrow> int \<Rightarrow> ir_type \<Rightarrow> bool" where
  "has_type func v t \<longleftrightarrow> vreg_ok func v \<and> ir_vreg_type func v = t"

definition writes :: "ir_function \<Rightarrow> ir_inst \<Rightarrow> ir_type \<Rightarrow> bool" where
  "writes func inst t \<longleftrightarrow> i_dst inst \<noteq> IR_NO_VREG \<and> has_type func (i_dst inst) t"

definition global_ok :: "ir_module \<Rightarrow> int \<Rightarrow> bool" where
  "global_ok m g \<longleftrightarrow> 0 \<le> g \<and> g < int (length (m_globals m))"

definition slot_ok :: "ir_function \<Rightarrow> int \<Rightarrow> bool" where
  "slot_ok func s \<longleftrightarrow> 0 \<le> s \<and> s < int (length (f_slots func))"

fun addr_typed :: "ir_module \<Rightarrow> ir_function \<Rightarrow> ir_addr \<Rightarrow> bool" where
  "addr_typed m func addr =
     (case addr_kind addr of
        IR_ADDR_NONE \<Rightarrow> False
      | IR_ADDR_VREG \<Rightarrow> has_type func (addr_base addr) IR_PTR
      | IR_ADDR_SLOT \<Rightarrow> slot_ok func (addr_base addr)
      | IR_ADDR_GLOBAL \<Rightarrow> global_ok m (addr_base addr))"

definition int_binary :: "ir_op set" where
  "int_binary = {IR_ADD, IR_SUB, IR_MUL, IR_SDIV, IR_UDIV, IR_SREM, IR_UREM, IR_AND, IR_OR, IR_XOR, IR_SHL, IR_LSHR, IR_ASHR}"

definition float_binary :: "ir_op set" where
  "float_binary = {IR_FADD, IR_FSUB, IR_FMUL, IR_FDIV}"

definition conversions :: "ir_op set" where
  "conversions = {IR_SEXT, IR_ZEXT, IR_TRUNC, IR_SITOFP, IR_UITOFP, IR_FPTOSI, IR_FPTOUI, IR_FPEXT, IR_FPTRUNC, IR_BITCAST}"

text \<open>The typing rules. An operation that gives no value can have a destination in the
  representation; then the type of the instruction is that of the register.\<close>

inductive ir_typed :: "ir_module \<Rightarrow> ir_function \<Rightarrow> ir_inst \<Rightarrow> bool" for m func where
  nop: "i_op inst = IR_NOP \<Longrightarrow> i_dst inst = IR_NO_VREG \<or> writes func inst (i_type inst) \<Longrightarrow> ir_typed m func inst"
| const_int: "i_op inst = IR_CONST \<Longrightarrow> ir_type_is_int_or_ptr t \<Longrightarrow> i_type inst = t \<Longrightarrow> writes func inst t \<Longrightarrow>
    ir_typed m func inst"
| const_float: "i_op inst = IR_CONST_FLOAT \<Longrightarrow> ir_type_is_float t \<Longrightarrow> i_type inst = t \<Longrightarrow> writes func inst t \<Longrightarrow>
    ir_typed m func inst"
| copy: "i_op inst = IR_COPY \<Longrightarrow> i_type inst = t \<Longrightarrow> has_type func (i_a inst) t \<Longrightarrow> writes func inst t \<Longrightarrow>
    ir_typed m func inst"
| slot_addr: "i_op inst = IR_SLOT_ADDR \<Longrightarrow> slot_ok func (i_imm inst) \<Longrightarrow> i_type inst = IR_PTR \<Longrightarrow>
    writes func inst IR_PTR \<Longrightarrow> ir_typed m func inst"
| global_addr: "i_op inst = IR_GLOBAL_ADDR \<Longrightarrow> global_ok m (i_imm inst) \<Longrightarrow> i_type inst = IR_PTR \<Longrightarrow>
    writes func inst IR_PTR \<Longrightarrow> ir_typed m func inst"
| load: "i_op inst = IR_LOAD \<Longrightarrow> addr_typed m func (i_addr inst) \<Longrightarrow> i_type inst = t \<Longrightarrow> t \<noteq> IR_VOID \<Longrightarrow>
    writes func inst t \<Longrightarrow> ir_typed m func inst"
| store: "i_op inst = IR_STORE \<Longrightarrow> addr_typed m func (i_addr inst) \<Longrightarrow> i_type inst = t \<Longrightarrow> t \<noteq> IR_VOID \<Longrightarrow>
    has_type func (i_a inst) t \<Longrightarrow> i_dst inst = IR_NO_VREG \<or> writes func inst t \<Longrightarrow> ir_typed m func inst"
| ptr_add: "i_op inst = IR_PTR_ADD \<Longrightarrow> has_type func (i_a inst) IR_PTR \<Longrightarrow> has_type func (i_b inst) IR_I64 \<Longrightarrow>
    i_type inst = IR_PTR \<Longrightarrow> writes func inst IR_PTR \<Longrightarrow> ir_typed m func inst"
| memcpy: "i_op inst = IR_MEMCPY \<Longrightarrow> has_type func (i_a inst) IR_PTR \<Longrightarrow> has_type func (i_b inst) IR_PTR \<Longrightarrow>
    0 < i_imm inst \<Longrightarrow> i_dst inst = IR_NO_VREG \<or> writes func inst (i_type inst) \<Longrightarrow> ir_typed m func inst"
| memset: "i_op inst = IR_MEMSET \<Longrightarrow> has_type func (i_a inst) IR_PTR \<Longrightarrow> 0 < i_imm inst \<Longrightarrow>
    i_dst inst = IR_NO_VREG \<or> writes func inst (i_type inst) \<Longrightarrow> ir_typed m func inst"
| int_binary: "i_op inst \<in> int_binary \<Longrightarrow> ir_type_is_int t \<Longrightarrow> i_type inst = t \<Longrightarrow> has_type func (i_a inst) t \<Longrightarrow>
    has_type func (i_b inst) t \<Longrightarrow> writes func inst t \<Longrightarrow> ir_typed m func inst"
| int_unary: "i_op inst = IR_NEG \<or> i_op inst = IR_NOT \<Longrightarrow> ir_type_is_int t \<Longrightarrow> i_type inst = t \<Longrightarrow>
    has_type func (i_a inst) t \<Longrightarrow> writes func inst t \<Longrightarrow> ir_typed m func inst"
| float_binary: "i_op inst \<in> float_binary \<Longrightarrow> ir_type_is_float t \<Longrightarrow> i_type inst = t \<Longrightarrow> has_type func (i_a inst) t \<Longrightarrow>
    has_type func (i_b inst) t \<Longrightarrow> writes func inst t \<Longrightarrow> ir_typed m func inst"
| float_unary: "i_op inst = IR_FNEG \<Longrightarrow> ir_type_is_float t \<Longrightarrow> i_type inst = t \<Longrightarrow>
    has_type func (i_a inst) t \<Longrightarrow> writes func inst t \<Longrightarrow> ir_typed m func inst"
| icmp: "i_op inst = IR_ICMP \<Longrightarrow> ir_cmp_is_int (i_cmp inst) \<Longrightarrow> i_type inst = t \<Longrightarrow> ir_type_is_int_or_ptr t \<Longrightarrow>
    has_type func (i_a inst) t \<Longrightarrow> has_type func (i_b inst) t \<Longrightarrow> writes func inst IR_I8 \<Longrightarrow> ir_typed m func inst"
| fcmp: "i_op inst = IR_FCMP \<Longrightarrow> ir_cmp_is_float (i_cmp inst) \<Longrightarrow> i_type inst = t \<Longrightarrow> ir_type_is_float t \<Longrightarrow>
    has_type func (i_a inst) t \<Longrightarrow> has_type func (i_b inst) t \<Longrightarrow> writes func inst IR_I8 \<Longrightarrow> ir_typed m func inst"
| conversion: "i_op inst \<in> conversions \<Longrightarrow> i_type inst = t \<Longrightarrow> has_type func (i_a inst) s \<Longrightarrow>
    conversion_ok (i_op inst) s t \<Longrightarrow> writes func inst t \<Longrightarrow> ir_typed m func inst"
| call: "i_op inst = IR_CALL \<Longrightarrow>
    (if callee_kind (i_call inst) = IR_CALLEE_VREG then has_type func (callee (i_call inst)) IR_PTR
     else global_ok m (callee (i_call inst)) \<and>
       g_kind (m_globals m ! nat (callee (i_call inst))) \<noteq> IR_GLOBAL_DATA) \<Longrightarrow>
    \<forall>v \<in> set (call_args (i_call inst)). vreg_ok func v \<Longrightarrow>
    i_dst inst = IR_NO_VREG \<or> (call_return_type (i_call inst) \<noteq> IR_VOID \<and> writes func inst (call_return_type (i_call inst))) \<Longrightarrow>
    ir_typed m func inst"

text \<open>The operand fields that an operation reads.\<close>

definition reads_a :: "ir_op \<Rightarrow> bool" where
  "reads_a op \<longleftrightarrow> op \<notin> {IR_NOP, IR_CONST, IR_CONST_FLOAT, IR_SLOT_ADDR, IR_GLOBAL_ADDR, IR_LOAD, IR_CALL, IR_OP_COUNT}"

definition reads_b :: "ir_op \<Rightarrow> bool" where
  "reads_b op \<longleftrightarrow> op \<in> int_binary \<union> float_binary \<union> {IR_PTR_ADD, IR_MEMCPY, IR_ICMP, IR_FCMP}"

definition fields_ok :: "ir_inst \<Rightarrow> bool" where
  "fields_ok inst \<longleftrightarrow>
     (i_a inst \<noteq> IR_NO_VREG \<longrightarrow> reads_a (i_op inst)) \<and> (i_b inst \<noteq> IR_NO_VREG \<longrightarrow> reads_b (i_op inst)) \<and>
     (i_dst inst \<noteq> IR_NO_VREG \<and> i_type inst = IR_VOID \<longrightarrow> i_op inst \<in> {IR_ICMP, IR_FCMP, IR_CALL})"

lemma problem_0 [simp]: "problem p = 0 \<longleftrightarrow> \<not> p"
  by (simp add: problem_def)

lemma sum_upt_0: "sum_list (map f [0..<n]) = 0 \<longleftrightarrow> (\<forall>b < n. f b = (0::nat))"
  by (auto simp: Ball_def)

lemma vreg_type_exists:
  "ir_vreg_type func v = t \<Longrightarrow> t \<noteq> IR_VOID \<Longrightarrow> vreg_ok func v"
  by (auto simp: ir_vreg_type_def vreg_ok_def vreg_count_def split: if_splits)

lemma verify_operand_0:
  "ir_verify_operand func v t = 0 \<longleftrightarrow> (if t = IR_VOID then vreg_ok func v else has_type func v t)"
  by (auto simp: ir_verify_operand_def vreg_ok_def vreg_count_def has_type_def)

lemma verify_addr_0: "ir_verify_addr m func addr = 0 \<longleftrightarrow> addr_typed m func addr"
  by (auto simp: ir_verify_addr_def verify_operand_0 slot_ok_def global_ok_def not_less not_le
      split: ir_addr_kind.splits)

lemma writes_iff: "t \<noteq> IR_VOID \<Longrightarrow> writes func inst t \<longleftrightarrow> i_dst inst \<noteq> IR_NO_VREG \<and> ir_vreg_type func (i_dst inst) = t"
  using vreg_type_exists by (auto simp: writes_def has_type_def)

lemma verify_call_0:
  "ir_verify_call m func inst = 0 \<longleftrightarrow>
     (if callee_kind (i_call inst) = IR_CALLEE_VREG then has_type func (callee (i_call inst)) IR_PTR
      else global_ok m (callee (i_call inst)) \<and> g_kind (m_globals m ! nat (callee (i_call inst))) \<noteq> IR_GLOBAL_DATA) \<and>
     (\<forall>v \<in> set (call_args (i_call inst)). vreg_ok func v) \<and>
     (i_dst inst = IR_NO_VREG \<or> (call_return_type (i_call inst) \<noteq> IR_VOID \<and> writes func inst (call_return_type (i_call inst))))"
  by (auto simp: ir_verify_call_def Let_def verify_operand_0 global_ok_def writes_iff not_less not_le)

inductive_simps ir_typed_iff: "ir_typed m func inst"

lemmas op_groups = int_binary_def float_binary_def conversions_def

text \<open>For an operation that needs a destination, and for one that does not.\<close>

lemma verify_inst_0_dst:
  assumes "needs_dst (i_op inst)" and "i_op inst \<noteq> IR_ICMP" and "i_op inst \<noteq> IR_FCMP" and "fields_ok inst"
  shows "ir_verify_inst m func inst = 0 \<longleftrightarrow>
    writes func inst (i_type inst) \<and> i_type inst \<noteq> IR_VOID \<and> ir_verify_op m func inst (i_op inst) = 0"
proof (cases "i_dst inst = IR_NO_VREG")
  case True
  then show ?thesis using assms by (simp add: ir_verify_inst_def writes_def)
next
  case False
  then have t: "i_type inst \<noteq> IR_VOID"
    using assms by (auto simp: fields_ok_def needs_dst_def)
  then show ?thesis using False assms by (auto simp: ir_verify_inst_def writes_iff needs_dst_def)
qed

lemma verify_inst_0_no_dst:
  assumes "\<not> needs_dst (i_op inst)" and "i_op inst \<noteq> IR_CALL" and "fields_ok inst"
  shows "ir_verify_inst m func inst = 0 \<longleftrightarrow>
    (i_dst inst = IR_NO_VREG \<or> writes func inst (i_type inst)) \<and> ir_verify_op m func inst (i_op inst) = 0"
proof (cases "i_dst inst = IR_NO_VREG")
  case True
  then show ?thesis using assms by (simp add: ir_verify_inst_def)
next
  case False
  then have t: "i_type inst \<noteq> IR_VOID"
    using assms by (auto simp: fields_ok_def needs_dst_def)
  then show ?thesis using False assms by (auto simp: ir_verify_inst_def writes_iff needs_dst_def)
qed

lemma int_not_void [simp]: "ir_type_is_int t \<Longrightarrow> t \<noteq> IR_VOID" "ir_type_is_float t \<Longrightarrow> t \<noteq> IR_VOID"
  by (auto simp: ir_type_is_float_def)

lemma conversion_source: "conversion_ok op s t \<Longrightarrow> op \<in> conversions"
  by (cases op) (simp_all add: conversion_ok_def conversions_def)

lemma verify_op_typed:
  assumes "fields_ok inst" and "i_op inst = op"
  shows "ir_verify_inst m func inst = 0 \<longleftrightarrow> ir_typed m func inst"
proof (cases "needs_dst op \<and> op \<noteq> IR_ICMP \<and> op \<noteq> IR_FCMP")
  case True
  then have nd: "needs_dst (i_op inst)" "i_op inst \<noteq> IR_ICMP" "i_op inst \<noteq> IR_FCMP" using assms(2) by auto
  have tv: "i_dst inst = IR_NO_VREG \<or> i_type inst \<noteq> IR_VOID"
    using assms(1) nd by (auto simp: fields_ok_def needs_dst_def)
  show ?thesis
    unfolding verify_inst_0_dst [OF nd assms(1)] ir_typed_iff
    using assms(2) True tv
    by (cases op)
      (auto simp: ir_verify_op_def Let_def op_groups needs_dst_def verify_operand_0 verify_addr_0 slot_ok_def
        global_ok_def not_less not_le has_type_def writes_def)
next
  case False
  show ?thesis
  proof (cases "op = IR_ICMP \<or> op = IR_FCMP \<or> op = IR_CALL")
    case True
    then show ?thesis
      using assms(2)
      by (elim disjE)
        (auto simp: ir_typed_iff ir_verify_inst_def ir_verify_op_def Let_def op_groups needs_dst_def verify_operand_0
          verify_call_0 writes_iff ir_type_is_int_or_ptr_def ir_type_is_float_def split: if_splits)
  next
    case f: False
    then have nd: "\<not> needs_dst (i_op inst)" "i_op inst \<noteq> IR_CALL" using False assms(2) by auto
    show ?thesis
      unfolding verify_inst_0_no_dst [OF nd assms(1)] ir_typed_iff
      using assms(2) False f
      by (cases op)
        (auto simp: ir_verify_op_def Let_def op_groups needs_dst_def verify_operand_0 verify_addr_0 not_less not_le)
  qed
qed

section \<open>Valid functions\<close>

definition term_typed :: "ir_function \<Rightarrow> ir_term \<Rightarrow> bool" where
  "term_typed func term \<longleftrightarrow>
     (case t_kind term of
        IR_TERM_NONE \<Rightarrow> False
      | IR_TERM_JMP \<Rightarrow> (\<exists>t \<in> set (f_layout func). t_target term = Some t)
      | IR_TERM_BR \<Rightarrow> (\<exists>t \<in> set (f_layout func). t_target term = Some t) \<and>
                      (\<exists>t \<in> set (f_layout func). t_else_target term = Some t) \<and> has_type func (t_cond term) IR_I8
      | IR_TERM_RET \<Rightarrow> (if f_return_type func = IR_VOID then t_value term = IR_NO_VREG
                        else has_type func (t_value term) (f_return_type func)))"

text \<open>Everything that is defined, as often as it is.\<close>

definition all_dsts :: "ir_function \<Rightarrow> int list" where
  "all_dsts func = concat (map (\<lambda>b. map i_dst (insts_of func b)) [0..<block_count func])"

definition definitions :: "ir_function \<Rightarrow> int list" where
  "definitions func = f_params func @ filter (\<lambda>v. v \<noteq> IR_NO_VREG) (all_dsts func)"

definition ir_valid :: "ir_module \<Rightarrow> ir_function \<Rightarrow> bool" where
  "ir_valid m func \<longleftrightarrow>
     0 < block_count func \<and>
     (\<forall>v \<in> set (f_params func). vreg_ok func v) \<and>
     (\<forall>b < block_count func. b_index (block_at func b) = b \<and>
        (\<forall>inst \<in> set (insts_of func b). ir_typed m func inst) \<and> term_typed func (b_term (block_at func b))) \<and>
     distinct (definitions func) \<and>
     (\<forall>b < block_count func. (\<forall>inst \<in> set (insts_of func b). set (ir_inst_uses inst) \<subseteq> set (definitions func)) \<and>
        set (ir_term_uses (b_term (block_at func b))) \<subseteq> set (definitions func)) \<and>
     (\<forall>v. live_at func 0 0 v \<longrightarrow> int v \<in> set (f_params func))"

text \<open>What the verifier takes for granted: the fields that are not read are empty, and a block is
  placed when it is in the layout.\<close>

definition verify_pre :: "ir_function \<Rightarrow> bool" where
  "verify_pre func \<longleftrightarrow>
     (\<forall>b < block_count func. (\<forall>inst \<in> set (insts_of func b). fields_ok inst) \<and>
        (\<forall>t. t_target (b_term (block_at func b)) = Some t \<or> t_else_target (b_term (block_at func b)) = Some t \<longrightarrow>
           b_is_placed (f_made func ! t) = (t \<in> set (f_layout func))))"

section \<open>Counting definitions\<close>

lemma length_count_def [simp]: "length (count_def counts v) = length counts"
  by (simp add: count_def_def)

lemma length_count_defs [simp]: "length (foldl count_def counts vs) = length counts"
  by (induction vs arbitrary: counts) simp_all

lemma count_defs_nth:
  assumes "v < length counts" and "\<forall>w \<in> set vs. 0 \<le> w \<and> nat w < length counts"
  shows "foldl count_def counts vs ! v = counts ! v + count_list vs (int v)"
  using assms
proof (induction vs arbitrary: counts)
  case (Cons w vs)
  have "count_def counts w ! v = counts ! v + (if w = int v then 1 else 0)"
    using Cons.prems by (auto simp: count_def_def nth_list_update)
  then show ?case using Cons.IH [of "count_def counts w"] Cons.prems by simp
qed simp

lemma distinct_count: "distinct xs \<longleftrightarrow> (\<forall>x. count_list xs x \<le> 1)"
proof (induction xs)
  case (Cons x xs)
  have "count_list (x # xs) y \<le> 1 \<longleftrightarrow> (if x = y then count_list xs y = 0 else count_list xs y \<le> 1)" for y
    by simp
  then have "(\<forall>y. count_list (x # xs) y \<le> 1) \<longleftrightarrow> count_list xs x = 0 \<and> (\<forall>y. count_list xs y \<le> 1)"
    by (metis (full_types) le0 zero_less_one_class.zero_le_one)
  then show ?case using Cons.IH by (simp add: count_list_0_iff)
qed simp

lemma verify_params_eq:
  "foldl (verify_param func) (e, counts) ps =
     (e + length (filter (\<lambda>v. \<not> vreg_ok func v) ps), foldl count_def counts (filter (vreg_ok func) ps))"
  by (induction ps arbitrary: e counts) (auto simp: verify_param_def vreg_ok_def not_less not_le)

lemma verify_insts_eq:
  "foldl (verify_inst m func) (e, counts) insts =
     (e + sum_list (map (ir_verify_inst m func) insts), foldl count_def counts (filter (vreg_ok func) (map i_dst insts)))"
proof (induction insts arbitrary: e counts)
  case (Cons inst insts)
  have "i_dst inst \<noteq> IR_NO_VREG \<and> 0 \<le> i_dst inst \<and> i_dst inst < int (vreg_count func) \<longleftrightarrow> vreg_ok func (i_dst inst)"
    by (auto simp: vreg_ok_def)
  then have "verify_inst m func (e, counts) inst =
      (e + ir_verify_inst m func inst, if vreg_ok func (i_dst inst) then count_def counts (i_dst inst) else counts)"
    unfolding verify_inst_def by simp
  then show ?case using Cons.IH by simp
qed simp

definition block_problems :: "ir_module \<Rightarrow> ir_function \<Rightarrow> nat \<Rightarrow> nat" where
  "block_problems m func b =
     problem (b_index (block_at func b) \<noteq> b) + sum_list (map (ir_verify_inst m func) (insts_of func b)) +
     ir_verify_term func (b_term (block_at func b))"

lemma verify_blocks_eq:
  "foldl (verify_block m func) (e, counts) bs =
     (e + sum_list (map (block_problems m func) bs),
      foldl count_def counts (filter (vreg_ok func) (concat (map (\<lambda>b. map i_dst (insts_of func b)) bs))))"
proof (induction bs arbitrary: e counts)
  case (Cons b bs)
  have "verify_block m func (e, counts) b =
      (e + block_problems m func b, foldl count_def counts (filter (vreg_ok func) (map i_dst (insts_of func b))))"
    by (simp add: verify_block_def verify_insts_eq block_problems_def insts_of_def Let_def)
  then show ?case using Cons.IH by simp
qed simp

text \<open>The counts of the definitions, and the three rounds of checks.\<close>

definition def_counts :: "ir_function \<Rightarrow> nat list" where
  "def_counts func =
     foldl count_def (replicate (if 0 < vreg_count func then vreg_count func else 1) 0)
       (filter (vreg_ok func) (f_params func @ all_dsts func))"

lemma def_counts_nth:
  assumes "v < vreg_count func"
  shows "def_counts func ! v = count_list (f_params func @ all_dsts func) (int v)"
proof -
  have "vreg_ok func (int v)" using assms by (simp add: vreg_ok_def)
  then have "count_list (filter (vreg_ok func) xs) (int v) = count_list xs (int v)" for xs
    by (induction xs) auto
  then show ?thesis
    unfolding def_counts_def using assms
    by (subst count_defs_nth) (auto simp: vreg_ok_def)
qed

lemma ir_verify_function_eq:
  "ir_verify_function m func =
     (if block_count func = 0 then Some False
      else if length (filter (\<lambda>v. \<not> vreg_ok func v) (f_params func)) +
           sum_list (map (block_problems m func) [0..<block_count func]) +
           sum_list (map (\<lambda>v. problem (1 < def_counts func ! v)) [0..<vreg_count func]) \<noteq> 0 then Some False
      else if sum_list (map (verify_uses func (def_counts func)) [0..<block_count func]) \<noteq> 0 then Some False
      else map_option (\<lambda>live. verify_entry func live = 0) (ir_compute_liveness func))"
  by (simp add: ir_verify_function_def verify_params_eq verify_blocks_eq Let_def def_counts_def all_dsts_def
      foldl_append [symmetric] filter_append [symmetric] del: foldl_append filter_append)

section \<open>The verifier accepts the valid functions\<close>

lemma placed_iff:
  assumes "\<And>t. target = Some t \<Longrightarrow> b_is_placed (f_made func ! t) = (t \<in> set (f_layout func))"
  shows "is_placed func target \<longleftrightarrow> (\<exists>t \<in> set (f_layout func). target = Some t)"
  using assms by (auto simp: is_placed_def split: option.splits)

lemma not_void_typed:
  "t \<noteq> IR_VOID \<Longrightarrow> has_type func v t \<longleftrightarrow> v \<noteq> IR_NO_VREG \<and> ir_vreg_type func v = t"
  using vreg_type_exists by (auto simp: has_type_def vreg_ok_def)

lemma verify_term_0:
  assumes "\<And>t. t_target term = Some t \<or> t_else_target term = Some t \<Longrightarrow>
    b_is_placed (f_made func ! t) = (t \<in> set (f_layout func))"
  shows "ir_verify_term func term = 0 \<longleftrightarrow> term_typed func term"
  using placed_iff [of "t_target term"] placed_iff [of "t_else_target term"] assms
  by (cases "t_kind term") (auto simp: ir_verify_term_def term_typed_def not_void_typed)

lemma block_problems_0:
  assumes "verify_pre func" and "b < block_count func"
  shows "block_problems m func b = 0 \<longleftrightarrow> b_index (block_at func b) = b \<and>
    (\<forall>inst \<in> set (insts_of func b). ir_typed m func inst) \<and> term_typed func (b_term (block_at func b))"
proof -
  have "ir_verify_term func (b_term (block_at func b)) = 0 \<longleftrightarrow> term_typed func (b_term (block_at func b))"
    using assms by (intro verify_term_0) (auto simp: verify_pre_def)
  moreover have "ir_verify_inst m func inst = 0 \<longleftrightarrow> ir_typed m func inst" if "inst \<in> set (insts_of func b)" for inst
    using assms that by (intro verify_op_typed [OF _ refl]) (auto simp: verify_pre_def)
  ultimately show ?thesis by (auto simp: block_problems_def)
qed

text \<open>Typed instructions use and define registers that exist.\<close>

lemma has_type_ok: "has_type func v t \<Longrightarrow> vreg_ok func v"
  by (simp add: has_type_def)

lemma writes_ok: "writes func inst t \<Longrightarrow> vreg_ok func (i_dst inst)"
  by (simp add: writes_def has_type_def)

lemma typed_dst_ok: "ir_typed m func inst \<Longrightarrow> i_dst inst \<noteq> IR_NO_VREG \<Longrightarrow> vreg_ok func (i_dst inst)"
  by (erule ir_typed.cases) (auto dest: writes_ok)

lemma typed_addr_ok:
  "ir_typed m func inst \<Longrightarrow> i_op inst = IR_LOAD \<or> i_op inst = IR_STORE \<Longrightarrow> addr_kind (i_addr inst) = IR_ADDR_VREG \<Longrightarrow>
    vreg_ok func (addr_base (i_addr inst))"
  by (erule ir_typed.cases) (auto dest: has_type_ok simp: op_groups)

lemma typed_a_ok: "ir_typed m func inst \<Longrightarrow> reads_a (i_op inst) \<Longrightarrow> vreg_ok func (i_a inst)"
  by (erule ir_typed.cases) (auto dest: has_type_ok simp: reads_a_def)

lemma typed_b_ok: "ir_typed m func inst \<Longrightarrow> reads_b (i_op inst) \<Longrightarrow> vreg_ok func (i_b inst)"
  by (erule ir_typed.cases) (auto dest: has_type_ok simp: reads_b_def op_groups)

lemma typed_call_ok:
  "ir_typed m func inst \<Longrightarrow> i_op inst = IR_CALL \<Longrightarrow>
    (callee_kind (i_call inst) = IR_CALLEE_VREG \<longrightarrow> vreg_ok func (callee (i_call inst))) \<and>
    (\<forall>v \<in> set (call_args (i_call inst)). vreg_ok func v)"
  by (erule ir_typed.cases) (auto dest: has_type_ok simp: op_groups split: if_splits)

lemma typed_uses_ok:
  assumes "ir_typed m func inst" and "fields_ok inst" and "v \<in> set (ir_inst_uses inst)"
  shows "vreg_ok func v"
  using assms(2,3) typed_addr_ok [OF assms(1)] typed_a_ok [OF assms(1)] typed_b_ok [OF assms(1)]
    typed_call_ok [OF assms(1)]
  by (auto simp: ir_inst_uses_eq inst_operands_def fields_ok_def split: if_splits)

lemma wf_of_rules:
  assumes pre: "verify_pre func"
    and params: "\<forall>v \<in> set (f_params func). vreg_ok func v"
    and blocks: "\<forall>b < block_count func. b_index (block_at func b) = b \<and>
        (\<forall>inst \<in> set (insts_of func b). ir_typed m func inst) \<and> term_typed func (b_term (block_at func b))"
    and used: "\<forall>b < block_count func. set (ir_term_uses (b_term (block_at func b))) \<subseteq> set (definitions func)"
  shows "ir_wf func"
proof -
  have inst: "(\<forall>v \<in> set (ir_inst_uses inst). vreg_ok func v) \<and> (i_dst inst \<noteq> IR_NO_VREG \<longrightarrow> vreg_ok func (i_dst inst))"
    if "b < block_count func" "inst \<in> set (insts_of func b)" for b inst
    using pre blocks that typed_uses_ok typed_dst_ok unfolding verify_pre_def by blast
  have dst_ok: "vreg_ok func v" if "v \<in> set (definitions func)" for v
    using that params inst by (fastforce simp: definitions_def all_dsts_def)
  have placed: "successor_index func t < block_count func" if "t \<in> set (f_layout func)" for t
    using that blocks unfolding successor_index_def in_set_conv_nth block_at_def block_count_def by metis
  have "successors func b \<subseteq> {..<block_count func}" if b: "b < block_count func" for b
  proof
    fix n assume "n \<in> successors func b"
    then obtain t where t: "n = successor_index func t" "Some t \<in> set (ir_block_successors (block_at func b))"
      by (auto simp: successors_def)
    have "term_typed func (b_term (block_at func b))" using blocks b by simp
    then have "t \<in> set (f_layout func)"
      using t(2) by (auto simp: term_typed_def ir_block_successors_def ir_block_successor_count_def
          ir_block_successor_def split: ir_term_kind.splits if_splits)
    then show "n \<in> {..<block_count func}" using placed t(1) by simp
  qed
  then show ?thesis
    using inst params used dst_ok unfolding ir_wf_def by blast
qed

lemma definitions_counted:
  assumes "\<And>v. v \<in> set (definitions func) \<Longrightarrow> vreg_ok func v" and "vreg_ok func v"
  shows "def_counts func ! nat v = count_list (definitions func) v"
proof -
  have "v \<noteq> IR_NO_VREG" using assms(2) by (auto simp: vreg_ok_def)
  then have "count_list (filter (\<lambda>v. v \<noteq> IR_NO_VREG) xs) v = count_list xs v" for xs
    by (induction xs) auto
  then show ?thesis
    using assms(2) def_counts_nth [of "nat v" func] by (auto simp: vreg_ok_def definitions_def nat_less_iff)
qed

lemma distinct_definitions:
  assumes "\<And>v. v \<in> set (definitions func) \<Longrightarrow> vreg_ok func v"
  shows "distinct (definitions func) \<longleftrightarrow> (\<forall>v < vreg_count func. def_counts func ! v \<le> 1)"
proof -
  have "def_counts func ! v = count_list (definitions func) (int v)" if "v < vreg_count func" for v
    using definitions_counted [OF assms, of "int v"] that by (simp add: vreg_ok_def)
  moreover have "count_list (definitions func) v \<le> 1" if "\<not> vreg_ok func v" for v
    using that assms by (metis count_notin le0)
  moreover have "vreg_ok func v \<longleftrightarrow> (\<exists>n < vreg_count func. v = int n)" for v
    by (auto simp: vreg_ok_def intro: exI [of _ "nat v"])
  ultimately show ?thesis unfolding distinct_count by metis
qed

lemma verify_uses_0:
  assumes "\<And>v. v \<in> set (definitions func) \<Longrightarrow> vreg_ok func v"
    and "\<And>inst v. inst \<in> set (insts_of func b) \<Longrightarrow> v \<in> set (ir_inst_uses inst) \<Longrightarrow> vreg_ok func v"
  shows "verify_uses func (def_counts func) b = 0 \<longleftrightarrow>
    (\<forall>inst \<in> set (insts_of func b). set (ir_inst_uses inst) \<subseteq> set (definitions func)) \<and>
    set (ir_term_uses (b_term (block_at func b))) \<subseteq> set (definitions func)"
proof -
  have undefined: "def_counts func ! nat v = 0 \<longleftrightarrow> v \<notin> set (definitions func)" if "vreg_ok func v" for v
    using definitions_counted [OF assms(1) that] by (simp add: count_list_0_iff)
  have insts: "(\<forall>v \<in> set (ir_inst_uses inst). def_counts func ! nat v \<noteq> 0) \<longleftrightarrow>
      set (ir_inst_uses inst) \<subseteq> set (definitions func)" if "inst \<in> set (insts_of func b)" for inst
    using undefined assms(2) [OF that] by blast
  have ends: "\<not> (v < 0 \<or> int (vreg_count func) \<le> v \<or> def_counts func ! nat v = 0) \<longleftrightarrow> v \<in> set (definitions func)" for v
    using undefined [of v] assms(1) [of v] by (auto simp: vreg_ok_def)
  have "verify_uses func (def_counts func) b = 0 \<longleftrightarrow>
      (\<forall>inst \<in> set (insts_of func b). \<forall>v \<in> set (ir_inst_uses inst). def_counts func ! nat v \<noteq> 0) \<and>
      (\<forall>v \<in> set (ir_term_uses (b_term (block_at func b))).
         \<not> (v < 0 \<or> int (vreg_count func) \<le> v \<or> def_counts func ! nat v = 0))"
    by (simp add: verify_uses_def Let_def insts_of_def)
  then show ?thesis using insts unfolding ends by blast
qed

lemma verify_entry_0:
  assumes wf: "ir_wf func" and "0 < block_count func" and live: "live_ok func live" "live_solution func live"
  shows "verify_entry func live = 0 \<longleftrightarrow> (\<forall>v. live_at func 0 0 v \<longrightarrow> int v \<in> set (f_params func))"
proof -
  let ?n = "vreg_count func"
  let ?entry = "foldl ir_bitset_clear (live_in live ! 0) (map nat (f_params func))"
  have ok: "v \<in> set (f_params func) \<Longrightarrow> 0 \<le> v \<and> v < int ?n" for v
    using wf by (auto simp: ir_wf_def vreg_ok_def)
  have w: "bitset_wf ?n (live_in live ! 0)" using live(1) assms(2) by (simp add: live_ok_def live_wf_def)
  have e: "bitset_wf ?n ?entry \<and> bitset_elems ?entry = {v. live_at func 0 0 v} - nat ` set (f_params func)"
    using bits.fold_clear [OF w, of "map nat (f_params func)"] liveness_sets [OF wf live] assms(2) ok by fastforce
  have "verify_entry func live = 0 \<longleftrightarrow> (\<forall>v < ?n. v \<notin> bitset_elems ?entry)"
    using e bits.get_elems [of ?n ?entry] unfolding verify_entry_def Let_def sum_upt_0 by simp
  also have "\<dots> \<longleftrightarrow> bitset_elems ?entry = {}"
    using e live_at_range [OF wf _ assms(2)] by blast
  also have "\<dots> \<longleftrightarrow> (\<forall>v. live_at func 0 0 v \<longrightarrow> v \<in> nat ` set (f_params func))" using e by blast
  also have "\<dots> \<longleftrightarrow> (\<forall>v. live_at func 0 0 v \<longrightarrow> int v \<in> set (f_params func))"
  proof -
    have "v \<in> nat ` set (f_params func) \<longleftrightarrow> int v \<in> set (f_params func)" for v
      using ok by (force simp: image_iff)
    then show ?thesis by simp
  qed
  finally show ?thesis .
qed

lemma verify_function_valid:
  assumes pre: "verify_pre func"
  shows "ir_verify_function m func = Some (ir_valid m func)"
proof -
  define shapes where "shapes \<longleftrightarrow> (\<forall>v \<in> set (f_params func). vreg_ok func v) \<and>
    (\<forall>b < block_count func. b_index (block_at func b) = b \<and>
        (\<forall>inst \<in> set (insts_of func b). ir_typed m func inst) \<and> term_typed func (b_term (block_at func b))) \<and>
    distinct (definitions func)"
  define used where "used \<longleftrightarrow> (\<forall>b < block_count func.
      (\<forall>inst \<in> set (insts_of func b). set (ir_inst_uses inst) \<subseteq> set (definitions func)) \<and>
      set (ir_term_uses (b_term (block_at func b))) \<subseteq> set (definitions func))"
  have valid: "ir_valid m func \<longleftrightarrow> 0 < block_count func \<and> shapes \<and> used \<and>
      (\<forall>v. live_at func 0 0 v \<longrightarrow> int v \<in> set (f_params func))"
    unfolding ir_valid_def shapes_def used_def by blast
  have blocks: "sum_list (map (block_problems m func) [0..<block_count func]) = 0 \<longleftrightarrow>
      (\<forall>b < block_count func. b_index (block_at func b) = b \<and>
        (\<forall>inst \<in> set (insts_of func b). ir_typed m func inst) \<and> term_typed func (b_term (block_at func b)))"
    unfolding sum_upt_0 using block_problems_0 [OF pre] by blast
  have defs_ok: "vreg_ok func v" if "\<forall>v \<in> set (f_params func). vreg_ok func v"
      "\<forall>b < block_count func. \<forall>inst \<in> set (insts_of func b). ir_typed m func inst" "v \<in> set (definitions func)" for v
    using that typed_dst_ok by (fastforce simp: definitions_def all_dsts_def)
  have first: "length (filter (\<lambda>v. \<not> vreg_ok func v) (f_params func)) +
      sum_list (map (block_problems m func) [0..<block_count func]) +
      sum_list (map (\<lambda>v. problem (1 < def_counts func ! v)) [0..<vreg_count func]) = 0 \<longleftrightarrow> shapes"
  proof -
    have "length (filter (\<lambda>v. \<not> vreg_ok func v) (f_params func)) = 0 \<longleftrightarrow> (\<forall>v \<in> set (f_params func). vreg_ok func v)"
      by (simp add: filter_empty_conv)
    moreover have "sum_list (map (\<lambda>v. problem (1 < def_counts func ! v)) [0..<vreg_count func]) = 0 \<longleftrightarrow>
        (\<forall>v < vreg_count func. def_counts func ! v \<le> 1)"
      unfolding sum_upt_0 by (simp add: not_less)
    ultimately show ?thesis
      using blocks distinct_definitions [OF defs_ok] unfolding shapes_def add_is_0 by blast
  qed
  have second: "sum_list (map (verify_uses func (def_counts func)) [0..<block_count func]) = 0 \<longleftrightarrow> used" if "shapes"
  proof -
    have ok: "vreg_ok func v" if "v \<in> set (definitions func)" for v
      using defs_ok that \<open>shapes\<close> by (simp add: shapes_def)
    have "verify_uses func (def_counts func) b = 0 \<longleftrightarrow>
        (\<forall>inst \<in> set (insts_of func b). set (ir_inst_uses inst) \<subseteq> set (definitions func)) \<and>
        set (ir_term_uses (b_term (block_at func b))) \<subseteq> set (definitions func)" if "b < block_count func" for b
    proof (rule verify_uses_0 [OF ok])
      fix inst v assume "inst \<in> set (insts_of func b)" "v \<in> set (ir_inst_uses inst)"
      then show "vreg_ok func v"
        using typed_uses_ok \<open>shapes\<close> pre that unfolding shapes_def verify_pre_def by blast
    qed
    then show ?thesis unfolding sum_upt_0 used_def by blast
  qed
  have third: "map_option (\<lambda>live. verify_entry func live = 0) (ir_compute_liveness func) =
      Some (\<forall>v. live_at func 0 0 v \<longrightarrow> int v \<in> set (f_params func))" if "0 < block_count func" "shapes" "used"
  proof -
    have "ir_wf func"
      using that by (intro wf_of_rules [OF pre]) (auto simp: shapes_def used_def)
    then obtain live where "ir_compute_liveness func = Some live" "live_ok func live" "live_solution func live"
      by (rule ir_compute_liveness_stops)
    then show ?thesis
      using verify_entry_0 [OF \<open>ir_wf func\<close> that(1)] by simp
  qed
  show ?thesis
    unfolding ir_verify_function_eq valid first using second third by simp
qed

text \<open>C8: the verifier accepts exactly the functions that the rules of the IR allow: blocks numbered
  by their place, instructions and terminators typed, each register defined at most once and none
  used without a definition, and only parameters live into the function. It always answers.\<close>

theorem ir_verify_function_exact:
  assumes "verify_pre func"
  shows "ir_verify_function m func = Some (ir_valid m func)"
  by (rule verify_function_valid [OF assms])

lemma valid_wf: "verify_pre func \<Longrightarrow> ir_valid m func \<Longrightarrow> ir_wf func"
  by (intro wf_of_rules) (auto simp: ir_valid_def)

lemma verify_module_foldl:
  "(\<And>func. func \<in> set fs \<Longrightarrow> ir_verify_function m func = Some (P func)) \<Longrightarrow>
   foldl (\<lambda>ok func. case ok of None \<Rightarrow> None
              | Some ok \<Rightarrow> map_option (\<lambda>verified. ok \<and> verified) (ir_verify_function m func)) (Some ok) fs =
   Some (ok \<and> (\<forall>func \<in> set fs. P func))"
  by (induction fs arbitrary: ok) auto



section \<open>What acceptance is worth\<close>

text \<open>Runs of a function from two environments that agree on the live registers stay together.\<close>

definition same_live :: "ir_function \<Rightarrow> nat \<Rightarrow> nat \<Rightarrow> (nat \<Rightarrow> 'v) \<Rightarrow> (nat \<Rightarrow> 'v) \<Rightarrow> bool" where
  "same_live func b i env env' \<longleftrightarrow> (\<forall>v. live_at func b i v \<longrightarrow> env v = env' v)"

lemma same_live_step:
  assumes same: "same_live func b i env env1" and "ir_step func effect taken (b, i, env, m) (b', i', env', m')"
  shows "\<exists>env1'. ir_step func effect taken (b, i, env1, m) (b', i', env1', m') \<and> same_live func b' i' env' env1'"
  using assms(2)
proof (cases rule: ir_step.cases)
  case (ir_inst inst x)
  let ?env1 = "if i_dst inst = IR_NO_VREG then env1 else env1(nat (i_dst inst) := x)"
  have vals: "map (\<lambda>v. env1 (nat v)) (ir_inst_uses inst) = map (\<lambda>v. env (nat v)) (ir_inst_uses inst)"
    using same ir_inst live_at.used_here [of i func b] by (simp add: same_live_def inst_uses_def)
  have "same_live func b (Suc i) env' ?env1"
    using same ir_inst live_at.used_later [of i func b]
    by (auto simp: same_live_def inst_defs_def)
  moreover have "ir_step func effect taken (b, i, env1, m) (b, Suc i, ?env1, m')"
  proof (rule ir_step.ir_inst [OF _ _ ir_inst(5) _ refl])
    show "effect inst (map (\<lambda>v. env1 (nat v)) (ir_inst_uses inst)) m x m'"
      unfolding vals by (rule ir_inst(6))
  qed (use ir_inst in simp_all)
  ultimately show ?thesis using ir_inst by blast
next
  case (ir_goto t)
  have "term_target taken (\<lambda>v. env1 (nat v)) (b_term (block_at func b)) = Some t"
  proof (cases "t_kind (b_term (block_at func b)) = IR_TERM_BR")
    case True
    then have "live_at func b i (nat (t_cond (b_term (block_at func b))))"
      using ir_goto by (auto simp: term_uses_def ir_term_uses_eq intro!: live_at.used_at_end)
    then show ?thesis using True same ir_goto by (simp add: same_live_def)
  qed (use ir_goto in \<open>simp split: ir_term_kind.splits\<close>)
  moreover have "same_live func b' 0 env env1"
    using same ir_goto term_target_successor live_at.used_after unfolding same_live_def by metis
  ultimately show ?thesis using ir_goto ir_step.ir_goto by metis
qed

text \<open>C6: a function that the verifier accepts never reads a register that was not given a value:
  whatever its registers hold at the start, apart from the parameters, each of its runs is possible,
  through the same points and with the same memory, and returns the same value.\<close>

theorem verified_reads_only_defined:
  assumes pre: "verify_pre func" and accepted: "ir_verify_function m func = Some True"
    and params: "\<forall>v \<in> set (f_params func). env (nat v) = env1 (nat v)"
    and run: "(ir_step func effect taken)\<^sup>*\<^sup>* (0, 0, env, mem) (b, i, env', mem')"
  shows "\<exists>env1'. (ir_step func effect taken)\<^sup>*\<^sup>* (0, 0, env1, mem) (b, i, env1', mem') \<and>
    (i = length (insts_of func b) \<longrightarrow>
       map (\<lambda>v. env' (nat v)) (ir_term_uses (b_term (block_at func b))) =
       map (\<lambda>v. env1' (nat v)) (ir_term_uses (b_term (block_at func b))))"
proof -
  have "ir_valid m func" using verify_function_valid [OF pre, of m] accepted by simp
  then have start: "same_live func 0 0 env env1"
    using params unfolding same_live_def ir_valid_def by (metis nat_int)
  have "\<exists>env1'. (ir_step func effect taken)\<^sup>*\<^sup>* (0, 0, env1, mem) (b, i, env1', mem') \<and> same_live func b i env' env1'"
    using run
  proof (induction "(b, i, env', mem')" arbitrary: b i env' mem' rule: rtranclp_induct)
    case base
    then show ?case using start by blast
  next
    case (step s)
    obtain b1 i1 e1 m1 where s: "s = (b1, i1, e1, m1)" by (cases s)
    from step.hyps(3) [OF s] obtain e2 where
      e: "(ir_step func effect taken)\<^sup>*\<^sup>* (0, 0, env1, mem) (b1, i1, e2, m1)" "same_live func b1 i1 e1 e2" by blast
    from same_live_step [OF e(2) step.hyps(2) [unfolded s]] e(1)
    show ?case by (meson rtranclp.rtrancl_into_rtrancl)
  qed
  then obtain env1' where e: "(ir_step func effect taken)\<^sup>*\<^sup>* (0, 0, env1, mem) (b, i, env1', mem')"
      "same_live func b i env' env1'" by blast
  moreover have "env' (nat v) = env1' (nat v)"
    if "i = length (insts_of func b)" "v \<in> set (ir_term_uses (b_term (block_at func b)))" for v
    using e(2) that live_at.used_at_end [of "nat v" func b] by (simp add: same_live_def term_uses_def)
  ultimately show ?thesis by auto
qed

section \<open>A concrete module\<close>

definition verify_pre_check :: "ir_function \<Rightarrow> bool" where
  "verify_pre_check func \<longleftrightarrow>
     list_all (\<lambda>b. list_all fields_ok (insts_of func b) \<and>
        (\<forall>t \<in> set (List.map_filter id [t_target (b_term (block_at func b)), t_else_target (b_term (block_at func b))]).
           b_is_placed (f_made func ! t) = (t \<in> set (f_layout func))))
       [0..<block_count func]"

lemma verify_pre_checked: "verify_pre func \<longleftrightarrow> verify_pre_check func"
proof -
  have "t \<in> set (List.map_filter id [x, y]) \<longleftrightarrow> x = Some t \<or> y = Some t" for t :: nat and x y
    by (auto simp: List.map_filter_def)
  then show ?thesis
    by (simp add: verify_pre_def verify_pre_check_def list_all_iff Ball_def)
qed

definition good_example :: ir_function where
  "good_example = example_function [IR_I64, IR_I64, IR_I8, IR_I64] [0, 1]
     [example_block 0 [example_inst IR_ICMP IR_I64 2 0 1] (example_br 2 1 2),
      example_block 1 [example_inst IR_ADD IR_I64 3 0 1] (example_jmp 3),
      example_block 2 [] (example_jmp 3),
      example_block 3 [] (example_ret 0)]"

lemma good_example_pre: "verify_pre good_example"
  unfolding verify_pre_checked by code_simp

definition good_module :: ir_module where
  "good_module = ir_module_new\<lparr>m_functions := [good_example]\<rparr>"

lemma good_module_pre: "\<forall>func \<in> set (m_functions good_module). verify_pre func"
  using good_example_pre by (simp add: good_module_def)

lemma good_example_verified: "ir_verify_function good_module good_example = Some True"
  by code_simp

lemma ir_verify_function_exact_witness:
  "ir_verify_function good_module good_example = Some (ir_valid good_module good_example)"
  by (rule ir_verify_function_exact [OF good_example_pre])

text \<open>The loop of the liveness example assigns register 1 twice, so it is rejected.\<close>

lemma loop_example_rejected: "ir_verify_function good_module loop_example = Some False"
  by code_simp



text \<open>The first step of the run, from two environments that differ outside the parameters; the
  instructions give 7 and leave the memory as it is.\<close>

lemma verified_reads_only_defined_witness:
  "\<exists>env1'. (ir_step good_example (\<lambda>inst vals m (x :: nat) m'. x = 7 \<and> m' = (m :: nat)) (\<lambda>x. x \<noteq> 0))\<^sup>*\<^sup>*
      (0, 0, \<lambda>v. v + 100 * (v div 2), 0) (0, 1, env1', 0)"
proof -
  let ?effect = "\<lambda>inst vals m (x :: nat) m'. x = 7 \<and> m' = (m :: nat)"
  have "0 < block_count good_example" "0 < length (insts_of good_example 0)" by code_simp+
  then obtain env' where "ir_step good_example ?effect (\<lambda>x. x \<noteq> 0) (0, 0, \<lambda>v. v, 0) (0, Suc 0, env', 0)"
    using ir_step.ir_inst [of 0 good_example 0 _ ?effect "\<lambda>v. v" 0 7 0] by blast
  then have run: "(ir_step good_example ?effect (\<lambda>x. x \<noteq> 0))\<^sup>*\<^sup>* (0, 0, \<lambda>v. v, 0) (0, 1, env', 0)" by simp
  have "\<forall>v \<in> set (f_params good_example). nat v = nat v + 100 * (nat v div 2)"
    by (simp add: good_example_def example_function_def)
  from verified_reads_only_defined [OF good_example_pre good_example_verified this run] show ?thesis by blast
qed

end
