(* ===== verification/Tokens.thy ===== *)
theory Tokens
  imports Prelude
begin

text \<open>
  The tokens of \<^verbatim>\<open>src/src/lexer.h\<close> and the tables of \<^verbatim>\<open>src/src/lexer.c\<close> over them: the number
  of each token (\<^verbatim>\<open>TokenType\<close>; a token that is one ASCII character has the number of the
  character), the text that the compiler prints for it, the keywords, and the operators of one, two and
  three characters.
\<close>

section \<open>Token types\<close>

text \<open>The enumeration of the code is flat; here its constants are in groups.\<close>

datatype literal_token =
    TOKEN_LITERAL_INTEGER | TOKEN_LITERAL_FLOAT | TOKEN_LITERAL_STRING
  | TOKEN_LITERAL_IDENTIFIER | TOKEN_LITERAL_BOOLEAN | TOKEN_LITERAL_FALSE | TOKEN_LITERAL_TRUE
  | TOKEN_LITERAL_NULL

datatype operator_token =
    TOKEN_BITWISE_SHIFT_LEFT | TOKEN_BITWISE_SHIFT_RIGHT | TOKEN_LOGICAL_OR
  | TOKEN_LOGICAL_AND | TOKEN_LESS_EQUAL | TOKEN_GREATER_EQUAL | TOKEN_DOUBLE_EQUAL | TOKEN_NOT_EQUAL
  | TOKEN_PLUS_EQUAL | TOKEN_MINUS_EQUAL | TOKEN_TIMES_EQUAL | TOKEN_DIVIDE_EQUAL | TOKEN_MODULO_EQUAL
  | TOKEN_XOR_EQUAL | TOKEN_OR_EQUAL | TOKEN_AND_EQUAL | TOKEN_SHIFT_LEFT_EQUAL | TOKEN_SHIFT_RIGHT_EQUAL
  | TOKEN_FAT_ARROW | TOKEN_DOUBLE_QUESTION | TOKEN_QUESTION_DOT | TOKEN_DOUBLE_COLON | TOKEN_COLON_EQUAL
  | TOKEN_RIGHT_ARROW | TOKEN_DOUBLE_DOT | TOKEN_TRIPLE_DOT

datatype keyword_token =
    TOKEN_SWITCH | TOKEN_CASE | TOKEN_UNION | TOKEN_IN | TOKEN_XX | TOKEN_ASSERT
  | TOKEN_IF | TOKEN_ELSE | TOKEN_RETURN | TOKEN_BREAK | TOKEN_CONTINUE | TOKEN_FOR | TOKEN_WHILE
  | TOKEN_TYPEOF | TOKEN_SIZEOF | TOKEN_AS | TOKEN_NEW | TOKEN_IMPORT | TOKEN_EXTERN | TOKEN_USE
  | TOKEN_NAMESPACE | TOKEN_DEFER | TOKEN_TRY | TOKEN_CATCH | TOKEN_THROW | TOKEN_STRUCT | TOKEN_ENUM
  | TOKEN_ANY | TOKEN_STRING | TOKEN_METHOD

datatype type_token =
    TOKEN_TYPE_UINT | TOKEN_TYPE_U8 | TOKEN_TYPE_U16 | TOKEN_TYPE_U32
  | TOKEN_TYPE_U64 | TOKEN_TYPE_INT | TOKEN_TYPE_I8 | TOKEN_TYPE_I16 | TOKEN_TYPE_I32 | TOKEN_TYPE_I64
  | TOKEN_TYPE_FLOAT | TOKEN_TYPE_F32 | TOKEN_TYPE_F64 | TOKEN_TYPE_CHAR | TOKEN_TYPE_BOOL
  | TOKEN_TYPE_VOID

datatype token_type =
    TOKEN_NONE
  | TOKEN_CHAR char
  | Literal literal_token
  | Operator operator_token
  | Keyword keyword_token
  | Type type_token
  | TOKEN_END

primrec literal_code :: "literal_token \<Rightarrow> nat" where
  "literal_code TOKEN_LITERAL_INTEGER = 128"
| "literal_code TOKEN_LITERAL_FLOAT = 129"
| "literal_code TOKEN_LITERAL_STRING = 130"
| "literal_code TOKEN_LITERAL_IDENTIFIER = 131"
| "literal_code TOKEN_LITERAL_BOOLEAN = 132"
| "literal_code TOKEN_LITERAL_FALSE = 133"
| "literal_code TOKEN_LITERAL_TRUE = 134"
| "literal_code TOKEN_LITERAL_NULL = 135"

primrec operator_code :: "operator_token \<Rightarrow> nat" where
  "operator_code TOKEN_BITWISE_SHIFT_LEFT = 138"
| "operator_code TOKEN_BITWISE_SHIFT_RIGHT = 139"
| "operator_code TOKEN_LOGICAL_OR = 140"
| "operator_code TOKEN_LOGICAL_AND = 141"
| "operator_code TOKEN_LESS_EQUAL = 142"
| "operator_code TOKEN_GREATER_EQUAL = 143"
| "operator_code TOKEN_DOUBLE_EQUAL = 144"
| "operator_code TOKEN_NOT_EQUAL = 145"
| "operator_code TOKEN_PLUS_EQUAL = 146"
| "operator_code TOKEN_MINUS_EQUAL = 147"
| "operator_code TOKEN_TIMES_EQUAL = 148"
| "operator_code TOKEN_DIVIDE_EQUAL = 149"
| "operator_code TOKEN_MODULO_EQUAL = 136"
| "operator_code TOKEN_XOR_EQUAL = 137"
| "operator_code TOKEN_OR_EQUAL = 157"
| "operator_code TOKEN_AND_EQUAL = 158"
| "operator_code TOKEN_SHIFT_LEFT_EQUAL = 159"
| "operator_code TOKEN_SHIFT_RIGHT_EQUAL = 177"
| "operator_code TOKEN_FAT_ARROW = 251"
| "operator_code TOKEN_DOUBLE_QUESTION = 252"
| "operator_code TOKEN_QUESTION_DOT = 253"
| "operator_code TOKEN_DOUBLE_COLON = 150"
| "operator_code TOKEN_COLON_EQUAL = 151"
| "operator_code TOKEN_RIGHT_ARROW = 152"
| "operator_code TOKEN_DOUBLE_DOT = 153"
| "operator_code TOKEN_TRIPLE_DOT = 154"

primrec keyword_code :: "keyword_token \<Rightarrow> nat" where
  "keyword_code TOKEN_SWITCH = 178"
| "keyword_code TOKEN_CASE = 179"
| "keyword_code TOKEN_UNION = 250"
| "keyword_code TOKEN_IN = 155"
| "keyword_code TOKEN_XX = 156"
| "keyword_code TOKEN_ASSERT = 161"
| "keyword_code TOKEN_IF = 162"
| "keyword_code TOKEN_ELSE = 163"
| "keyword_code TOKEN_RETURN = 164"
| "keyword_code TOKEN_BREAK = 165"
| "keyword_code TOKEN_CONTINUE = 166"
| "keyword_code TOKEN_FOR = 167"
| "keyword_code TOKEN_WHILE = 168"
| "keyword_code TOKEN_TYPEOF = 169"
| "keyword_code TOKEN_SIZEOF = 170"
| "keyword_code TOKEN_AS = 171"
| "keyword_code TOKEN_NEW = 172"
| "keyword_code TOKEN_IMPORT = 173"
| "keyword_code TOKEN_EXTERN = 174"
| "keyword_code TOKEN_USE = 175"
| "keyword_code TOKEN_NAMESPACE = 176"
| "keyword_code TOKEN_DEFER = 160"
| "keyword_code TOKEN_TRY = 240"
| "keyword_code TOKEN_CATCH = 241"
| "keyword_code TOKEN_THROW = 242"
| "keyword_code TOKEN_STRUCT = 180"
| "keyword_code TOKEN_ENUM = 181"
| "keyword_code TOKEN_ANY = 182"
| "keyword_code TOKEN_STRING = 183"
| "keyword_code TOKEN_METHOD = 184"

primrec type_code :: "type_token \<Rightarrow> nat" where
  "type_code TOKEN_TYPE_UINT = 185"
| "type_code TOKEN_TYPE_U8 = 186"
| "type_code TOKEN_TYPE_U16 = 187"
| "type_code TOKEN_TYPE_U32 = 188"
| "type_code TOKEN_TYPE_U64 = 189"
| "type_code TOKEN_TYPE_INT = 190"
| "type_code TOKEN_TYPE_I8 = 191"
| "type_code TOKEN_TYPE_I16 = 192"
| "type_code TOKEN_TYPE_I32 = 193"
| "type_code TOKEN_TYPE_I64 = 194"
| "type_code TOKEN_TYPE_FLOAT = 195"
| "type_code TOKEN_TYPE_F32 = 196"
| "type_code TOKEN_TYPE_F64 = 197"
| "type_code TOKEN_TYPE_CHAR = 198"
| "type_code TOKEN_TYPE_BOOL = 199"
| "type_code TOKEN_TYPE_VOID = 200"

primrec token_code :: "token_type \<Rightarrow> nat" where
  "token_code TOKEN_NONE = 0"
| "token_code (TOKEN_CHAR c) = of_char c"
| "token_code (Literal t) = literal_code t"
| "token_code (Operator t) = operator_code t"
| "token_code (Keyword t) = keyword_code t"
| "token_code (Type t) = type_code t"
| "token_code TOKEN_END = 254"

primrec literal_str :: "literal_token \<Rightarrow> string" where
  "literal_str TOKEN_LITERAL_INTEGER = ''INTEGER''"
| "literal_str TOKEN_LITERAL_FLOAT = ''FLOAT''"
| "literal_str TOKEN_LITERAL_STRING = ''STRING''"
| "literal_str TOKEN_LITERAL_IDENTIFIER = ''IDENTIFIER''"
| "literal_str TOKEN_LITERAL_BOOLEAN = ''BOOLEAN''"
| "literal_str TOKEN_LITERAL_FALSE = ''false''"
| "literal_str TOKEN_LITERAL_TRUE = ''true''"
| "literal_str TOKEN_LITERAL_NULL = ''NULL''"

primrec operator_str :: "operator_token \<Rightarrow> string" where
  "operator_str TOKEN_BITWISE_SHIFT_LEFT = ''<<''"
| "operator_str TOKEN_BITWISE_SHIFT_RIGHT = ''>>''"
| "operator_str TOKEN_LOGICAL_OR = ''||''"
| "operator_str TOKEN_LOGICAL_AND = ''&&''"
| "operator_str TOKEN_LESS_EQUAL = ''<=''"
| "operator_str TOKEN_GREATER_EQUAL = ''>=''"
| "operator_str TOKEN_DOUBLE_EQUAL = ''==''"
| "operator_str TOKEN_NOT_EQUAL = ''!=''"
| "operator_str TOKEN_PLUS_EQUAL = ''+=''"
| "operator_str TOKEN_MINUS_EQUAL = ''-=''"
| "operator_str TOKEN_TIMES_EQUAL = ''*=''"
| "operator_str TOKEN_DIVIDE_EQUAL = ''/=''"
| "operator_str TOKEN_MODULO_EQUAL = ''%=''"
| "operator_str TOKEN_XOR_EQUAL = ''^=''"
| "operator_str TOKEN_OR_EQUAL = ''|=''"
| "operator_str TOKEN_AND_EQUAL = ''&=''"
| "operator_str TOKEN_SHIFT_LEFT_EQUAL = ''<<=''"
| "operator_str TOKEN_SHIFT_RIGHT_EQUAL = ''>>=''"
| "operator_str TOKEN_FAT_ARROW = ''=>''"
| "operator_str TOKEN_DOUBLE_QUESTION = ''??''"
| "operator_str TOKEN_QUESTION_DOT = ''?.''"
| "operator_str TOKEN_DOUBLE_COLON = ''::''"
| "operator_str TOKEN_COLON_EQUAL = '':=''"
| "operator_str TOKEN_RIGHT_ARROW = ''->''"
| "operator_str TOKEN_DOUBLE_DOT = ''..''"
| "operator_str TOKEN_TRIPLE_DOT = ''...''"

primrec keyword_str :: "keyword_token \<Rightarrow> string" where
  "keyword_str TOKEN_SWITCH = ''switch''"
| "keyword_str TOKEN_CASE = ''case''"
| "keyword_str TOKEN_UNION = ''union''"
| "keyword_str TOKEN_IN = ''in''"
| "keyword_str TOKEN_XX = ''xx''"
| "keyword_str TOKEN_ASSERT = ''assert''"
| "keyword_str TOKEN_IF = ''if''"
| "keyword_str TOKEN_ELSE = ''else''"
| "keyword_str TOKEN_RETURN = ''return''"
| "keyword_str TOKEN_BREAK = ''break''"
| "keyword_str TOKEN_CONTINUE = ''continue''"
| "keyword_str TOKEN_FOR = ''for''"
| "keyword_str TOKEN_WHILE = ''while''"
| "keyword_str TOKEN_TYPEOF = ''typeof''"
| "keyword_str TOKEN_SIZEOF = ''sizeof''"
| "keyword_str TOKEN_AS = ''as''"
| "keyword_str TOKEN_NEW = ''new''"
| "keyword_str TOKEN_IMPORT = ''import''"
| "keyword_str TOKEN_EXTERN = ''extern''"
| "keyword_str TOKEN_USE = ''use''"
| "keyword_str TOKEN_NAMESPACE = ''namespace''"
| "keyword_str TOKEN_DEFER = ''defer''"
| "keyword_str TOKEN_TRY = ''try''"
| "keyword_str TOKEN_CATCH = ''catch''"
| "keyword_str TOKEN_THROW = ''throw''"
| "keyword_str TOKEN_STRUCT = ''TYPE_STRUCT''"
| "keyword_str TOKEN_ENUM = ''TYPE_ENUM''"
| "keyword_str TOKEN_ANY = ''TYPE_ANY''"
| "keyword_str TOKEN_STRING = ''TYPE_STRING''"
| "keyword_str TOKEN_METHOD = ''method''"

primrec type_str :: "type_token \<Rightarrow> string" where
  "type_str TOKEN_TYPE_UINT = ''TYPE_UINT''"
| "type_str TOKEN_TYPE_U8 = ''TYPE_U8''"
| "type_str TOKEN_TYPE_U16 = ''TYPE_U16''"
| "type_str TOKEN_TYPE_U32 = ''TYPE_U32''"
| "type_str TOKEN_TYPE_U64 = ''TYPE_U64''"
| "type_str TOKEN_TYPE_INT = ''TYPE_INT''"
| "type_str TOKEN_TYPE_I8 = ''TYPE_I8''"
| "type_str TOKEN_TYPE_I16 = ''TYPE_I16''"
| "type_str TOKEN_TYPE_I32 = ''TYPE_I32''"
| "type_str TOKEN_TYPE_I64 = ''TYPE_I64''"
| "type_str TOKEN_TYPE_FLOAT = ''TYPE_FLOAT''"
| "type_str TOKEN_TYPE_F32 = ''TYPE_F32''"
| "type_str TOKEN_TYPE_F64 = ''TYPE_F64''"
| "type_str TOKEN_TYPE_CHAR = ''TYPE_CHAR''"
| "type_str TOKEN_TYPE_BOOL = ''TYPE_BOOL''"
| "type_str TOKEN_TYPE_VOID = ''TYPE_VOID''"

text \<open>\<^verbatim>\<open>TOKEN_NONE\<close> has the number 0, so it is printed as the ASCII character 0, which ends the
  string: the case of the code that gives its name is never reached.\<close>

primrec token_type_to_str :: "token_type \<Rightarrow> string" where
  "token_type_to_str TOKEN_NONE = []"
| "token_type_to_str (TOKEN_CHAR c) = [c]"
| "token_type_to_str (Literal t) = literal_str t"
| "token_type_to_str (Operator t) = operator_str t"
| "token_type_to_str (Keyword t) = keyword_str t"
| "token_type_to_str (Type t) = type_str t"
| "token_type_to_str TOKEN_END = ''END''"

section \<open>Characters\<close>

abbreviation NUL :: char where "NUL \<equiv> CHR 0x00"
abbreviation newline :: char where "newline \<equiv> CHR 0x0A"

definition char_code :: "char \<Rightarrow> nat" where
  "char_code c = of_char c"

definition is_digit :: "char \<Rightarrow> bool" where
  "is_digit c \<longleftrightarrow> char_code CHR ''0'' \<le> char_code c \<and> char_code c \<le> char_code CHR ''9''"

definition is_letter :: "char \<Rightarrow> bool" where
  "is_letter c \<longleftrightarrow> (char_code CHR ''A'' \<le> char_code c \<and> char_code c \<le> char_code CHR ''Z'') \<or>
                  (char_code CHR ''a'' \<le> char_code c \<and> char_code c \<le> char_code CHR ''z'')"

definition starts_identifier :: "char \<Rightarrow> bool" where
  "starts_identifier c \<longleftrightarrow> c = CHR ''_'' \<or> is_letter c"

definition proceeds_identifier :: "char \<Rightarrow> bool" where
  "proceeds_identifier c \<longleftrightarrow> c = CHR ''_'' \<or>
     (char_code CHR ''0'' \<le> char_code c \<and> char_code c \<le> char_code CHR ''9'') \<or> is_letter c"

definition ends_literal :: "char \<Rightarrow> bool" where
  "ends_literal c \<longleftrightarrow> c \<in> set '', ;)-}'' \<or> c = newline"

text \<open>\<^verbatim>\<open>isdigit\<close>, \<^verbatim>\<open>isalpha\<close>, \<^verbatim>\<open>isxdigit\<close> and \<^verbatim>\<open>tolower\<close> in the C locale.\<close>

definition c_tolower :: "char \<Rightarrow> nat" where
  "c_tolower c = (if char_code CHR ''A'' \<le> char_code c \<and> char_code c \<le> char_code CHR ''Z''
                  then char_code c + 32 else char_code c)"

definition c_isxdigit :: "char \<Rightarrow> bool" where
  "c_isxdigit c \<longleftrightarrow> is_digit c \<or> (97 \<le> c_tolower c \<and> c_tolower c \<le> 102)"

section \<open>Keywords and operators\<close>

definition keyword_table :: "(string \<times> token_type) list" where
  "keyword_table =
    [(''if'', Keyword TOKEN_IF), (''as'', Keyword TOKEN_AS), (''in'', Keyword TOKEN_IN), (''u8'', Type TOKEN_TYPE_U8),
     (''i8'', Type TOKEN_TYPE_I8), (''xx'', Keyword TOKEN_XX), (''try'', Keyword TOKEN_TRY), (''new'', Keyword TOKEN_NEW),
     (''use'', Keyword TOKEN_USE), (''int'', Type TOKEN_TYPE_INT), (''for'', Keyword TOKEN_FOR), (''u16'', Type TOKEN_TYPE_U16),
     (''u32'', Type TOKEN_TYPE_U32), (''u64'', Type TOKEN_TYPE_U64), (''i16'', Type TOKEN_TYPE_I16),
     (''i32'', Type TOKEN_TYPE_I32), (''i64'', Type TOKEN_TYPE_I64), (''f32'', Type TOKEN_TYPE_F32),
     (''f64'', Type TOKEN_TYPE_F64), (''any'', Keyword TOKEN_ANY), (''uint'', Type TOKEN_TYPE_UINT),
     (''null'', Literal TOKEN_LITERAL_NULL), (''char'', Type TOKEN_TYPE_CHAR), (''bool'', Type TOKEN_TYPE_BOOL),
     (''void'', Type TOKEN_TYPE_VOID), (''true'', Literal TOKEN_LITERAL_TRUE), (''case'', Keyword TOKEN_CASE),
     (''else'', Keyword TOKEN_ELSE), (''enum'', Keyword TOKEN_ENUM), (''catch'', Keyword TOKEN_CATCH), (''throw'', Keyword TOKEN_THROW),
     (''defer'', Keyword TOKEN_DEFER), (''float'', Type TOKEN_TYPE_FLOAT), (''false'', Literal TOKEN_LITERAL_FALSE),
     (''break'', Keyword TOKEN_BREAK), (''while'', Keyword TOKEN_WHILE), (''union'', Keyword TOKEN_UNION),
     (''struct'', Keyword TOKEN_STRUCT), (''method'', Keyword TOKEN_METHOD), (''switch'', Keyword TOKEN_SWITCH),
     (''string'', Keyword TOKEN_STRING), (''return'', Keyword TOKEN_RETURN), (''assert'', Keyword TOKEN_ASSERT),
     (''typeof'', Keyword TOKEN_TYPEOF), (''sizeof'', Keyword TOKEN_SIZEOF), (''import'', Keyword TOKEN_IMPORT),
     (''extern'', Keyword TOKEN_EXTERN), (''continue'', Keyword TOKEN_CONTINUE), (''namespace'', Keyword TOKEN_NAMESPACE)]"

definition single_characters :: "char list" where
  "single_characters =
    [CHR ''+'', CHR ''-'', CHR ''*'', CHR ''/'', CHR ''%'', CHR ''^'', CHR ''<'', CHR ''>'', CHR ''!'',
     CHR ''~'', CHR ''='', CHR '';'', CHR ''{'', CHR ''}'', CHR ''['', CHR '']'', CHR ''('', CHR '')'',
     CHR ''&'', CHR ''|'', CHR '','', CHR '':'', CHR ''.'', CHR ''#'', CHR ''@'', CHR ''?'']"

definition is_single_character_token :: "char \<Rightarrow> bool" where
  "is_single_character_token c \<longleftrightarrow> c \<in> set single_characters"

definition double_characters :: "((char \<times> char) \<times> token_type) list" where
  "double_characters =
    [((CHR ''<'', CHR ''<''), Operator TOKEN_BITWISE_SHIFT_LEFT),
     ((CHR ''>'', CHR ''>''), Operator TOKEN_BITWISE_SHIFT_RIGHT), ((CHR ''&'', CHR ''&''), Operator TOKEN_LOGICAL_AND),
     ((CHR ''&'', CHR ''&''), Operator TOKEN_LOGICAL_AND), ((CHR ''|'', CHR ''|''), Operator TOKEN_LOGICAL_OR),
     ((CHR ''<'', CHR ''=''), Operator TOKEN_LESS_EQUAL), ((CHR ''>'', CHR ''=''), Operator TOKEN_GREATER_EQUAL),
     ((CHR ''='', CHR ''=''), Operator TOKEN_DOUBLE_EQUAL), ((CHR ''!'', CHR ''=''), Operator TOKEN_NOT_EQUAL),
     ((CHR '':'', CHR ''=''), Operator TOKEN_COLON_EQUAL), ((CHR '':'', CHR '':''), Operator TOKEN_DOUBLE_COLON),
     ((CHR ''-'', CHR ''>''), Operator TOKEN_RIGHT_ARROW), ((CHR ''='', CHR ''>''), Operator TOKEN_FAT_ARROW),
     ((CHR ''.'', CHR ''.''), Operator TOKEN_DOUBLE_DOT), ((CHR ''?'', CHR ''?''), Operator TOKEN_DOUBLE_QUESTION),
     ((CHR ''?'', CHR ''.''), Operator TOKEN_QUESTION_DOT), ((CHR ''+'', CHR ''=''), Operator TOKEN_PLUS_EQUAL),
     ((CHR ''-'', CHR ''=''), Operator TOKEN_MINUS_EQUAL), ((CHR ''*'', CHR ''=''), Operator TOKEN_TIMES_EQUAL),
     ((CHR ''/'', CHR ''=''), Operator TOKEN_DIVIDE_EQUAL), ((CHR ''%'', CHR ''=''), Operator TOKEN_MODULO_EQUAL),
     ((CHR ''^'', CHR ''=''), Operator TOKEN_XOR_EQUAL), ((CHR ''|'', CHR ''=''), Operator TOKEN_OR_EQUAL),
     ((CHR ''&'', CHR ''=''), Operator TOKEN_AND_EQUAL)]"

definition triple_characters :: "((char \<times> char \<times> char) \<times> token_type) list" where
  "triple_characters =
    [((CHR ''.'', CHR ''.'', CHR ''.''), Operator TOKEN_TRIPLE_DOT),
     ((CHR ''<'', CHR ''<'', CHR ''=''), Operator TOKEN_SHIFT_LEFT_EQUAL),
     ((CHR ''>'', CHR ''>'', CHR ''=''), Operator TOKEN_SHIFT_RIGHT_EQUAL)]"

definition is_unary_operator :: "token_type \<Rightarrow> bool" where
  "is_unary_operator op \<longleftrightarrow>
     op \<in> set (map TOKEN_CHAR ''!-&*~'') \<or> op = Operator TOKEN_TRIPLE_DOT"

definition is_binary_operator :: "token_type \<Rightarrow> bool" where
  "is_binary_operator op \<longleftrightarrow>
     op \<in> set (map TOKEN_CHAR ''+-*/%&|^<>.[('') \<or>
     op \<in> {Operator TOKEN_BITWISE_SHIFT_LEFT, Operator TOKEN_BITWISE_SHIFT_RIGHT, Operator TOKEN_LOGICAL_OR, Operator TOKEN_LOGICAL_AND,
            Operator TOKEN_LESS_EQUAL, Operator TOKEN_GREATER_EQUAL, Operator TOKEN_DOUBLE_EQUAL, Operator TOKEN_NOT_EQUAL,
            Operator TOKEN_DOUBLE_QUESTION, Operator TOKEN_QUESTION_DOT}"

end
