(* ===== verification/Lexer.thy ===== *)
theory Lexer
  imports Tokens "HOL-Library.While_Combinator"
begin

text \<open>
  The lexer of \<^verbatim>\<open>src/src/lexer.c\<close>: \<^verbatim>\<open>lex_file\<close> and the functions it calls. The text of the
  file is a list of characters, and the NUL that ends it in memory is what a read at its length
  gives. A reported error is kept with its position; the wording of the messages is not modelled.
  Memory is there when it is asked for, and a file is shorter than $2^{31}$ bytes.

  The loops of the code are recursive functions with a measure. Each of them tests a character that
  is not the NUL, so the text that is left gets shorter.
\<close>

section \<open>Positions, tokens and the state of the lexer\<close>

record pos =
  input_idx :: nat
  p_line :: nat
  p_col :: nat

datatype literal_value =
    No_value
  | Boolean bool
  | Integer i64
  | Floating u64
  | String string
  | Identifier string

record as_value =
  bigger_than_signed :: bool
  is_character :: bool
  v_value :: literal_value

record token =
  k_type :: token_type
  k_value :: as_value
  k_start :: pos
  k_end :: pos

datatype lex_error =
    Needs_digits nat
  | Has_only_digits nat
  | Bigger_than_64_bits
  | Unknown_escape
  | Needs_one_character
  | More_than_one_byte
  | More_than_one_character
  | Expected_quote
  | No_closing_quote
  | Unknown_character string

record lexer =
  file_text :: string
  l_tokens :: "token list"
  char_idx :: nat
  line_number :: nat
  l_col :: nat
  had_errors :: bool
  l_reports :: "(pos \<times> lex_error) list"

definition no_value :: as_value where
  "no_value = \<lparr>bigger_than_signed = False, is_character = False, v_value = No_value\<rparr>"

definition value_of :: "literal_value \<Rightarrow> as_value" where
  "value_of v = no_value\<lparr>v_value := v\<rparr>"

definition lexer_init :: "string \<Rightarrow> lexer" where
  "lexer_init text =
     \<lparr>file_text = text, l_tokens = [], char_idx = 0, line_number = 1, l_col = 1, had_errors = False, l_reports = []\<rparr>"

section \<open>Reading and moving\<close>

text \<open>A read at the length of the text gives its NUL. Reads further on do not happen
  (\<open>peek_reads_in_text\<close> in \<^verbatim>\<open>LexerCorrect\<close>).\<close>

definition char_at :: "string \<Rightarrow> nat \<Rightarrow> char" where
  "char_at text i = (if i < length text then text ! i else NUL)"

fun peek_from :: "string \<Rightarrow> nat \<Rightarrow> nat \<Rightarrow> char" where
  "peek_from text i 0 = char_at text i"
| "peek_from text i (Suc lookahead) =
     (if char_at text i = NUL then NUL else peek_from text (Suc i) lookahead)"

definition peek_char :: "lexer \<Rightarrow> nat \<Rightarrow> char" where
  "peek_char lexer lookahead = peek_from (file_text lexer) (char_idx lexer) lookahead"

definition peek_next_char :: "lexer \<Rightarrow> char" where
  "peek_next_char lexer = peek_char lexer 0"

definition eat_character :: "lexer \<Rightarrow> lexer" where
  "eat_character lexer =
     (let lexer' = (if char_at (file_text lexer) (char_idx lexer) = newline
                    then lexer\<lparr>line_number := line_number lexer + 1, l_col := 1\<rparr>
                    else lexer\<lparr>l_col := l_col lexer + 1\<rparr>)
      in lexer'\<lparr>char_idx := char_idx lexer + 1\<rparr>)"

fun eat_characters :: "lexer \<Rightarrow> nat \<Rightarrow> lexer" where
  "eat_characters lexer 0 = lexer"
| "eat_characters lexer (Suc n) = eat_characters (eat_character lexer) n"

definition get_current_position :: "lexer \<Rightarrow> pos" where
  "get_current_position lexer =
     \<lparr>input_idx = char_idx lexer, p_line = line_number lexer, p_col = l_col lexer\<rparr>"

definition push_token :: "lexer \<Rightarrow> token \<Rightarrow> lexer" where
  "push_token lexer token = lexer\<lparr>l_tokens := l_tokens lexer @ [token]\<rparr>"

text \<open>\<^verbatim>\<open>report_error_here\<close>, and the flag that the code sets after it.\<close>

definition report_error_here :: "lexer \<Rightarrow> lex_error \<Rightarrow> lexer" where
  "report_error_here lexer err =
     lexer\<lparr>l_reports := l_reports lexer @ [(get_current_position lexer, err)], had_errors := True\<rparr>"

text \<open>The number of characters left, the measure of every loop.\<close>

abbreviation chars_left :: "lexer \<Rightarrow> nat" where
  "chars_left lexer \<equiv> length (file_text lexer) - char_idx lexer"

lemma peek_from_not_NUL: "peek_from text i n \<noteq> NUL \<Longrightarrow> i + n < length text"
  by (induction "text" i n rule: peek_from.induct) (auto simp: char_at_def split: if_splits)

lemma peek_next_not_NUL: "peek_next_char lexer \<noteq> NUL \<Longrightarrow> char_idx lexer < length (file_text lexer)"
  using peek_from_not_NUL [of "file_text lexer" "char_idx lexer" 0]
  by (simp add: peek_next_char_def peek_char_def)

lemma eat_character_fields [simp]:
  "file_text (eat_character lexer) = file_text lexer"
  "l_tokens (eat_character lexer) = l_tokens lexer"
  "char_idx (eat_character lexer) = Suc (char_idx lexer)"
  "had_errors (eat_character lexer) = had_errors lexer"
  "l_reports (eat_character lexer) = l_reports lexer"
  by (simp_all add: eat_character_def Let_def)

text \<open>A loop that eats characters while a test on the next ones holds; the test fails at the NUL.\<close>

function eat_while :: "(lexer \<Rightarrow> bool) \<Rightarrow> lexer \<Rightarrow> lexer" where
  "eat_while P lexer =
     (if peek_next_char lexer \<noteq> NUL \<and> P lexer then eat_while P (eat_character lexer) else lexer)"
  by pat_completeness auto
termination
  by (relation "measure (\<lambda>(P, lexer). chars_left lexer)") (auto dest: peek_next_not_NUL)

text \<open>A loop that looks ahead while a test on the character holds; the test fails at the NUL.\<close>

function look_ahead :: "(char \<Rightarrow> bool) \<Rightarrow> lexer \<Rightarrow> nat \<Rightarrow> nat" where
  "look_ahead P lexer ahead =
     (if peek_char lexer ahead \<noteq> NUL \<and> P (peek_char lexer ahead)
      then look_ahead P lexer (ahead + 1) else ahead)"
  by pat_completeness auto
termination
  by (relation "measure (\<lambda>(P, lexer, ahead). length (file_text lexer) - (char_idx lexer + ahead))")
    (auto simp: peek_char_def dest: peek_from_not_NUL)

declare eat_while.simps [simp del] look_ahead.simps [simp del]

section \<open>Making tokens\<close>

definition make_token :: "lexer \<Rightarrow> token_type \<Rightarrow> pos \<Rightarrow> lexer" where
  "make_token lexer token_type start =
     push_token lexer \<lparr>k_type = token_type, k_value = no_value, k_start = start,
                       k_end = get_current_position lexer\<rparr>"

definition make_keyword :: "lexer \<Rightarrow> token_type \<Rightarrow> pos \<Rightarrow> lexer" where
  "make_keyword lexer kw_type start =
     push_token lexer \<lparr>k_type = kw_type, k_value = no_value, k_start = start,
                       k_end = get_current_position lexer\<rparr>"

definition make_single_character_token :: "lexer \<Rightarrow> token_type \<Rightarrow> lexer" where
  "make_single_character_token lexer token_type =
     (let start = get_current_position lexer;
          start = start\<lparr>p_col := p_col start - 1\<rparr>;
          start = start\<lparr>input_idx := input_idx start - 1\<rparr>
      in make_token lexer token_type start)"

text \<open>The text of a token: \<^verbatim>\<open>memcpy\<close> from the text of the file.\<close>

definition text_between :: "lexer \<Rightarrow> nat \<Rightarrow> nat \<Rightarrow> string" where
  "text_between lexer from to = take (to - from) (drop from (file_text lexer))"

definition make_identifier :: "lexer \<Rightarrow> pos \<Rightarrow> lexer" where
  "make_identifier lexer pos_start =
     (let pos_end = get_current_position lexer;
          ident_name = text_between lexer (input_idx pos_start) (input_idx pos_end)
      in push_token lexer \<lparr>k_type = Literal TOKEN_LITERAL_IDENTIFIER, k_value = value_of (Identifier ident_name),
                           k_start = pos_start, k_end = pos_end\<rparr>)"

text \<open>\<^verbatim>\<open>strtoull\<close> of decimal digits: the greatest value when the number does not fit.\<close>

definition decimal_value :: "string \<Rightarrow> nat" where
  "decimal_value digits = foldl (\<lambda>v c. 10 * v + (char_code c - char_code CHR ''0'')) 0 digits"

definition strtoull :: "string \<Rightarrow> u64" where
  "strtoull digits = (if decimal_value digits < 2 ^ 64 then of_nat (decimal_value digits) else - 1)"

text \<open>\<^verbatim>\<open>atof\<close> of digits with at most one point: the nearest double, the even one of two. The bits of
  the double are the exponent, moved by the rounded significand, so a significand that
  rounds up to the next power of two gives the next exponent, and a subnormal has the exponent 0.\<close>

fun bit_count :: "nat \<Rightarrow> nat" where
  "bit_count n = (if n = 0 then 0 else Suc (bit_count (n div 2)))"

declare bit_count.simps [simp del]

definition div_nearest :: "nat \<Rightarrow> nat \<Rightarrow> nat" where
  "div_nearest n d =
     (let q = n div d; r = n mod d in if d < 2 * r \<or> (d = 2 * r \<and> odd q) then q + 1 else q)"

definition double_of_ratio :: "nat \<Rightarrow> nat \<Rightarrow> u64" where
  "double_of_ratio n d =
     (if n = 0 then 0
      else
        let e = int (bit_count n) - int (bit_count d);
            e = (if (if 0 \<le> e then d * 2 ^ nat e \<le> n else d \<le> n * 2 ^ nat (- e)) then e else e - 1);
            e = max e (- 1022);
            u = e - 52;
            q = div_nearest (if u < 0 then n * 2 ^ nat (- u) else n) (if 0 \<le> u then d * 2 ^ nat u else d)
        in of_nat (min (2047 * 2 ^ 52) (nat (e + 1022) * 2 ^ 52 + q)))"

definition atof :: "string \<Rightarrow> u64" where
  "atof text =
     (let whole = takeWhile (\<lambda>c. c \<noteq> CHR ''.'') text;
          fraction = drop (length whole + 1) text
      in double_of_ratio (decimal_value (whole @ fraction)) (10 ^ length fraction))"

definition make_integer :: "string \<Rightarrow> as_value" where
  "make_integer src =
     (let val = strtoull (filter (\<lambda>c. c \<noteq> CHR ''_'') src)
      in \<lparr>bigger_than_signed = 9223372036854775807 < val, is_character = False, v_value = Integer val\<rparr>)"

definition make_float :: "string \<Rightarrow> as_value" where
  "make_float src = value_of (Floating (atof (filter (\<lambda>c. c \<noteq> CHR ''_'') src)))"

definition make_string :: "lexer \<Rightarrow> pos \<Rightarrow> pos \<Rightarrow> as_value" where
  "make_string lexer pos_start pos_end =
     (let len = input_idx pos_end - input_idx pos_start;
          closed = (2 \<le> len \<and> file_text lexer ! (input_idx pos_end - 1) = CHR 0x22);
          str_len = (if closed then len - 2 else len - 1)
      in value_of (String (text_between lexer (input_idx pos_start + 1) (input_idx pos_start + 1 + str_len))))"

text \<open>\<^verbatim>\<open>make_literal\<close> is called for these types of tokens; for another the compiler ends.\<close>

definition make_literal :: "lexer \<Rightarrow> literal_token \<Rightarrow> pos \<Rightarrow> pos \<Rightarrow> lexer" where
  "make_literal lexer token_type pos_start pos_end =
     (let src = text_between lexer (input_idx pos_start) (input_idx pos_end);
          token = \<lambda>type val. push_token lexer \<lparr>k_type = Literal type, k_value = val, k_start = pos_start, k_end = pos_end\<rparr>
      in case token_type of
           TOKEN_LITERAL_INTEGER \<Rightarrow> token token_type (make_integer src)
         | TOKEN_LITERAL_FLOAT \<Rightarrow> token token_type (make_float src)
         | TOKEN_LITERAL_STRING \<Rightarrow> token token_type (make_string lexer pos_start pos_end)
         | TOKEN_LITERAL_TRUE \<Rightarrow> token TOKEN_LITERAL_BOOLEAN (value_of (Boolean True))
         | TOKEN_LITERAL_FALSE \<Rightarrow> token TOKEN_LITERAL_BOOLEAN (value_of (Boolean False))
         | _ \<Rightarrow> lexer)"

definition make_literal_here :: "lexer \<Rightarrow> literal_token \<Rightarrow> pos \<Rightarrow> lexer" where
  "make_literal_here lexer token_type pos_start =
     make_literal lexer token_type pos_start (get_current_position lexer)"

section \<open>The parts of the loop of \<^verbatim>\<open>lex_file\<close>\<close>

definition lex_comment :: "lexer \<Rightarrow> lexer" where
  "lex_comment lexer =
     eat_while (\<lambda>l. peek_next_char l \<noteq> newline) (eat_character (eat_character lexer))"

text \<open>Numbers with a base: the value modulo $2^{64}$, whether it got too big or has a digit that is
  none of the base, and the number of digits.\<close>

definition based_digit :: "char \<Rightarrow> nat option" where
  "based_digit d =
     (if is_digit d then Some (char_code d - char_code CHR ''0'')
      else if is_letter d then Some (c_tolower d - char_code CHR ''a'' + 10)
      else None)"

record based_number =
  n_value :: u64
  n_overflow :: bool
  n_bad_digit :: bool
  n_digits :: nat

definition add_digit :: "nat \<Rightarrow> nat \<Rightarrow> based_number \<Rightarrow> based_number" where
  "add_digit base digit n =
     \<lparr>n_value = n_value n * of_nat base + of_nat digit,
      n_overflow = (n_overflow n \<or> (- 1 - of_nat digit) div of_nat base < n_value n),
      n_bad_digit = (n_bad_digit n \<or> base \<le> digit),
      n_digits = n_digits n + 1\<rparr>"

function based_digits :: "nat \<Rightarrow> lexer \<Rightarrow> based_number \<Rightarrow> lexer \<times> based_number" where
  "based_digits base lexer n =
     (let d = peek_next_char lexer in
      if d = CHR ''_'' then based_digits base (eat_character lexer) n
      else case based_digit d of
             None \<Rightarrow> (lexer, n)
           | Some digit \<Rightarrow> based_digits base (eat_character lexer) (add_digit base digit n))"
  by pat_completeness auto
termination
proof (relation "measure (\<lambda>(base, lexer, n). chars_left lexer)", simp, goal_cases)
  case (1 base lexer n d)
  then have "peek_next_char lexer \<noteq> NUL" by auto
  then show ?case using peek_next_not_NUL [of lexer] by simp
next
  case (2 base lexer n d digit)
  then have "peek_next_char lexer \<noteq> NUL" by (auto simp: based_digit_def is_digit_def is_letter_def char_code_def)
  then show ?case using peek_next_not_NUL [of lexer] by simp
qed

declare based_digits.simps [simp del]

definition number_base :: "char \<Rightarrow> nat" where
  "number_base prefix = (if c_tolower prefix = char_code CHR ''x'' then 16
                         else if c_tolower prefix = char_code CHR ''b'' then 2 else 8)"

definition lex_based_number :: "lexer \<Rightarrow> lexer" where
  "lex_based_number lexer =
     (let pos_start = get_current_position lexer;
          base = number_base (peek_char lexer 1);
          (lexer, n) = based_digits base (eat_characters lexer 2)
                         \<lparr>n_value = 0, n_overflow = False, n_bad_digit = False, n_digits = 0\<rparr>;
          lexer = (if n_digits n = 0 then report_error_here lexer (Needs_digits base)
                   else if n_bad_digit n then report_error_here lexer (Has_only_digits base)
                   else if n_overflow n then report_error_here lexer Bigger_than_64_bits
                   else lexer)
      in push_token lexer
           \<lparr>k_type = Literal TOKEN_LITERAL_INTEGER,
            k_value = \<lparr>bigger_than_signed = 9223372036854775807 < n_value n, is_character = False,
                       v_value = Integer (n_value n)\<rparr>,
            k_start = pos_start, k_end = get_current_position lexer\<rparr>)"

definition at_digit :: "lexer \<Rightarrow> bool" where
  "at_digit lexer \<longleftrightarrow> is_digit (peek_next_char lexer) \<or>
     (peek_next_char lexer = CHR ''_'' \<and> is_digit (peek_char lexer 1))"

definition lex_number :: "lexer \<Rightarrow> lexer" where
  "lex_number lexer =
     (let pos_start = get_current_position lexer;
          lexer = eat_while at_digit (eat_character lexer)
      in if peek_next_char lexer = CHR ''.'' \<and> peek_char lexer 1 = CHR ''.''
         then make_literal_here lexer TOKEN_LITERAL_INTEGER pos_start
         else if peek_next_char lexer = CHR ''.''
         then make_literal_here (eat_while at_digit (eat_character lexer)) TOKEN_LITERAL_FLOAT pos_start
         else make_literal_here lexer TOKEN_LITERAL_INTEGER pos_start)"

text \<open>The hexadecimal digits of an escape, and its value.\<close>

definition hex_digit :: "char \<Rightarrow> nat" where
  "hex_digit d = (if is_digit d then char_code d - char_code CHR ''0''
                  else c_tolower d - char_code CHR ''a'' + 10)"

function hex_escape :: "lexer \<Rightarrow> nat \<Rightarrow> nat \<Rightarrow> nat \<times> nat" where
  "hex_escape lexer digits number =
     (if digits < 2 \<and> c_isxdigit (peek_char lexer (1 + digits))
      then hex_escape lexer (digits + 1) (number * 16 + hex_digit (peek_char lexer (1 + digits)))
      else (digits, number))"
  by pat_completeness auto
termination by (relation "measure (\<lambda>(lexer, digits, number). 2 - digits)") auto

declare hex_escape.simps [simp del]

definition simple_escapes :: "(char \<times> nat) list" where
  "simple_escapes =
     [(CHR ''n'', 10), (CHR ''t'', 9), (CHR ''r'', 13), (CHR ''0'', 0), (CHR 0x5C, 0x5C), (CHR 0x27, 0x27),
      (CHR 0x22, 0x22)]"

text \<open>The value of an escape, after its backslash, if it is one; all but its last character is eaten.\<close>

definition escape_value :: "lexer \<Rightarrow> nat option \<times> lexer" where
  "escape_value lexer =
     (let escape = peek_next_char lexer
      in case map_of simple_escapes escape of
           Some v \<Rightarrow> (Some v, lexer)
         | None \<Rightarrow>
             if escape = CHR ''x''
             then (let (digits, number) = hex_escape lexer 0 0
                   in if digits = 2 then (Some number, eat_characters lexer 2) else (None, lexer))
             else (None, lexer))"

definition lex_escape :: "lexer \<Rightarrow> nat \<times> lexer" where
  "lex_escape lexer =
     (let (escape, lexer) = escape_value lexer;
          (val, lexer) = (case escape of
                            Some v \<Rightarrow> (v, lexer)
                          | None \<Rightarrow> (0, report_error_here lexer Unknown_escape))
      in (val, if peek_next_char lexer \<noteq> NUL then eat_character lexer else lexer))"

text \<open>The inside of the quotes of a character.\<close>

definition lex_quoted :: "lexer \<Rightarrow> nat \<times> lexer" where
  "lex_quoted lexer =
     (let ch = peek_next_char lexer
      in if ch = CHR 0x5C then lex_escape (eat_character lexer)
         else if ch = CHR 0x27 \<or> ch = newline \<or> ch = NUL then (0, report_error_here lexer Needs_one_character)
         else if 128 \<le> char_code ch
         then (0, eat_while (\<lambda>l. 128 \<le> char_code (peek_next_char l)) (report_error_here lexer More_than_one_byte))
         else (char_code ch, eat_character lexer))"

definition lex_closing_quote :: "lexer \<Rightarrow> lexer" where
  "lex_closing_quote lexer =
     (if peek_next_char lexer = CHR 0x27 then eat_character lexer
      else
        let ahead = look_ahead (\<lambda>c. c \<noteq> newline \<and> c \<noteq> CHR 0x27) lexer 0
        in if peek_char lexer ahead = CHR 0x27
           then eat_characters (report_error_here lexer More_than_one_character) (ahead + 1)
           else report_error_here lexer Expected_quote)"

definition lex_character :: "lexer \<Rightarrow> lexer" where
  "lex_character lexer =
     (let pos_start = get_current_position lexer;
          (val, lexer) = lex_quoted (eat_character lexer);
          lexer = lex_closing_quote lexer
      in push_token lexer
           \<lparr>k_type = Literal TOKEN_LITERAL_INTEGER,
            k_value = \<lparr>bigger_than_signed = False, is_character = True, v_value = Integer (of_nat val)\<rparr>,
            k_start = pos_start, k_end = get_current_position lexer\<rparr>)"

text \<open>A string, to its closing quote or the end of the text.\<close>

function string_body :: "lexer \<Rightarrow> lexer" where
  "string_body lexer =
     (let c = peek_next_char lexer
      in if c \<noteq> CHR 0x22 \<and> c \<noteq> NUL
         then string_body (eat_character (if c = CHR 0x5C \<and> peek_char lexer 1 \<noteq> NUL then eat_character lexer else lexer))
         else lexer)"
  by pat_completeness auto
termination
  by (relation "measure chars_left") (auto dest: peek_next_not_NUL)

declare string_body.simps [simp del]

definition lex_string :: "lexer \<Rightarrow> lexer" where
  "lex_string lexer =
     (let pos_start = get_current_position lexer;
          lexer = string_body (eat_character lexer);
          lexer = (if peek_next_char lexer = NUL then report_error_here lexer No_closing_quote
                   else eat_character lexer)
      in make_literal_here lexer TOKEN_LITERAL_STRING pos_start)"

text \<open>The keyword that the text goes on with: its length and its token.\<close>

definition match_keyword :: "lexer \<Rightarrow> (nat \<times> token_type) option" where
  "match_keyword lexer =
     (let keyword_len = look_ahead (\<lambda>c. starts_identifier c \<or> is_digit c) lexer 0;
          keyword = text_between lexer (char_idx lexer) (char_idx lexer + keyword_len)
      in map_option (\<lambda>token. (keyword_len, token)) (map_of keyword_table keyword))"

definition after_dot :: "lexer \<Rightarrow> bool" where
  "after_dot lexer \<longleftrightarrow> l_tokens lexer \<noteq> [] \<and> k_type (last (l_tokens lexer)) = TOKEN_CHAR CHR ''.''"

definition declared :: "lexer \<Rightarrow> nat \<Rightarrow> token_type \<Rightarrow> bool" where
  "declared lexer len token \<longleftrightarrow>
     token \<notin> {Literal TOKEN_LITERAL_TRUE, Literal TOKEN_LITERAL_FALSE, Literal TOKEN_LITERAL_NULL} \<and>
     peek_char lexer (look_ahead (\<lambda>c. c = CHR '' '' \<or> c = CHR 0x09) lexer len) = CHR '':''"

definition lex_keyword :: "lexer \<Rightarrow> nat \<Rightarrow> token_type \<Rightarrow> lexer" where
  "lex_keyword lexer len token =
     (let pos_start = get_current_position lexer;
          lexer = eat_characters lexer len
      in if token = Literal TOKEN_LITERAL_TRUE then make_literal_here lexer TOKEN_LITERAL_TRUE pos_start
         else if token = Literal TOKEN_LITERAL_FALSE then make_literal_here lexer TOKEN_LITERAL_FALSE pos_start
         else make_keyword lexer token pos_start)"

definition lex_identifier :: "lexer \<Rightarrow> lexer" where
  "lex_identifier lexer =
     (let pos_start = get_current_position lexer;
          lexer = eat_while (\<lambda>l. proceeds_identifier (peek_next_char l)) (eat_character lexer)
      in make_identifier lexer pos_start)"

definition is_triple_character_token :: "lexer \<Rightarrow> token_type option" where
  "is_triple_character_token lexer =
     map_of triple_characters (peek_next_char lexer, peek_char lexer 1, peek_char lexer 2)"

definition is_double_character_token :: "lexer \<Rightarrow> token_type option" where
  "is_double_character_token lexer = map_of double_characters (peek_next_char lexer, peek_char lexer 1)"

definition lex_operator :: "lexer \<Rightarrow> nat \<Rightarrow> token_type \<Rightarrow> lexer" where
  "lex_operator lexer len token = make_token (eat_characters lexer len) token (get_current_position lexer)"

text \<open>The length of a character of UTF-8 by its first byte.\<close>

definition utf8_length :: "char \<Rightarrow> nat" where
  "utf8_length lead =
     (if 0xF0 \<le> char_code lead then 4 else if 0xE0 \<le> char_code lead then 3
      else if 0xC0 \<le> char_code lead then 2 else 1)"

fun eat_unless_end :: "lexer \<Rightarrow> nat \<Rightarrow> lexer" where
  "eat_unless_end lexer 0 = lexer"
| "eat_unless_end lexer (Suc n) =
     (if peek_next_char lexer \<noteq> NUL then eat_unless_end (eat_character lexer) n else lexer)"

definition lex_unknown :: "lexer \<Rightarrow> lexer" where
  "lex_unknown lexer =
     (let len = utf8_length (peek_next_char lexer);
          unknown = takeWhile (\<lambda>c. c \<noteq> NUL) (map (peek_char lexer) [0..<len])
      in eat_unless_end (report_error_here lexer (Unknown_character unknown)) len)"

section \<open>The loop\<close>

definition lex_word :: "lexer \<Rightarrow> lexer" where
  "lex_word lexer =
     (let c = peek_next_char lexer
      in if starts_identifier c then lex_identifier lexer
         else case is_triple_character_token lexer of
           Some token \<Rightarrow> lex_operator lexer 3 token
         | None \<Rightarrow>
             (case is_double_character_token lexer of
                Some token \<Rightarrow> lex_operator lexer 2 token
              | None \<Rightarrow>
                  if is_single_character_token c
                  then make_single_character_token (eat_character lexer) (TOKEN_CHAR c)
                  else lex_unknown lexer))"

definition lex_step :: "lexer \<Rightarrow> lexer" where
  "lex_step lexer =
     (let c = peek_next_char lexer
      in if c = CHR '' '' \<or> c = CHR 0x09 then eat_character lexer
         else if c = newline then eat_character lexer
         else if c = CHR ''/'' \<and> peek_char lexer 1 = CHR ''/'' then lex_comment lexer
         else if c = CHR ''0'' \<and> peek_char lexer 1 \<in> set ''xXbBoO'' then lex_based_number lexer
         else if is_digit c then lex_number lexer
         else if c = CHR 0x27 then lex_character lexer
         else if c = CHR 0x22 then lex_string lexer
         else case match_keyword lexer of
           Some (len, token) \<Rightarrow>
             if \<not> after_dot lexer \<and> \<not> declared lexer len token then lex_keyword lexer len token
             else lex_word lexer
         | None \<Rightarrow> lex_word lexer)"

definition lex_start :: "lexer \<Rightarrow> lexer" where
  "lex_start lexer = lexer\<lparr>char_idx := 0, l_col := 1, line_number := 1, had_errors := False\<rparr>"

definition lex_end :: "lexer \<Rightarrow> lexer" where
  "lex_end lexer = make_token lexer TOKEN_END (get_current_position lexer)"

definition lex_file :: "lexer \<Rightarrow> lexer option" where
  "lex_file lexer =
     map_option lex_end (while_option (\<lambda>l. peek_next_char l \<noteq> NUL) lex_step (lex_start lexer))"

end
