(* ===== verification/LexerCorrect.thy ===== *)
theory LexerCorrect
  imports Lexer "HOL-Library.Code_Target_Nat"
begin

text \<open>
  What the lexer of \<^verbatim>\<open>Lexer\<close> computes. It ends on every text, never reads after the NUL, and each
  token has the true line and column of its start and its end. When nothing was reported, the text
  between two tokens is blank or a comment, and the text of each token spells its type and value
  (\<open>spells\<close>, the lexical grammar).
\<close>

section \<open>Positions in a text\<close>

definition segment :: "string \<Rightarrow> nat \<Rightarrow> nat \<Rightarrow> string" where
  "segment s i j = take (j - i) (drop i s)"

definition line_at :: "string \<Rightarrow> nat \<Rightarrow> nat" where
  "line_at s i = 1 + length (filter (\<lambda>c. c = newline) (take i s))"

definition col_at :: "string \<Rightarrow> nat \<Rightarrow> nat" where
  "col_at s i = 1 + length (takeWhile (\<lambda>c. c \<noteq> newline) (rev (take i s)))"

definition pos_at :: "string \<Rightarrow> nat \<Rightarrow> pos" where
  "pos_at s i = \<lparr>input_idx = i, p_line = line_at s i, p_col = col_at s i\<rparr>"

definition at_pos :: "lexer \<Rightarrow> bool" where
  "at_pos l \<longleftrightarrow> char_idx l \<le> length (file_text l) \<and> get_current_position l = pos_at (file_text l) (char_idx l)"

text \<open>\<open>went l l'\<close>: from \<open>l\<close> to \<open>l'\<close> the lexer went over characters that are not the NUL, and
  reported errors perhaps.\<close>

definition went :: "lexer \<Rightarrow> lexer \<Rightarrow> bool" where
  "went l l' \<longleftrightarrow>
     file_text l' = file_text l \<and> l_tokens l' = l_tokens l \<and> char_idx l \<le> char_idx l' \<and>
     (\<forall>j. char_idx l \<le> j \<and> j < char_idx l' \<longrightarrow> char_at (file_text l) j \<noteq> NUL) \<and>
     (at_pos l \<longrightarrow> at_pos l') \<and> (had_errors l \<longrightarrow> had_errors l')"

named_theorems went_intros \<open>steps that go over text\<close>

lemma went_refl [went_intros]: "went l l"
  by (auto simp: went_def)

lemma interval_first: "(\<forall>j. i \<le> j \<and> j < k \<longrightarrow> R j) \<longleftrightarrow> (i < k \<longrightarrow> R i) \<and> (\<forall>j. Suc i \<le> j \<and> j < k \<longrightarrow> R (j::nat))"
  by (metis Suc_leD Suc_leI le_less_trans le_neq_implies_less le_refl)

lemma went_trans: "went l m \<Longrightarrow> went m n \<Longrightarrow> went l n"
  unfolding went_def by (metis le_trans not_le)

lemma wentD:
  assumes "went l l'"
  shows "file_text l' = file_text l" and "l_tokens l' = l_tokens l" and "char_idx l \<le> char_idx l'"
    and "at_pos l \<Longrightarrow> at_pos l'" and "had_errors l \<Longrightarrow> had_errors l'"
  using assms by (auto simp: went_def)

lemma take_Suc_char_at: "i < length s \<Longrightarrow> take (Suc i) s = take i s @ [char_at s i]"
  by (simp add: take_Suc_conv_app_nth char_at_def)

lemma at_pos_eat:
  assumes "at_pos l" and "char_idx l < length (file_text l)"
  shows "at_pos (eat_character l)"
  using assms
  by (auto simp: at_pos_def get_current_position_def pos_at_def line_at_def col_at_def take_Suc_char_at
      eat_character_def Let_def)

lemma peek_0: "peek_next_char l = char_at (file_text l) (char_idx l)"
  by (simp add: peek_next_char_def peek_char_def)

lemma char_at_not_NUL: "char_at s i \<noteq> NUL \<Longrightarrow> i < length s"
  by (auto simp: char_at_def split: if_splits)

lemma went_eat [went_intros]: "peek_next_char l \<noteq> NUL \<Longrightarrow> went l (eat_character l)"
  using at_pos_eat [of l] char_at_not_NUL [of "file_text l" "char_idx l"] by (auto simp: went_def peek_0 less_Suc_eq_le)

lemma report_fields [simp]:
  "file_text (report_error_here l e) = file_text l"
  "l_tokens (report_error_here l e) = l_tokens l"
  "char_idx (report_error_here l e) = char_idx l"
  "had_errors (report_error_here l e)"
  "at_pos (report_error_here l e) = at_pos l"
  "peek_char (report_error_here l e) n = peek_char l n"
  "peek_next_char (report_error_here l e) = peek_next_char l"
  by (simp_all add: report_error_here_def at_pos_def get_current_position_def peek_char_def peek_next_char_def)

lemma went_report [went_intros]: "went l (report_error_here l e)"
  by (auto simp: went_def)

section \<open>Looking ahead\<close>

text \<open>A read ahead is the character there, unless the text ends before it.\<close>

lemma peek_from_eq: "peek_from s i n = (if \<forall>j < n. char_at s (i + j) \<noteq> NUL then char_at s (i + n) else NUL)"
proof (induction s i n rule: peek_from.induct)
  case (2 s i n)
  show ?case
  proof (cases "char_at s i = NUL")
    case True
    then show ?thesis by (auto intro: exI [of _ 0])
  next
    case False
    have "(\<forall>j < Suc n. char_at s (i + j) \<noteq> NUL) \<longleftrightarrow> (\<forall>j < n. char_at s (Suc i + j) \<noteq> NUL)"
      using False by (auto simp: less_Suc_eq_0_disj)
    then show ?thesis unfolding peek_from.simps using 2 False by auto
  qed
qed simp

lemma peek_char_eq:
  "peek_char l n = (if \<forall>j < n. char_at (file_text l) (char_idx l + j) \<noteq> NUL
                    then char_at (file_text l) (char_idx l + n) else NUL)"
  by (simp add: peek_char_def peek_from_eq)

lemma peek_char_not_NUL:
  assumes "peek_char l n \<noteq> NUL"
  shows "peek_char l n = char_at (file_text l) (char_idx l + n)"
    and "j \<le> n \<Longrightarrow> char_at (file_text l) (char_idx l + j) \<noteq> NUL"
  using assms by (auto simp: peek_char_eq le_less split: if_splits)

text \<open>A read further on than the NUL is undefined; from a place in the text, \<^verbatim>\<open>peek_char\<close> never
  makes one.\<close>

definition read_char :: "string \<Rightarrow> nat \<Rightarrow> char option" where
  "read_char s i = (if i \<le> length s then Some (char_at s i) else None)"

fun peek_checked :: "string \<Rightarrow> nat \<Rightarrow> nat \<Rightarrow> char option" where
  "peek_checked s i 0 = read_char s i"
| "peek_checked s i (Suc n) =
     (case read_char s i of
        None \<Rightarrow> None
      | Some c \<Rightarrow> if c = NUL then Some NUL else peek_checked s (Suc i) n)"

lemma peek_reads_in_text: "i \<le> length s \<Longrightarrow> peek_checked s i n = Some (peek_from s i n)"
  by (induction s i n rule: peek_checked.induct) (auto simp: read_char_def char_at_def)

lemma eat_characters_fields [simp]:
  "file_text (eat_characters l n) = file_text l"
  "l_tokens (eat_characters l n) = l_tokens l"
  "char_idx (eat_characters l n) = char_idx l + n"
  "had_errors (eat_characters l n) = had_errors l"
  "l_reports (eat_characters l n) = l_reports l"
  by (induction l n rule: eat_characters.induct) simp_all

lemma went_eat_characters [went_intros]:
  "(\<And>j. j < n \<Longrightarrow> char_at (file_text l) (char_idx l + j) \<noteq> NUL) \<Longrightarrow> went l (eat_characters l n)"
proof (induction l n rule: eat_characters.induct)
  case (2 l n)
  have "went l (eat_character l)" using 2(2) [of 0] by (intro went_eat) (simp add: peek_0)
  moreover have "went (eat_character l) (eat_characters (eat_character l) n)"
    using 2(2) [of "Suc j" for j] by (intro 2(1)) simp
  ultimately show ?case using went_trans by simp
qed (simp add: went_refl)

lemma went_eat_while [went_intros]: "went l (eat_while P l)"
proof (induction P l rule: eat_while.induct)
  case (1 P l)
  then show ?case
    using went_trans [OF went_eat] by (subst eat_while.simps) (auto simp: went_refl)
qed

text \<open>The test of the loop as a test on the text and the index.\<close>

lemma eat_while_text:
  assumes "\<And>l. P l = Q (file_text l) (char_idx l)"
  shows "(\<forall>j. char_idx l \<le> j \<and> j < char_idx (eat_while P l) \<longrightarrow> Q (file_text l) j) \<and>
    (peek_next_char (eat_while P l) = NUL \<or> \<not> Q (file_text l) (char_idx (eat_while P l)))"
  using assms
proof (induction P l rule: eat_while.induct)
  case (1 P l)
  note assms = 1(2)
  show ?case
  proof (cases "peek_next_char l \<noteq> NUL \<and> P l")
    case True
    then have e: "eat_while P l = eat_while P (eat_character l)" by (simp add: eat_while.simps [of P l])
    have "Q (file_text l) (char_idx l)" using True assms [of l] by blast
    then show ?thesis
      using 1(1) [OF True assms] unfolding e interval_first [of "char_idx l"] by simp
  next
    case False
    then have e: "eat_while P l = l" by (subst eat_while.simps) auto
    show ?thesis using False assms [of l] unfolding e by auto
  qed
qed

text \<open>How far a look ahead goes.\<close>

lemma look_ahead_spec:
  assumes "\<And>j. j < n \<Longrightarrow> char_at (file_text l) (char_idx l + j) \<noteq> NUL"
  shows "n \<le> look_ahead P l n \<and>
    (\<forall>j. j < look_ahead P l n \<longrightarrow> char_at (file_text l) (char_idx l + j) \<noteq> NUL) \<and>
    (\<forall>j. n \<le> j \<and> j < look_ahead P l n \<longrightarrow> P (char_at (file_text l) (char_idx l + j))) \<and>
    (char_at (file_text l) (char_idx l + look_ahead P l n) = NUL \<or>
     \<not> P (char_at (file_text l) (char_idx l + look_ahead P l n)))"
  using assms
proof (induction P l n rule: look_ahead.induct)
  case (1 P l n)
  have peek: "peek_char l n = char_at (file_text l) (char_idx l + n)" using 1(2) by (simp add: peek_char_eq)
  show ?case
  proof (cases "peek_char l n \<noteq> NUL \<and> P (peek_char l n)")
    case True
    then have e: "look_ahead P l n = look_ahead P l (Suc n)" by (subst look_ahead.simps) simp
    have "char_at (file_text l) (char_idx l + j) \<noteq> NUL" if "j < Suc n" for j
      using 1(2) True peek that by (cases "j = n") auto
    then show ?thesis
      using 1(1) [OF True] True peek unfolding e interval_first [of n] by (auto dest: Suc_leD)
  next
    case False
    then have e: "look_ahead P l n = n" by (subst look_ahead.simps) auto
    show ?thesis using False 1(2) peek unfolding e by auto
  qed
qed

section \<open>Each part goes over text\<close>

lemma based_digit_not_NUL: "based_digit c = Some d \<Longrightarrow> c \<noteq> NUL"
  by (auto simp: based_digit_def is_digit_def is_letter_def char_code_def)

lemma went_based_digits: "went l (fst (based_digits base l n))"
proof (induction base l n rule: based_digits.induct)
  case (1 base l n)
  show ?case
  proof (cases "peek_next_char l = CHR ''_''")
    case True
    then have "went l (eat_character l)" by (intro went_eat) simp
    then show ?thesis using 1(1) True went_trans by (subst based_digits.simps) simp
  next
    case False
    show ?thesis
    proof (cases "based_digit (peek_next_char l)")
      case None
      then show ?thesis using False by (subst based_digits.simps) (simp add: went_refl)
    next
      case (Some d)
      then have "went l (eat_character l)" by (intro went_eat) (rule based_digit_not_NUL)
      then show ?thesis using 1(2) [OF refl False Some] False Some went_trans by (subst based_digits.simps) simp
    qed
  qed
qed

lemma went_string_body: "went l (string_body l)"
proof (induction l rule: string_body.induct)
  case (1 l)
  let ?c = "peek_next_char l"
  show ?case
  proof (cases "?c \<noteq> CHR 0x22 \<and> ?c \<noteq> NUL")
    case True
    let ?l = "if ?c = CHR 0x5C \<and> peek_char l 1 \<noteq> NUL then eat_character l else l"
    have e: "string_body l = string_body (eat_character ?l)" using True by (subst string_body.simps) simp
    have "went l ?l" using True by (auto intro: went_intros)
    moreover have "went ?l (eat_character ?l)"
      using True peek_char_not_NUL [of l 1] by (intro went_eat) (auto simp: peek_0)
    ultimately show ?thesis using 1 [OF refl True] went_trans unfolding e by blast
  next
    case False
    then show ?thesis by (subst string_body.simps) (auto simp: went_refl)
  qed
qed

lemma went_eat_unless_end: "went l (eat_unless_end l n)"
  by (induction l n rule: eat_unless_end.induct) (auto intro: went_refl went_trans [OF went_eat])

lemma hex_escape_eq:
  "hex_escape l 0 0 =
     (if c_isxdigit (peek_char l 1)
      then if c_isxdigit (peek_char l 2) then (2, 16 * hex_digit (peek_char l 1) + hex_digit (peek_char l 2))
           else (1, hex_digit (peek_char l 1))
      else (0, 0))"
proof -
  have 2: "hex_escape l 2 n = (2, n)" for n
    by (subst hex_escape.simps) simp
  have 1: "hex_escape l 1 n = (if c_isxdigit (peek_char l 2) then (2, n * 16 + hex_digit (peek_char l 2)) else (1, n))" for n
    using 2 by (subst hex_escape.simps) (simp add: numeral_2_eq_2)
  show ?thesis
    using 1 by (subst hex_escape.simps) (simp add: mult.commute)
qed

lemma c_isxdigit_not_NUL: "c_isxdigit c \<Longrightarrow> c \<noteq> NUL"
  by (auto simp: c_isxdigit_def is_digit_def c_tolower_def char_code_def)

lemma went_last: "went m (if peek_next_char m \<noteq> NUL then eat_character m else m)"
  by (auto intro: went_intros)

lemma went_escape_value: "went l (snd (escape_value l))"
proof -
  have two: "went l (eat_characters l 2)" if "c_isxdigit (peek_char l 2)"
    using peek_char_not_NUL(2) [OF c_isxdigit_not_NUL [OF that]] by (intro went_eat_characters) simp
  then show ?thesis
    by (auto simp: escape_value_def hex_escape_eq Let_def went_refl split: option.splits)
qed

lemma went_lex_escape: "went l (snd (lex_escape l))"
proof -
  obtain r m where e: "escape_value l = (r, m)" by fastforce
  then have "went l m" using went_escape_value [of l] by simp
  moreover have "went m (if r = None then report_error_here m Unknown_escape else m)" (is "went m ?n")
    by (auto intro: went_intros)
  ultimately have "went l (if peek_next_char ?n \<noteq> NUL then eat_character ?n else ?n)"
    using went_trans [OF went_trans went_last] by blast
  then show ?thesis
    by (cases r) (auto simp: lex_escape_def e split: if_splits)
qed

lemma went_lex_quoted: "went l (snd (lex_quoted l))"
  unfolding lex_quoted_def Let_def
  by (auto intro: went_intros went_trans [OF went_eat went_lex_escape] went_trans [OF went_report went_eat_while])

lemma went_lex_closing_quote: "went l (lex_closing_quote l)"
proof (cases "peek_next_char l = CHR 0x27")
  case True
  then show ?thesis by (auto simp: lex_closing_quote_def intro: went_eat)
next
  case False
  let ?n = "look_ahead (\<lambda>c. c \<noteq> newline \<and> c \<noteq> CHR 0x27) l 0"
  have n: "\<forall>j < ?n. char_at (file_text l) (char_idx l + j) \<noteq> NUL"
    using look_ahead_spec [of 0 l "\<lambda>c. c \<noteq> newline \<and> c \<noteq> CHR 0x27"] by simp
  have "went l (eat_characters (report_error_here l More_than_one_character) (?n + 1))" if "peek_char l ?n = CHR 0x27"
  proof (rule went_trans [OF went_report went_eat_characters])
    fix j assume "j < ?n + 1"
    then show "char_at (file_text (report_error_here l More_than_one_character))
        (char_idx (report_error_here l More_than_one_character) + j) \<noteq> NUL"
      using that peek_char_not_NUL(2) [of l ?n j] by simp
  qed
  then show ?thesis using False by (auto simp: lex_closing_quote_def Let_def went_report)
qed

section \<open>The lexical grammar\<close>

text \<open>What the text of each kind of token is, and its value.\<close>

definition decimal_spelling :: "string \<Rightarrow> as_value \<Rightarrow> bool" where
  "decimal_spelling s v \<longleftrightarrow>
     s \<noteq> [] \<and> is_digit (hd s) \<and> (\<forall>c \<in> set s. is_digit c \<or> c = CHR ''_'') \<and>
     (let n = min (decimal_value (filter is_digit s)) (2 ^ 64 - 1)
      in v = \<lparr>bigger_than_signed = 2 ^ 63 \<le> n, is_character = False, v_value = Integer (of_nat n)\<rparr>)"

definition digits_value :: "nat \<Rightarrow> string \<Rightarrow> nat" where
  "digits_value base ds = foldl (\<lambda>v c. v * base + the (based_digit c)) 0 ds"

definition based_spelling :: "string \<Rightarrow> as_value \<Rightarrow> bool" where
  "based_spelling s v \<longleftrightarrow>
     (\<exists>p ds. s = CHR ''0'' # p # ds \<and> p \<in> set ''xXbBoO'' \<and>
        (let base = number_base p; ds = filter (\<lambda>c. c \<noteq> CHR ''_'') ds; n = digits_value base ds
         in ds \<noteq> [] \<and> (\<forall>c \<in> set ds. \<exists>d < base. based_digit c = Some d) \<and> n < 2 ^ 64 \<and>
            v = \<lparr>bigger_than_signed = 2 ^ 63 \<le> n, is_character = False, v_value = Integer (of_nat n)\<rparr>))"

definition quoted_spelling :: "string \<Rightarrow> nat \<Rightarrow> bool" where
  "quoted_spelling s v \<longleftrightarrow>
     (\<exists>c. s = [c] \<and> c \<noteq> CHR 0x27 \<and> c \<noteq> CHR 0x5C \<and> c \<noteq> newline \<and> c \<noteq> NUL \<and> char_code c < 128 \<and> v = char_code c) \<or>
     (\<exists>e. s = [CHR 0x5C, e] \<and> (e, v) \<in> set simple_escapes) \<or>
     (\<exists>a b. s = [CHR 0x5C, CHR ''x'', a, b] \<and> c_isxdigit a \<and> c_isxdigit b \<and> v = 16 * hex_digit a + hex_digit b)"

definition character_spelling :: "string \<Rightarrow> as_value \<Rightarrow> bool" where
  "character_spelling s v \<longleftrightarrow>
     (\<exists>inner n. s = CHR 0x27 # inner @ [CHR 0x27] \<and> quoted_spelling inner n \<and>
        v = \<lparr>bigger_than_signed = False, is_character = True, v_value = Integer (of_nat n)\<rparr>)"

definition float_spelling :: "string \<Rightarrow> as_value \<Rightarrow> bool" where
  "float_spelling s v \<longleftrightarrow>
     (\<exists>whole fraction. s = whole @ CHR ''.'' # fraction \<and> whole \<noteq> [] \<and> is_digit (hd whole) \<and>
        (\<forall>c \<in> set (whole @ fraction). is_digit c \<or> c = CHR ''_'') \<and>
        v = value_of (Floating (double_of_ratio (decimal_value (filter is_digit (whole @ fraction)))
                                 (10 ^ length (filter is_digit fraction)))))"

text \<open>The inside of a string: a quote in it has a backslash before it.\<close>

fun escaped :: "string \<Rightarrow> bool" where
  "escaped [] = True"
| "escaped (c # cs) =
     (if c = CHR 0x5C then (case cs of [] \<Rightarrow> False | _ # cs \<Rightarrow> escaped cs) else c \<noteq> CHR 0x22 \<and> escaped cs)"

definition string_spelling :: "string \<Rightarrow> as_value \<Rightarrow> bool" where
  "string_spelling s v \<longleftrightarrow> (\<exists>inner. s = CHR 0x22 # inner @ [CHR 0x22] \<and> escaped inner \<and> v = value_of (String inner))"

definition identifier_spelling :: "string \<Rightarrow> as_value \<Rightarrow> bool" where
  "identifier_spelling s v \<longleftrightarrow>
     s \<noteq> [] \<and> starts_identifier (hd s) \<and> (\<forall>c \<in> set s. proceeds_identifier c) \<and> v = value_of (Identifier s)"

definition spells :: "string \<Rightarrow> token \<Rightarrow> bool" where
  "spells s t \<longleftrightarrow>
     (case k_type t of
        TOKEN_CHAR c \<Rightarrow> s = [c] \<and> is_single_character_token c \<and> k_value t = no_value
      | Operator op \<Rightarrow> s = operator_str op \<and> k_value t = no_value
      | Keyword kw \<Rightarrow> (s, Keyword kw) \<in> set keyword_table \<and> k_value t = no_value
      | Type type \<Rightarrow> (s, Type type) \<in> set keyword_table \<and> k_value t = no_value
      | Literal TOKEN_LITERAL_NULL \<Rightarrow> s = ''null'' \<and> k_value t = no_value
      | Literal TOKEN_LITERAL_BOOLEAN \<Rightarrow> (s = ''true'' \<and> k_value t = value_of (Boolean True)) \<or>
                                         (s = ''false'' \<and> k_value t = value_of (Boolean False))
      | Literal TOKEN_LITERAL_INTEGER \<Rightarrow> decimal_spelling s (k_value t) \<or> based_spelling s (k_value t) \<or>
                                         character_spelling s (k_value t)
      | Literal TOKEN_LITERAL_FLOAT \<Rightarrow> float_spelling s (k_value t)
      | Literal TOKEN_LITERAL_STRING \<Rightarrow> string_spelling s (k_value t)
      | Literal TOKEN_LITERAL_IDENTIFIER \<Rightarrow> identifier_spelling s (k_value t)
      | _ \<Rightarrow> False)"

section \<open>Each part makes its token\<close>

definition makes :: "lexer \<Rightarrow> lexer \<Rightarrow> token \<Rightarrow> bool" where
  "makes l l' t \<longleftrightarrow>
     (\<exists>m. went l m \<and> char_idx l < char_idx m \<and> l' = push_token m t \<and>
          k_start t = get_current_position l \<and> k_end t = get_current_position m)"

definition lexes_token :: "lexer \<Rightarrow> lexer \<Rightarrow> bool" where
  "lexes_token l l' \<longleftrightarrow>
     (\<exists>t. makes l l' t \<and> (\<not> had_errors l' \<longrightarrow> spells (segment (file_text l) (char_idx l) (char_idx l')) t))"

lemma push_token_fields [simp]:
  "file_text (push_token l t) = file_text l"
  "l_tokens (push_token l t) = l_tokens l @ [t]"
  "char_idx (push_token l t) = char_idx l"
  "had_errors (push_token l t) = had_errors l"
  "at_pos (push_token l t) = at_pos l"
  "get_current_position (push_token l t) = get_current_position l"
  by (simp_all add: push_token_def at_pos_def get_current_position_def)

lemma lexes_tokenI:
  assumes "went l m" and "char_idx l < char_idx m" and "k_start t = get_current_position l"
    and "k_end t = get_current_position m"
    and "\<not> had_errors m \<Longrightarrow> spells (segment (file_text l) (char_idx l) (char_idx m)) t"
  shows "lexes_token l (push_token m t)"
  using assms unfolding lexes_token_def makes_def by auto

lemma segment_empty [simp]: "segment s i i = []"
  by (simp add: segment_def)

lemma segment_Cons: "i < j \<Longrightarrow> i < length s \<Longrightarrow> segment s i j = char_at s i # segment s (Suc i) j"
  by (simp add: segment_def char_at_def Cons_nth_drop_Suc [symmetric] take_Cons' Suc_diff_Suc)

lemma segment_append:
  assumes "i \<le> j" and "j \<le> k"
  shows "segment s i k = segment s i j @ segment s j k"
proof -
  have "k - i = (j - i) + (k - j)" using assms by simp
  then show ?thesis unfolding segment_def using take_add [of "j - i" "k - j" "drop i s"] assms by simp
qed

lemma set_segment:
  assumes "c \<in> set (segment s i j)"
  shows "\<exists>m. i \<le> m \<and> m < j \<and> c = char_at s m"
proof -
  obtain n where "n < length s - i" "n < j - i" "c = s ! (i + n)"
    using assms by (auto simp: segment_def in_set_conv_nth)
  then show ?thesis by (intro exI [of _ "i + n"]) (auto simp: char_at_def)
qed

lemma segment_one: "i < length s \<Longrightarrow> segment s i (Suc i) = [char_at s i]"
  by (simp add: segment_Cons)

lemma went_bound: "went l m \<Longrightarrow> char_idx l < char_idx m \<Longrightarrow> char_idx m \<le> length (file_text l)"
  using char_at_not_NUL [of "file_text l" "char_idx m - 1"] by (auto simp: went_def)

text \<open>Numbers.\<close>

lemma decimal_make_integer:
  assumes "\<forall>c \<in> set s. is_digit c \<or> c = CHR ''_''" and "s \<noteq> []" and "is_digit (hd s)"
  shows "decimal_spelling s (make_integer s)"
proof -
  have "filter (\<lambda>c. c \<noteq> CHR ''_'') s = filter is_digit s"
    using assms(1) by (intro filter_cong refl) (auto simp: is_digit_def char_code_def)
  moreover have unat: "unat (of_nat n :: u64) = n" if "n < 2 ^ 64" for n
    using that by (simp add: unsigned_of_nat take_bit_nat_eq_self)
  moreover have "(9223372036854775807 :: u64) < of_nat n \<longleftrightarrow> 2 ^ 63 \<le> n" if "n < 2 ^ 64" for n
    unfolding word_less_nat_alt unat [OF that] by simp linarith
  ultimately show ?thesis
    using assms(2,3)
    by (auto simp: decimal_spelling_def make_integer_def strtoull_def Let_def assms(1) min_def)
qed

definition digit_here :: "string \<Rightarrow> nat \<Rightarrow> bool" where
  "digit_here s i \<longleftrightarrow> is_digit (char_at s i) \<or> (char_at s i = CHR ''_'' \<and> is_digit (peek_from s i 1))"

lemma at_digit_text: "at_digit l = digit_here (file_text l) (char_idx l)"
  by (simp add: at_digit_def digit_here_def peek_0 peek_char_def)

lemma segment_position [simp]:
  "text_between l i j = segment (file_text l) i j"
  "input_idx (get_current_position l) = char_idx l"
  by (simp_all add: text_between_def segment_def get_current_position_def)

lemma is_digit_not_NUL: "is_digit c \<Longrightarrow> c \<noteq> NUL"
  by (auto simp: is_digit_def char_code_def)

text \<open>Eating digits gives a run of digits and underscores.\<close>

lemma digit_run:
  "\<forall>c \<in> set (segment (file_text l) (char_idx l) (char_idx (eat_while at_digit l))). is_digit c \<or> c = CHR ''_''"
  using eat_while_text [of at_digit digit_here l, OF at_digit_text] set_segment
  by (fastforce simp: digit_here_def)

lemma atof_float:
  assumes "\<forall>c \<in> set whole. is_digit c \<or> c = CHR ''_''" and "\<forall>c \<in> set fraction. is_digit c \<or> c = CHR ''_''"
  shows "atof (filter (\<lambda>c. c \<noteq> CHR ''_'') (whole @ CHR ''.'' # fraction)) =
    double_of_ratio (decimal_value (filter is_digit (whole @ fraction))) (10 ^ length (filter is_digit fraction))"
proof -
  have f: "filter (\<lambda>c. c \<noteq> CHR ''_'') s = filter is_digit s" if "\<forall>c \<in> set s. is_digit c \<or> c = CHR ''_''" for s
    using that by (intro filter_cong refl) (auto simp: is_digit_def char_code_def)
  have no_dot: "\<not> is_digit CHR ''.''" by (simp add: is_digit_def char_code_def)
  have "takeWhile (\<lambda>c. c \<noteq> CHR ''.'') (filter is_digit whole @ CHR ''.'' # filter is_digit fraction) = filter is_digit whole"
    using no_dot by (subst takeWhile_append2) auto
  then show ?thesis
    using f assms by (simp add: atof_def Let_def)
qed

lemma lexes_number:
  assumes "is_digit (peek_next_char l)"
  shows "lexes_token l (lex_number l)"
proof -
  let ?m = "eat_while at_digit (eat_character l)"
  have lt: "char_idx l < length (file_text l)"
    using assms is_digit_not_NUL peek_next_not_NUL by blast
  have w: "went l ?m" using assms is_digit_not_NUL went_trans [OF went_eat went_eat_while] by blast
  have lm: "char_idx l < char_idx ?m" using wentD(3) [OF went_eat_while, of "eat_character l" at_digit] by simp
  let ?s = "segment (file_text l) (char_idx l) (char_idx ?m)"
  have s: "?s = char_at (file_text l) (char_idx l) # segment (file_text l) (Suc (char_idx l)) (char_idx ?m)"
    using lm lt by (rule segment_Cons)
  have digits: "\<forall>c \<in> set ?s. is_digit c \<or> c = CHR ''_''" "?s \<noteq> []" "is_digit (hd ?s)"
    using digit_run [of "eat_character l"] assms unfolding s by (auto simp: peek_0)
  have int: "lexes_token l (make_literal_here ?m TOKEN_LITERAL_INTEGER (get_current_position l))"
    unfolding make_literal_here_def make_literal_def Let_def literal_token.case
    using w lm decimal_make_integer [OF digits] wentD(1) [OF w]
    by (intro lexes_tokenI) (simp_all add: spells_def)
  have float: "lexes_token l (make_literal_here (eat_while at_digit (eat_character ?m)) TOKEN_LITERAL_FLOAT (get_current_position l))"
    if dot: "peek_next_char ?m = CHR ''.''"
  proof -
    let ?n = "eat_while at_digit (eat_character ?m)"
    have wn: "went ?m ?n" using dot by (intro went_trans [OF went_eat went_eat_while]) simp
    have mn: "char_idx ?m < char_idx ?n" using wentD(3) [OF went_eat_while, of "eat_character ?m" at_digit] by simp
    have mt: "char_idx ?m < length (file_text l)" using dot peek_next_not_NUL [of ?m] wentD(1) [OF w] by simp
    let ?f = "segment (file_text l) (Suc (char_idx ?m)) (char_idx ?n)"
    have sn: "segment (file_text l) (char_idx l) (char_idx ?n) = ?s @ CHR ''.'' # ?f"
      unfolding segment_append [OF less_imp_le [OF lm] less_imp_le [OF mn]] segment_Cons [OF mn mt]
      using dot wentD(1) [OF w] by (simp add: peek_0)
    have f: "\<forall>c \<in> set ?f. is_digit c \<or> c = CHR ''_''"
      using digit_run [of "eat_character ?m"] wentD(1) [OF w] by simp
    have "float_spelling (?s @ CHR ''.'' # ?f) (make_float (?s @ CHR ''.'' # ?f))"
      unfolding float_spelling_def
    proof (intro exI conjI)
      show "?s @ CHR ''.'' # ?f = ?s @ CHR ''.'' # ?f" ..
      show "make_float (?s @ CHR ''.'' # ?f) = value_of (Floating (double_of_ratio
          (decimal_value (filter is_digit (?s @ ?f))) (10 ^ length (filter is_digit ?f))))"
        unfolding make_float_def atof_float [OF digits(1) f] ..
    qed (use digits f in auto)
    then show ?thesis
      unfolding make_literal_here_def make_literal_def Let_def literal_token.case
      using went_trans [OF w wn] lm mn wentD(1) [OF went_trans [OF w wn]]
      by (intro lexes_tokenI) (simp_all add: spells_def sn)
  qed
  show ?thesis using int float by (simp add: lex_number_def Let_def)
qed

text \<open>Numbers with a base. The digits are folded into the number; the value is that of the digits
  modulo $2^{64}$, and the overflow is noted exactly when they do not fit.\<close>

definition based_here :: "char \<Rightarrow> bool" where
  "based_here c \<longleftrightarrow> c = CHR ''_'' \<or> based_digit c \<noteq> None"

definition add_char :: "nat \<Rightarrow> based_number \<Rightarrow> char \<Rightarrow> based_number" where
  "add_char base n c = add_digit base (the (based_digit c)) n"

lemma underscore_no_digit: "based_digit CHR ''_'' = None"
  by (simp add: based_digit_def is_digit_def is_letter_def char_code_def)

lemma based_digits_eq:
  assumes "based_digits base l n = (l', n')"
  shows "(\<forall>c \<in> set (segment (file_text l) (char_idx l) (char_idx l')). based_here c) \<and>
    n' = foldl (add_char base) n (filter (\<lambda>c. c \<noteq> CHR ''_'') (segment (file_text l) (char_idx l) (char_idx l')))"
  using assms
proof (induction base l n rule: based_digits.induct)
  case (1 base l n)
  let ?c = "peek_next_char l"
  have eaten: "segment (file_text l) (char_idx l) (char_idx l') =
      ?c # segment (file_text l) (char_idx (eat_character l)) (char_idx l')"
    if "based_digits base (eat_character l) k = (l', n')" "?c \<noteq> NUL" for k
    using wentD(3) [OF went_based_digits, of "eat_character l" base k] that peek_next_not_NUL [of l]
    by (simp add: segment_Cons peek_0)
  show ?case
  proof (cases "?c = CHR ''_''")
    case True
    then have e: "based_digits base (eat_character l) n = (l', n')"
      using 1(3) by (subst (asm) based_digits.simps) simp
    show ?thesis using 1(1) [OF refl True e] eaten [OF e] True by (simp add: based_here_def)
  next
    case False
    show ?thesis
    proof (cases "based_digit ?c")
      case None
      then have "l' = l" "n' = n" using 1(3) False by (subst (asm) based_digits.simps, simp)+
      then show ?thesis by simp
    next
      case (Some d)
      then have e: "based_digits base (eat_character l) (add_digit base d n) = (l', n')"
        using 1(3) False by (subst (asm) based_digits.simps) simp
      show ?thesis
        using 1(2) [OF refl False Some e] eaten [OF e based_digit_not_NUL [OF Some]] Some False
        by (simp add: based_here_def add_char_def)
    qed
  qed
qed

lemma based_digit_bound: "based_digit c = Some d \<Longrightarrow> d < 36"
  by (auto simp: based_digit_def is_digit_def is_letter_def c_tolower_def char_code_def split: if_splits)

lemma add_overflow:
  assumes "v < 2 ^ 64" and "d < 36" and "0 < base" and "base < 2 ^ 64"
  shows "(- 1 - of_nat d :: u64) div of_nat base < of_nat v \<longleftrightarrow> 2 ^ 64 \<le> v * base + d"
proof -
  have max: "unat (- 1 - of_nat d :: u64) = 2 ^ 64 - 1 - d"
    using assms(2) by (simp add: unat_sub word_le_nat_alt unsigned_of_nat take_bit_nat_eq_self unsigned_minus_1_eq_mask mask_eq_exp_minus_1)
  have "(- 1 - of_nat d :: u64) div of_nat base < of_nat v \<longleftrightarrow> (2 ^ 64 - 1 - d) div base < v"
    using assms by (simp add: word_less_nat_alt unat_div max unsigned_of_nat take_bit_nat_eq_self)
  also have "\<dots> \<longleftrightarrow> 2 ^ 64 - 1 - d < v * base" using assms(3) by (rule div_less_iff_less_mult)
  also have "\<dots> \<longleftrightarrow> 2 ^ 64 \<le> v * base + d" using assms(2) by auto
  finally show ?thesis .
qed

lemma based_fold:
  assumes "0 < base" and "base < 2 ^ 64" and "\<forall>c \<in> set ds. based_digit c \<noteq> None"
    and "n_value n = of_nat v" and "n_overflow n \<longleftrightarrow> 2 ^ 64 \<le> v"
  shows "let n' = foldl (add_char base) n ds; v' = foldl (\<lambda>v c. v * base + the (based_digit c)) v ds
    in n_value n' = of_nat v' \<and> (n_overflow n' \<longleftrightarrow> 2 ^ 64 \<le> v') \<and>
       (n_bad_digit n' \<longleftrightarrow> n_bad_digit n \<or> (\<exists>c \<in> set ds. base \<le> the (based_digit c))) \<and>
       n_digits n' = n_digits n + length ds"
  using assms(3-5)
proof (induction ds arbitrary: n v)
  case (Cons c ds)
  obtain d where d: "based_digit c = Some d" using Cons.prems(1) by auto
  have "n_overflow (add_char base n c) \<longleftrightarrow> 2 ^ 64 \<le> v * base + d"
  proof (cases "v < 2 ^ 64")
    case True
    then show ?thesis
      using Cons.prems(2,3) d add_overflow [OF True based_digit_bound [OF d] assms(1,2)]
      by (simp add: add_char_def add_digit_def)
  next
    case False
    then have "2 ^ 64 \<le> v * base" using assms(1) by (metis le_trans mult_le_mono2 mult_1_right not_less Suc_leI One_nat_def)
    then show ?thesis using False Cons.prems(3) d by (simp add: add_char_def add_digit_def)
  qed
  moreover have "n_value (add_char base n c) = of_nat (v * base + d)"
    using Cons.prems(2) d by (simp add: add_char_def add_digit_def)
  ultimately show ?case
    using Cons.IH [of "add_char base n c" "v * base + d"] Cons.prems(1) d
    by (auto simp: Let_def add_char_def add_digit_def)
qed simp

lemma number_base_bounds: "0 < number_base p" "number_base p < 2 ^ 64"
  by (simp_all add: number_base_def)

lemma signed_bound: "n < 2 ^ 64 \<Longrightarrow> (9223372036854775807 :: u64) < of_nat n \<longleftrightarrow> 2 ^ 63 \<le> n"
  by (simp add: word_less_nat_alt unsigned_of_nat take_bit_nat_eq_self) linarith

definition no_digits :: based_number where
  "no_digits = \<lparr>n_value = 0, n_overflow = False, n_bad_digit = False, n_digits = 0\<rparr>"

lemma lexes_based_number:
  assumes zero: "peek_next_char l = CHR ''0''" and prefix: "peek_char l 1 \<in> set ''xXbBoO''"
  shows "lexes_token l (lex_based_number l)"
proof -
  let ?base = "number_base (peek_char l 1)" and ?two = "eat_characters l 2"
  have p: "peek_char l 1 \<noteq> NUL" using prefix by auto
  have here: "char_at (file_text l) (char_idx l) = CHR ''0''" "char_at (file_text l) (Suc (char_idx l)) = peek_char l 1"
    using zero peek_char_not_NUL(1) [OF p] by (simp_all add: peek_0)
  have w2: "went l ?two"
    using peek_char_not_NUL(2) [OF p] by (intro went_eat_characters) simp
  obtain m n where mn: "based_digits ?base ?two no_digits = (m, n)" by fastforce
  then have w: "went ?two m" using went_based_digits [of ?two ?base no_digits] by simp
  let ?report = "if n_digits n = 0 then report_error_here m (Needs_digits ?base)
                 else if n_bad_digit n then report_error_here m (Has_only_digits ?base)
                 else if n_overflow n then report_error_here m Bigger_than_64_bits else m"
  have wr: "went m ?report" by (auto intro: went_intros)
  have r: "char_idx ?report = char_idx m" "file_text ?report = file_text m" by simp_all
  have idx: "char_idx l + 2 \<le> char_idx m" using wentD(3) [OF w] by simp
  have len: "Suc (char_idx l) < length (file_text l)"
    using here(2) p char_at_not_NUL by metis
  let ?ds = "segment (file_text l) (char_idx l + 2) (char_idx m)"
  have s: "segment (file_text l) (char_idx l) (char_idx m) = CHR ''0'' # peek_char l 1 # ?ds"
    using idx len here by (simp add: segment_Cons)
  let ?fs = "filter (\<lambda>c. c \<noteq> CHR ''_'') ?ds"
  have fold: "(\<forall>c \<in> set ?ds. based_here c) \<and> n = foldl (add_char ?base) no_digits ?fs"
    using based_digits_eq [OF mn] wentD(1) [OF w2] by simp
  then have digit: "\<forall>c \<in> set ?fs. based_digit c \<noteq> None" by (auto simp: based_here_def)
  have facts: "n_value n = of_nat (digits_value ?base ?fs)" "n_overflow n \<longleftrightarrow> 2 ^ 64 \<le> digits_value ?base ?fs"
      "n_bad_digit n \<longleftrightarrow> (\<exists>c \<in> set ?fs. ?base \<le> the (based_digit c))" "n_digits n = length ?fs"
    using based_fold [OF number_base_bounds digit, of no_digits 0] fold
    by (simp_all add: no_digits_def Let_def digits_value_def)
  have spelled: "based_spelling (segment (file_text l) (char_idx l) (char_idx m))
      \<lparr>bigger_than_signed = 9223372036854775807 < n_value n, is_character = False, v_value = Integer (n_value n)\<rparr>"
    if ok: "\<not> had_errors ?report"
  proof -
    have k: "n_digits n \<noteq> 0" "\<not> n_bad_digit n" "\<not> n_overflow n" using ok by (auto split: if_splits)
    have "digits_value ?base ?fs < 2 ^ 64" using k(3) facts(2) by simp
    moreover have "\<forall>c \<in> set ?fs. \<exists>d < ?base. based_digit c = Some d"
      using k(2) facts(3) digit by (metis not_less option.exhaust_sel)
    moreover have "?fs \<noteq> []" using k(1) facts(4) by auto
    ultimately show ?thesis
      unfolding based_spelling_def Let_def s facts(1) using signed_bound prefix by blast
  qed
  have "lexes_token l (push_token ?report
      \<lparr>k_type = Literal TOKEN_LITERAL_INTEGER,
       k_value = \<lparr>bigger_than_signed = 9223372036854775807 < n_value n, is_character = False, v_value = Integer (n_value n)\<rparr>,
       k_start = get_current_position l, k_end = get_current_position ?report\<rparr>)"
    using went_trans [OF went_trans [OF w2 w] wr] idx spelled
    by (intro lexes_tokenI) (simp_all add: spells_def)
  then show ?thesis
    unfolding lex_based_number_def Let_def no_digits_def [symmetric] mn prod.case .
qed

text \<open>Characters.\<close>

lemma escape_value_spec:
  assumes "escape_value l = (Some v, m)" and "peek_next_char m \<noteq> NUL"
  shows "quoted_spelling (CHR 0x5C # segment (file_text l) (char_idx l) (Suc (char_idx m))) v"
proof (cases "map_of simple_escapes (peek_next_char l)")
  case (Some u)
  then have m: "m = l" "v = u" using assms(1) by (auto simp: escape_value_def Let_def)
  have "segment (file_text l) (char_idx l) (Suc (char_idx l)) = [peek_next_char l]"
    using assms(2) m peek_next_not_NUL [of l] by (simp add: segment_one peek_0)
  then show ?thesis using m map_of_SomeD [OF Some] by (simp add: quoted_spelling_def)
next
  case None
  then have x: "peek_next_char l = CHR ''x''" "c_isxdigit (peek_char l 1)" "c_isxdigit (peek_char l 2)"
      "v = 16 * hex_digit (peek_char l 1) + hex_digit (peek_char l 2)" "m = eat_characters l 2"
    using assms(1) by (auto simp: escape_value_def Let_def hex_escape_eq split: if_splits)
  have p: "peek_char l 2 \<noteq> NUL" "peek_char l 1 \<noteq> NUL" using x(2,3) c_isxdigit_not_NUL by auto
  have "char_at (file_text l) (char_idx l + 2) \<noteq> NUL" using peek_char_not_NUL(2) [OF p(1), of 2] by simp
  then have len: "char_idx l + 2 < length (file_text l)" by (rule char_at_not_NUL)
  have "segment (file_text l) (char_idx l) (Suc (char_idx l + 2)) = [CHR ''x'', peek_char l 1, peek_char l 2]"
    using len x(1) peek_char_not_NUL(1) [OF p(1)] peek_char_not_NUL(1) [OF p(2)]
    by (simp add: segment_Cons peek_0)
  then show ?thesis using x by (simp add: quoted_spelling_def)
qed

lemma escape_value_not_end:
  assumes "escape_value l = (Some v, m)"
  shows "peek_next_char m \<noteq> NUL"
proof (cases "map_of simple_escapes (peek_next_char l)")
  case (Some u)
  then have "m = l" using assms by (auto simp: escape_value_def Let_def)
  moreover have "NUL \<notin> fst ` set simple_escapes" by (simp add: simple_escapes_def)
  ultimately show ?thesis using map_of_SomeD [OF Some] by (metis fst_conv image_eqI)
next
  case None
  then have x: "c_isxdigit (peek_char l 2)" "m = eat_characters l 2"
    using assms by (auto simp: escape_value_def Let_def hex_escape_eq split: if_splits)
  show ?thesis
    using x peek_char_not_NUL(2) [OF c_isxdigit_not_NUL [OF x(1)], of 2] by (simp add: peek_0)
qed

lemma lex_quoted_spec:
  assumes q: "lex_quoted l = (v, m)" and ok: "\<not> had_errors m"
  shows "quoted_spelling (segment (file_text l) (char_idx l) (char_idx m)) v \<and> char_idx l < char_idx m"
proof -
  let ?c = "peek_next_char l"
  have reported: False if "m = eat_while P (report_error_here l e)" for P e
    using ok wentD(5) [OF went_eat_while, of "report_error_here l e" P] that by simp
  show ?thesis
  proof (cases "?c = CHR 0x5C")
    case True
    have l: "char_idx l < length (file_text l)" using True peek_next_not_NUL [of l] by simp
    obtain r k where e: "escape_value (eat_character l) = (r, k)" by fastforce
    have "lex_quoted l = lex_escape (eat_character l)" using True by (simp add: lex_quoted_def)
    then have esc: "lex_escape (eat_character l) = (v, m)" using q by simp
    have wk: "went (eat_character l) k" using went_escape_value [of "eat_character l"] e by simp
    show ?thesis
    proof (cases r)
      case None
      then have "had_errors m"
        using esc e by (auto simp: lex_escape_def split: if_splits)
      then show ?thesis using ok by simp
    next
      case (Some u)
      have ending: "peek_next_char k \<noteq> NUL" using escape_value_not_end e Some by simp
      then have m: "m = eat_character k" "v = u" using esc e Some by (auto simp: lex_escape_def)
      have sp: "quoted_spelling (CHR 0x5C # segment (file_text l) (Suc (char_idx l)) (Suc (char_idx k))) u"
        using escape_value_spec [of "eat_character l" u k] e Some ending by simp
      have lk: "char_idx l < Suc (char_idx k)" using wentD(3) [OF wk] by simp
      show ?thesis using sp m lk l True segment_Cons [OF lk l] by (simp add: peek_0)
    qed
  next
    case False
    then have "\<not> (?c = CHR 0x27 \<or> ?c = newline \<or> ?c = NUL)" "\<not> 128 \<le> char_code ?c"
      using q ok reported by (auto simp: lex_quoted_def Let_def split: if_splits)
    moreover from this have "m = eat_character l" "v = char_code ?c"
      using q False by (auto simp: lex_quoted_def Let_def split: if_splits)
    moreover have "segment (file_text l) (char_idx l) (Suc (char_idx l)) = [?c]"
      using calculation(1) peek_next_not_NUL [of l] by (simp add: segment_one peek_0)
    ultimately show ?thesis using False by (simp add: quoted_spelling_def)
  qed
qed

lemma lexes_character:
  assumes c: "peek_next_char l = CHR 0x27"
  shows "lexes_token l (lex_character l)"
proof -
  obtain v m where q: "lex_quoted (eat_character l) = (v, m)" by fastforce
  let ?n = "lex_closing_quote m"
  have w1: "went l (eat_character l)" using c by (intro went_eat) simp
  have wm: "went (eat_character l) m" using went_lex_quoted [of "eat_character l"] q by simp
  have wn: "went m ?n" by (rule went_lex_closing_quote)
  have idx: "char_idx l < char_idx m" using wentD(3) [OF wm] by simp
  have l: "char_idx l < length (file_text l)" using c peek_next_not_NUL [of l] by simp
  have spelled: "character_spelling (segment (file_text l) (char_idx l) (char_idx ?n))
      \<lparr>bigger_than_signed = False, is_character = True, v_value = Integer (of_nat v)\<rparr>" if ok: "\<not> had_errors ?n"
  proof -
    have "\<not> had_errors m" using ok wentD(5) [OF wn] by blast
    then have inner: "quoted_spelling (segment (file_text l) (Suc (char_idx l)) (char_idx m)) v"
      using lex_quoted_spec [OF q] by simp
    have quote: "peek_next_char m = CHR 0x27" "?n = eat_character m"
      using ok by (auto simp: lex_closing_quote_def Let_def split: if_splits)
    have m: "char_idx m < length (file_text l)"
      using quote(1) peek_next_not_NUL [of m] wentD(1) [OF went_trans [OF w1 wm]] by simp
    have "segment (file_text l) (char_idx l) (char_idx ?n) =
        CHR 0x27 # segment (file_text l) (Suc (char_idx l)) (char_idx m) @ [CHR 0x27]"
      using segment_append [of "char_idx l" "char_idx m" "Suc (char_idx m)" "file_text l"]
        segment_Cons [OF idx l] segment_one [OF m] idx c quote wentD(1) [OF went_trans [OF w1 wm]]
      by (simp add: peek_0)
    then show ?thesis using inner unfolding character_spelling_def by blast
  qed
  have "lexes_token l (push_token ?n
      \<lparr>k_type = Literal TOKEN_LITERAL_INTEGER,
       k_value = \<lparr>bigger_than_signed = False, is_character = True, v_value = Integer (of_nat v)\<rparr>,
       k_start = get_current_position l, k_end = get_current_position ?n\<rparr>)"
    using went_trans [OF went_trans [OF w1 wm] wn] idx wentD(3) [OF wn] spelled
    by (intro lexes_tokenI) (simp_all add: spells_def)
  then show ?thesis by (simp add: lex_character_def Let_def q)
qed

text \<open>Strings.\<close>

lemma string_body_spec:
  "went l (string_body l) \<and>
   (peek_next_char (string_body l) = NUL \<or>
    (peek_next_char (string_body l) = CHR 0x22 \<and>
     escaped (segment (file_text l) (char_idx l) (char_idx (string_body l)))))"
proof (induction l rule: string_body.induct)
  case (1 l)
  let ?c = "peek_next_char l" and ?m = "string_body l"
  show ?case
  proof (cases "?c \<noteq> CHR 0x22 \<and> ?c \<noteq> NUL")
    case False
    then have "?m = l" by (subst string_body.simps) auto
    then show ?thesis using False by (auto simp: went_refl)
  next
    case True
    have l: "char_idx l < length (file_text l)" using True peek_next_not_NUL by blast
    show ?thesis
    proof (cases "?c = CHR 0x5C \<and> peek_char l 1 \<noteq> NUL")
      case esc: True
      let ?two = "eat_character (eat_character l)"
      have e: "?m = string_body ?two" using True esc by (subst string_body.simps) simp
      have l2: "Suc (char_idx l) < length (file_text l)"
        using esc peek_char_not_NUL [of l 1] char_at_not_NUL [of "file_text l" "Suc (char_idx l)"] by simp
      have IH: "went ?two (string_body ?two) \<and>
         (peek_next_char (string_body ?two) = NUL \<or>
          (peek_next_char (string_body ?two) = CHR 0x22 \<and>
           escaped (segment (file_text l) (Suc (Suc (char_idx l))) (char_idx (string_body ?two)))))"
        using 1 [OF refl True] esc by simp
      have "char_idx ?two \<le> char_idx ?m" using IH wentD(3) unfolding e by blast
      then have "segment (file_text l) (char_idx l) (char_idx ?m) =
          CHR 0x5C # char_at (file_text l) (Suc (char_idx l)) # segment (file_text l) (Suc (Suc (char_idx l))) (char_idx ?m)"
        using esc l l2 by (simp add: segment_Cons peek_0)
      then show ?thesis using IH went_string_body [of l] unfolding e by simp
    next
      case no: False
      let ?one = "eat_character l"
      have e: "?m = string_body ?one" using True no by (subst string_body.simps) auto
      have IH: "went ?one (string_body ?one) \<and>
         (peek_next_char (string_body ?one) = NUL \<or>
          (peek_next_char (string_body ?one) = CHR 0x22 \<and>
           escaped (segment (file_text l) (Suc (char_idx l)) (char_idx (string_body ?one)))))"
      proof -
        have "(if ?c = CHR 0x5C \<and> peek_char l 1 \<noteq> NUL then eat_character l else l) = l" using no by auto
        then show ?thesis using 1 [OF refl True] by simp
      qed
      have idx: "char_idx l < char_idx ?m" using IH wentD(3) unfolding e by fastforce
      have "peek_next_char ?m = NUL" if "?c = CHR 0x5C"
      proof -
        have "peek_next_char ?one = NUL"
          using no that l True by (auto simp: peek_0 peek_char_eq split: if_splits)
        then have "string_body ?one = ?one" by (subst string_body.simps) simp
        then show ?thesis using \<open>peek_next_char ?one = NUL\<close> unfolding e by simp
      qed
      then show ?thesis
        using IH went_string_body [of l] True segment_Cons [OF idx l] unfolding e by (auto simp: peek_0)
    qed
  qed
qed

lemma lexes_string:
  assumes c: "peek_next_char l = CHR 0x22"
  shows "lexes_token l (lex_string l)"
proof -
  let ?m = "string_body (eat_character l)"
  let ?n = "if peek_next_char ?m = NUL then report_error_here ?m No_closing_quote else eat_character ?m"
  have w1: "went l (eat_character l)" using c by (intro went_eat) simp
  have wm: "went (eat_character l) ?m" by (rule went_string_body)
  have wn: "went ?m ?n" by (auto intro: went_intros)
  have idx: "char_idx l < char_idx ?m" using wentD(3) [OF wm] by simp
  have l: "char_idx l < length (file_text l)" using c peek_next_not_NUL [of l] by simp
  have same: "file_text ?m = file_text l" using wentD(1) [OF went_trans [OF w1 wm]] .
  have n: "file_text ?n = file_text l" "char_idx ?m \<le> char_idx ?n" using same by simp_all
  have spelled: "string_spelling (segment (file_text l) (char_idx l) (char_idx ?n))
      (make_string ?n (get_current_position l) (get_current_position ?n))" if ok: "\<not> had_errors ?n"
  proof -
    have quote: "peek_next_char ?m = CHR 0x22" "?n = eat_character ?m"
        "escaped (segment (file_text l) (Suc (char_idx l)) (char_idx ?m))"
      using ok string_body_spec [of "eat_character l"] by (auto split: if_splits)
    have m: "char_idx ?m < length (file_text l)"
      using quote(1) peek_next_not_NUL [of ?m] same by simp
    have "segment (file_text l) (char_idx l) (char_idx ?n) =
        CHR 0x22 # segment (file_text l) (Suc (char_idx l)) (char_idx ?m) @ [CHR 0x22]"
      using segment_append [of "char_idx l" "char_idx ?m" "Suc (char_idx ?m)" "file_text l"]
        segment_Cons [OF idx l] segment_one [OF m] idx c quote(1,2) same
      by (simp add: peek_0)
    moreover have "make_string ?n (get_current_position l) (get_current_position ?n) =
        value_of (String (segment (file_text l) (Suc (char_idx l)) (char_idx ?m)))"
    proof -
      have "file_text l ! char_idx ?m = CHR 0x22" using quote(1) m same by (simp add: peek_0 char_at_def)
      moreover have "2 \<le> Suc (char_idx ?m) - char_idx l" "Suc (char_idx l) + (Suc (char_idx ?m) - char_idx l - 2) = char_idx ?m"
        using idx by simp_all
      ultimately show ?thesis using quote(2) same by (simp add: make_string_def Let_def)
    qed
    ultimately show ?thesis using quote(3) unfolding string_spelling_def by metis
  qed
  have "lexes_token l (make_literal_here ?n TOKEN_LITERAL_STRING (get_current_position l))"
    unfolding make_literal_here_def make_literal_def Let_def literal_token.case
    using went_trans [OF went_trans [OF w1 wm] wn] idx n(2) spelled
    by (intro lexes_tokenI) (simp_all add: spells_def)
  then show ?thesis by (simp add: lex_string_def Let_def)
qed

text \<open>Keywords and identifiers.\<close>

fun keyword_ok :: "string \<times> token_type \<Rightarrow> bool" where
  "keyword_ok (s, t) \<longleftrightarrow> s \<noteq> [] \<and>
     (case t of
        Literal TOKEN_LITERAL_TRUE \<Rightarrow> s = ''true''
      | Literal TOKEN_LITERAL_FALSE \<Rightarrow> s = ''false''
      | Literal TOKEN_LITERAL_NULL \<Rightarrow> s = ''null''
      | Keyword _ \<Rightarrow> True
      | Type _ \<Rightarrow> True
      | _ \<Rightarrow> False)"

lemma keyword_table_ok: "list_all keyword_ok keyword_table"
  by code_simp

lemma keyword_table_spells:
  assumes "(s, t) \<in> set keyword_table"
  shows "s \<noteq> [] \<and>
     (t = Literal TOKEN_LITERAL_TRUE \<and> s = ''true'' \<or> t = Literal TOKEN_LITERAL_FALSE \<and> s = ''false'' \<or>
      t \<noteq> Literal TOKEN_LITERAL_TRUE \<and> t \<noteq> Literal TOKEN_LITERAL_FALSE \<and>
      spells s \<lparr>k_type = t, k_value = no_value, k_start = i, k_end = j\<rparr>)"
proof -
  have "keyword_ok (s, t)" using keyword_table_ok assms unfolding list_all_iff by blast
  then show ?thesis
    using assms by (cases t) (auto simp: spells_def split: literal_token.splits)
qed

lemma match_keyword_spec:
  assumes "match_keyword l = Some (n, t)"
  shows "(segment (file_text l) (char_idx l) (char_idx l + n), t) \<in> set keyword_table \<and> 0 < n \<and>
    (\<forall>j < n. char_at (file_text l) (char_idx l + j) \<noteq> NUL)"
proof -
  let ?n = "look_ahead (\<lambda>c. starts_identifier c \<or> is_digit c) l 0"
  have m: "map_of keyword_table (segment (file_text l) (char_idx l) (char_idx l + ?n)) = Some t" "n = ?n"
    using assms by (auto simp: match_keyword_def Let_def)
  have "(segment (file_text l) (char_idx l) (char_idx l + ?n), t) \<in> set keyword_table"
    using map_of_SomeD [OF m(1)] .
  moreover from this have "0 < ?n"
    using keyword_table_spells [of "segment (file_text l) (char_idx l) (char_idx l + ?n)" t] by (cases "?n = 0") auto
  moreover have "\<forall>j < ?n. char_at (file_text l) (char_idx l + j) \<noteq> NUL"
    using look_ahead_spec [of 0 l] by simp
  ultimately show ?thesis using m(2) by simp
qed

lemma lexes_keyword:
  assumes "match_keyword l = Some (n, t)"
  shows "lexes_token l (lex_keyword l n t)"
proof -
  let ?m = "eat_characters l n"
  note k = match_keyword_spec [OF assms]
  have w: "went l ?m" using k by (intro went_eat_characters) simp
  show ?thesis
    unfolding lex_keyword_def Let_def make_literal_here_def make_literal_def make_keyword_def literal_token.case
    using k w keyword_table_spells [OF conjunct1 [OF k], of "get_current_position l" "get_current_position ?m"]
    by (auto intro!: lexes_tokenI simp: spells_def)
qed

lemma starts_identifier_not_NUL: "starts_identifier c \<Longrightarrow> c \<noteq> NUL"
  by (auto simp: starts_identifier_def is_letter_def char_code_def)

lemma lexes_identifier:
  assumes c: "starts_identifier (peek_next_char l)"
  shows "lexes_token l (lex_identifier l)"
proof -
  let ?m = "eat_while (\<lambda>l. proceeds_identifier (peek_next_char l)) (eat_character l)"
  have w: "went l ?m" using c starts_identifier_not_NUL went_trans [OF went_eat went_eat_while] by blast
  have idx: "char_idx l < char_idx ?m"
    using wentD(3) [OF went_eat_while, of "eat_character l" "\<lambda>l. proceeds_identifier (peek_next_char l)"] by simp
  have l: "char_idx l < length (file_text l)" using c starts_identifier_not_NUL peek_next_not_NUL by blast
  have run: "\<forall>c \<in> set (segment (file_text l) (Suc (char_idx l)) (char_idx ?m)). proceeds_identifier c"
    using eat_while_text [of "\<lambda>l. proceeds_identifier (peek_next_char l)" "\<lambda>s i. proceeds_identifier (char_at s i)" "eat_character l"]
      set_segment by (fastforce simp: peek_0)
  have "proceeds_identifier (peek_next_char l)" using c by (auto simp: proceeds_identifier_def starts_identifier_def)
  then have "identifier_spelling (segment (file_text l) (char_idx l) (char_idx ?m))
      (value_of (Identifier (segment (file_text l) (char_idx l) (char_idx ?m))))"
    using run c unfolding identifier_spelling_def segment_Cons [OF idx l] by (simp add: peek_0)
  then show ?thesis
    unfolding lex_identifier_def Let_def make_identifier_def
    using w idx wentD(1) [OF w] by (intro lexes_tokenI) (simp_all add: spells_def)
qed

text \<open>Operators and single characters.\<close>

lemma double_characters_spell:
  "((a, b), t) \<in> set double_characters \<Longrightarrow> \<exists>op. t = Operator op \<and> operator_str op = [a, b] \<and> a \<noteq> NUL \<and> b \<noteq> NUL"
  unfolding double_characters_def by auto

lemma triple_characters_spell:
  "((a, b, c), t) \<in> set triple_characters \<Longrightarrow>
    \<exists>op. t = Operator op \<and> operator_str op = [a, b, c] \<and> a \<noteq> NUL \<and> b \<noteq> NUL \<and> c \<noteq> NUL"
  unfolding triple_characters_def by auto

lemma lexes_operator:
  assumes op: "t = Operator op" "operator_str op = s" and s: "s = map (peek_char l) [0..<n]" "NUL \<notin> set s" "0 < n"
  shows "lexes_token l (lex_operator l n t)"
proof -
  have nn: "peek_char l j \<noteq> NUL" if "j < n" for j
  proof -
    have "peek_char l j \<in> set s" using that s(1) by simp
    then show ?thesis using s(2) by metis
  qed
  have "char_at (file_text l) (char_idx l + j) \<noteq> NUL" if "j < n" for j
    using peek_char_not_NUL(2) [OF nn [OF that], of j] by simp
  then have w: "went l (eat_characters l n)" by (intro went_eat_characters)
  have bound: "char_idx l + n \<le> length (file_text l)" using went_bound [OF w] s(3) by simp
  have "segment (file_text l) (char_idx l) (char_idx l + n) = s"
  proof (rule nth_equalityI)
    show "length (segment (file_text l) (char_idx l) (char_idx l + n)) = length s"
      using bound s(1) by (simp add: segment_def)
    fix j assume "j < length (segment (file_text l) (char_idx l) (char_idx l + n))"
    then have j: "j < n" by (simp add: segment_def)
    show "segment (file_text l) (char_idx l) (char_idx l + n) ! j = s ! j"
      using j bound s(1) peek_char_not_NUL(1) [OF nn [OF j]] by (simp add: segment_def char_at_def)
  qed
  then show ?thesis
    unfolding lex_operator_def make_token_def
    using w s(3) op by (intro lexes_tokenI) (simp_all add: spells_def)
qed

lemma lexes_single_character:
  assumes c: "is_single_character_token (peek_next_char l)"
  shows "lexes_token l (make_single_character_token (eat_character l) (TOKEN_CHAR (peek_next_char l)))"
proof -
  have nc: "peek_next_char l \<noteq> NUL" "peek_next_char l \<noteq> newline"
    using c by (auto simp: is_single_character_token_def single_characters_def)
  have w: "went l (eat_character l)" using nc(1) by (rule went_eat)
  have l: "char_idx l < length (file_text l)" using nc(1) by (rule peek_next_not_NUL)
  have start: "(get_current_position (eat_character l))\<lparr>p_col := p_col (get_current_position (eat_character l)) - 1,
      input_idx := input_idx (get_current_position (eat_character l)) - 1\<rparr> = get_current_position l"
    using nc(2) by (simp add: get_current_position_def eat_character_def peek_0 Let_def)
  show ?thesis
    unfolding make_single_character_token_def Let_def make_token_def
    using w c start segment_one [OF l] by (intro lexes_tokenI) (simp_all add: spells_def peek_0)
qed

section \<open>The loop\<close>

lemma eat_unless_end_moves:
  "peek_next_char l \<noteq> NUL \<Longrightarrow> 0 < n \<Longrightarrow> char_idx l < char_idx (eat_unless_end l n)"
  using wentD(3) [OF went_eat_unless_end, of "eat_character l" "n - 1"] by (cases n) simp_all

text \<open>The text from \<open>i\<close> to \<open>k\<close> is skipped: a blank, or a comment to the end of its line. After an
  error it can be anything.\<close>

definition skipped :: "bool \<Rightarrow> string \<Rightarrow> nat \<Rightarrow> nat \<Rightarrow> bool" where
  "skipped clean s i k \<longleftrightarrow> i < k \<and> k \<le> length s \<and>
     (clean \<longrightarrow>
        (k = Suc i \<and> (char_at s i = CHR '' '' \<or> char_at s i = CHR 0x09 \<or> char_at s i = newline)) \<or>
        (char_at s i = CHR ''/'' \<and> char_at s (Suc i) = CHR ''/'' \<and> i + 2 \<le> k \<and>
         (\<forall>j. i + 2 \<le> j \<and> j < k \<longrightarrow> char_at s j \<noteq> newline) \<and>
         (char_at s k = newline \<or> char_at s k = NUL)))"

lemma comment_skipped:
  assumes "peek_next_char l = CHR ''/''" and "peek_char l 1 = CHR ''/''"
  shows "went l (lex_comment l) \<and> skipped c (file_text l) (char_idx l) (char_idx (lex_comment l))"
proof -
  let ?two = "eat_character (eat_character l)" and ?P = "\<lambda>l. peek_next_char l \<noteq> newline"
  have one: "char_at (file_text l) (Suc (char_idx l)) = CHR ''/''"
    using assms(2) peek_char_not_NUL(1) [of l 1] by simp
  have w: "went l ?two"
    using assms(1) one by (intro went_trans [OF went_eat went_eat]) (simp_all add: peek_0)
  have wc: "went ?two (lex_comment l)" unfolding lex_comment_def by (rule went_eat_while)
  have idx: "char_idx l + 2 \<le> char_idx (lex_comment l)" using wentD(3) [OF wc] by simp
  have stop: "(\<forall>j. char_idx ?two \<le> j \<and> j < char_idx (lex_comment l) \<longrightarrow> char_at (file_text l) j \<noteq> newline) \<and>
      (char_at (file_text l) (char_idx (lex_comment l)) = NUL \<or> char_at (file_text l) (char_idx (lex_comment l)) = newline)"
    using eat_while_text [of ?P "\<lambda>s i. char_at s i \<noteq> newline" ?two] wentD(1) [OF went_trans [OF w wc]]
    unfolding lex_comment_def by (simp add: peek_0)
  have "char_idx (lex_comment l) \<le> length (file_text l)"
    using went_bound [OF went_trans [OF w wc]] idx by simp
  then show ?thesis
    using went_trans [OF w wc] idx stop assms(1) one by (auto simp: skipped_def peek_0)
qed

definition skips :: "lexer \<Rightarrow> lexer \<Rightarrow> bool" where
  "skips l l' \<longleftrightarrow> went l l' \<and> skipped (\<not> had_errors l') (file_text l) (char_idx l) (char_idx l')"

lemma skips_blank:
  assumes "peek_next_char l = CHR '' '' \<or> peek_next_char l = CHR 0x09 \<or> peek_next_char l = newline"
  shows "skips l (eat_character l)"
  using assms peek_next_not_NUL [of l] by (auto simp: skips_def skipped_def peek_0 intro!: went_eat)

lemma skips_unknown:
  assumes "peek_next_char l \<noteq> NUL"
  shows "skips l (lex_unknown l)"
proof -
  let ?len = "utf8_length (peek_next_char l)"
  have w: "went (report_error_here l e) (eat_unless_end (report_error_here l e) n)" for e n
    by (rule went_eat_unless_end)
  have "0 < ?len" by (simp add: utf8_length_def)
  then have "char_idx l < char_idx (eat_unless_end (report_error_here l e) ?len)" for e
    using eat_unless_end_moves [of "report_error_here l e" ?len] assms by simp
  then show ?thesis
    using went_trans [OF went_report w] wentD(5) [OF w] went_bound [OF went_trans [OF went_report w]]
    by (simp add: skips_def skipped_def lex_unknown_def Let_def)
qed

lemma lex_word_spec:
  assumes "peek_next_char l \<noteq> NUL"
  shows "lexes_token l (lex_word l) \<or> skips l (lex_word l)"
proof -
  let ?c = "peek_next_char l"
  have three: "lexes_token l (lex_operator l 3 t)" if found: "is_triple_character_token l = Some t" for t
  proof -
    obtain op where "t = Operator op" "operator_str op = [peek_next_char l, peek_char l 1, peek_char l 2]"
        "NUL \<notin> set [peek_next_char l, peek_char l 1, peek_char l 2]"
      using triple_characters_spell [OF map_of_SomeD [OF found [unfolded is_triple_character_token_def]]] by auto
    then show ?thesis
      by (intro lexes_operator [OF _ _ _ _ ]) (auto simp: peek_next_char_def upt_rec numeral_2_eq_2)
  qed
  have two: "lexes_token l (lex_operator l 2 t)" if found: "is_double_character_token l = Some t" for t
  proof -
    obtain op where "t = Operator op" "operator_str op = [peek_next_char l, peek_char l 1]"
        "NUL \<notin> set [peek_next_char l, peek_char l 1]"
      using double_characters_spell [OF map_of_SomeD [OF found [unfolded is_double_character_token_def]]] by auto
    then show ?thesis
      by (intro lexes_operator [OF _ _ _ _ ]) (auto simp: peek_next_char_def upt_rec numeral_2_eq_2)
  qed
  show ?thesis
    using lexes_identifier [of l] lexes_single_character [of l] skips_unknown [OF assms] three two
    unfolding lex_word_def Let_def by (auto split: option.splits)
qed

lemma lex_step_spec:
  assumes "peek_next_char l \<noteq> NUL"
  shows "lexes_token l (lex_step l) \<or> skips l (lex_step l)"
proof -
  have comment: "skips l (lex_comment l)" if "peek_next_char l = CHR ''/''" "peek_char l 1 = CHR ''/''"
    using comment_skipped [OF that] by (simp add: skips_def)
  have word: "lexes_token l (case match_keyword l of
           Some (len, token) \<Rightarrow>
             if \<not> after_dot l \<and> \<not> declared l len token then lex_keyword l len token
             else lex_word l
         | None \<Rightarrow> lex_word l) \<or> skips l (case match_keyword l of
           Some (len, token) \<Rightarrow>
             if \<not> after_dot l \<and> \<not> declared l len token then lex_keyword l len token
             else lex_word l
         | None \<Rightarrow> lex_word l)"
    using lex_word_spec [OF assms] lexes_keyword [of l] by (auto split: option.splits)
  define good where "good l' \<longleftrightarrow> lexes_token l l' \<or> skips l l'" for l'
  have choice: "(c \<Longrightarrow> good x) \<Longrightarrow> (\<not> c \<Longrightarrow> good y) \<Longrightarrow> good (if c then x else y)" for c x y by simp
  have "good (lex_step l)"
    unfolding lex_step_def Let_def
    by (intro choice)
      (auto simp: good_def comment word lexes_based_number lexes_number lexes_character lexes_string
        intro: skips_blank)
  then show ?thesis by (simp add: good_def)
qed

section \<open>The tokens of a text\<close>

text \<open>\<open>lexes clean s ts k\<close>: the text before \<open>k\<close> is skipped parts and the tokens \<open>ts\<close>, each with its
  true positions; in a clean run each spells its text.\<close>

inductive lexes :: "bool \<Rightarrow> string \<Rightarrow> token list \<Rightarrow> nat \<Rightarrow> bool" for clean s where
  start: "lexes clean s [] 0"
| skip: "lexes clean s ts i \<Longrightarrow> skipped clean s i k \<Longrightarrow> lexes clean s ts k"
| token: "lexes clean s ts i \<Longrightarrow> i < k \<Longrightarrow> k \<le> length s \<Longrightarrow> k_start t = pos_at s i \<Longrightarrow> k_end t = pos_at s k \<Longrightarrow>
    (clean \<longrightarrow> spells (segment s i k) t) \<Longrightarrow> lexes clean s (ts @ [t]) k"

lemma lexes_weaken: "lexes c s ts k \<Longrightarrow> (d \<longrightarrow> c) \<Longrightarrow> lexes d s ts k"
proof (induction rule: lexes.induct)
  case (skip ts i k)
  then show ?case by (auto intro!: lexes.skip [of d s ts i k] simp: skipped_def)
qed (auto intro: lexes.intros)

definition lex_inv :: "lexer \<Rightarrow> lexer \<Rightarrow> bool" where
  "lex_inv l0 l \<longleftrightarrow>
     file_text l = file_text l0 \<and> at_pos l \<and> (\<forall>j < char_idx l. char_at (file_text l0) j \<noteq> NUL) \<and>
     (\<exists>ts. l_tokens l = l_tokens l0 @ ts \<and> lexes (\<not> had_errors l) (file_text l0) ts (char_idx l))"

lemma went_no_NUL:
  assumes "went l l'" and "\<forall>j < char_idx l. char_at (file_text l) j \<noteq> NUL"
  shows "\<forall>j < char_idx l'. char_at (file_text l) j \<noteq> NUL"
  using assms unfolding went_def by (meson not_le)

lemma lex_inv_step:
  assumes inv: "lex_inv l0 l" and more: "peek_next_char l \<noteq> NUL"
  shows "lex_inv l0 (lex_step l) \<and> char_idx l < char_idx (lex_step l) \<and> char_idx (lex_step l) \<le> length (file_text l0)"
proof -
  let ?l = "lex_step l" and ?s = "file_text l0"
  obtain ts where ts: "l_tokens l = l_tokens l0 @ ts" "lexes (\<not> had_errors l) ?s ts (char_idx l)"
    and l: "file_text l = ?s" "at_pos l" "\<forall>j < char_idx l. char_at ?s j \<noteq> NUL"
    using inv unfolding lex_inv_def by blast
  from lex_step_spec [OF more] show ?thesis
  proof
    assume "skips l ?l"
    then have w: "went l ?l" and sk: "skipped (\<not> had_errors ?l) ?s (char_idx l) (char_idx ?l)"
      using l(1) by (simp_all add: skips_def)
    have weak: "lexes (\<not> had_errors ?l) ?s ts (char_idx l)"
      using lexes_weaken [OF ts(2), of "\<not> had_errors ?l"] wentD(5) [OF w] by auto
    have "lexes (\<not> had_errors ?l) ?s ts (char_idx ?l)" by (rule lexes.skip [OF weak sk])
    then show ?thesis
      using w sk l ts(1) went_no_NUL [OF w] wentD [OF w] unfolding lex_inv_def by (auto simp: skipped_def)
  next
    assume "lexes_token l ?l"
    then obtain t m where m: "went l m" "char_idx l < char_idx m" "?l = push_token m t"
        "k_start t = get_current_position l" "k_end t = get_current_position m"
        "\<not> had_errors ?l \<longrightarrow> spells (segment ?s (char_idx l) (char_idx ?l)) t"
      using l(1) unfolding lexes_token_def makes_def by metis
    note w = wentD [OF m(1)]
    have ends: "k_start t = pos_at ?s (char_idx l)" "k_end t = pos_at ?s (char_idx ?l)"
      using m l w(1,4) by (simp_all add: at_pos_def)
    have le: "char_idx ?l \<le> length ?s" using went_bound [OF m(1,2)] m(3) l(1) by simp
    have "lexes (\<not> had_errors ?l) ?s ts (char_idx l)"
      using lexes_weaken [OF ts(2), of "\<not> had_errors ?l"] w(5) m(3) by auto
    then have "lexes (\<not> had_errors ?l) ?s (ts @ [t]) (char_idx ?l)"
      using m(2,3,6) le ends by (intro lexes.token) simp_all
    then show ?thesis
      using m(2,3) l ts(1) le went_no_NUL [OF m(1)] w unfolding lex_inv_def by auto
  qed
qed

definition text_size :: "string \<Rightarrow> nat" where
  "text_size s = length (takeWhile (\<lambda>c. c \<noteq> NUL) s)"

lemma text_sizeI:
  assumes "\<forall>j < k. char_at s j \<noteq> NUL" and "char_at s k = NUL" and "k \<le> length s"
  shows "k = text_size s"
proof -
  have "takeWhile (\<lambda>c. c \<noteq> NUL) s = take k s"
    using assms by (intro takeWhile_eq_take_P_nth) (auto simp: char_at_def split: if_splits)
  then show ?thesis using assms(3) by (simp add: text_size_def)
qed

lemma lex_file_result:
  "\<exists>l' ts e. lex_file l = Some l' \<and> l_tokens l' = l_tokens l @ ts @ [e] \<and> k_type e = TOKEN_END \<and>
     k_start e = pos_at (file_text l) (text_size (file_text l)) \<and>
     lexes (\<not> had_errors l') (file_text l) ts (text_size (file_text l))"
proof -
  let ?s = "file_text l" and ?more = "\<lambda>l. peek_next_char l \<noteq> NUL"
  let ?P = "lex_inv (lex_start l)" and ?f = "\<lambda>l'. length ?s - char_idx l'"
  have s: "file_text (lex_start l) = ?s" "l_tokens (lex_start l) = l_tokens l" by (simp_all add: lex_start_def)
  have start: "?P (lex_start l)"
    by (auto simp: lex_inv_def lex_start_def at_pos_def get_current_position_def pos_at_def line_at_def col_at_def
        intro: lexes.start)
  have step: "?P (lex_step k) \<and> ?f (lex_step k) < ?f k" if "?P k" "?more k" for k
    using lex_inv_step [OF that] s(1) by auto
  obtain m where m: "while_option ?more lex_step (lex_start l) = Some m"
    using measure_while_option_Some [where P = ?P and f = ?f and b = ?more, OF step start] by blast
  have inv: "?P m" by (rule while_option_rule [where P = ?P, OF conjunct1 [OF step] m start])
  have stop: "peek_next_char m = NUL" using while_option_stop [OF m] by simp
  obtain ts where ts: "l_tokens m = l_tokens l @ ts" "lexes (\<not> had_errors m) ?s ts (char_idx m)"
    and k: "file_text m = ?s" "at_pos m" "\<forall>j < char_idx m. char_at ?s j \<noteq> NUL"
    using inv s unfolding lex_inv_def by auto
  have ends: "char_idx m = text_size ?s"
    using k stop by (intro text_sizeI) (auto simp: at_pos_def peek_0)
  show ?thesis
    using m ts k(1,2) ends
    by (intro exI [of _ "lex_end m"] exI [of _ ts] exI [of _ "last (l_tokens (lex_end m))"])
      (simp add: lex_file_def lex_end_def make_token_def at_pos_def)
qed

lemma lexes_shape:
  "lexes c s ts k \<Longrightarrow>
     list_all (\<lambda>t. input_idx (k_start t) < input_idx (k_end t) \<and> input_idx (k_end t) \<le> k \<and>
        k_start t = pos_at s (input_idx (k_start t)) \<and> k_end t = pos_at s (input_idx (k_end t)) \<and>
        (c \<longrightarrow> spells (segment s (input_idx (k_start t)) (input_idx (k_end t))) t)) ts \<and>
     sorted_wrt (\<lambda>t u. input_idx (k_end t) \<le> input_idx (k_start u)) ts"
proof (induction rule: lexes.induct)
  case (skip ts i k)
  then show ?case by (fastforce simp: list_all_iff skipped_def)
next
  case (token ts i k t)
  have idx: "input_idx (k_start t) = i" "input_idx (k_end t) = k" using token.hyps(4,5) by (simp_all add: pos_at_def)
  show ?case
    using token.IH token.hyps idx by (fastforce simp: list_all_iff sorted_wrt_append)
qed simp

text \<open>C25: the lexer ends on every text. It skips blanks and comments, and after an error perhaps other
  text, and everything else up to the NUL is in the tokens, with a last token for the end.\<close>

theorem lex_file_ends:
  "\<exists>l ts e. lex_file (lexer_init s) = Some l \<and> l_tokens l = ts @ [e] \<and> k_type e = TOKEN_END \<and>
     k_start e = pos_at s (text_size s) \<and> lexes (\<not> had_errors l) s ts (text_size s)"
  using lex_file_result [of "lexer_init s"] by (auto simp: lexer_init_def)

text \<open>C26: the tokens are in the order of the text and do not overlap, and the line and column of their
  starts and ends are the true ones.\<close>

theorem token_positions_are_true:
  "\<exists>l ts e. lex_file (lexer_init s) = Some l \<and> l_tokens l = ts @ [e] \<and>
     sorted_wrt (\<lambda>t u. input_idx (k_end t) \<le> input_idx (k_start u)) ts \<and>
     list_all (\<lambda>t. input_idx (k_start t) < input_idx (k_end t) \<and> input_idx (k_end t) \<le> length s \<and>
        k_start t = pos_at s (input_idx (k_start t)) \<and> k_end t = pos_at s (input_idx (k_end t))) ts"
proof -
  obtain l ts e where l: "lex_file (lexer_init s) = Some l" "l_tokens l = ts @ [e]"
      "lexes (\<not> had_errors l) s ts (text_size s)"
    using lex_file_result [of "lexer_init s"] by (auto simp: lexer_init_def)
  have "text_size s \<le> length s" by (simp add: text_size_def length_takeWhile_le)
  then show ?thesis
    using l lexes_shape [OF l(3)] by (intro exI [of _ l] exI [of _ ts] exI [of _ e]) (auto simp: list_all_iff)
qed


section \<open>Concrete texts\<close>

definition lexed :: "string \<Rightarrow> (bool \<times> (token_type \<times> literal_value) list) option" where
  "lexed s = map_option (\<lambda>l. (had_errors l, map (\<lambda>t. (k_type t, v_value (k_value t))) (l_tokens l))) (lex_file (lexer_init s))"

lemma lexed_example:
  "lexed ''x := 0xff_10;'' =
     Some (False, [(Literal TOKEN_LITERAL_IDENTIFIER, Identifier ''x''), (Operator TOKEN_COLON_EQUAL, No_value),
                   (Literal TOKEN_LITERAL_INTEGER, Integer 0xff10), (TOKEN_CHAR CHR '';'', No_value),
                   (TOKEN_END, No_value)])"
  by code_simp



end
