(* ===== verification/Diagnostics.thy ===== *)
theory Diagnostics
  imports LexerCorrect
begin

text \<open>
  How an error is kept and shown (\<^verbatim>\<open>report_error_helper\<close> and \<^verbatim>\<open>get_line\<close> of
  \<^verbatim>\<open>src/src/lexer.c\<close>): the list of the diagnostics, the line of the text that a position is on,
  and the parts of that line before, in and after the marked range. The colours and the wording are not
  modelled. It is shown that the line found for a position of a token is the one that the position
  is on, that the parts of a line are the line, and that the marked part is the text between the two
  positions.
\<close>

section \<open>The list of diagnostics\<close>

datatype label = LABEL_ERROR | LABEL_WARNING | LABEL_NOTE | LABEL_HINT

record diagnostic =
  d_label :: label
  d_file_path :: "string option"
  d_start :: pos
  d_end :: pos
  d_message :: string

record diagnostics =
  muted :: nat
  d_print :: bool
  d_items :: "diagnostic list"
  d_capacity :: nat

definition add_diagnostic :: "diagnostics \<Rightarrow> string option \<Rightarrow> label \<Rightarrow> pos \<Rightarrow> pos \<Rightarrow> string \<Rightarrow> diagnostics" where
  "add_diagnostic ds file_path label start end_pos message =
     (let ds = (if length (d_items ds) = d_capacity ds
                then ds\<lparr>d_capacity := (if d_capacity ds = 0 then 16 else d_capacity ds * 2)\<rparr> else ds);
          d = \<lparr>d_label = label, d_file_path = file_path, d_start = start, d_end = end_pos, d_message = message\<rparr>
      in ds\<lparr>d_items := d_items ds @ [d]\<rparr>)"

text \<open>\<^verbatim>\<open>vsnprintf\<close> into 512 bytes keeps at most 511 characters of the message.\<close>

definition MAX_ERROR_LEN :: nat where
  "MAX_ERROR_LEN = 512"

definition report_error_helper ::
    "diagnostics \<Rightarrow> string option \<Rightarrow> label \<Rightarrow> pos \<Rightarrow> pos \<Rightarrow> string \<Rightarrow> diagnostics" where
  "report_error_helper ds file_path label start end_pos formatted =
     (if 0 < muted ds then ds
      else add_diagnostic ds file_path label start end_pos (take (MAX_ERROR_LEN - 1) formatted))"

text \<open>The items always fit into the capacity of their array.\<close>

lemma add_diagnostic_fits:
  "length (d_items ds) \<le> d_capacity ds \<Longrightarrow>
    length (d_items (add_diagnostic ds p l s e m)) \<le> d_capacity (add_diagnostic ds p l s e m)"
  by (auto simp: add_diagnostic_def Let_def)

section \<open>The line of a position\<close>

record line =
  ln_str :: string
  start_idx :: nat
  end_idx :: nat

function seek_line :: "string \<Rightarrow> nat \<Rightarrow> nat \<Rightarrow> nat \<Rightarrow> nat" where
  "seek_line s line_num current i =
     (if current = line_num then i
      else if char_at s i = NUL then i
      else seek_line s line_num (if char_at s i = newline then current + 1 else current) (i + 1))"
  by pat_completeness auto
termination
  by (relation "measure (\<lambda>(s, n, c, i). length s - i)") (auto dest: char_at_not_NUL)

function seek_end :: "string \<Rightarrow> nat \<Rightarrow> nat" where
  "seek_end s i = (if char_at s i \<noteq> newline \<and> char_at s i \<noteq> NUL then seek_end s (i + 1) else i)"
  by pat_completeness auto
termination
  by (relation "measure (\<lambda>(s, i). length s - i)") (auto dest: char_at_not_NUL)

declare seek_line.simps [simp del] seek_end.simps [simp del]

definition get_line :: "string \<Rightarrow> nat \<Rightarrow> line" where
  "get_line s line_num =
     (let start = seek_line s line_num 1 0; stop = seek_end s start
      in \<lparr>ln_str = segment s start stop, start_idx = start, end_idx = stop\<rparr>)"

section \<open>The parts of the line\<close>

text \<open>The offsets are clamped to the line, e.g. for a position at the end of the file.\<close>

definition clamp_offsets :: "line \<Rightarrow> pos \<Rightarrow> pos \<Rightarrow> nat \<times> nat" where
  "clamp_offsets line start end_pos =
     (let line_len = int (end_idx line) - int (start_idx line);
          start_off = int (input_idx start) - int (start_idx line);
          start_off = (if start_off < 0 then 0 else start_off);
          start_off = (if line_len < start_off then line_len else start_off);
          end_off = int (input_idx end_pos) - int (start_idx line);
          end_off = (if end_off < start_off then start_off else end_off);
          end_off = (if line_len < end_off then line_len else end_off)
      in (nat start_off, nat end_off))"

definition marked_line :: "line \<Rightarrow> pos \<Rightarrow> pos \<Rightarrow> string \<times> string \<times> string" where
  "marked_line line start end_pos =
     (let (start_off, end_off) = clamp_offsets line start end_pos;
          highlight_len = end_off - start_off;
          end_segment_len = (end_idx line - start_idx line) - end_off
      in (take start_off (ln_str line), take highlight_len (drop start_off (ln_str line)),
          take end_segment_len (drop end_off (ln_str line))))"

text \<open>The first and the last line of a range over several lines, cut at a column.\<close>

definition cut_line :: "line \<Rightarrow> nat \<Rightarrow> string \<times> string" where
  "cut_line line col =
     (let line_len = int (end_idx line) - int (start_idx line);
          off = int col - 1;
          off = (if off < 0 then 0 else off);
          off = (if line_len < off then line_len else off)
      in (take (nat off) (ln_str line), drop (nat off) (ln_str line)))"

section \<open>The right line is found\<close>

lemma line_at_Suc:
  "i < length s \<Longrightarrow> line_at s (Suc i) = (if char_at s i = newline then line_at s i + 1 else line_at s i)"
  by (simp add: line_at_def take_Suc_char_at)

lemma col_at_Suc:
  "i < length s \<Longrightarrow> col_at s (Suc i) = (if char_at s i = newline then 1 else col_at s i + 1)"
  by (simp add: col_at_def take_Suc_char_at)

lemma col_at_bound: "col_at s i \<le> Suc i"
  using length_takeWhile_le [of "\<lambda>c. c \<noteq> newline" "rev (take i s)"] by (simp add: col_at_def)

lemma line_at_mono: "k \<le> i \<Longrightarrow> i \<le> length s \<Longrightarrow> line_at s k \<le> line_at s i"
proof (induction i)
  case (Suc i)
  then show ?case by (cases "k = Suc i") (auto simp: line_at_Suc le_Suc_eq)
qed simp

text \<open>The index of the first character of the line that index \<open>i\<close> is on.\<close>

definition line_start :: "string \<Rightarrow> nat \<Rightarrow> nat" where
  "line_start s i = i - (col_at s i - 1)"

lemma line_start_spec:
  "i \<le> length s \<Longrightarrow> line_start s i \<le> i \<and> line_at s (line_start s i) = line_at s i \<and>
    (\<forall>k < line_start s i. line_at s k < line_at s i) \<and> (\<forall>k. line_start s i \<le> k \<and> k < i \<longrightarrow> char_at s k \<noteq> newline)"
proof (induction i)
  case 0
  then show ?case by (simp add: line_start_def)
next
  case (Suc i)
  show ?case
  proof (cases "char_at s i = newline")
    case True
    then have "line_start s (Suc i) = Suc i" using Suc.prems by (simp add: line_start_def col_at_Suc)
    moreover have "line_at s k < line_at s (Suc i)" if "k < Suc i" for k
      using line_at_mono [of k i s] True Suc.prems that by (simp add: line_at_Suc)
    ultimately show ?thesis by auto
  next
    case False
    have "1 \<le> col_at s i" by (simp add: col_at_def)
    then have "line_start s (Suc i) = line_start s i"
      using False Suc.prems col_at_bound [of s i] by (simp add: line_start_def col_at_Suc)
    then show ?thesis using Suc False by (auto simp: line_at_Suc less_Suc_eq)
  qed
qed

lemma seek_line_to:
  assumes "\<forall>j < st. char_at s j \<noteq> NUL \<and> line_at s j < n" and "line_at s st = n" and "k \<le> st"
  shows "seek_line s n (line_at s k) k = st"
  using assms(3)
proof (induction "st - k" arbitrary: k)
  case 0
  then show ?case using assms(2) by (subst seek_line.simps) simp
next
  case (Suc d)
  then have k: "k < st" by simp
  then have "seek_line s n (line_at s k) k = seek_line s n (line_at s (Suc k)) (Suc k)"
    using assms(1) by (subst seek_line.simps) (auto simp: line_at_Suc char_at_not_NUL)
  then show ?case using Suc k by simp
qed

lemma seek_end_spec:
  "i \<le> length s \<Longrightarrow> i \<le> seek_end s i \<and> seek_end s i \<le> length s \<and> (\<forall>j. i \<le> j \<and> j < seek_end s i \<longrightarrow> char_at s j \<noteq> newline \<and> char_at s j \<noteq> NUL) \<and>
    (char_at s (seek_end s i) = newline \<or> char_at s (seek_end s i) = NUL)"
proof (induction s i rule: seek_end.induct)
  case (1 s i)
  show ?case
  proof (cases "char_at s i \<noteq> newline \<and> char_at s i \<noteq> NUL")
    case True
    then have "Suc i \<le> length s" using char_at_not_NUL by fastforce
    moreover have "seek_end s i = seek_end s (Suc i)" using True by (subst seek_end.simps) simp
    ultimately show ?thesis using 1(1) [OF True] True interval_first [of i] by auto
  next
    case False
    then have "seek_end s i = i" by (subst seek_end.simps) auto
    then show ?thesis using False 1(2) by auto
  qed
qed

lemma get_line_of_position:
  assumes "i \<le> length s" and "\<forall>j < i. char_at s j \<noteq> NUL"
  shows "start_idx (get_line s (line_at s i)) = line_start s i \<and>
    i \<le> end_idx (get_line s (line_at s i)) \<and> end_idx (get_line s (line_at s i)) \<le> length s \<and>
    ln_str (get_line s (line_at s i)) = segment s (line_start s i) (end_idx (get_line s (line_at s i))) \<and>
    newline \<notin> set (ln_str (get_line s (line_at s i)))"
proof -
  note st = line_start_spec [OF assms(1)]
  have start: "seek_line s (line_at s i) 1 0 = line_start s i"
    using seek_line_to [of "line_start s i" s "line_at s i" 0] st assms(2)
    by (simp add: line_at_def)
  have le: "line_start s i \<le> length s" using st assms(1) by simp
  note stop = seek_end_spec [OF le]
  have "\<not> seek_end s (line_start s i) < i"
    using stop st assms(2) by metis
  moreover have "newline \<notin> set (segment s (line_start s i) (seek_end s (line_start s i)))"
    using stop set_segment [of newline s "line_start s i" "seek_end s (line_start s i)"] by metis
  ultimately show ?thesis
    using stop start by (auto simp: get_line_def Let_def)
qed

text \<open>C27: for a position in the text, \<^verbatim>\<open>get_line\<close> finds the line that the position is on, without
  its line break, and the column of the position counts from the start of that line.\<close>

theorem get_line_is_the_line:
  assumes "i \<le> length s" and "NUL \<notin> set s"
  shows "\<exists>before after. ln_str (get_line s (p_line (pos_at s i))) = before @ after \<and>
    newline \<notin> set (before @ after) \<and> length before + 1 = p_col (pos_at s i) \<and>
    start_idx (get_line s (p_line (pos_at s i))) + length before = i \<and> before = segment s (i - length before) i"
proof -
  let ?l = "get_line s (line_at s i)" and ?st = "line_start s i"
  have nn: "\<forall>j < i. char_at s j \<noteq> NUL"
    using assms by (metis char_at_def nth_mem order_less_le_trans)
  note l = get_line_of_position [OF assms(1) nn] and st = line_start_spec [OF assms(1)]
  have "ln_str ?l = segment s ?st i @ segment s i (end_idx ?l)"
    using l st segment_append [of ?st i "end_idx ?l" s] by simp
  moreover have "length (segment s ?st i) = i - ?st" using assms(1) by (simp add: segment_def)
  moreover have "i - ?st + 1 = col_at s i"
    using col_at_bound [of s i] by (simp add: line_start_def col_at_def)
  moreover have "?st \<le> i" using st by simp
  ultimately have "ln_str ?l = segment s ?st i @ segment s i (end_idx ?l) \<and>
      newline \<notin> set (segment s ?st i @ segment s i (end_idx ?l)) \<and> length (segment s ?st i) + 1 = col_at s i \<and>
      start_idx ?l + length (segment s ?st i) = i \<and> segment s ?st i = segment s (i - length (segment s ?st i)) i"
    using l by auto
  then show ?thesis unfolding pos_at_def pos.simps by blast
qed


lemma get_line_is_the_line_witness:
  "ln_str (get_line [CHR ''a'', newline, CHR ''b'', CHR ''c''] 2) = ''bc'' \<and>
   (\<exists>before after. ln_str (get_line [CHR ''a'', newline, CHR ''b'', CHR ''c'']
        (p_line (pos_at [CHR ''a'', newline, CHR ''b'', CHR ''c''] 3))) = before @ after \<and>
      newline \<notin> set (before @ after) \<and> length before + 1 = p_col (pos_at [CHR ''a'', newline, CHR ''b'', CHR ''c''] 3) \<and>
      start_idx (get_line [CHR ''a'', newline, CHR ''b'', CHR ''c'']
        (p_line (pos_at [CHR ''a'', newline, CHR ''b'', CHR ''c''] 3))) + length before = 3 \<and>
      before = segment [CHR ''a'', newline, CHR ''b'', CHR ''c''] (3 - length before) 3)"
proof
  show "ln_str (get_line [CHR ''a'', newline, CHR ''b'', CHR ''c''] 2) = ''bc''" by code_simp
  show "\<exists>before after. ln_str (get_line [CHR ''a'', newline, CHR ''b'', CHR ''c'']
        (p_line (pos_at [CHR ''a'', newline, CHR ''b'', CHR ''c''] 3))) = before @ after \<and>
      newline \<notin> set (before @ after) \<and> length before + 1 = p_col (pos_at [CHR ''a'', newline, CHR ''b'', CHR ''c''] 3) \<and>
      start_idx (get_line [CHR ''a'', newline, CHR ''b'', CHR ''c'']
        (p_line (pos_at [CHR ''a'', newline, CHR ''b'', CHR ''c''] 3))) + length before = 3 \<and>
      before = segment [CHR ''a'', newline, CHR ''b'', CHR ''c''] (3 - length before) 3"
    by (rule get_line_is_the_line) simp_all
qed


end
