(* ===== verification/AsmObject.thy ===== *)
theory AsmObject
  imports Probing "HOL-Library.Monad_Syntax"
begin

text \<open>
  The object of the assembler \<^verbatim>\<open>src/src/x64_asm.c\<close>: the bytes of its sections, its symbols with
  the hash table of their names, and its relocations. The arrays of symbols and relocations are lists;
  the capacity of an array is modelled for the bytes. The table holds the index of a symbol, or \<open>-1\<close> in
  a free slot. A search that may not end is a \<open>while_option\<close>; for a table in order it ends.
\<close>

section \<open>Bytes\<close>

record asm_bytes =
  ab_data :: "u8 list"
  ab_capacity :: nat

definition ab_size :: "asm_bytes \<Rightarrow> nat" where
  "ab_size b = length (ab_data b)"

function double_until :: "nat \<Rightarrow> nat \<Rightarrow> nat" where
  "double_until needed capacity =
     (if capacity < needed \<and> 0 < capacity then double_until needed (capacity * 2) else capacity)"
  by pat_completeness auto
termination by (relation "measure (\<lambda>(needed, capacity). needed - capacity)") auto

declare double_until.simps [simp del]

definition asm_put :: "asm_bytes \<Rightarrow> u8 list \<Rightarrow> asm_bytes" where
  "asm_put b bytes =
     (let b = (if ab_capacity b < ab_size b + length bytes
               then b\<lparr>ab_capacity := double_until (ab_size b + length bytes)
                                       (if ab_capacity b \<noteq> 0 then ab_capacity b * 2 else 4096)\<rparr>
               else b)
      in b\<lparr>ab_data := ab_data b @ bytes\<rparr>)"

definition asm_put_byte :: "asm_bytes \<Rightarrow> u8 \<Rightarrow> asm_bytes" where
  "asm_put_byte b byte = asm_put b [byte]"

definition no_bytes :: asm_bytes where
  "no_bytes = \<lparr>ab_data = [], ab_capacity = 0\<rparr>"

text \<open>The bytes of an array fit into it.\<close>

definition ab_ok :: "asm_bytes \<Rightarrow> bool" where
  "ab_ok b \<longleftrightarrow> ab_size b \<le> ab_capacity b"

lemma double_until_enough: "0 < capacity \<Longrightarrow> needed \<le> double_until needed capacity"
  by (induction needed capacity rule: double_until.induct) (subst double_until.simps, simp)

lemma asm_put_data [simp]: "ab_data (asm_put b bytes) = ab_data b @ bytes"
  by (simp add: asm_put_def Let_def)

lemma asm_put_byte_data [simp]: "ab_data (asm_put_byte b byte) = ab_data b @ [byte]"
  by (simp add: asm_put_byte_def)

lemma asm_put_ok: "ab_ok (asm_put b bytes)"
proof (cases "ab_capacity b < ab_size b + length bytes")
  case True
  have "ab_size b + length bytes \<le> double_until (ab_size b + length bytes)
      (if ab_capacity b \<noteq> 0 then ab_capacity b * 2 else 4096)"
    by (rule double_until_enough) simp
  then show ?thesis using True by (simp add: asm_put_def ab_ok_def ab_size_def Let_def)
qed (simp add: asm_put_def ab_ok_def ab_size_def Let_def)

section \<open>Symbols and relocations\<close>

datatype asm_section_id = ASM_TEXT | ASM_DATA | ASM_RDATA

datatype asm_reloc_kind = ASM_RELOC_REL32 | ASM_RELOC_ABS64 | ASM_RELOC_RVA32 | ASM_RELOC_SECREL32

record asm_reloc =
  r_section :: asm_section_id
  r_offset :: nat
  r_kind :: asm_reloc_kind
  r_symbol :: nat
  r_addend :: i64
  r_trailing :: nat

text \<open>\<open>None\<close> is the section \<open>-1\<close> of a symbol that is not defined here.\<close>

record asm_symbol_entry =
  y_name :: string
  y_section :: "asm_section_id option"
  y_offset :: nat
  y_is_global :: bool
  y_is_extern :: bool
  y_library :: "string option"

record asm_object =
  o_sections :: "asm_section_id \<Rightarrow> asm_bytes"
  o_alignment :: "asm_section_id \<Rightarrow> int"
  o_symbols :: "asm_symbol_entry list"
  o_relocs :: "asm_reloc list"
  o_table :: "int list"

definition asm_hash :: "string \<Rightarrow> u32" where
  "asm_hash s = foldl (\<lambda>h c. (h XOR of_nat (of_char c)) * 16777619) 2166136261 s"

definition symbol_name :: "asm_symbol_entry list \<Rightarrow> int \<Rightarrow> string" where
  "symbol_name symbols entry = y_name (symbols ! nat entry)"

text \<open>The first free slot for a symbol, and putting it there.\<close>

definition asm_table_insert :: "asm_symbol_entry list \<Rightarrow> int list \<Rightarrow> nat \<Rightarrow> int list option" where
  "asm_table_insert symbols table index =
     (let mask = length table - 1 in
      map_option (\<lambda>i. table[i := int index])
        (while_option (\<lambda>i. 0 \<le> table ! i) (\<lambda>i. (i + 1) AND mask)
           (unat (asm_hash (y_name (symbols ! index))) AND mask)))"

text \<open>The search for a name: the slot where it ends.\<close>

definition asm_find :: "asm_symbol_entry list \<Rightarrow> int list \<Rightarrow> string \<Rightarrow> nat option" where
  "asm_find symbols table name =
     (let mask = length table - 1 in
      while_option (\<lambda>i. 0 \<le> table ! i \<and> symbol_name symbols (table ! i) \<noteq> name) (\<lambda>i. (i + 1) AND mask)
        (unat (asm_hash name) AND mask))"

definition new_symbol :: "string \<Rightarrow> asm_symbol_entry" where
  "new_symbol name = \<lparr>y_name = name, y_section = None, y_offset = 0, y_is_global = False, y_is_extern = False,
                      y_library = None\<rparr>"

definition asm_grow_table :: "asm_symbol_entry list \<Rightarrow> int list \<Rightarrow> int list option" where
  "asm_grow_table symbols table =
     foldl (\<lambda>table i. case table of None \<Rightarrow> None | Some table \<Rightarrow> asm_table_insert symbols table i)
       (Some (replicate (if length table \<noteq> 0 then length table * 2 else 1024) (- 1)))
       [0..<length symbols]"

definition asm_make_symbol :: "asm_object \<Rightarrow> string \<Rightarrow> (nat \<times> asm_object) option" where
  "asm_make_symbol obj name = do {
     table \<leftarrow> (if length (o_table obj) < (length (o_symbols obj) + 1) * 2
              then asm_grow_table (o_symbols obj) (o_table obj) else Some (o_table obj));
     let index = length (o_symbols obj);
     let symbols = o_symbols obj @ [new_symbol name];
     table \<leftarrow> asm_table_insert symbols table index;
     Some (index, obj\<lparr>o_symbols := symbols, o_table := table\<rparr>)
   }"

definition asm_symbol :: "asm_object \<Rightarrow> string \<Rightarrow> (nat \<times> asm_object) option" where
  "asm_symbol obj name =
     (if length (o_table obj) = 0 then asm_make_symbol obj name
      else do {
        slot \<leftarrow> asm_find (o_symbols obj) (o_table obj) name;
        (if 0 \<le> o_table obj ! slot then Some (nat (o_table obj ! slot), obj) else asm_make_symbol obj name)
      })"

definition asm_add_reloc :: "asm_object \<Rightarrow> asm_reloc \<Rightarrow> asm_object" where
  "asm_add_reloc obj reloc = obj\<lparr>o_relocs := o_relocs obj @ [reloc]\<rparr>"

section \<open>The table is in order\<close>

definition sym_home :: "string \<Rightarrow> nat" where
  "sym_home name = unat (asm_hash name)"

definition sym_keys :: "asm_symbol_entry list \<Rightarrow> int list \<Rightarrow> string option list" where
  "sym_keys symbols table = map (\<lambda>e. if e < 0 then None else Some (symbol_name symbols e)) table"

definition sym_names :: "asm_symbol_entry list \<Rightarrow> string list" where
  "sym_names symbols = map y_name symbols"

text \<open>The table has the symbols \<open>0..<n\<close>, each once, and more slots than symbols.\<close>

definition sym_table_ok :: "asm_symbol_entry list \<Rightarrow> int list \<Rightarrow> nat \<Rightarrow> bool" where
  "sym_table_ok symbols table n \<longleftrightarrow>
     n \<le> length symbols \<and> n < length table \<and> (\<exists>k. length table = 2 ^ k) \<and>
     set table - {- 1} = int ` {..<n} \<and> probe_ok sym_home (sym_keys symbols table)"

lemma sym_keys_length [simp]: "length (sym_keys symbols table) = length table"
  by (simp add: sym_keys_def)

lemma sym_keys_nth:
  "s < length table \<Longrightarrow>
     sym_keys symbols table ! s = (if table ! s < 0 then None else Some (symbol_name symbols (table ! s)))"
  by (simp add: sym_keys_def)

lemma sym_entry:
  assumes "sym_table_ok symbols table n" and "e \<in> set table"
  shows "e = - 1 \<or> (0 \<le> e \<and> nat e < n)"
proof (cases "e = - 1")
  case False
  then have "e \<in> set table - {- 1}" using assms(2) by simp
  then have "e \<in> int ` {..<n}" using assms(1) by (simp only: sym_table_ok_def)
  then show ?thesis by auto
qed simp

lemma sym_room:
  assumes ok: "sym_table_ok symbols table n"
  shows "has_room (sym_keys symbols table)"
proof (rule has_room_card)
  let ?K = "(\<lambda>i. y_name (symbols ! i)) ` {..<n}"
  show "probe_ok sym_home (sym_keys symbols table)" using ok by (simp add: sym_table_ok_def)
  show "set (sym_keys symbols table) - {None} \<subseteq> Some ` ?K"
  proof
    fix x assume "x \<in> set (sym_keys symbols table) - {None}"
    then obtain e where e: "e \<in> set table" "0 \<le> e" "x = Some (symbol_name symbols e)"
      by (auto simp: sym_keys_def split: if_splits)
    then show "x \<in> Some ` ?K" using sym_entry [OF ok e(1)] by (auto simp: symbol_name_def)
  qed
  show "finite ?K" by simp
  show "card ?K < length (sym_keys symbols table)"
    using card_image_le [of "{..<n}" "\<lambda>i. y_name (symbols ! i)"] ok by (simp add: sym_table_ok_def)
qed

lemma asm_find_eq:
  assumes "sym_table_ok symbols table n"
  shows "asm_find symbols table name = Some (probe_slot sym_home (sym_keys symbols table) name)"
proof -
  obtain k where k: "length table = 2 ^ k" using assms by (auto simp: sym_table_ok_def)
  show ?thesis
    unfolding asm_find_def Let_def
    by (rule probe_loop [OF sym_room [OF assms]])
      (auto simp: k and_mask_mod sym_home_def sym_keys_nth not_less)
qed

text \<open>For a name that is not in the table, the first free slot is where the search ends.\<close>

lemma asm_table_insert_eq:
  assumes ok: "sym_table_ok symbols table n" and new: "Some (y_name (symbols ! i)) \<notin> set (sym_keys symbols table)"
  shows "asm_table_insert symbols table i =
    Some (table[probe_slot sym_home (sym_keys symbols table) (y_name (symbols ! i)) := int i])"
proof -
  obtain k where k: "length table = 2 ^ k" using ok by (auto simp: sym_table_ok_def)
  have other: "sym_keys symbols table ! s \<noteq> Some (y_name (symbols ! i))" if "s < length table" for s
    using new that nth_mem [of s "sym_keys symbols table"] by (metis sym_keys_length)
  have "while_option (\<lambda>i. 0 \<le> table ! i) (\<lambda>i. (i + 1) AND (length table - 1))
      (unat (asm_hash (y_name (symbols ! i))) AND (length table - 1)) =
    Some (probe_slot sym_home (sym_keys symbols table) (y_name (symbols ! i)))"
    using other
    by (intro probe_loop [OF sym_room [OF ok]])
      (auto simp: k and_mask_mod sym_home_def sym_keys_nth not_less split: if_splits)
  then show ?thesis by (simp add: asm_table_insert_def Let_def)
qed

lemma sym_key_iff:
  assumes "sym_table_ok symbols table n"
  shows "Some name \<in> set (sym_keys symbols table) \<longleftrightarrow> name \<in> set (sym_names (take n symbols))"
proof -
  have n: "n \<le> length symbols" and set: "set table - {- 1} = int ` {..<n}"
    using assms by (simp_all add: sym_table_ok_def)
  have "Some name \<in> set (sym_keys symbols table) \<longleftrightarrow> (\<exists>e \<in> set table. 0 \<le> e \<and> symbol_name symbols e = name)"
    by (force simp: sym_keys_def image_iff not_less split: if_splits)
  also have "\<dots> \<longleftrightarrow> (\<exists>e \<in> set table - {- 1}. symbol_name symbols e = name)"
    using sym_entry [OF assms] by fastforce
  also have "\<dots> \<longleftrightarrow> (\<exists>i < n. y_name (symbols ! i) = name)" unfolding set by (auto simp: symbol_name_def)
  also have "\<dots> \<longleftrightarrow> name \<in> set (sym_names (take n symbols))"
    using n by (auto simp: sym_names_def in_set_conv_nth take_map [symmetric])
  finally show ?thesis .
qed

text \<open>Putting symbol \<open>n\<close> into a table of the symbols before it.\<close>

lemma sym_table_put:
  assumes ok: "sym_table_ok symbols table n" and n: "n < length symbols" and room: "Suc n < length table"
    and new: "y_name (symbols ! n) \<notin> set (sym_names (take n symbols))"
  shows "\<exists>table'. asm_table_insert symbols table n = Some table' \<and> length table' = length table \<and>
    sym_table_ok symbols table' (Suc n)"
proof -
  let ?k = "y_name (symbols ! n)"
  let ?s = "probe_slot sym_home (sym_keys symbols table) ?k"
  let ?t = "table[?s := int n]"
  have none: "Some ?k \<notin> set (sym_keys symbols table)" using sym_key_iff [OF ok] new by simp
  have s: "?s < length table" using probe_slot_less [OF sym_room [OF ok]] by simp
  have free: "table ! ?s = - 1"
  proof -
    have "sym_keys symbols table ! ?s = None"
      using probe_slot_found_iff [of sym_home "sym_keys symbols table" ?k] sym_room [OF ok] ok none
      by (simp add: sym_table_ok_def)
    then have "table ! ?s < 0" using s by (auto simp: sym_keys_nth split: if_splits)
    then show ?thesis using sym_entry [OF ok nth_mem [OF s]] by simp
  qed
  have keys: "sym_keys symbols ?t = (sym_keys symbols table)[?s := Some ?k]"
    by (simp add: sym_keys_def map_update symbol_name_def)
  have "set ?t - {- 1} = insert (int n) (set table - {- 1})"
  proof (rule set_eqI)
    fix e
    show "e \<in> set ?t - {- 1} \<longleftrightarrow> e \<in> insert (int n) (set table - {- 1})"
    proof
      assume "e \<in> set ?t - {- 1}"
      then show "e \<in> insert (int n) (set table - {- 1})" using set_update_subset_insert [of table ?s "int n"] by blast
    next
      assume e: "e \<in> insert (int n) (set table - {- 1})"
      show "e \<in> set ?t - {- 1}"
      proof (cases "e = int n")
        case True
        then show ?thesis using set_update_memI [OF s] by simp
      next
        case False
        then obtain i where i: "i < length table" "table ! i = e" "e \<noteq> - 1" using e by (auto simp: in_set_conv_nth)
        then have "?t ! i = e" using free by (cases "i = ?s") simp_all
        then show ?thesis using i by (metis Diff_iff length_list_update nth_mem singletonD)
      qed
    qed
  qed
  then have entries: "set ?t - {- 1} = int ` {..<Suc n}"
    using ok by (simp add: sym_table_ok_def lessThan_Suc)
  have "probe_ok sym_home (sym_keys symbols ?t)"
    unfolding keys using ok sym_room [OF ok] by (intro probe_ok_put) (simp_all add: sym_table_ok_def)
  then have "sym_table_ok symbols ?t (Suc n)"
    using n room entries ok unfolding sym_table_ok_def by simp
  then show ?thesis using asm_table_insert_eq [OF ok none] by simp
qed

lemma sym_table_empty: "sym_table_ok symbols (replicate (2 ^ k) (- 1)) 0"
  by (auto simp: sym_table_ok_def sym_keys_def probe_ok_empty)

text \<open>Growing inserts the symbols in their order.\<close>

lemma asm_grow_ok:
  assumes "distinct (sym_names symbols)" and "m \<le> length symbols" and "m < 2 ^ k"
  shows "\<exists>table. foldl (\<lambda>table i. case table of None \<Rightarrow> None | Some table \<Rightarrow> asm_table_insert symbols table i)
      (Some (replicate (2 ^ k) (- 1))) [0..<m] = Some table \<and> length table = 2 ^ k \<and> sym_table_ok symbols table m"
  using assms(2,3)
proof (induction m)
  case 0
  then show ?case using sym_table_empty by simp
next
  case (Suc m)
  obtain table where t: "foldl (\<lambda>table i. case table of None \<Rightarrow> None | Some table \<Rightarrow> asm_table_insert symbols table i)
      (Some (replicate (2 ^ k) (- 1))) [0..<m] = Some table" "length table = 2 ^ k" "sym_table_ok symbols table m"
    using Suc.IH Suc.prems by auto
  have "y_name (symbols ! m) \<notin> set (sym_names (take m symbols))"
  proof -
    have "sym_names symbols ! m \<notin> set (take m (sym_names symbols))"
      using assms(1) Suc.prems(1) nth_eq_iff_index_eq [OF assms(1)] by (auto simp: sym_names_def in_set_conv_nth)
    then show ?thesis using Suc.prems(1) by (simp add: sym_names_def take_map)
  qed
  then show ?case
    using sym_table_put [OF t(3), of] t Suc.prems by simp
qed

section \<open>Objects\<close>

definition obj_ok :: "asm_object \<Rightarrow> bool" where
  "obj_ok obj \<longleftrightarrow> distinct (sym_names (o_symbols obj)) \<and>
     (if o_table obj = [] then o_symbols obj = []
      else sym_table_ok (o_symbols obj) (o_table obj) (length (o_symbols obj)) \<and>
           length (o_symbols obj) * 2 \<le> length (o_table obj))"

definition sym_lookup :: "asm_object \<Rightarrow> string \<Rightarrow> nat option" where
  "sym_lookup obj = map_of (zip (sym_names (o_symbols obj)) [0..<length (o_symbols obj)])"

lemma sym_lookup_Some:
  assumes "distinct (sym_names (o_symbols obj))"
  shows "sym_lookup obj name = Some i \<longleftrightarrow> i < length (o_symbols obj) \<and> y_name (o_symbols obj ! i) = name"
proof -
  let ?names = "sym_names (o_symbols obj)"
  have "distinct (map fst (zip ?names [0..<length (o_symbols obj)]))"
    using assms by (simp add: sym_names_def)
  then have "sym_lookup obj name = Some i \<longleftrightarrow> (name, i) \<in> set (zip ?names [0..<length (o_symbols obj)])"
    unfolding sym_lookup_def by (rule map_of_eq_Some_iff)
  also have "\<dots> \<longleftrightarrow> i < length (o_symbols obj) \<and> y_name (o_symbols obj ! i) = name"
    by (force simp: in_set_conv_nth sym_names_def)
  finally show ?thesis .
qed

lemma sym_lookup_None: "sym_lookup obj name = None \<longleftrightarrow> name \<notin> set (sym_names (o_symbols obj))"
proof -
  have "fst ` set (zip (sym_names (o_symbols obj)) [0..<length (o_symbols obj)]) = set (sym_names (o_symbols obj))"
    by (metis list.set_map map_fst_zip length_map length_upt minus_nat.diff_0 sym_names_def)
  then show ?thesis by (simp add: sym_lookup_def map_of_eq_None_iff)
qed

text \<open>Making a symbol whose name is new.\<close>

lemma asm_make_symbol_ok:
  assumes ok: "obj_ok obj" and new: "name \<notin> set (sym_names (o_symbols obj))"
  obtains obj' where "asm_make_symbol obj name = Some (length (o_symbols obj), obj')" and "obj_ok obj'"
    and "o_symbols obj' = o_symbols obj @ [new_symbol name]" and "o_relocs obj' = o_relocs obj"
    and "o_sections obj' = o_sections obj" and "o_alignment obj' = o_alignment obj"
proof -
  let ?n = "length (o_symbols obj)" and ?syms = "o_symbols obj @ [new_symbol name]"
  have d: "distinct (sym_names (o_symbols obj))" using ok by (simp add: obj_ok_def)
  have grown: "\<exists>table. (if length (o_table obj) < (?n + 1) * 2 then asm_grow_table (o_symbols obj) (o_table obj)
      else Some (o_table obj)) = Some table \<and> sym_table_ok (o_symbols obj) table ?n \<and> (?n + 1) * 2 \<le> length table"
  proof (cases "length (o_table obj) < (?n + 1) * 2")
    case False
    then show ?thesis using ok by (auto simp: obj_ok_def split: if_splits)
  next
    case True
    show ?thesis
    proof (cases "o_table obj = []")
      case e: True
      then have "o_symbols obj = []" using ok by (simp add: obj_ok_def)
      then show ?thesis using asm_grow_ok [of "[]" 0 10] e by (simp add: asm_grow_table_def sym_names_def)
    next
      case False
      then obtain k where k: "length (o_table obj) = 2 ^ k" and half: "?n * 2 \<le> length (o_table obj)"
        using ok by (auto simp: obj_ok_def sym_table_ok_def)
      have "1 \<le> length (o_table obj)" using False by (cases "o_table obj") simp_all
      then have "?n + 1 \<le> length (o_table obj)" using half by (cases ?n) auto
      then have "(?n + 1) * 2 \<le> length (o_table obj) * 2" "?n < 2 ^ Suc k" by (simp_all add: k)
      then show ?thesis
        using asm_grow_ok [OF d order_refl, of "Suc k"] True False k by (auto simp: asm_grow_table_def mult.commute)
    qed
  qed
  then obtain table where t: "(if length (o_table obj) < (?n + 1) * 2 then asm_grow_table (o_symbols obj) (o_table obj)
      else Some (o_table obj)) = Some table" "sym_table_ok (o_symbols obj) table ?n" "(?n + 1) * 2 \<le> length table" by blast
  have keys: "sym_keys ?syms table = sym_keys (o_symbols obj) table"
    using sym_entry [OF t(2)] by (fastforce simp: sym_keys_def symbol_name_def nth_append)
  have "sym_table_ok ?syms table ?n"
    using t(2) keys unfolding sym_table_ok_def by simp
  then obtain table' where t': "asm_table_insert ?syms table ?n = Some table'" "length table' = length table"
      "sym_table_ok ?syms table' (Suc ?n)"
    using sym_table_put [of ?syms table ?n] t(3) new by (auto simp: new_symbol_def)
  let ?obj = "obj\<lparr>o_symbols := ?syms, o_table := table'\<rparr>"
  have ne: "table' \<noteq> []" using t(3) t'(2) by auto
  have "obj_ok ?obj" using d new t' t(3) ne by (simp add: obj_ok_def sym_names_def new_symbol_def)
  moreover have "asm_make_symbol obj name = Some (?n, ?obj)"
    using t(1) t'(1) by (simp add: asm_make_symbol_def Let_def)
  ultimately show thesis using that [of ?obj] by simp
qed

lemma asm_symbol_known:
  assumes ok: "obj_ok obj" and True: "name \<in> set (sym_names (o_symbols obj))"
  obtains i where "asm_symbol obj name = Some (i, obj)" and "i < length (o_symbols obj)" and "y_name (o_symbols obj ! i) = name"
proof -
  have ne: "o_table obj \<noteq> []" using ok True by (auto simp: obj_ok_def sym_names_def split: if_splits)
  then have t: "sym_table_ok (o_symbols obj) (o_table obj) (length (o_symbols obj))" using ok by (simp add: obj_ok_def)
  let ?s = "probe_slot sym_home (sym_keys (o_symbols obj) (o_table obj)) name"
  have s: "?s < length (o_table obj)" using probe_slot_less [OF sym_room [OF t]] by simp
  have "sym_keys (o_symbols obj) (o_table obj) ! ?s = Some name"
    using probe_slot_found_iff [of sym_home "sym_keys (o_symbols obj) (o_table obj)" name] sym_room [OF t] t
      sym_key_iff [OF t, of name] True by (simp add: sym_table_ok_def)
  then have e: "0 \<le> o_table obj ! ?s" "symbol_name (o_symbols obj) (o_table obj ! ?s) = name"
    using s by (auto simp: sym_keys_nth not_less split: if_splits)
  then have "nat (o_table obj ! ?s) < length (o_symbols obj)" using sym_entry [OF t nth_mem [OF s]] by auto
  moreover have "asm_symbol obj name = Some (nat (o_table obj ! ?s), obj)"
    using ne asm_find_eq [OF t] e(1) by (simp add: asm_symbol_def)
  ultimately show thesis using that e(2) by (simp add: symbol_name_def)
qed

lemma asm_symbol_ok:
  assumes ok: "obj_ok obj"
  obtains i obj' where "asm_symbol obj name = Some (i, obj')" and "obj_ok obj'"
    and "i < length (o_symbols obj')" and "y_name (o_symbols obj' ! i) = name"
    and "o_symbols obj' = o_symbols obj \<or> (o_symbols obj' = o_symbols obj @ [new_symbol name] \<and> i = length (o_symbols obj))"
    and "o_relocs obj' = o_relocs obj" and "o_sections obj' = o_sections obj" and "o_alignment obj' = o_alignment obj"
proof (cases "name \<in> set (sym_names (o_symbols obj))")
  case False
  obtain obj' where o: "asm_make_symbol obj name = Some (length (o_symbols obj), obj')" "obj_ok obj'"
      "o_symbols obj' = o_symbols obj @ [new_symbol name]" "o_relocs obj' = o_relocs obj"
      "o_sections obj' = o_sections obj" "o_alignment obj' = o_alignment obj"
    using asm_make_symbol_ok [OF ok False] .
  have "asm_symbol obj name = asm_make_symbol obj name"
  proof (cases "o_table obj = []")
    case False
    then have t: "sym_table_ok (o_symbols obj) (o_table obj) (length (o_symbols obj))" using ok by (simp add: obj_ok_def)
    let ?s = "probe_slot sym_home (sym_keys (o_symbols obj) (o_table obj)) name"
    have "sym_keys (o_symbols obj) (o_table obj) ! ?s = None"
      using probe_slot_found_iff [of sym_home "sym_keys (o_symbols obj) (o_table obj)" name] sym_room [OF t] t
        sym_key_iff [OF t, of name] \<open>name \<notin> _\<close> by (simp add: sym_table_ok_def)
    moreover have "?s < length (o_table obj)" using probe_slot_less [OF sym_room [OF t]] by simp
    ultimately have "o_table obj ! ?s < 0" by (auto simp: sym_keys_nth split: if_splits)
    then show ?thesis using False asm_find_eq [OF t] by (simp add: asm_symbol_def)
  qed (simp add: asm_symbol_def)
  then show thesis using that o by (simp add: new_symbol_def)
next
  case True
  then show thesis using that ok by (auto elim: asm_symbol_known [OF ok])
qed

interpretation symbols: symbol_interner obj_ok sym_lookup asm_symbol
proof unfold_locales
  fix obj name i obj' j
  assume ok: "obj_ok obj"
  note d = sym_lookup_Some
  show "\<exists>i obj'. asm_symbol obj name = Some (i, obj')" using asm_symbol_ok [OF ok] by blast
  assume r: "asm_symbol obj name = Some (i, obj')"
  obtain k obj2 where k: "asm_symbol obj name = Some (k, obj2)" "obj_ok obj2" "k < length (o_symbols obj2)"
      "y_name (o_symbols obj2 ! k) = name"
      "o_symbols obj2 = o_symbols obj \<or> (o_symbols obj2 = o_symbols obj @ [new_symbol name] \<and> k = length (o_symbols obj))"
    using asm_symbol_ok [OF ok, of name] by metis
  have eq: "k = i" "obj2 = obj'" using k(1) r by simp_all
  have dis: "distinct (sym_names (o_symbols obj))" "distinct (sym_names (o_symbols obj'))"
    using ok k(2) eq by (simp_all add: obj_ok_def)
  have i: "sym_lookup obj' name = Some i" using k(3,4) eq d [OF dis(2)] by simp
  have "sym_lookup obj' n = (if n = name then Some i else sym_lookup obj n)" for n
  proof (cases "n = name")
    case False
    have "sym_lookup obj' n = Some m \<longleftrightarrow> sym_lookup obj n = Some m" for m
      using k(5) eq False unfolding d [OF dis(1)] d [OF dis(2)]
      by (auto simp: nth_append new_symbol_def less_Suc_eq)
    then show ?thesis using False by (metis not_Some_eq)
  qed (use i in simp)
  then show "obj_ok obj' \<and> sym_lookup obj' = (sym_lookup obj)(name \<mapsto> i)"
    using k(2) eq by (auto simp: fun_eq_iff)
  show "sym_lookup obj name = Some j \<Longrightarrow> i = j"
  proof -
    assume j: "sym_lookup obj name = Some j"
    then have "sym_lookup obj' name = Some j"
      using k(5) eq unfolding d [OF dis(1)] d [OF dis(2)] by (auto simp: nth_append)
    then show "i = j" using i by simp
  qed
  show "sym_lookup obj name = None \<Longrightarrow> i \<notin> ran (sym_lookup obj)"
  proof -
    assume none: "sym_lookup obj name = None"
    have "o_symbols obj' \<noteq> o_symbols obj" using i none by (auto simp: sym_lookup_def)
    then have "i = length (o_symbols obj)" using k(5) eq by auto
    then show "i \<notin> ran (sym_lookup obj)" by (auto simp: ran_def d [OF dis(1)])
  qed
qed

text \<open>The object that assembling starts with.\<close>

definition new_object :: asm_object where
  "new_object = \<lparr>o_sections = \<lambda>_. no_bytes, o_alignment = \<lambda>s. if s = ASM_TEXT then 16 else 8, o_symbols = [],
                 o_relocs = [], o_table = []\<rparr>"

lemma new_object_ok: "obj_ok new_object" and new_object_empty: "sym_lookup new_object = Map.empty"
  by (simp_all add: obj_ok_def new_object_def sym_names_def sym_lookup_def)

text \<open>C23: asking a new object for the symbols of any names, some of them perhaps more than once, ends, and
  leaves exactly one symbol for each name, which a search for the name finds.\<close>

theorem symbols_have_one_index:
  "\<exists>obj. symbols.intern_all new_object names = Some obj \<and> set (sym_names (o_symbols obj)) = set names \<and>
     distinct (sym_names (o_symbols obj)) \<and>
     list_all (\<lambda>i. asm_symbol obj (y_name (o_symbols obj ! i)) = Some (i, obj)) [0..<length (o_symbols obj)]"
proof -
  have "symbols.separate new_object" by (simp add: symbols.separate_def new_object_empty)
  from symbols.intern_all_correct [OF new_object_ok this, of names]
  obtain obj where obj: "symbols.intern_all new_object names = Some obj" "obj_ok obj" "dom (sym_lookup obj) = set names"
    by (auto simp: new_object_empty)
  have dis: "distinct (sym_names (o_symbols obj))" using obj(2) by (simp add: obj_ok_def)
  have names: "set (sym_names (o_symbols obj)) = set names"
    using obj(3) sym_lookup_None [of obj] by blast
  have "asm_symbol obj (y_name (o_symbols obj ! i)) = Some (i, obj)" if i: "i < length (o_symbols obj)" for i
  proof -
    let ?name = "y_name (o_symbols obj ! i)"
    have known: "sym_lookup obj ?name = Some i" using i by (simp add: sym_lookup_Some [OF dis])
    obtain j obj' where r: "asm_symbol obj ?name = Some (j, obj')" using symbols.intern_returns [OF obj(2)] by blast
    then have "j = i" using symbols.intern_known [OF obj(2) r known] by simp
    moreover have "obj' = obj"
    proof -
      have "?name \<in> set (sym_names (o_symbols obj))" using i by (simp add: sym_names_def)
      then show ?thesis using r by (auto elim: asm_symbol_known [OF obj(2)])
    qed
    ultimately show ?thesis using r by simp
  qed
  then show ?thesis using obj(1) names dis by (auto simp: list_all_iff)
qed

end
