(* ===== verification/AsmOperand.thy ===== *)
theory AsmOperand
  imports AsmObject Tokens
begin

text \<open>
  The operands of the assembler \<^verbatim>\<open>src/src/x64_asm.c\<close>: the registers and the hash table of their
  names, numbers, symbol names, memory operands, and the parser of one operand. A text with a length
  is a list of characters; \<open>None\<close> is the failure of a parser. The table of the register names is
  filled before its first use, and it is shown that a text is parsed as a register exactly when it is
  one of the names.
\<close>

datatype asm_operand_kind = ASM_NONE | ASM_REG | ASM_XMM | ASM_MEM | ASM_IMM | ASM_LABEL

record asm_operand =
  op_kind :: asm_operand_kind
  op_reg :: nat
  op_width :: nat
  op_high8 :: bool
  op_base :: int
  op_index :: int
  op_disp :: i64
  op_symbol :: string
  op_imm :: i64

definition no_operand :: asm_operand where
  "no_operand = \<lparr>op_kind = ASM_NONE, op_reg = 0, op_width = 0, op_high8 = False, op_base = 0, op_index = 0,
                 op_disp = 0, op_symbol = [], op_imm = 0\<rparr>"

section \<open>Registers by name\<close>

definition asm_reg64 :: "string list" where
  "asm_reg64 = [''rax'', ''rcx'', ''rdx'', ''rbx'', ''rsp'', ''rbp'', ''rsi'', ''rdi'',
                ''r8'', ''r9'', ''r10'', ''r11'', ''r12'', ''r13'', ''r14'', ''r15'']"

definition asm_reg32 :: "string list" where
  "asm_reg32 = [''eax'', ''ecx'', ''edx'', ''ebx'', ''esp'', ''ebp'', ''esi'', ''edi'',
                ''r8d'', ''r9d'', ''r10d'', ''r11d'', ''r12d'', ''r13d'', ''r14d'', ''r15d'']"

definition asm_reg16 :: "string list" where
  "asm_reg16 = [''ax'', ''cx'', ''dx'', ''bx'', ''sp'', ''bp'', ''si'', ''di'',
                ''r8w'', ''r9w'', ''r10w'', ''r11w'', ''r12w'', ''r13w'', ''r14w'', ''r15w'']"

definition asm_reg8 :: "string list" where
  "asm_reg8 = [''al'', ''cl'', ''dl'', ''bl'', ''spl'', ''bpl'', ''sil'', ''dil'',
               ''r8b'', ''r9b'', ''r10b'', ''r11b'', ''r12b'', ''r13b'', ''r14b'', ''r15b'']"

text \<open>A name, its register and its width.\<close>

type_synonym asm_register_name = "string \<times> nat \<times> nat"

definition ASM_REGISTER_SLOTS :: nat where
  "ASM_REGISTER_SLOTS = 256"

definition asm_register_hash :: "string \<Rightarrow> nat" where
  "asm_register_hash s = unat (foldl (\<lambda>hash c. hash * 31 + of_nat (of_char c) :: u32) 0 s) mod ASM_REGISTER_SLOTS"

definition asm_add_register_name ::
    "asm_register_name option list \<Rightarrow> asm_register_name \<Rightarrow> asm_register_name option list option" where
  "asm_add_register_name names entry =
     map_option (\<lambda>slot. names[slot := Some entry])
       (while_option (\<lambda>slot. names ! slot \<noteq> None) (\<lambda>slot. (slot + 1) mod ASM_REGISTER_SLOTS)
          (asm_register_hash (fst entry)))"

definition register_list :: "asm_register_name list" where
  "register_list =
     concat (map (\<lambda>r. [(asm_reg64 ! r, r, 8), (asm_reg32 ! r, r, 4), (asm_reg16 ! r, r, 2), (asm_reg8 ! r, r, 1)])
       [0..<16])"

definition asm_register_names :: "asm_register_name option list option" where
  "asm_register_names =
     foldl (\<lambda>names entry. case names of None \<Rightarrow> None | Some names \<Rightarrow> asm_add_register_name names entry)
       (Some (replicate ASM_REGISTER_SLOTS None)) register_list"

definition asm_is_name :: "string \<Rightarrow> string \<Rightarrow> bool" where
  "asm_is_name s name \<longleftrightarrow> s = name"

definition asm_find_register :: "asm_register_name option list \<Rightarrow> string \<Rightarrow> nat option" where
  "asm_find_register names s =
     while_option (\<lambda>slot. names ! slot \<noteq> None \<and> \<not> asm_is_name s (fst (the (names ! slot))))
       (\<lambda>slot. (slot + 1) mod ASM_REGISTER_SLOTS) (asm_register_hash s)"

text \<open>\<^verbatim>\<open>atoi\<close> of a text that begins with a digit.\<close>

definition c_atoi :: "string \<Rightarrow> nat" where
  "c_atoi s = foldl (\<lambda>v c. 10 * v + (char_code c - char_code CHR ''0'')) 0 (takeWhile is_digit s)"

definition parse_xmm :: "string \<Rightarrow> asm_operand option" where
  "parse_xmm s =
     (if take 3 s = ''xmm'' \<and> 3 < length s \<and> is_digit (s ! 3)
      then let r = c_atoi (drop 3 s)
           in if 15 < r then None else Some (no_operand\<lparr>op_kind := ASM_XMM, op_reg := r, op_width := 16\<rparr>)
      else None)"

definition asm_parse_register :: "string \<Rightarrow> asm_operand option" where
  "asm_parse_register s =
     (if length s < 2 \<or> 5 < length s \<or> hd s \<notin> set ''abcdersx'' then None
      else do {
        names \<leftarrow> asm_register_names;
        slot \<leftarrow> asm_find_register names s;
        (case names ! slot of
           Some (name, reg, width) \<Rightarrow>
             Some (no_operand\<lparr>op_kind := ASM_REG, op_reg := reg, op_width := width,
                              op_high8 := (width = 1 \<and> 4 \<le> reg \<and> reg \<le> 7)\<rparr>)
         | None \<Rightarrow> parse_xmm s)
      })"

section \<open>Numbers\<close>

text \<open>\<^verbatim>\<open>strtoull\<close> with base 0: the value, and the text after the number. A value that does not fit is
  the greatest one; a number after a minus is negated. Without digits the value is 0 and nothing is
  read.\<close>

definition digit_value :: "char \<Rightarrow> nat" where
  "digit_value c = (if is_digit c then char_code c - char_code CHR ''0''
                    else if is_letter c then c_tolower c - char_code CHR ''a'' + 10 else 99)"

definition read_digits :: "nat \<Rightarrow> string \<Rightarrow> u64 \<times> string" where
  "read_digits base s =
     (let ds = takeWhile (\<lambda>c. digit_value c < base) s;
          n = foldl (\<lambda>v c. v * base + digit_value c) 0 ds
      in (if n < 2 ^ 64 then of_nat n else - 1, drop (length ds) s))"

definition is_space :: "char \<Rightarrow> bool" where
  "is_space c \<longleftrightarrow> c = CHR '' '' \<or> (9 \<le> char_code c \<and> char_code c \<le> 13)"

definition strtoull_unsigned :: "string \<Rightarrow> u64 \<times> string" where
  "strtoull_unsigned s =
     (if take 1 s = ''0'' \<and> 2 < length s \<and> c_tolower (s ! 1) = char_code CHR ''x'' \<and> digit_value (s ! 2) < 16
      then read_digits 16 (drop 2 s)
      else read_digits (if take 1 s = ''0'' then 8 else 10) s)"

definition strtoull_any :: "string \<Rightarrow> u64 \<times> string" where
  "strtoull_any s =
     (let t = dropWhile is_space s;
          (negative, t) = (case t of c # cs \<Rightarrow> if c = CHR ''-'' then (True, cs) else if c = CHR ''+'' then (False, cs) else (False, t)
                           | [] \<Rightarrow> (False, t));
          (n, rest) = strtoull_unsigned t
      in if length rest = length t then (0, s) else (if negative then - n else n, rest))"

definition asm_parse_number :: "string \<Rightarrow> i64 option" where
  "asm_parse_number s =
     (if length s = 0 \<or> 40 \<le> length s then None
      else if hd s = CHR ''-'' \<or> is_digit (hd s)
      then (let (n, rest) = strtoull_any (if hd s = CHR ''-'' then tl s else s);
                n = (if hd s = CHR ''-'' then - n else n)
            in if rest = [] then Some n else None)
      else None)"

section \<open>Symbols and memory\<close>

text \<open>Into an array of a size, as \<^verbatim>\<open>snprintf\<close> does it.\<close>

definition asm_symbol_name :: "string \<Rightarrow> string option \<Rightarrow> nat \<Rightarrow> string" where
  "asm_symbol_name s scope out_size =
     (let s = (if take 1 s = ''$'' then tl s else s)
      in take (out_size - 1)
           (case scope of
              Some label \<Rightarrow> if take 1 s = ''.'' then label @ s else s
            | None \<Rightarrow> s))"

definition is_blank :: "char \<Rightarrow> bool" where
  "is_blank c \<longleftrightarrow> c = CHR '' '' \<or> c = CHR 0x09"

definition is_sign :: "char \<Rightarrow> bool" where
  "is_sign c \<longleftrightarrow> c = CHR ''+'' \<or> c = CHR ''-''"

function memory_terms :: "string \<Rightarrow> asm_operand \<Rightarrow> asm_operand option" where
  "memory_terms [] op = Some op"
| "memory_terms (sign # p) op =
     (let part = takeWhile (\<lambda>c. \<not> is_sign c) p;
          rest = dropWhile (\<lambda>c. \<not> is_sign c) p
      in case (if sign = CHR ''+'' then asm_parse_register part else None) of
           Some other \<Rightarrow>
             if op_kind other \<noteq> ASM_REG \<or> op_width other \<noteq> 8 \<or> 0 \<le> op_index op \<or> op_reg other = 4 then None
             else memory_terms rest (op\<lparr>op_index := int (op_reg other)\<rparr>)
         | None \<Rightarrow>
             (case asm_parse_number part of
                None \<Rightarrow> None
              | Some n \<Rightarrow> memory_terms rest (op\<lparr>op_disp := op_disp op + (if sign = CHR ''-'' then - n else n)\<rparr>)))"
  by pat_completeness auto
termination
  by (relation "measure (\<lambda>(p, op). length p)") (auto simp: le_imp_less_Suc length_dropWhile_le)

definition asm_parse_memory :: "string \<Rightarrow> string option \<Rightarrow> asm_operand option" where
  "asm_parse_memory s scope =
     (let op = no_operand\<lparr>op_kind := ASM_MEM, op_base := - 1, op_index := - 1\<rparr>;
          p = take 255 (filter (\<lambda>c. \<not> is_blank c) s)
      in if take 3 p = ''rel''
         then (let name = takeWhile (\<lambda>c. \<not> is_sign c) (drop 3 p);
                   rest = dropWhile (\<lambda>c. \<not> is_sign c) (drop 3 p);
                   op = op\<lparr>op_symbol := asm_symbol_name name scope 160\<rparr>
               in if rest = [] then Some op
                  else map_option (\<lambda>n. op\<lparr>op_disp := n\<rparr>)
                         (asm_parse_number (if hd rest = CHR ''+'' then tl rest else rest)))
         else (let name = takeWhile (\<lambda>c. \<not> is_sign c) p;
                   rest = dropWhile (\<lambda>c. \<not> is_sign c) p
               in case asm_parse_register name of
                    None \<Rightarrow> None
                  | Some reg \<Rightarrow>
                      if op_kind reg \<noteq> ASM_REG \<or> op_width reg \<noteq> 8 then None
                      else memory_terms rest (op\<lparr>op_base := int (op_reg reg)\<rparr>)))"

definition size_words :: "(string \<times> nat) list" where
  "size_words = [(''byte'', 1), (''word'', 2), (''dword'', 4), (''qword'', 8)]"

definition trim :: "string \<Rightarrow> string" where
  "trim s = dropWhile is_blank (rev (dropWhile is_blank (rev s)))"

text \<open>A size keyword before a memory operand, and the text after it.\<close>

definition size_keyword :: "string \<Rightarrow> nat \<times> string" where
  "size_keyword s =
     (case find (\<lambda>(word, width). length word < length s \<and> take (length word) s = word \<and>
                   (s ! length word = CHR '' '' \<or> s ! length word = CHR ''['')) size_words of
        Some (word, width) \<Rightarrow> (width, dropWhile (\<lambda>c. c = CHR '' '') (drop (length word) s))
      | None \<Rightarrow> (0, s))"

definition asm_parse_operand :: "string \<Rightarrow> string option \<Rightarrow> asm_operand option" where
  "asm_parse_operand s scope =
     (let s = trim s
      in if s = [] then None
         else
           let (width, s) = size_keyword s
           in if take 1 s = ''[''
              then if last s \<noteq> CHR '']'' then None
                   else map_option (\<lambda>op. op\<lparr>op_width := width\<rparr>) (asm_parse_memory (butlast (tl s)) scope)
              else if width \<noteq> 0 then None
              else case asm_parse_register s of
                     Some op \<Rightarrow> Some op
                   | None \<Rightarrow>
                       (case asm_parse_number s of
                          Some n \<Rightarrow> Some (no_operand\<lparr>op_kind := ASM_IMM, op_imm := n\<rparr>)
                        | None \<Rightarrow> Some (no_operand\<lparr>op_kind := ASM_LABEL, op_symbol := asm_symbol_name s scope 160\<rparr>)))"

section \<open>The table of the registers\<close>

definition reg_keys :: "asm_register_name option list \<Rightarrow> string option list" where
  "reg_keys names = map (map_option fst) names"

text \<open>The table has the entries of a list, each where the search for its name ends.\<close>

definition reg_table_ok :: "asm_register_name option list \<Rightarrow> asm_register_name list \<Rightarrow> bool" where
  "reg_table_ok names entries \<longleftrightarrow>
     length names = ASM_REGISTER_SLOTS \<and> set names - {None} = Some ` set entries \<and>
     probe_ok asm_register_hash (reg_keys names)"

lemma reg_keys_nth: "i < length names \<Longrightarrow> reg_keys names ! i = map_option fst (names ! i)"
  by (simp add: reg_keys_def)

lemma reg_keys_length [simp]: "length (reg_keys names) = length names"
  by (simp add: reg_keys_def)

lemma hash_in_table: "asm_register_hash s mod ASM_REGISTER_SLOTS = asm_register_hash s"
  by (simp add: asm_register_hash_def)

lemma reg_room:
  assumes ok: "reg_table_ok names entries" and "length entries < ASM_REGISTER_SLOTS"
  shows "has_room (reg_keys names)"
proof (rule has_room_card)
  show "probe_ok asm_register_hash (reg_keys names)" using ok by (simp add: reg_table_ok_def)
  show "set (reg_keys names) - {None} \<subseteq> Some ` fst ` set entries"
  proof
    fix x assume "x \<in> set (reg_keys names) - {None}"
    then obtain e where "Some e \<in> set names - {None}" "x = Some (fst e)" by (auto simp: reg_keys_def)
    then have "Some e \<in> Some ` set entries" using ok by (simp only: reg_table_ok_def)
    then show "x \<in> Some ` fst ` set entries" using \<open>x = _\<close> by auto
  qed
  show "finite (fst ` set entries)" by simp
  have "card (fst ` set entries) \<le> length entries"
    using card_image_le [of "set entries" fst] card_length [of entries] by simp
  then show "card (fst ` set entries) < length (reg_keys names)"
    using assms by (simp add: reg_table_ok_def)
qed

lemma reg_key_iff:
  assumes "reg_table_ok names entries"
  shows "Some s \<in> set (reg_keys names) \<longleftrightarrow> s \<in> fst ` set entries"
proof -
  have "Some s \<in> set (reg_keys names) \<longleftrightarrow> (\<exists>e. Some e \<in> set names - {None} \<and> fst e = s)"
  proof
    assume "Some s \<in> set (reg_keys names)"
    then obtain x where "x \<in> set names" "Some s = map_option fst x" unfolding reg_keys_def set_map by (rule imageE)
    moreover from this(2) obtain e where "x = Some e" "fst e = s" by (cases x) simp_all
    ultimately show "\<exists>e. Some e \<in> set names - {None} \<and> fst e = s" by blast
  next
    assume "\<exists>e. Some e \<in> set names - {None} \<and> fst e = s"
    then obtain e where "Some e \<in> set names" "fst e = s" by blast
    then show "Some s \<in> set (reg_keys names)" unfolding reg_keys_def by (force simp: image_iff)
  qed
  also have "\<dots> \<longleftrightarrow> s \<in> fst ` set entries"
    using assms unfolding reg_table_ok_def image_iff by (simp only:) blast
  finally show ?thesis .
qed

lemma asm_add_register_name_ok:
  assumes ok: "reg_table_ok names entries" and room: "length entries < ASM_REGISTER_SLOTS"
    and new: "fst e \<notin> fst ` set entries"
  shows "\<exists>names'. asm_add_register_name names e = Some names' \<and> reg_table_ok names' (entries @ [e])"
proof -
  let ?s = "probe_slot asm_register_hash (reg_keys names) (fst e)"
  have len: "length names = ASM_REGISTER_SLOTS" using ok by (simp add: reg_table_ok_def)
  note has = reg_room [OF ok room]
  have none: "Some (fst e) \<notin> set (reg_keys names)" using new reg_key_iff [OF ok] by simp
  have other: "reg_keys names ! i \<noteq> Some (fst e)" if "i < length names" for i
    using none that nth_mem [of i "reg_keys names"] by (metis reg_keys_length)
  have "while_option (\<lambda>slot. names ! slot \<noteq> None) (\<lambda>slot. (slot + 1) mod ASM_REGISTER_SLOTS)
      (asm_register_hash (fst e)) = Some ?s"
    using other by (intro probe_loop [OF has]) (simp_all add: len hash_in_table reg_keys_nth)
  then have add: "asm_add_register_name names e = Some (names[?s := Some e])"
    by (simp add: asm_add_register_name_def)
  have s: "?s < length names" using probe_slot_less [OF has] by simp
  have free: "names ! ?s = None"
    using probe_slot_found_iff [of asm_register_hash "reg_keys names" "fst e"] has none ok s
    by (simp add: reg_table_ok_def reg_keys_nth)
  have keys: "reg_keys (names[?s := Some e]) = (reg_keys names)[?s := Some (fst e)]"
    by (simp add: reg_keys_def map_update)
  have "set (names[?s := Some e]) - {None} = insert (Some e) (set names - {None})"
  proof (rule set_eqI)
    fix x
    show "x \<in> set (names[?s := Some e]) - {None} \<longleftrightarrow> x \<in> insert (Some e) (set names - {None})"
    proof
      assume "x \<in> set (names[?s := Some e]) - {None}"
      then show "x \<in> insert (Some e) (set names - {None})" using set_update_subset_insert [of names ?s "Some e"] by blast
    next
      assume x: "x \<in> insert (Some e) (set names - {None})"
      show "x \<in> set (names[?s := Some e]) - {None}"
      proof (cases "x = Some e")
        case True
        then show ?thesis using set_update_memI [OF s] by simp
      next
        case False
        then obtain i where i: "i < length names" "names ! i = x" "x \<noteq> None" using x by (auto simp: in_set_conv_nth)
        then have "names[?s := Some e] ! i = x" using free by (cases "i = ?s") simp_all
        then show ?thesis using i by (metis Diff_iff length_list_update nth_mem singletonD)
      qed
    qed
  qed
  moreover have "probe_ok asm_register_hash (reg_keys (names[?s := Some e]))"
    unfolding keys using ok has by (intro probe_ok_put) (simp_all add: reg_table_ok_def)
  ultimately show ?thesis using add ok by (simp add: reg_table_ok_def)
qed

lemma register_names_distinct: "distinct (map fst register_list)"
  by code_simp

lemma asm_register_names_ok: "\<exists>names. asm_register_names = Some names \<and> reg_table_ok names register_list"
proof -
  let ?step = "\<lambda>names entry. case names of None \<Rightarrow> None | Some names \<Rightarrow> asm_add_register_name names entry"
  have "\<exists>names. foldl ?step (Some (replicate ASM_REGISTER_SLOTS None)) es = Some names \<and> reg_table_ok names es"
    if "distinct (map fst es)" "length es \<le> ASM_REGISTER_SLOTS" for es
    using that
  proof (induction es rule: rev_induct)
    case Nil
    then show ?case by (auto simp: reg_table_ok_def reg_keys_def probe_ok_empty)
  next
    case (snoc e es)
    then obtain names where n: "foldl ?step (Some (replicate ASM_REGISTER_SLOTS None)) es = Some names" "reg_table_ok names es"
      by auto
    have "fst e \<notin> fst ` set es" using snoc.prems(1) by auto
    then show ?case using asm_add_register_name_ok [OF n(2), of e] n(1) snoc.prems(2) by simp
  qed
  moreover have "length register_list \<le> ASM_REGISTER_SLOTS" by code_simp
  ultimately show ?thesis using register_names_distinct unfolding asm_register_names_def by blast
qed

lemma asm_find_register_eq:
  assumes ok: "reg_table_ok names register_list"
  shows "asm_find_register names s = Some (probe_slot asm_register_hash (reg_keys names) s)"
proof -
  have "length register_list < ASM_REGISTER_SLOTS" by code_simp
  then have room: "has_room (reg_keys names)" by (rule reg_room [OF ok])
  have len: "length names = ASM_REGISTER_SLOTS" using ok by (simp add: reg_table_ok_def)
  show ?thesis
    unfolding asm_find_register_def
    by (rule probe_loop [OF room]) (auto simp: len hash_in_table reg_keys_nth asm_is_name_def)
qed

text \<open>The entry of the table at the end of the search.\<close>

lemma found_register:
  assumes ok: "reg_table_ok names register_list"
  shows "names ! probe_slot asm_register_hash (reg_keys names) s = Some (s, r, w) \<longleftrightarrow> (s, r, w) \<in> set register_list"
    and "names ! probe_slot asm_register_hash (reg_keys names) s \<noteq> None \<Longrightarrow>
      \<exists>r w. names ! probe_slot asm_register_hash (reg_keys names) s = Some (s, r, w)"
proof -
  let ?s = "probe_slot asm_register_hash (reg_keys names) s"
  have "length register_list < ASM_REGISTER_SLOTS" by code_simp
  then have room: "has_room (reg_keys names)" by (rule reg_room [OF ok])
  have less: "?s < length names" using probe_slot_less [OF room] by simp
  have mem: "names ! ?s = Some e \<Longrightarrow> e \<in> set register_list" for e
  proof -
    assume "names ! ?s = Some e"
    then have "Some e \<in> set names - {None}" using less nth_mem by fastforce
    then show "e \<in> set register_list" using ok by (auto simp: reg_table_ok_def)
  qed
  have key: "reg_keys names ! ?s = (if s \<in> fst ` set register_list then Some s else None)"
    using probe_slot_found_iff [of asm_register_hash "reg_keys names" s] room ok reg_key_iff [OF ok]
    by (simp add: reg_table_ok_def)
  show some: "\<exists>r w. names ! ?s = Some (s, r, w)" if ne: "names ! ?s \<noteq> None"
  proof -
    obtain e where e: "names ! ?s = Some e" using ne by blast
    then have "fst e = s" using key less by (simp add: reg_keys_nth split: if_splits)
    then show ?thesis using e by (cases e) auto
  qed
  show "names ! ?s = Some (s, r, w) \<longleftrightarrow> (s, r, w) \<in> set register_list"
  proof
    assume m: "(s, r, w) \<in> set register_list"
    then have "names ! ?s \<noteq> None" using key less by (force simp: reg_keys_nth split: if_splits)
    then obtain r' w' where f: "names ! ?s = Some (s, r', w')" using some by blast
    then have "(s, r', w') \<in> set register_list" by (rule mem)
    then have "(r', w') = (r, w)" using m eq_key_imp_eq_value [OF register_names_distinct] by blast
    then show "names ! ?s = Some (s, r, w)" using f by simp
  qed (rule mem)
qed

lemma register_list_shape:
  "(s, r, w) \<in> set register_list \<Longrightarrow>
    2 \<le> length s \<and> length s \<le> 5 \<and> hd s \<in> set ''abcdersx'' \<and> r < 16 \<and> w \<in> {1, 2, 4, 8}"
proof -
  have "list_all (\<lambda>(s, r, w). 2 \<le> length s \<and> length s \<le> 5 \<and> hd s \<in> set ''abcdersx'' \<and> r < 16 \<and> w \<in> {1, 2, 4, 8})
      register_list"
    by code_simp
  then show "(s, r, w) \<in> set register_list \<Longrightarrow> ?thesis" unfolding list_all_iff by fast
qed

lemma in_register_range:
  "2 \<le> n \<and> n \<le> (5 :: nat) \<and> c \<in> firsts \<and> P \<Longrightarrow> \<not> (n < 2 \<or> 5 < n \<or> c \<notin> firsts)"
  by auto

definition reg_operand :: "nat \<Rightarrow> nat \<Rightarrow> asm_operand" where
  "reg_operand r w = no_operand\<lparr>op_kind := ASM_REG, op_reg := r, op_width := w, op_high8 := (w = 1 \<and> 4 \<le> r \<and> r \<le> 7)\<rparr>"

text \<open>The guard of the parser, and the parser with a table that is in order.\<close>

definition no_register_text :: "string \<Rightarrow> bool" where
  "no_register_text s \<longleftrightarrow> length s < 2 \<or> 5 < length s \<or> hd s \<notin> set ''abcdersx''"

lemma parse_register_table:
  obtains names where "reg_table_ok names register_list"
    and "asm_parse_register s =
      (if no_register_text s then None
       else case names ! probe_slot asm_register_hash (reg_keys names) s of
              Some (name, reg, width) \<Rightarrow> Some (reg_operand reg width)
            | None \<Rightarrow> parse_xmm s)"
proof -
  obtain names where n: "asm_register_names = Some names" "reg_table_ok names register_list"
    using asm_register_names_ok by blast
  let ?e = "names ! probe_slot asm_register_hash (reg_keys names) s"
  have "asm_parse_register s =
      (if no_register_text s then None
       else case ?e of Some (name, reg, width) \<Rightarrow> Some (reg_operand reg width) | None \<Rightarrow> parse_xmm s)"
    unfolding asm_parse_register_def no_register_text_def [symmetric] n(1) reg_operand_def
    by (cases "?e") (simp_all add: asm_find_register_eq [OF n(2)] split: prod.split)
  then show thesis using that n(2) by blast
qed

lemma parse_register_cases:
  assumes "asm_parse_register s = Some op"
  shows "op_kind op = ASM_REG \<or> parse_xmm s = Some op"
proof -
  obtain names where "asm_parse_register s =
      (if no_register_text s then None
       else case names ! probe_slot asm_register_hash (reg_keys names) s of
              Some (name, reg, width) \<Rightarrow> Some (reg_operand reg width)
            | None \<Rightarrow> parse_xmm s)"
    using parse_register_table by blast
  then show ?thesis using assms by (auto simp: reg_operand_def split: if_splits option.splits)
qed

lemma parse_register_eq:
  "asm_parse_register s = Some op \<and> op_kind op = ASM_REG \<longleftrightarrow>
    (\<exists>r w. (s, r, w) \<in> set register_list \<and> op = reg_operand r w)"
proof -
  obtain names where n: "reg_table_ok names register_list"
    and parse: "asm_parse_register s =
      (if no_register_text s then None
       else case names ! probe_slot asm_register_hash (reg_keys names) s of
              Some (name, reg, width) \<Rightarrow> Some (reg_operand reg width)
            | None \<Rightarrow> parse_xmm s)"
    using parse_register_table by blast
  let ?e = "names ! probe_slot asm_register_hash (reg_keys names) s"
  have xmm: "parse_xmm s = Some op \<Longrightarrow> op_kind op \<noteq> ASM_REG"
    by (auto simp: parse_xmm_def Let_def split: if_splits)
  show ?thesis
  proof (cases ?e)
    case None
    then have "(s, r, w) \<notin> set register_list" for r w using found_register(1) [OF n, of s r w] by simp
    then show ?thesis using parse None xmm by (auto split: if_splits)
  next
    case (Some e)
    then obtain r w where e: "?e = Some (s, r, w)" using found_register(2) [OF n, of s] by auto
    then have m: "(s, r, w) \<in> set register_list" using found_register(1) [OF n] by blast
    have only: "(s, r', w') \<in> set register_list \<Longrightarrow> r' = r \<and> w' = w" for r' w'
      using found_register(1) [OF n, of s r' w'] unfolding e by simp
    have in_range: "\<not> no_register_text s"
      unfolding no_register_text_def by (rule in_register_range [OF register_list_shape [OF m]])
    have "asm_parse_register s = Some (reg_operand r w)"
      unfolding parse e using in_range by simp
    then have "asm_parse_register s = Some op \<and> op_kind op = ASM_REG \<longleftrightarrow> op = reg_operand r w"
      by (auto simp: reg_operand_def)
    then show ?thesis using m only by blast
  qed
qed

text \<open>C22: a text is parsed as a general register exactly when it is one of the 64 names, and then as the
  register and width of that name, with the mark that \<^verbatim>\<open>spl\<close>, \<^verbatim>\<open>bpl\<close>, \<^verbatim>\<open>sil\<close> and
  \<^verbatim>\<open>dil\<close> need.\<close>

theorem asm_parse_register_exact:
  "asm_parse_register s = Some op \<and> op_kind op = ASM_REG \<longleftrightarrow>
    (\<exists>r < 16. \<exists>w. (s, w) \<in> {(asm_reg64 ! r, 8), (asm_reg32 ! r, 4), (asm_reg16 ! r, 2), (asm_reg8 ! r, 1)} \<and>
       op = reg_operand r w)"
proof -
  have "(s, r, w) \<in> set register_list \<longleftrightarrow>
      r < 16 \<and> (s, w) \<in> {(asm_reg64 ! r, 8), (asm_reg32 ! r, 4), (asm_reg16 ! r, 2), (asm_reg8 ! r, 1)}" for r w
    by (auto simp: register_list_def)
  then show ?thesis unfolding parse_register_eq by blast
qed

end
