(* ===== verification/AsmEncode.thy ===== *)
theory AsmEncode
  imports AsmOperand
begin

text \<open>
  The encoder of the assembler \<^verbatim>\<open>src/src/x64_asm.c\<close>: from a mnemonic and its operands to the bytes
  of an instruction. \<open>None\<close> is the \<^verbatim>\<open>false\<close> of the code, an instruction that is not known. The
  symbol searches of the object always end for an object in order, so no other branch gives \<open>None\<close>.
\<close>

record asm_encoder =
  e_obj :: asm_object
  e_bytes :: "u8 list"
  e_relocs :: "asm_reloc list"
  e_rip_field :: "nat option"

definition enc_byte :: "asm_encoder \<Rightarrow> nat \<Rightarrow> asm_encoder" where
  "enc_byte e b = e\<lparr>e_bytes := e_bytes e @ [of_nat b]\<rparr>"

definition enc_imm :: "asm_encoder \<Rightarrow> i64 \<Rightarrow> nat \<Rightarrow> asm_encoder" where
  "enc_imm e v n = e\<lparr>e_bytes := e_bytes e @ le_bytes n v\<rparr>"

definition fits_i8 :: "i64 \<Rightarrow> bool" where
  "fits_i8 v \<longleftrightarrow> - 128 \<le> sint v \<and> sint v \<le> 127"

definition fits_i32 :: "i64 \<Rightarrow> bool" where
  "fits_i32 v \<longleftrightarrow> - 2147483648 \<le> sint v \<and> sint v \<le> 2147483647"

text \<open>The REX prefix, when one is needed.\<close>

definition rex_byte :: "bool \<Rightarrow> nat \<Rightarrow> bool \<Rightarrow> asm_operand \<Rightarrow> nat option option" where
  "rex_byte rex_w reg reg_high8 rm =
     (let rex = 0x40 OR (if rex_w then 8 else 0) OR (if reg AND 8 \<noteq> 0 then 4 else 0);
          need = (rex_w \<or> reg AND 8 \<noteq> 0 \<or> reg_high8)
      in if op_kind rm = ASM_REG \<or> op_kind rm = ASM_XMM
         then Some (let (rex, need) = (if op_reg rm AND 8 \<noteq> 0 then (rex OR 1, True) else (rex, need));
                        need = (need \<or> (op_kind rm = ASM_REG \<and> op_high8 rm))
                    in if need then Some rex else None)
         else if op_kind rm = ASM_MEM
         then Some (let (rex, need) = (if 0 \<le> op_base rm \<and> nat (op_base rm) AND 8 \<noteq> 0 then (rex OR 1, True) else (rex, need));
                        (rex, need) = (if 0 \<le> op_index rm \<and> nat (op_index rm) AND 8 \<noteq> 0 then (rex OR 2, True) else (rex, need))
                    in if need then Some rex else None)
         else None)"

text \<open>A memory operand with a base register.\<close>

definition enc_based :: "asm_encoder \<Rightarrow> nat \<Rightarrow> asm_operand \<Rightarrow> asm_encoder option" where
  "enc_based e r rm =
     (let base = nat (op_base rm) AND 7; disp = op_disp rm
      in if \<not> fits_i32 disp then None
         else
           let md = (if disp = 0 \<and> base \<noteq> 5 then 0 else if fits_i8 disp then 1 else 2 :: nat);
               e = (if 0 \<le> op_index rm
                    then enc_byte (enc_byte e (push_bit 6 md OR push_bit 3 r OR 4))
                           (push_bit 3 (nat (op_index rm) AND 7) OR base)
                    else if base = 4 then enc_byte (enc_byte e (push_bit 6 md OR push_bit 3 r OR 4)) 0x24
                    else enc_byte e (push_bit 6 md OR push_bit 3 r OR base));
               e = (if md = 1 then enc_imm e disp 1 else e)
           in Some (if md = 2 then enc_imm e disp 4 else e))"

definition rel32_reloc :: "asm_encoder \<Rightarrow> string \<Rightarrow> i64 \<Rightarrow> asm_encoder option" where
  "rel32_reloc e name addend = do {
     (symbol, obj) \<leftarrow> asm_symbol (e_obj e) name;
     Some (e\<lparr>e_obj := obj,
             e_relocs := e_relocs e @ [\<lparr>r_section = ASM_TEXT, r_offset = length (e_bytes e), r_kind = ASM_RELOC_REL32,
                                        r_symbol = symbol, r_addend = addend, r_trailing = 0\<rparr>]\<rparr>)
   }"

definition enc_rip :: "asm_encoder \<Rightarrow> nat \<Rightarrow> asm_operand \<Rightarrow> asm_encoder option" where
  "enc_rip e r rm =
     (let e = enc_byte e (0x05 OR push_bit 3 r);
          e = e\<lparr>e_rip_field := Some (length (e_bytes e))\<rparr>
      in map_option (\<lambda>e. enc_imm e 0 4) (rel32_reloc e (op_symbol rm) (op_disp rm)))"

definition enc_modrm ::
    "asm_encoder \<Rightarrow> nat \<Rightarrow> bool \<Rightarrow> nat list \<Rightarrow> nat \<Rightarrow> bool \<Rightarrow> asm_operand \<Rightarrow> asm_encoder option" where
  "enc_modrm e prefix rex_w opcode reg reg_high8 rm =
     (case rex_byte rex_w reg reg_high8 rm of
        None \<Rightarrow> None
      | Some rex \<Rightarrow>
          let e = (if prefix \<noteq> 0 then enc_byte e prefix else e);
              e = (case rex of Some b \<Rightarrow> enc_byte e b | None \<Rightarrow> e);
              e = foldl enc_byte e opcode;
              r = reg AND 7
          in if op_kind rm = ASM_REG \<or> op_kind rm = ASM_XMM
             then Some (enc_byte e (0xC0 OR push_bit 3 r OR (op_reg rm AND 7)))
             else if op_base rm < 0 then enc_rip e r rm
             else enc_based e r rm)"

text \<open>The bytes after a rip-relative displacement, e.g. an immediate.\<close>

definition enc_finish :: "asm_encoder \<Rightarrow> asm_encoder" where
  "enc_finish e =
     (case e_rip_field e of
        Some field \<Rightarrow>
          e\<lparr>e_relocs := map (\<lambda>r. if r_offset r = field then r\<lparr>r_trailing := length (e_bytes e) - (field + 4)\<rparr> else r)
                           (e_relocs e)\<rparr>
      | None \<Rightarrow> e)"

definition is_gpr :: "asm_operand \<Rightarrow> bool" where "is_gpr op \<longleftrightarrow> op_kind op = ASM_REG"
definition is_xmm :: "asm_operand \<Rightarrow> bool" where "is_xmm op \<longleftrightarrow> op_kind op = ASM_XMM"
definition is_mem :: "asm_operand \<Rightarrow> bool" where "is_mem op \<longleftrightarrow> op_kind op = ASM_MEM"
definition is_rm :: "asm_operand \<Rightarrow> bool" where "is_rm op \<longleftrightarrow> op_kind op = ASM_REG \<or> op_kind op = ASM_MEM"
definition is_xm :: "asm_operand \<Rightarrow> bool" where "is_xm op \<longleftrightarrow> op_kind op = ASM_XMM \<or> op_kind op = ASM_MEM"
definition is_imm :: "asm_operand \<Rightarrow> bool" where "is_imm op \<longleftrightarrow> op_kind op = ASM_IMM"

text \<open>The width of an instruction, from the one or two operands that are given.\<close>

definition asm_width :: "asm_operand list \<Rightarrow> nat" where
  "asm_width ops =
     (case find is_gpr ops of
        Some op \<Rightarrow> op_width op
      | None \<Rightarrow> (case find (\<lambda>op. is_mem op \<and> op_width op \<noteq> 0) ops of Some op \<Rightarrow> op_width op | None \<Rightarrow> 0))"

definition size_prefix :: "nat \<Rightarrow> nat" where
  "size_prefix width = (if width = 2 then 0x66 else 0)"

definition enc_gpr :: "asm_encoder \<Rightarrow> nat \<Rightarrow> nat \<Rightarrow> nat \<Rightarrow> nat \<Rightarrow> bool \<Rightarrow> asm_operand \<Rightarrow> asm_encoder option" where
  "enc_gpr e width opcode8 opcode reg reg_high8 rm =
     enc_modrm e (size_prefix width) (width = 8) [if width = 1 then opcode8 else opcode] reg reg_high8 rm"

definition condition_codes :: "(string \<times> nat) list" where
  "condition_codes =
     [(''o'', 0), (''no'', 1), (''b'', 2), (''c'', 2), (''nae'', 2), (''ae'', 3), (''nb'', 3), (''nc'', 3), (''e'', 4), (''z'', 4),
      (''ne'', 5), (''nz'', 5), (''be'', 6), (''na'', 6), (''a'', 7), (''nbe'', 7), (''s'', 8), (''ns'', 9), (''p'', 10), (''pe'', 10),
      (''np'', 11), (''po'', 11), (''l'', 12), (''nge'', 12), (''ge'', 13), (''nl'', 13), (''le'', 14), (''ng'', 14), (''g'', 15), (''nle'', 15)]"

definition asm_condition :: "string \<Rightarrow> nat option" where
  "asm_condition cc = map_of condition_codes cc"

text \<open>A prefix and the second byte of the opcode.\<close>

definition asm_sse_arith :: "(string \<times> nat \<times> nat) list" where
  "asm_sse_arith =
     [(''addsd'', 0xF2, 0x58), (''addss'', 0xF3, 0x58), (''subsd'', 0xF2, 0x5C), (''subss'', 0xF3, 0x5C),
      (''mulsd'', 0xF2, 0x59), (''mulss'', 0xF3, 0x59), (''divsd'', 0xF2, 0x5E), (''divss'', 0xF3, 0x5E),
      (''ucomisd'', 0x66, 0x2E), (''ucomiss'', 0, 0x2E), (''xorps'', 0, 0x57),
      (''cvtss2sd'', 0xF3, 0x5A), (''cvtsd2ss'', 0xF2, 0x5A), (''sqrtsd'', 0xF2, 0x51), (''sqrtss'', 0xF3, 0x51)]"

section \<open>The instructions\<close>

definition no_operand_bytes :: "(string \<times> nat list) list" where
  "no_operand_bytes = [(''ret'', [0xC3]), (''leave'', [0xC9]), (''cqo'', [0x48, 0x99]), (''cdq'', [0x99]), (''nop'', [0x90])]"

definition enc_plain :: "asm_encoder \<Rightarrow> string \<Rightarrow> asm_encoder option" where
  "enc_plain e m = map_option (foldl enc_byte e) (map_of no_operand_bytes m)"

definition alu_names :: "(string \<times> nat) list" where
  "alu_names = [(''add'', 0), (''or'', 1), (''adc'', 2), (''sbb'', 3), (''and'', 4), (''sub'', 5), (''xor'', 6), (''cmp'', 7)]"

definition enc_alu :: "asm_encoder \<Rightarrow> nat \<Rightarrow> asm_operand list \<Rightarrow> asm_encoder option" where
  "enc_alu e op ops =
     (if length ops \<noteq> 2 then None
      else
        let a = ops ! 0; b = ops ! 1; width = asm_width ops
        in if is_rm a \<and> is_gpr b then enc_gpr e width (op * 8) (op * 8 + 1) (op_reg b) (op_high8 b) a
           else if is_gpr a \<and> is_mem b then enc_gpr e width (op * 8 + 2) (op * 8 + 3) (op_reg a) (op_high8 a) b
           else if is_rm a \<and> is_imm b
           then if width = 0 then None
                else map_option enc_finish
                  (if width = 1 then map_option (\<lambda>e. enc_imm e (op_imm b) 1) (enc_gpr e 1 0x80 0x80 op False a)
                   else if fits_i8 (op_imm b) then map_option (\<lambda>e. enc_imm e (op_imm b) 1) (enc_gpr e width 0x83 0x83 op False a)
                   else if is_gpr a \<and> op_reg a = 0
                   then (let e = (if width = 2 then enc_byte e 0x66 else e);
                             e = (if width = 8 then enc_byte e 0x48 else e)
                         in Some (enc_imm (enc_byte e (op * 8 + 5)) (op_imm b) (if width = 2 then 2 else 4)))
                   else map_option (\<lambda>e. enc_imm e (op_imm b) (if width = 2 then 2 else 4)) (enc_gpr e width 0x81 0x81 op False a))
           else None)"

definition enc_mov :: "asm_encoder \<Rightarrow> asm_operand list \<Rightarrow> asm_encoder option" where
  "enc_mov e ops =
     (let a = ops ! 0; b = ops ! 1; width = asm_width ops; imm = op_imm b
      in if is_rm a \<and> is_gpr b then enc_gpr e width 0x88 0x89 (op_reg b) (op_high8 b) a
         else if is_gpr a \<and> is_mem b then enc_gpr e width 0x8A 0x8B (op_reg a) (op_high8 a) b
         else if is_gpr a \<and> is_imm b
         then (let width = (if width = 8 \<and> 0 \<le> sint imm \<and> sint imm \<le> 0xFFFFFFFF then 4 else width)
               in if width = 8 \<and> fits_i32 imm
                  then map_option (\<lambda>e. enc_imm e imm 4) (enc_gpr e 8 0xC7 0xC7 0 False a)
                  else
                    let e = (if width = 2 then enc_byte e 0x66 else e);
                        e = (if width = 8 \<or> op_reg a AND 8 \<noteq> 0 \<or> op_high8 a
                             then enc_byte e (0x40 OR (if width = 8 then 8 else 0) OR (if op_reg a AND 8 \<noteq> 0 then 1 else 0))
                             else e);
                        e = enc_byte e ((if width = 1 then 0xB0 else 0xB8) + (op_reg a AND 7))
                    in Some (enc_imm e imm (if width = 8 then 8 else width)))
         else if is_mem a \<and> is_imm b
         then if width = 0 then None
              else map_option (\<lambda>e. enc_finish (enc_imm e imm (if width = 1 then 1 else if width = 2 then 2 else 4)))
                     (enc_gpr e width 0xC6 0xC7 0 False a)
         else None)"

text \<open>The names, the opcodes for a byte and for the other widths, and the extension.\<close>

definition unary_ops :: "(string \<times> nat \<times> nat \<times> nat) list" where
  "unary_ops =
     [(''not'', 0xF6, 0xF7, 2), (''neg'', 0xF6, 0xF7, 3), (''mul'', 0xF6, 0xF7, 4), (''div'', 0xF6, 0xF7, 6),
      (''idiv'', 0xF6, 0xF7, 7), (''inc'', 0xFE, 0xFF, 0), (''dec'', 0xFE, 0xFF, 1)]"

definition enc_unary :: "asm_encoder \<Rightarrow> nat \<times> nat \<times> nat \<Rightarrow> asm_operand list \<Rightarrow> asm_encoder option" where
  "enc_unary e entry ops =
     (let (opcode8, opcode, ext) = entry; a = ops ! 0
      in if length ops \<noteq> 1 \<or> \<not> is_rm a then None
         else if asm_width [a] = 0 then None
         else enc_gpr e (asm_width [a]) opcode8 opcode ext False a)"

definition shift_ops :: "(string \<times> nat) list" where
  "shift_ops = [(''rol'', 0), (''ror'', 1), (''shl'', 4), (''sal'', 4), (''shr'', 5), (''sar'', 7)]"

definition enc_shift :: "asm_encoder \<Rightarrow> nat \<Rightarrow> asm_operand list \<Rightarrow> asm_encoder option" where
  "enc_shift e ext ops =
     (let a = ops ! 0; b = ops ! 1; width = asm_width [a]
      in if length ops \<noteq> 2 \<or> \<not> is_rm a then None
         else if width = 0 then None
         else if is_gpr b \<and> op_reg b = 1 \<and> op_width b = 1 then enc_gpr e width 0xD2 0xD3 ext False a
         else if is_imm b \<and> op_imm b = 1 then enc_gpr e width 0xD0 0xD1 ext False a
         else if is_imm b
         then map_option (\<lambda>e. enc_finish (enc_imm e (op_imm b) 1)) (enc_gpr e width 0xC0 0xC1 ext False a)
         else None)"

definition bit_ops :: "(string \<times> nat) list" where
  "bit_ops = [(''bt'', 4), (''bts'', 5), (''btr'', 6), (''btc'', 7)]"

definition enc_bit :: "asm_encoder \<Rightarrow> nat \<Rightarrow> asm_operand list \<Rightarrow> asm_encoder option" where
  "enc_bit e ext ops =
     (let a = ops ! 0; b = ops ! 1; width = asm_width [a]
      in if length ops \<noteq> 2 \<or> \<not> is_rm a \<or> \<not> is_imm b then None
         else map_option (\<lambda>e. enc_finish (enc_imm e (op_imm b) 1))
                (enc_modrm e (size_prefix width) (width = 8) [0x0F, 0xBA] ext False a))"

definition enc_stack :: "asm_encoder \<Rightarrow> nat \<Rightarrow> asm_operand \<Rightarrow> asm_encoder" where
  "enc_stack e opcode a =
     (let e = (if op_reg a AND 8 \<noteq> 0 then enc_byte e 0x41 else e)
      in enc_byte e (opcode + (op_reg a AND 7)))"

definition enc_call :: "asm_encoder \<Rightarrow> asm_operand \<Rightarrow> asm_encoder option" where
  "enc_call e a =
     (if is_rm a then enc_modrm e 0 False [0xFF] 2 False a
      else if op_kind a = ASM_LABEL
      then map_option (\<lambda>e. enc_imm e 0 4) (rel32_reloc (enc_byte e 0xE8) (op_symbol a) 0)
      else None)"

text \<open>A move with one opcode for a load and one for a store.\<close>

definition enc_sse_move :: "asm_encoder \<Rightarrow> nat \<Rightarrow> nat \<Rightarrow> asm_operand list \<Rightarrow> asm_encoder option" where
  "enc_sse_move e prefix load ops =
     (let a = ops ! 0; b = ops ! 1
      in if is_xmm a \<and> is_xm b then enc_modrm e prefix False [0x0F, load] (op_reg a) False b
         else if is_mem a \<and> is_xmm b then enc_modrm e prefix False [0x0F, load + 1] (op_reg b) False a
         else None)"

definition enc_sse_gpr :: "asm_encoder \<Rightarrow> bool \<Rightarrow> asm_operand list \<Rightarrow> asm_encoder option" where
  "enc_sse_gpr e wide ops =
     (let a = ops ! 0; b = ops ! 1
      in if is_xmm a \<and> is_rm b then enc_modrm e 0x66 wide [0x0F, 0x6E] (op_reg a) False b
         else if is_rm a \<and> is_xmm b then enc_modrm e 0x66 wide [0x0F, 0x7E] (op_reg b) False a
         else None)"

definition enc_sse_arith :: "asm_encoder \<Rightarrow> nat \<times> nat \<Rightarrow> asm_operand list \<Rightarrow> asm_encoder option" where
  "enc_sse_arith e entry ops =
     (let (prefix, opcode) = entry; a = ops ! 0; b = ops ! 1
      in if length ops \<noteq> 2 \<or> \<not> is_xmm a \<or> \<not> is_xm b then None
         else enc_modrm e prefix False [0x0F, opcode] (op_reg a) False b)"

text \<open>The loads and conversions into a register: of two operands, the guard and the encoding.\<close>

definition enc_extend :: "asm_encoder \<Rightarrow> nat \<Rightarrow> asm_operand \<Rightarrow> asm_operand \<Rightarrow> asm_encoder option" where
  "enc_extend e opcode a b =
     (let from = op_width b
      in if from \<noteq> 1 \<and> from \<noteq> 2 then None
         else enc_modrm e (size_prefix (op_width a)) (op_width a = 8) [0x0F, opcode + (if from = 2 then 1 else 0)]
                (op_reg a) False b)"

text \<open>The cases of \<^verbatim>\<open>asm_encode\<close> after the ones that are found in a table.\<close>

definition asm_encode_rest :: "asm_encoder \<Rightarrow> string \<Rightarrow> asm_operand list \<Rightarrow> asm_encoder option" where
  "asm_encode_rest e m ops =
     (let n = length ops; a = ops ! 0; b = ops ! 1
      in if take 3 m = ''set'' \<and> n = 1 \<and> is_rm a
         then (case asm_condition (drop 3 m) of
                 Some cc \<Rightarrow> enc_modrm e 0 False [0x0F, 0x90 + cc] 0 False a
               | None \<Rightarrow> None)
         else if m = ''push'' \<and> n = 1 \<and> is_gpr a \<and> op_width a = 8 then Some (enc_stack e 0x50 a)
         else if m = ''pop'' \<and> n = 1 \<and> is_gpr a \<and> op_width a = 8 then Some (enc_stack e 0x58 a)
         else if m = ''call'' \<and> n = 1 then enc_call e a
         else if (m = ''movsd'' \<or> m = ''movss'') \<and> n = 2
         then enc_sse_move e (if m ! 4 = CHR ''d'' then 0xF2 else 0xF3) 0x10 ops
         else if (m = ''movaps'' \<or> m = ''movups'') \<and> n = 2
         then enc_sse_move e 0 (if m ! 3 = CHR ''a'' then 0x28 else 0x10) ops
         else if (m = ''movq'' \<or> m = ''movd'') \<and> n = 2 then enc_sse_gpr e (m ! 3 = CHR ''q'') ops
         else (case map_of asm_sse_arith m of
           Some entry \<Rightarrow> enc_sse_arith e entry ops
         | None \<Rightarrow>
             if (m = ''cvtsi2sd'' \<or> m = ''cvtsi2ss'') \<and> n = 2 \<and> is_xmm a \<and> is_rm b
             then enc_modrm e (if m ! 7 = CHR ''d'' then 0xF2 else 0xF3) (asm_width [b] = 8) [0x0F, 0x2A] (op_reg a) False b
             else if (m = ''cvttsd2si'' \<or> m = ''cvttss2si'') \<and> n = 2 \<and> is_gpr a \<and> is_xm b
             then enc_modrm e (if m ! 5 = CHR ''d'' then 0xF2 else 0xF3) (op_width a = 8) [0x0F, 0x2C] (op_reg a) False b
             else None))"

definition asm_encode :: "asm_encoder \<Rightarrow> string \<Rightarrow> asm_operand list \<Rightarrow> asm_encoder option" where
  "asm_encode e m ops =
     (let n = length ops; a = ops ! 0; b = ops ! 1
      in if n = 0 then enc_plain e m
         else (case map_of alu_names m of
           Some op \<Rightarrow> enc_alu e op ops
         | None \<Rightarrow>
             if m = ''test'' \<and> n = 2 \<and> is_rm a \<and> is_gpr b then enc_gpr e (asm_width ops) 0x84 0x85 (op_reg b) (op_high8 b) a
             else if m = ''mov'' \<and> n = 2 then enc_mov e ops
             else if m = ''lea'' \<and> n = 2 \<and> is_gpr a \<and> is_mem b
             then enc_modrm e (size_prefix (op_width a)) (op_width a = 8) [0x8D] (op_reg a) False b
             else if (m = ''movzx'' \<or> m = ''movsx'') \<and> n = 2 \<and> is_gpr a \<and> is_rm b
             then enc_extend e (if m ! 3 = CHR ''z'' then 0xB6 else 0xBE) a b
             else if m = ''movsxd'' \<and> n = 2 \<and> is_gpr a \<and> is_rm b then enc_modrm e 0 True [0x63] (op_reg a) False b
             else if m = ''imul'' \<and> n = 2 \<and> is_gpr a \<and> is_rm b
             then enc_modrm e (size_prefix (op_width a)) (op_width a = 8) [0x0F, 0xAF] (op_reg a) False b
             else (case map_of unary_ops m of
               Some entry \<Rightarrow> enc_unary e entry ops
             | None \<Rightarrow>
                 (case map_of shift_ops m of
                    Some ext \<Rightarrow> enc_shift e ext ops
                  | None \<Rightarrow>
                      (case map_of bit_ops m of
                         Some ext \<Rightarrow> enc_bit e ext ops
                       | None \<Rightarrow> asm_encode_rest e m ops)))))"

definition new_encoder :: "asm_object \<Rightarrow> asm_encoder" where
  "new_encoder obj = \<lparr>e_obj = obj, e_bytes = [], e_relocs = [], e_rip_field = None\<rparr>"

section \<open>The length of an instruction\<close>

text \<open>An encoder after some more steps: at most \<open>k\<close> bytes and \<open>r\<close> relocations more.\<close>

definition adds :: "nat \<Rightarrow> nat \<Rightarrow> asm_encoder \<Rightarrow> asm_encoder \<Rightarrow> bool" where
  "adds k r e e' \<longleftrightarrow> (\<exists>bs. e_bytes e' = e_bytes e @ bs \<and> length bs \<le> k) \<and> length (e_relocs e') \<le> length (e_relocs e) + r"

definition grows :: "nat \<Rightarrow> nat \<Rightarrow> asm_encoder \<Rightarrow> asm_encoder option \<Rightarrow> bool" where
  "grows k r e res \<longleftrightarrow> (\<forall>e'. res = Some e' \<longrightarrow> adds k r e e')"

lemma adds_trans: "adds k r e e1 \<Longrightarrow> adds k' r' e1 e2 \<Longrightarrow> k + k' \<le> k'' \<Longrightarrow> r + r' \<le> r'' \<Longrightarrow> adds k'' r'' e e2"
  by (fastforce simp: adds_def)

lemma adds_refl: "adds 0 0 e e"
  by (simp add: adds_def)

lemma adds_more: "adds k r e e' \<Longrightarrow> k \<le> k' \<Longrightarrow> r \<le> r' \<Longrightarrow> adds k' r' e e'"
  by (rule adds_trans [OF _ adds_refl]) simp_all

lemma adds_byte: "adds k r e e' \<Longrightarrow> adds (Suc k) r e (enc_byte e' b)"
  by (rule adds_trans [of k r _ e' 1 0]) (simp_all add: adds_def enc_byte_def)

lemma adds_imm: "adds k r e e' \<Longrightarrow> adds (k + n) r e (enc_imm e' v n)"
  by (rule adds_trans [of k r _ e' n 0]) (simp_all add: adds_def enc_imm_def)

lemma adds_opcode: "adds k r e e' \<Longrightarrow> adds (k + length opcode) r e (foldl enc_byte e' opcode)"
proof (induction opcode rule: rev_induct)
  case (snoc b opcode)
  then show ?case using adds_byte [of "k + length opcode" r e _ b] by simp
qed simp

lemma adds_finish: "adds k r e e' \<Longrightarrow> adds k r e (enc_finish e')"
  by (simp add: adds_def enc_finish_def split: option.split)

lemma grows_None: "grows k r e None"
  by (simp add: grows_def)

lemma grows_Some: "adds k r e e' \<Longrightarrow> grows k r e (Some e')"
  by (simp add: grows_def)

lemma grows_if: "(c \<Longrightarrow> grows k r e x) \<Longrightarrow> (\<not> c \<Longrightarrow> grows k r e y) \<Longrightarrow> grows k r e (if c then x else y)"
  by simp

lemma grows_option:
  "grows k r e x \<Longrightarrow> (\<And>v. grows k r e (f v)) \<Longrightarrow> grows k r e (case opt of None \<Rightarrow> x | Some v \<Rightarrow> f v)"
  by (simp split: option.split)

lemma grows_map:
  "grows k r e x \<Longrightarrow> (\<And>e'. adds k r e e' \<Longrightarrow> adds k' r' e (f e')) \<Longrightarrow> grows k' r' e (map_option f x)"
  by (auto simp: grows_def)

lemma grows_more: "grows k r e res \<Longrightarrow> k \<le> k' \<Longrightarrow> r \<le> r' \<Longrightarrow> grows k' r' e res"
  by (auto simp: grows_def dest: adds_more)

lemma adds_reloc: "adds k r e e' \<Longrightarrow> grows k (Suc r) e (rel32_reloc e' name addend)"
  by (auto simp: grows_def rel32_reloc_def adds_def split: Option.bind_splits)

lemma adds_if: "(c \<Longrightarrow> adds k r e x) \<Longrightarrow> (\<not> c \<Longrightarrow> adds k r e y) \<Longrightarrow> adds k r e (if c then x else y)"
  by simp

lemma enc_based_grows:
  assumes "adds k 0 e e'"
  shows "grows (k + 6) 1 e (enc_based e' r rm)"
proof -
  have imm: "adds (k + 6) 1 e (if m = 2 then enc_imm (if m = 1 then enc_imm x v 1 else x) v 4
      else if m = 1 then enc_imm x v 1 else x)" if "adds (k + 2) 0 e x" for x v and m :: nat
    using that by (cases "m = 1"; cases "m = 2") (auto intro: adds_more [OF adds_imm] adds_more)
  have one: "adds (k + 2) 0 e (enc_byte e' b)" and two: "adds (k + 2) 0 e (enc_byte (enc_byte e' b) b')" for b b'
    using adds_byte [OF adds_byte [OF assms]] by (auto intro: adds_more [OF adds_byte [OF assms]])
  show ?thesis
    unfolding enc_based_def Let_def
    by (intro grows_if grows_None grows_Some imm adds_if one two)
qed

lemma enc_rip_grows:
  assumes "adds k 0 e e'"
  shows "grows (k + 6) 1 e (enc_rip e' r rm)"
proof -
  have a: "adds (Suc k) 0 e ((enc_byte e' b)\<lparr>e_rip_field := f\<rparr>)" for b f
    using adds_byte [OF assms, of b] by (simp add: adds_def)
  show ?thesis
    unfolding enc_rip_def Let_def
    by (rule grows_map, rule adds_reloc, rule a, rule adds_more [OF adds_imm]) auto
qed

lemma enc_modrm_grows: "grows (8 + length opcode) 1 e (enc_modrm e prefix w opcode reg h rm)"
proof (cases "rex_byte w reg h rm")
  case (Some rex)
  let ?p = "if prefix \<noteq> 0 then enc_byte e prefix else e"
  let ?x = "case rex of Some b \<Rightarrow> enc_byte ?p b | None \<Rightarrow> ?p"
  have p: "adds 1 0 e ?p" using adds_byte [OF adds_refl] by (auto intro: adds_more [OF adds_refl])
  have "adds 2 0 e ?x"
  proof (cases rex)
    case None
    show ?thesis unfolding None option.case by (rule adds_more [OF p]) simp_all
  next
    case (Some b)
    show ?thesis unfolding Some option.case by (rule adds_more [OF adds_byte [OF p]]) simp_all
  qed
  then have o: "adds (2 + length opcode) 0 e (foldl enc_byte ?x opcode)" by (rule adds_opcode)
  have reg: "grows (8 + length opcode) 1 e (Some (enc_byte (foldl enc_byte ?x opcode) b))" for b
    using adds_more [OF adds_byte [OF o], of "8 + length opcode" 1] by (simp add: grows_Some)
  have mem: "grows (8 + length opcode) 1 e (enc_based (foldl enc_byte ?x opcode) r rm)"
      "grows (8 + length opcode) 1 e (enc_rip (foldl enc_byte ?x opcode) r rm)" for r
    using enc_based_grows [OF o] enc_rip_grows [OF o] by (simp_all add: add.commute add.left_commute)
  show ?thesis unfolding enc_modrm_def Some option.case Let_def by (intro grows_if reg mem)
qed (simp add: enc_modrm_def grows_None)

lemma enc_gpr_grows: "grows 9 1 e (enc_gpr e width o8 o1 reg h rm)"
  using enc_modrm_grows [of "[if width = 1 then o8 else o1]"] by (simp add: enc_gpr_def)

lemma enc_modrm1_grows: "grows 13 1 e (enc_modrm e prefix w [b] reg h rm)"
  by (rule grows_more [OF enc_modrm_grows]) simp_all

lemma enc_modrm2_grows: "grows 13 1 e (enc_modrm e prefix w [b, c] reg h rm)"
  by (rule grows_more [OF enc_modrm_grows]) simp_all

lemma enc_gpr13_grows: "grows 13 1 e (enc_gpr e width o8 o1 reg h rm)"
  by (rule grows_more [OF enc_gpr_grows]) simp_all

text \<open>An immediate of at most four bytes after an operand.\<close>

lemma enc_gpr_imm_grows:
  assumes "n \<le> 4"
  shows "grows 13 1 e (map_option (\<lambda>e. enc_imm e v n) (enc_gpr e width o8 o1 reg h rm))"
proof (rule grows_map [OF enc_gpr_grows])
  fix e' assume a: "adds 9 1 e e'"
  show "adds 13 1 e (enc_imm e' v n)" by (rule adds_more [OF adds_imm [OF a]]) (use assms in simp_all)
qed

lemma enc_gpr_imm_finish_grows:
  "n \<le> 4 \<Longrightarrow> grows 13 1 e (map_option (\<lambda>e. enc_finish (enc_imm e v n)) (enc_gpr e width o8 o1 reg h rm))"
  using enc_gpr_imm_grows [of n e v width o8 o1 reg h rm] by (auto simp: grows_def dest: adds_finish)

lemmas operand_grows = enc_modrm1_grows enc_modrm2_grows enc_gpr13_grows enc_gpr_imm_grows enc_gpr_imm_finish_grows

lemma grows_finish: "grows k r e res \<Longrightarrow> grows k r e (map_option enc_finish res)"
  by (erule grows_map) (rule adds_finish)

lemma enc_alu_grows: "grows 13 1 e (enc_alu e op ops)"
proof -
  have acc: "grows 13 1 e (Some (enc_imm (enc_byte (if c then enc_byte y 0x48 else y) b) v (if d then 2 else 4)))"
    if "adds 1 0 e y" for b c d v y
    using that by (intro grows_Some adds_more [OF adds_imm [OF adds_byte [where k = 2]]])
      (auto intro: adds_more dest: adds_byte simp: numeral_2_eq_2)
  have "adds 1 0 e (if c then enc_byte e 0x66 else e)" for c
    using adds_byte [OF adds_refl] by (auto intro: adds_more [OF adds_refl])
  then show ?thesis
    unfolding enc_alu_def Let_def by (intro grows_if grows_None operand_grows grows_finish acc) simp_all
qed

lemma enc_mov_grows:
  assumes "asm_width ops \<le> 8"
  shows "grows 13 1 e (enc_mov e ops)"
proof -
  have imm: "grows 13 1 e (Some (enc_imm (enc_byte (if c then enc_byte y x else y) b) v n))"
    if y: "adds 1 0 e y" and n: "n \<le> 8" for b c x v y n
  proof -
    have "adds 2 0 e (enc_byte y x)" using adds_byte [OF y] by (simp add: numeral_2_eq_2)
    then have "adds 2 0 e (if c then enc_byte y x else y)" using adds_more [OF y] by simp
    then have a: "adds (3 + n) 0 e (enc_imm (enc_byte (if c then enc_byte y x else y) b) v n)"
      using adds_imm [OF adds_byte] by (metis Suc_1 eval_nat_numeral(3))
    show ?thesis by (rule grows_Some, rule adds_more [OF a]) (use n in simp_all)
  qed
  have "adds 1 0 e (if c then enc_byte e 0x66 else e)" for c
    using adds_byte [OF adds_refl] by (auto intro: adds_more [OF adds_refl])
  then show ?thesis
    unfolding enc_mov_def Let_def by (intro grows_if grows_None operand_grows grows_finish imm) (use assms in auto)
qed

lemma enc_stack_grows: "grows 13 1 e (Some (enc_stack e opcode a))"
proof -
  let ?p = "if op_reg a AND 8 \<noteq> 0 then enc_byte e 0x41 else e"
  have "adds 1 0 e ?p"
    using adds_byte [OF adds_refl] by (auto intro: adds_more [OF adds_refl])
  then have "adds (Suc 1) 0 e (enc_byte ?p b)" for b by (rule adds_byte)
  then have "adds 13 1 e (enc_byte ?p b)" for b by (rule adds_more) simp_all
  then show ?thesis unfolding enc_stack_def Let_def by (rule grows_Some)
qed

lemma enc_call_grows: "grows 13 1 e (enc_call e a)"
proof -
  have "grows 1 1 e (rel32_reloc (enc_byte e 0xE8) name addend)" for name addend
    using adds_reloc [OF adds_byte [OF adds_refl]] by simp
  then have "grows 13 1 e (map_option (\<lambda>e. enc_imm e 0 4) (rel32_reloc (enc_byte e 0xE8) name addend))" for name addend
    by (rule grows_map) (rule adds_more [OF adds_imm], auto)
  then show ?thesis unfolding enc_call_def by (intro grows_if grows_None operand_grows)
qed

lemma enc_plain_grows: "grows 13 1 e (enc_plain e m)"
proof -
  have short: "length bs \<le> 2" if "map_of no_operand_bytes m = Some bs" for bs
    using map_of_SomeD [OF that] by (auto simp: no_operand_bytes_def)
  have "adds 13 1 e (foldl enc_byte e bs)" if "map_of no_operand_bytes m = Some bs" for bs
  proof -
    have "length bs \<le> 2" using short that .
    then show ?thesis by (intro adds_more [OF adds_opcode [OF adds_refl [of e], of bs]]) simp_all
  qed
  then show ?thesis by (auto simp: enc_plain_def grows_def)
qed

lemma enc_modrm_imm_grows:
  "grows 13 1 e (map_option (\<lambda>e. enc_finish (enc_imm e v 1)) (enc_modrm e prefix w [b, c] reg h rm))"
  by (rule grows_map [OF enc_modrm_grows], rule adds_finish, rule adds_more, erule adds_imm) simp_all

lemma asm_encode_grows:
  assumes "asm_width ops \<le> 8"
  shows "grows 13 1 e (asm_encode e m ops)"
proof -
  note groups = enc_alu_grows enc_mov_grows [OF assms] enc_stack_grows enc_call_grows enc_plain_grows
    enc_modrm1_grows enc_modrm2_grows enc_gpr13_grows enc_modrm_imm_grows
  have u: "grows 13 1 e (enc_unary e entry ops)" and sh: "grows 13 1 e (enc_shift e ext ops)"
    and bi: "grows 13 1 e (enc_bit e ext ops)" and mv: "grows 13 1 e (enc_sse_move e prefix load ops)"
    and mg: "grows 13 1 e (enc_sse_gpr e wide ops)" and ar: "grows 13 1 e (enc_sse_arith e arith ops)"
    and ex: "grows 13 1 e (enc_extend e opcode a b)" for entry ext prefix load wide arith opcode a b
    unfolding enc_unary_def enc_shift_def enc_bit_def enc_sse_move_def enc_sse_gpr_def enc_sse_arith_def
      enc_extend_def Let_def case_prod_unfold
    by (intro grows_if grows_None groups enc_gpr_imm_finish_grows [OF one_le_numeral])+
  have "grows 13 1 e (asm_encode_rest e m ops)"
    unfolding asm_encode_rest_def Let_def by (intro grows_if grows_option grows_None groups mv mg ar)
  then show ?thesis
    unfolding asm_encode_def Let_def by (intro grows_if grows_option grows_None groups u sh bi ex)
qed

section \<open>The operands of the parser\<close>

text \<open>What the code that uses an operand relies on.\<close>

definition operand_ok :: "asm_operand \<Rightarrow> bool" where
  "operand_ok op \<longleftrightarrow>
     (case op_kind op of
        ASM_REG \<Rightarrow> op_reg op < 16 \<and> op_width op \<in> {1, 2, 4, 8} \<and> (op_high8 op \<longleftrightarrow> op_width op = 1 \<and> op_reg op \<in> {4..7})
      | ASM_XMM \<Rightarrow> op_reg op < 16
      | ASM_MEM \<Rightarrow> op_width op \<in> {0, 1, 2, 4, 8} \<and> - 1 \<le> op_base op \<and> op_base op < 16 \<and> - 1 \<le> op_index op \<and>
                   op_index op < 16 \<and> op_index op \<noteq> 4 \<and> (op_base op = - 1 \<longrightarrow> op_index op = - 1)
      | _ \<Rightarrow> True)"

lemma operand_ok_width:
  "operand_ok op \<Longrightarrow> is_gpr op \<or> is_mem op \<Longrightarrow> op_width op \<le> 8"
  by (auto simp: operand_ok_def is_gpr_def is_mem_def)

lemma asm_width_le:
  assumes "list_all operand_ok ops"
  shows "asm_width ops \<le> 8"
proof -
  have "op_width op \<le> 8" if "find P ops = Some op" "P op \<Longrightarrow> is_gpr op \<or> is_mem op" for P op
  proof -
    have "op \<in> set ops" "P op" using that(1) by (auto simp: find_Some_iff)
    then show ?thesis using operand_ok_width [of op] that(2) assms by (simp add: list_all_iff)
  qed
  note w = this
  show ?thesis unfolding asm_width_def by (auto split: option.split intro: w)
qed

lemma asm_parse_register_ok:
  assumes "asm_parse_register s = Some op"
  shows "operand_ok op \<and> (op_kind op = ASM_REG \<or> op_kind op = ASM_XMM)"
proof (cases "op_kind op = ASM_REG")
  case True
  then obtain r w where op: "(s, r, w) \<in> set register_list" "op = reg_operand r w"
    using assms parse_register_eq [of s op] by blast
  have "r < 16 \<and> w \<in> {1, 2, 4, 8}"
    using register_list_shape [OF op(1)] by (elim conjE) (intro conjI)
  then show ?thesis unfolding op(2) by (auto simp: reg_operand_def operand_ok_def)
next
  case False
  have "parse_xmm s = Some op"
    using parse_register_cases [OF assms] False by blast
  then show ?thesis by (auto simp: parse_xmm_def operand_ok_def Let_def split: if_splits)
qed

lemma gpr_operand_reg: "operand_ok op \<Longrightarrow> op_kind op = ASM_REG \<Longrightarrow> op_reg op < 16"
  by (simp add: operand_ok_def)

definition based_ok :: "asm_operand \<Rightarrow> bool" where
  "based_ok op \<longleftrightarrow> op_kind op = ASM_MEM \<and> op_width op = 0 \<and> 0 \<le> op_base op \<and> op_base op < 16 \<and>
     - 1 \<le> op_index op \<and> op_index op < 16 \<and> op_index op \<noteq> 4"

lemma memory_terms_ok: "memory_terms p op = Some op' \<Longrightarrow> based_ok op \<Longrightarrow> based_ok op'"
proof (induction p op rule: memory_terms.induct)
  case (2 sign p op)
  let ?part = "takeWhile (\<lambda>c. \<not> is_sign c) p"
  show ?case
  proof (cases "if sign = CHR ''+'' then asm_parse_register ?part else None")
    case None
    then obtain n where n: "asm_parse_number ?part = Some n"
        "memory_terms (dropWhile (\<lambda>c. \<not> is_sign c) p) (op\<lparr>op_disp := op_disp op + (if sign = CHR ''-'' then - n else n)\<rparr>) = Some op'"
      using "2.prems"(1) unfolding memory_terms.simps(2) Let_def None option.case by (auto split: option.splits)
    show ?thesis
      by (rule "2.IH"(1) [OF refl refl None n(1) n(2)]) (use "2.prems"(2) in \<open>simp add: based_ok_def\<close>)
  next
    case (Some other)
    then have reg: "operand_ok other" using asm_parse_register_ok by (auto split: if_splits)
    have g: "\<not> (op_kind other \<noteq> ASM_REG \<or> op_width other \<noteq> 8 \<or> 0 \<le> op_index op \<or> op_reg other = 4)"
        "memory_terms (dropWhile (\<lambda>c. \<not> is_sign c) p) (op\<lparr>op_index := int (op_reg other)\<rparr>) = Some op'"
      using "2.prems"(1) unfolding memory_terms.simps(2) Let_def Some option.case by (auto split: if_splits)
    show ?thesis
      by (rule "2.IH"(2) [OF refl refl Some g(1) g(2)])
        (use "2.prems"(2) g(1) gpr_operand_reg [OF reg] in \<open>simp add: based_ok_def\<close>)
  qed
qed simp

lemma asm_parse_memory_ok:
  assumes "asm_parse_memory s scope = Some op"
  shows "based_ok op \<or> (op_kind op = ASM_MEM \<and> op_width op = 0 \<and> op_base op = - 1 \<and> op_index op = - 1)"
proof -
  define p where "p = take 255 (filter (\<lambda>c. \<not> is_blank c) s)"
  let ?part = "takeWhile (\<lambda>c. \<not> is_sign c) p"
  let ?op = "no_operand\<lparr>op_kind := ASM_MEM, op_base := - 1, op_index := - 1\<rparr>"
  show ?thesis
  proof (cases "take 3 p = ''rel''")
    case True
    then show ?thesis
      using assms unfolding asm_parse_memory_def Let_def p_def [symmetric]
      by (auto simp: no_operand_def split: if_splits)
  next
    case False
    then obtain reg where r: "asm_parse_register ?part = Some reg" "op_kind reg = ASM_REG"
        "memory_terms (dropWhile (\<lambda>c. \<not> is_sign c) p) (?op\<lparr>op_base := int (op_reg reg)\<rparr>) = Some op"
      using assms unfolding asm_parse_memory_def Let_def p_def [symmetric] if_not_P [OF False]
      by (auto split: option.splits if_splits)
    have "op_reg reg < 16" using asm_parse_register_ok [OF r(1)] gpr_operand_reg r(2) by blast
    then have "based_ok (?op\<lparr>op_base := int (op_reg reg)\<rparr>)" by (simp add: based_ok_def no_operand_def)
    then show ?thesis using memory_terms_ok [OF r(3)] by blast
  qed
qed

lemma size_keyword_width: "fst (size_keyword s) \<in> {0, 1, 2, 4, 8}"
proof -
  have "width \<in> {1, 2, 4, 8}" if "find P size_words = Some (word, width)" for P word width
  proof -
    have "(word, width) \<in> set size_words" using that by (auto simp: find_Some_iff)
    then show ?thesis by (auto simp: size_words_def)
  qed
  then show ?thesis unfolding size_keyword_def by (auto split: option.split)
qed

lemma parsed_operand_ok:
  assumes "asm_parse_operand s scope = Some op"
  shows "operand_ok op"
proof -
  obtain width t where k: "size_keyword (trim s) = (width, t)" by fastforce
  have w: "width \<in> {0, 1, 2, 4, 8}" using size_keyword_width [of "trim s"] k by simp
  note parsed = assms [unfolded asm_parse_operand_def Let_def k case_prod_conv]
  show ?thesis
  proof (cases "take 1 t = ''[''")
    case True
    then obtain m where "asm_parse_memory (butlast (tl t)) scope = Some m" "op = m\<lparr>op_width := width\<rparr>"
      using parsed by (auto split: if_splits)
    then show ?thesis using asm_parse_memory_ok w by (fastforce simp: operand_ok_def based_ok_def)
  next
    case False
    then consider "asm_parse_register t = Some op" | "op_kind op = ASM_IMM" | "op_kind op = ASM_LABEL"
      using parsed unfolding if_not_P [OF False] by (auto split: if_splits option.splits)
    then show ?thesis using asm_parse_register_ok by cases (auto simp: operand_ok_def)
  qed
qed

lemma parse_rax: "asm_parse_operand ''rax'' None = Some (reg_operand 0 8)"
proof -
  have "(''rax'', 0, 8) \<in> set register_list" by (simp add: register_list_def asm_reg64_def upt_rec)
  then have "asm_parse_register ''rax'' = Some (reg_operand 0 8)" using parse_register_eq by blast
  moreover have "trim ''rax'' = ''rax''" "size_keyword ''rax'' = (0, ''rax'')" by code_simp+
  ultimately show ?thesis by (simp add: asm_parse_operand_def)
qed

text \<open>C21: an operand that the parser accepts is one that the encoder can encode: the registers are below 16,
  the widths are 1, 2, 4 or 8, \<^verbatim>\<open>rsp\<close> is no index, and an address relative to the instruction has no
  index. The mark for the REX prefix is on exactly the byte registers that need it.\<close>

theorem asm_parse_operand_ok:
  assumes "asm_parse_operand s scope = Some op"
  shows "operand_ok op"
  using assms by (rule parsed_operand_ok)

theorem asm_parse_operand_ok_witness:
  "asm_parse_operand ''rax'' None = Some (reg_operand 0 8) \<and> operand_ok (reg_operand 0 8)"
  using parse_rax asm_parse_operand_ok [OF parse_rax] by blast

text \<open>C20: an instruction of operands that the parser accepts has at most 13 bytes and one relocation, so that
  it fits into the 32 bytes and the two relocations of the encoder, and into the 15 bytes that the processor
  allows.\<close>

theorem instruction_fits:
  assumes "list_all2 (\<lambda>text op. asm_parse_operand text scope = Some op) texts ops"
    and "asm_encode (new_encoder obj) m ops = Some e"
  shows "length (e_bytes e) \<le> 13 \<and> length (e_relocs e) \<le> 1"
proof -
  have "list_all operand_ok ops"
    using assms(1) parsed_operand_ok by (induction rule: list_all2_induct) auto
  then have "grows 13 1 (new_encoder obj) (asm_encode (new_encoder obj) m ops)"
    by (intro asm_encode_grows asm_width_le)
  then show ?thesis using assms(2) by (auto simp: grows_def adds_def new_encoder_def)
qed

theorem instruction_fits_witness:
  "\<exists>e. asm_encode (new_encoder new_object) ''add'' [reg_operand 0 8, reg_operand 0 8] = Some e \<and>
     length (e_bytes e) \<le> 13 \<and> length (e_relocs e) \<le> 1"
proof -
  let ?ops = "[reg_operand 0 8, reg_operand 0 8]"
  have "list_all2 (\<lambda>text op. asm_parse_operand text None = Some op) [''rax'', ''rax''] ?ops"
    using parse_rax by simp
  moreover have "asm_encode (new_encoder new_object) ''add'' ?ops \<noteq> None" by code_simp
  ultimately show ?thesis using instruction_fits by blast
qed

end
