(* ===== verification/AsmDecode.thy ===== *)
theory AsmDecode
  imports AsmEncode
begin

text \<open>
  What the bytes of \<^verbatim>\<open>asm_encode\<close> mean. A reference decoder for the part of the x86-64 encoding that the
  assembler uses (a prefix, the REX prefix, a one- or two-byte opcode, the ModRM byte, the SIB byte and the
  displacement) follows the processor manuals, not the encoder; decoding what was encoded gives back the
  operands. For immediates, the value that the processor loads is compared with the number of the source.
\<close>

section \<open>The decoder\<close>

datatype rm_operand = RmReg nat | RmBased nat "nat option" i64 | RmRip i64

record instruction =
  x_prefix :: nat
  x_rex :: "nat option"
  x_opcode :: "nat list"
  x_reg :: nat
  x_rm :: rm_operand

definition le_signed :: "u8 list \<Rightarrow> i64" where
  "le_signed bs = (if length bs = 1 then scast (of_nat (le_value bs) :: u8)
                   else if length bs = 4 then scast (of_nat (le_value bs) :: u32)
                   else of_nat (le_value bs))"

definition read_disp :: "nat \<Rightarrow> u8 list \<Rightarrow> (i64 \<times> u8 list) option" where
  "read_disp n bs = (if n = 0 then Some (0, bs) else if length bs < n then None else Some (le_signed (take n bs), drop n bs))"

text \<open>The bits of a REX prefix: W, R, X and B.\<close>

definition rex_bit :: "nat option \<Rightarrow> nat \<Rightarrow> bool" where
  "rex_bit rex i = (case rex of None \<Rightarrow> False | Some r \<Rightarrow> r div 2 ^ i mod 2 = 1)"

definition extended :: "nat option \<Rightarrow> nat \<Rightarrow> nat \<Rightarrow> nat" where
  "extended rex i n = (if rex_bit rex i then n + 8 else n)"

definition disp_size :: "nat \<Rightarrow> nat" where
  "disp_size md = (if md = 1 then 1 else if md = 2 then 4 else 0)"

text \<open>A SIB byte with scale 1; the index 4 is none.\<close>

definition decode_sib :: "nat option \<Rightarrow> nat \<Rightarrow> u8 list \<Rightarrow> (rm_operand \<times> u8 list) option" where
  "decode_sib rex md bs =
     (case bs of
        [] \<Rightarrow> None
      | sib # bs \<Rightarrow>
          let index = extended rex 1 (unat sib div 8 mod 8); base = unat sib mod 8
          in if unat sib div 64 \<noteq> 0 \<or> (md = 0 \<and> base = 5) then None
             else map_option (\<lambda>(disp, bs). (RmBased (extended rex 0 base) (if index = 4 then None else Some index) disp, bs))
                    (read_disp (disp_size md) bs))"

definition decode_rm :: "nat option \<Rightarrow> u8 list \<Rightarrow> (nat \<times> rm_operand \<times> u8 list) option" where
  "decode_rm rex bs =
     (case bs of
        [] \<Rightarrow> None
      | b # bs \<Rightarrow>
          let md = unat b div 64; reg = extended rex 2 (unat b div 8 mod 8); low = unat b mod 8
          in if md = 3 then Some (reg, RmReg (extended rex 0 low), bs)
             else if low = 4 then map_option (\<lambda>(rm, bs). (reg, rm, bs)) (decode_sib rex md bs)
             else if md = 0 \<and> low = 5 then map_option (\<lambda>(disp, bs). (reg, RmRip disp, bs)) (read_disp 4 bs)
             else map_option (\<lambda>(disp, bs). (reg, RmBased (extended rex 0 low) None disp, bs)) (read_disp (disp_size md) bs))"

definition take_byte :: "(nat \<Rightarrow> bool) \<Rightarrow> u8 list \<Rightarrow> nat option \<times> u8 list" where
  "take_byte P bs = (case bs of b # rest \<Rightarrow> if P (unat b) then (Some (unat b), rest) else (None, bs) | [] \<Rightarrow> (None, bs))"

definition is_prefix :: "nat \<Rightarrow> bool" where
  "is_prefix b \<longleftrightarrow> b = 0x66 \<or> b = 0xF2 \<or> b = 0xF3"

definition is_rex :: "nat \<Rightarrow> bool" where
  "is_rex b \<longleftrightarrow> b div 16 = 4"

definition decode_opcode :: "u8 list \<Rightarrow> (nat list \<times> u8 list) option" where
  "decode_opcode bs =
     (case bs of
        [] \<Rightarrow> None
      | b # bs \<Rightarrow> if unat b = 0x0F then (case bs of [] \<Rightarrow> None | c # bs \<Rightarrow> Some ([unat b, unat c], bs))
                  else Some ([unat b], bs))"

definition decode_modrm :: "u8 list \<Rightarrow> (instruction \<times> u8 list) option" where
  "decode_modrm bs =
     (let (prefix, bs) = take_byte is_prefix bs;
          (rex, bs) = take_byte is_rex bs
      in do {
        (opcode, bs) \<leftarrow> decode_opcode bs;
        (reg, rm, bs) \<leftarrow> decode_rm rex bs;
        Some (\<lparr>x_prefix = (case prefix of None \<Rightarrow> 0 | Some b \<Rightarrow> b), x_rex = rex, x_opcode = opcode, x_reg = reg, x_rm = rm\<rparr>, bs)
      })"

section \<open>Numbers\<close>

lemma unat_of_nat_byte: "n < 256 \<Longrightarrow> unat (of_nat n :: u8) = n"
  by (simp add: unat_of_nat)

lemma of_nat_mod_exp: "(of_nat (n mod 2 ^ LENGTH('a)) :: 'a :: len word) = of_nat n"
  by (simp add: word_unat_eq_iff unsigned_of_nat take_bit_eq_mod)

lemma of_nat_unat_mod:
  shows "of_nat (unat (v :: i64) mod 256) = (ucast v :: u8)"
    and "of_nat (unat (v :: i64) mod 4294967296) = (ucast v :: u32)"
  using of_nat_mod_exp [where 'a = 8, of "unat v"] of_nat_mod_exp [where 'a = 32, of "unat v"] by simp_all

lemma sint_ucast: "LENGTH('a) \<le> 64 \<Longrightarrow> sint (ucast (v :: i64) :: 'a :: len word) = signed_take_bit (LENGTH('a) - 1) (sint v)"
  by (simp add: sint_uint unsigned_ucast_eq signed_take_bit_take_bit signed_take_bit_signed_take_bit not_le min_absorb1)

lemma scast_ucast_fits:
  assumes "LENGTH('a) \<le> 64" and "- (2 ^ (LENGTH('a) - 1)) \<le> sint v" and "sint v < 2 ^ (LENGTH('a) - 1)"
  shows "scast (ucast (v :: i64) :: 'a :: len word) = v"
proof -
  have "sint (ucast v :: 'a word) = sint v"
    using assms by (simp add: sint_ucast signed_take_bit_int_eq_self)
  then show ?thesis by (simp add: scast_eq)
qed

lemma disp_byte: "fits_i8 v \<Longrightarrow> le_signed (le_bytes 1 v) = v"
  using scast_ucast_fits [where 'a = 8, of v] by (simp add: le_signed_def le_value_le_bytes of_nat_unat_mod fits_i8_def del: le_bytes.simps)

lemma disp_dword: "fits_i32 v \<Longrightarrow> le_signed (le_bytes 4 v) = v"
  using scast_ucast_fits [where 'a = 32, of v] by (simp add: le_signed_def le_value_le_bytes of_nat_unat_mod fits_i32_def del: le_bytes.simps)

lemma push_bit_or_add:
  assumes "(b :: nat) < 2 ^ n"
  shows "push_bit n a OR b = 2 ^ n * a + b"
proof -
  have "take_bit n b = b" using assms by (simp add: take_bit_nat_eq_self_iff)
  then have b: "\<not> bit b i" if "n \<le> i" for i using that by (metis bit_take_bit_iff not_le)
  have "push_bit n a AND b = 0" by (rule bit_eqI) (use b in \<open>auto simp: bit_simps\<close>)
  then show ?thesis using disjunctive_add_eq_or [of "push_bit n a" b] by (simp add: push_bit_eq_mult mult.commute)
qed

lemma modrm_bits:
  assumes "r < 8" and "low < 8"
  shows "push_bit 6 md OR push_bit 3 r OR low = 64 * md + 8 * r + (low :: nat)"
proof -
  have low: "push_bit 3 r OR low = 8 * r + low" using push_bit_or_add [of low 3 r] assms by simp
  show ?thesis unfolding low using push_bit_or_add [of "8 * r + low" 6 md] assms by simp
qed

lemma register_bits:
  assumes "r < 16"
  shows "r AND 7 = r mod 8" "r AND 8 \<noteq> 0 \<longleftrightarrow> 8 \<le> (r :: nat)"
proof -
  show "r AND 7 = r mod 8" using and_mask_mod [of r 3] by simp
  have "list_all (\<lambda>r. r AND 8 \<noteq> 0 \<longleftrightarrow> 8 \<le> (r :: nat)) [0..<16]" by code_simp
  then show "r AND 8 \<noteq> 0 \<longleftrightarrow> 8 \<le> r" using assms by (simp add: list_all_iff)
qed

section \<open>Decoding what was encoded\<close>

lemma register_bits_int: "i < 16 \<Longrightarrow> 0 \<le> i \<and> nat i AND 8 \<noteq> 0 \<longleftrightarrow> 8 \<le> (i :: int)"
  using register_bits(2) [of "nat i"] by (cases "0 \<le> i") auto

text \<open>The operand that the ModRM byte stands for.\<close>

definition rm_of :: "asm_operand \<Rightarrow> rm_operand" where
  "rm_of op =
     (if op_kind op = ASM_MEM
      then if op_base op < 0 then RmRip 0
           else RmBased (nat (op_base op)) (if op_index op < 0 then None else Some (nat (op_index op))) (op_disp op)
      else RmReg (op_reg op))"

text \<open>The bits X and B, and the prefix that has them.\<close>

definition rex_x :: "asm_operand \<Rightarrow> bool" where
  "rex_x op \<longleftrightarrow> op_kind op = ASM_MEM \<and> 8 \<le> op_index op"

definition rex_b :: "asm_operand \<Rightarrow> bool" where
  "rex_b op \<longleftrightarrow> (if op_kind op = ASM_MEM then 8 \<le> op_base op else 8 \<le> op_reg op)"

definition rex_of :: "bool \<Rightarrow> nat \<Rightarrow> bool \<Rightarrow> asm_operand \<Rightarrow> nat option" where
  "rex_of w reg h rm =
     (if w \<or> 8 \<le> reg \<or> h \<or> rex_x rm \<or> rex_b rm \<or> (op_kind rm = ASM_REG \<and> op_high8 rm)
      then Some (64 + of_bool w * 8 + of_bool (8 \<le> reg) * 4 + of_bool (rex_x rm) * 2 + of_bool (rex_b rm))
      else None)"

definition rm_kind :: "asm_operand \<Rightarrow> bool" where
  "rm_kind op \<longleftrightarrow> op_kind op \<in> {ASM_REG, ASM_XMM, ASM_MEM}"

lemma rex_byte_eq:
  assumes ok: "operand_ok rm" "rm_kind rm" and reg: "reg < 16"
  shows "rex_byte w reg h rm = Some (rex_of w reg h rm)"
proof (cases "op_kind rm = ASM_MEM")
  case True
  have base: "0 \<le> op_base rm \<and> nat (op_base rm) AND 8 \<noteq> 0 \<longleftrightarrow> 8 \<le> op_base rm"
    and index: "0 \<le> op_index rm \<and> nat (op_index rm) AND 8 \<noteq> 0 \<longleftrightarrow> 8 \<le> op_index rm"
    using ok True register_bits_int [of "op_base rm"] register_bits_int [of "op_index rm"]
    by (simp_all add: operand_ok_def)
  show ?thesis
    using True unfolding rex_byte_def rex_of_def rex_x_def rex_b_def register_bits(2) [OF reg] base index Let_def
    by (auto split: if_splits)
next
  case False
  then have r: "op_reg rm AND 8 \<noteq> 0 \<longleftrightarrow> 8 \<le> op_reg rm"
    using ok register_bits(2) [of "op_reg rm"] by (auto simp: operand_ok_def rm_kind_def)
  show ?thesis
    using False ok(2) unfolding rex_byte_def rex_of_def rex_x_def rex_b_def register_bits(2) [OF reg] r Let_def rm_kind_def
    by (auto split: if_splits)
qed

lemma rex_of_bits:
  "rex_bit (rex_of w reg h rm) 3 \<longleftrightarrow> w" "rex_bit (rex_of w reg h rm) 2 \<longleftrightarrow> 8 \<le> reg"
  "rex_bit (rex_of w reg h rm) 1 \<longleftrightarrow> rex_x rm" "rex_bit (rex_of w reg h rm) 0 \<longleftrightarrow> rex_b rm"
  by (cases w; cases "8 \<le> reg"; cases "rex_x rm"; cases "rex_b rm"; simp add: rex_of_def rex_bit_def)+

lemma rex_of_is_rex: "rex_of w reg h rm = Some b \<Longrightarrow> is_rex b \<and> b < 256 \<and> \<not> is_prefix b"
  by (cases w; cases "8 \<le> reg"; cases "rex_x rm"; cases "rex_b rm") (auto simp: rex_of_def is_rex_def is_prefix_def split: if_splits)

lemma extended_mod: "n < 16 \<Longrightarrow> (rex_bit rex i \<longleftrightarrow> 8 \<le> n) \<Longrightarrow> extended rex i (n mod 8) = n"
  unfolding extended_def by (cases "8 \<le> n") (auto simp: le_mod_geq)

lemma modrm_fields:
  assumes "md < 4" and "r < 8" and "low < 8"
  defines "b \<equiv> of_nat (64 * md + 8 * r + low) :: u8"
  shows "unat b div 64 = md" "unat b div 8 mod 8 = r" "unat b mod 8 = low"
proof -
  have "64 * md + 8 * r + low < 256" using assms(1-3) by simp
  then have b: "unat b = 64 * md + 8 * r + low" unfolding b_def by (rule unat_of_nat_byte)
  have n: "64 * md + 8 * r + low = low + 8 * (r + 8 * md)" by simp
  have "(low + 8 * k) div 8 = k" "(low + 8 * k) mod 8 = low" for k using assms(3) by simp_all
  then have eighth: "unat b div 8 = r + 8 * md" "unat b mod 8 = low" unfolding b n by blast+
  show "unat b div 64 = md" using div_mult2_eq [of "unat b" 8 8] eighth(1) assms(2) by simp
  show "unat b div 8 mod 8 = r" "unat b mod 8 = low" using eighth assms(2) by simp_all
qed

text \<open>The displacement, and its size in the ModRM byte.\<close>

definition disp_mod :: "nat \<Rightarrow> i64 \<Rightarrow> nat" where
  "disp_mod base disp = (if disp = 0 \<and> base \<noteq> 5 then 0 else if fits_i8 disp then 1 else 2)"

definition disp_bytes :: "nat \<Rightarrow> i64 \<Rightarrow> u8 list" where
  "disp_bytes md disp = le_bytes (disp_size md) disp"

lemma read_disp_bytes:
  assumes "fits_i32 disp"
  shows "read_disp (disp_size (disp_mod base disp)) (disp_bytes (disp_mod base disp) disp @ rest) = Some (disp, rest)"
proof -
  consider "disp_mod base disp = 0" "disp = 0" | "disp_mod base disp = 1" "fits_i8 disp" | "disp_mod base disp = 2"
    by (cases "disp = 0 \<and> base \<noteq> 5"; cases "fits_i8 disp") (simp_all add: disp_mod_def)
  then show ?thesis
    using disp_dword [OF assms] disp_byte [of disp]
    by cases (simp_all add: read_disp_def disp_size_def disp_bytes_def le_bytes.simps(1) del: le_bytes.simps(2))
qed

lemma enc_based_bytes:
  assumes "enc_based e r rm = Some e'" and rm: "operand_ok rm" "op_kind rm = ASM_MEM" "0 \<le> op_base rm" and r: "r < 8"
  defines "base \<equiv> nat (op_base rm) mod 8"
  defines "md \<equiv> disp_mod base (op_disp rm)"
  shows "fits_i32 (op_disp rm)"
    and "e_bytes e' = e_bytes e @
      (if 0 \<le> op_index rm then [of_nat (64 * md + 8 * r + 4), of_nat (8 * (nat (op_index rm) mod 8) + base)]
       else if base = 4 then [of_nat (64 * md + 8 * r + 4), 0x24]
       else [of_nat (64 * md + 8 * r + base)]) @ disp_bytes md (op_disp rm)"
proof -
  show fits: "fits_i32 (op_disp rm)" using assms(1) by (auto simp: enc_based_def Let_def split: if_splits)
  have bits: "nat (op_base rm) AND 7 = base" "nat (op_index rm) AND 7 = nat (op_index rm) mod 8"
    using register_bits(1) rm by (auto simp: base_def operand_ok_def)
  have sib: "push_bit 3 (nat (op_index rm) mod 8) OR base = 8 * (nat (op_index rm) mod 8) + base"
    using push_bit_or_add [of base 3] by (simp add: base_def)
  have mo: "push_bit 6 m OR push_bit 3 r OR 4 = 64 * m + 8 * r + 4" "push_bit 6 m OR push_bit 3 r OR base = 64 * m + 8 * r + base" for m
    using modrm_bits [OF r] by (simp_all add: base_def)
  have "md = 0 \<or> md = 1 \<or> md = 2" by (simp add: md_def disp_mod_def)
  then show "e_bytes e' = e_bytes e @
      (if 0 \<le> op_index rm then [of_nat (64 * md + 8 * r + 4), of_nat (8 * (nat (op_index rm) mod 8) + base)]
       else if base = 4 then [of_nat (64 * md + 8 * r + 4), 0x24]
       else [of_nat (64 * md + 8 * r + base)]) @ disp_bytes md (op_disp rm)"
    using assms(1) fits
    unfolding enc_based_def Let_def bits sib mo disp_mod_def [symmetric] md_def [symmetric]
    by (elim disjE) (auto simp: enc_byte_def enc_imm_def disp_bytes_def disp_size_def le_bytes.simps(1) simp del: le_bytes.simps(2) of_nat_add split: if_splits)
qed

lemma decode_based:
  assumes e: "enc_based e r rm = Some e'" and rm: "operand_ok rm" "op_kind rm = ASM_MEM" "0 \<le> op_base rm" and r: "r < 8"
    and rex: "rex_bit rex 0 \<longleftrightarrow> rex_b rm" "rex_bit rex 1 \<longleftrightarrow> rex_x rm"
  obtains bs where "e_bytes e' = e_bytes e @ bs" and "\<And>rest. decode_rm rex (bs @ rest) = Some (extended rex 2 r, rm_of rm, rest)"
proof -
  define base where "base = nat (op_base rm) mod 8"
  define md where "md = disp_mod base (op_disp rm)"
  note bytes = enc_based_bytes [OF e rm r, folded base_def, folded md_def]
  have small: "md < 3" "base < 8" by (simp_all add: md_def base_def disp_mod_def)
  have disp: "read_disp (disp_size md) (disp_bytes md (op_disp rm) @ rest) = Some (op_disp rm, rest)" for rest
    unfolding md_def by (rule read_disp_bytes [OF bytes(1)])
  have base: "extended rex 0 base = nat (op_base rm)"
    using rm rex(1) unfolding base_def by (intro extended_mod) (auto simp: rex_b_def operand_ok_def)
  have no5: "\<not> (md = 0 \<and> base = 5)" by (auto simp: md_def disp_mod_def split: if_splits)
  have fields: "unat (of_nat (64 * md + 8 * r + low) :: u8) div 64 = md" "unat (of_nat (64 * md + 8 * r + low) :: u8) div 8 mod 8 = r"
      "unat (of_nat (64 * md + 8 * r + low) :: u8) mod 8 = low" if "low < 8" for low
    using modrm_fields [of md r low] small r that by simp_all
  show thesis
  proof (cases "0 \<le> op_index rm")
    case True
    define i where "i = nat (op_index rm)"
    have i: "i < 16" "i \<noteq> 4" "extended rex 1 (i mod 8) = i"
      using rm rex(2) True unfolding i_def by (auto intro!: extended_mod simp: rex_x_def operand_ok_def)
    have sib: "unat (of_nat (8 * (i mod 8) + base) :: u8) div 64 = 0" "unat (of_nat (8 * (i mod 8) + base) :: u8) div 8 mod 8 = i mod 8"
        "unat (of_nat (8 * (i mod 8) + base) :: u8) mod 8 = base"
      using modrm_fields [of 0 "i mod 8" base] small by simp_all
    have "decode_rm rex ([of_nat (64 * md + 8 * r + 4), of_nat (8 * (i mod 8) + base)] @ disp_bytes md (op_disp rm) @ rest) =
        Some (extended rex 2 r, RmBased (nat (op_base rm)) (Some i) (op_disp rm), rest)" for rest
      unfolding decode_rm_def decode_sib_def append_Cons append_Nil list.case Let_def
      using fields [of 4] sib small i no5 disp base by simp
    then show thesis using that bytes(2) True rm(2,3) by (simp add: i_def rm_of_def)
  next
    case False
    then have none: "rm_of rm = RmBased (nat (op_base rm)) None (op_disp rm)" "\<not> rex_bit rex 1"
      using rm rex(2) by (simp_all add: rm_of_def rex_x_def)
    show thesis
    proof (cases "base = 4")
      case True
      have "decode_rm rex ([of_nat (64 * md + 8 * r + 4), 0x24] @ disp_bytes md (op_disp rm) @ rest) = Some (extended rex 2 r, rm_of rm, rest)" for rest
        unfolding decode_rm_def decode_sib_def append_Cons append_Nil list.case Let_def none(1)
        using fields [of 4] small none(2) disp base True by (simp add: extended_def)
      then show thesis using that bytes(2) False True by simp
    next
      case no4: False
      have "decode_rm rex ([of_nat (64 * md + 8 * r + base)] @ disp_bytes md (op_disp rm) @ rest) = Some (extended rex 2 r, rm_of rm, rest)" for rest
        unfolding decode_rm_def append_Cons append_Nil list.case Let_def none(1)
        using fields [of base] small no4 no5 disp base by simp
      then show thesis using that bytes(2) False no4 by simp
    qed
  qed
qed

lemma decode_rip:
  assumes "enc_rip e r rm = Some e'" and "op_kind rm = ASM_MEM" "op_base rm < 0" and "r < 8"
  obtains bs where "e_bytes e' = e_bytes e @ bs" and "\<And>rest. decode_rm rex (bs @ rest) = Some (extended rex 2 r, rm_of rm, rest)"
proof -
  have "0x05 OR push_bit 3 r = 64 * 0 + 8 * r + (5 :: nat)"
    using push_bit_or_add [of 5 3 r] by (simp add: or.commute)
  then have bytes: "e_bytes e' = e_bytes e @ [of_nat (64 * 0 + 8 * r + 5)] @ le_bytes 4 (0 :: i64)"
    using assms(1) by (auto simp: enc_rip_def enc_byte_def enc_imm_def rel32_reloc_def simp del: le_bytes.simps split: Option.bind_splits)
  have disp: "read_disp 4 (le_bytes 4 (0 :: i64) @ rest) = Some (0, rest)" for rest
    using disp_dword [of 0] by (simp add: read_disp_def fits_i32_def del: le_bytes.simps)
  have "decode_rm rex ([of_nat (64 * 0 + 8 * r + 5)] @ le_bytes 4 (0 :: i64) @ rest) = Some (extended rex 2 r, rm_of rm, rest)" for rest
    unfolding decode_rm_def append_Cons append_Nil list.case Let_def
    using modrm_fields [of 0 r 5] assms(2-4) disp by (simp add: rm_of_def del: le_bytes.simps)
  then show thesis using that [OF bytes] by simp
qed

lemma decode_register:
  assumes "op_kind rm \<noteq> ASM_MEM" "operand_ok rm" "rm_kind rm" and "r < 8" and rex: "rex_bit rex 0 \<longleftrightarrow> rex_b rm"
  shows "decode_rm rex (of_nat (0xC0 OR push_bit 3 r OR (op_reg rm AND 7)) # rest) = Some (extended rex 2 r, rm_of rm, rest)"
proof -
  have "op_reg rm < 16" using assms by (auto simp: rm_kind_def operand_ok_def)
  then have "op_reg rm AND 7 = op_reg rm mod 8" "extended rex 0 (op_reg rm mod 8) = op_reg rm"
    using register_bits(1) rex assms(1) by (auto intro!: extended_mod simp: rex_b_def)
  moreover have "0xC0 OR push_bit 3 r OR (op_reg rm mod 8) = 64 * 3 + 8 * r + op_reg rm mod 8"
    using modrm_bits [of r "op_reg rm mod 8" 3] assms(4) by simp
  ultimately show ?thesis
    unfolding decode_rm_def list.case Let_def
    using modrm_fields [of 3 r "op_reg rm mod 8"] assms(1,4) by (simp add: rm_of_def del: of_nat_add)
qed

text \<open>The opcodes of the assembler: one byte that no prefix has, or two of which the first is \<open>0F\<close>.\<close>

definition opcode_ok :: "nat list \<Rightarrow> bool" where
  "opcode_ok opcode \<longleftrightarrow>
     (case opcode of
        [b] \<Rightarrow> b < 256 \<and> b \<noteq> 0x0F \<and> \<not> is_prefix b \<and> \<not> is_rex b
      | [b, c] \<Rightarrow> b = 0x0F \<and> c < 256
      | _ \<Rightarrow> False)"

lemma opcode_cases:
  assumes "opcode_ok opcode"
  obtains b where "opcode = [b]" "b < 256" "b \<noteq> 0x0F" "\<not> is_prefix b" "\<not> is_rex b" | c where "opcode = [0x0F, c]" "c < 256"
  using assms unfolding opcode_ok_def by (auto split: list.splits)

lemma decode_opcode_bytes:
  assumes "opcode_ok opcode"
  shows "decode_opcode (map of_nat opcode @ rest) = Some (opcode, rest)"
    and "take_byte is_rex (map of_nat opcode @ rest) = (None, map of_nat opcode @ rest)"
    and "take_byte is_prefix (map of_nat opcode @ rest) = (None, map of_nat opcode @ rest)"
  using assms
  by (auto elim!: opcode_cases simp: decode_opcode_def take_byte_def unat_of_nat_byte is_rex_def is_prefix_def)

lemma foldl_enc_byte: "e_bytes (foldl enc_byte e opcode) = e_bytes e @ map of_nat opcode"
  by (induction opcode arbitrary: e) (simp_all add: enc_byte_def)

text \<open>The prefixes, decoded.\<close>

definition prefix_bytes :: "nat \<Rightarrow> nat option \<Rightarrow> u8 list" where
  "prefix_bytes prefix rex = (if prefix \<noteq> 0 then [of_nat prefix] else []) @ (case rex of None \<Rightarrow> [] | Some b \<Rightarrow> [of_nat b])"

definition prefix_ok :: "nat \<Rightarrow> bool" where
  "prefix_ok prefix \<longleftrightarrow> prefix = 0 \<or> is_prefix prefix"

lemma decode_prefixes:
  assumes "prefix_ok prefix" and op: "opcode_ok opcode" and rex: "\<And>b. rex = Some b \<Longrightarrow> is_rex b \<and> b < 256 \<and> \<not> is_prefix b"
  shows "decode_modrm (prefix_bytes prefix rex @ map of_nat opcode @ bs) =
    do { (reg, rm, bs) \<leftarrow> decode_rm rex bs;
         Some (\<lparr>x_prefix = prefix, x_rex = rex, x_opcode = opcode, x_reg = reg, x_rm = rm\<rparr>, bs) }"
proof -
  have r: "take_byte is_rex ((case rex of None \<Rightarrow> [] | Some b \<Rightarrow> [of_nat b]) @ map of_nat opcode @ bs) = (rex, map of_nat opcode @ bs)"
    using decode_opcode_bytes(2) [OF op] rex by (cases rex) (simp_all add: take_byte_def unat_of_nat_byte)
  have p: "take_byte is_prefix (prefix_bytes prefix rex @ map of_nat opcode @ bs) =
      (if prefix = 0 then None else Some prefix, (case rex of None \<Rightarrow> [] | Some b \<Rightarrow> [of_nat b]) @ map of_nat opcode @ bs)"
  proof (cases "prefix = 0")
    case True
    then show ?thesis using decode_opcode_bytes(3) [OF op] rex
      by (cases rex) (simp_all add: prefix_bytes_def take_byte_def unat_of_nat_byte)
  next
    case False
    then show ?thesis using assms(1)
      by (auto simp: prefix_bytes_def take_byte_def unat_of_nat_byte prefix_ok_def is_prefix_def)
  qed
  show ?thesis
    unfolding decode_modrm_def p r Let_def case_prod_conv decode_opcode_bytes(1) [OF op] by simp
qed

lemma enc_modrm_decodes:
  assumes e: "enc_modrm e prefix w opcode reg h rm = Some e'"
    and ok: "operand_ok rm" "reg < 16" "prefix_ok prefix" "opcode_ok opcode"
  obtains bs where "e_bytes e' = e_bytes e @ bs"
    and "\<And>rest. decode_modrm (bs @ rest) =
      Some (\<lparr>x_prefix = prefix, x_rex = rex_of w reg h rm, x_opcode = opcode, x_reg = reg, x_rm = rm_of rm\<rparr>, rest)"
proof -
  have kind: "rm_kind rm" using e by (auto simp: enc_modrm_def rex_byte_def rm_kind_def Let_def split: if_splits)
  let ?rex = "rex_of w reg h rm"
  let ?e1 = "if prefix \<noteq> 0 then enc_byte e prefix else e"
  let ?e2 = "foldl enc_byte (case ?rex of Some b \<Rightarrow> enc_byte ?e1 b | None \<Rightarrow> ?e1) opcode"
  let ?r = "reg mod 8"
  have e2: "e_bytes ?e2 = e_bytes e @ prefix_bytes prefix ?rex @ map of_nat opcode"
    by (auto simp: foldl_enc_byte prefix_bytes_def enc_byte_def split: option.split)
  have reg: "extended ?rex 2 ?r = reg" using ok(2) by (intro extended_mod) (simp_all add: rex_of_bits)
  have r: "?r < 8" by simp
  have run: "(if op_kind rm = ASM_REG \<or> op_kind rm = ASM_XMM
             then Some (enc_byte ?e2 (0xC0 OR push_bit 3 ?r OR (op_reg rm AND 7)))
             else if op_base rm < 0 then enc_rip ?e2 ?r rm else enc_based ?e2 ?r rm) = Some e'"
    using e unfolding enc_modrm_def rex_byte_eq [OF ok(1) kind ok(2)] register_bits(1) [OF ok(2)] by (simp only: Let_def option.case)
  have "\<exists>bs. e_bytes e' = e_bytes ?e2 @ bs \<and> (\<forall>rest. decode_rm ?rex (bs @ rest) = Some (extended ?rex 2 ?r, rm_of rm, rest))"
  proof -
    consider "op_kind rm \<noteq> ASM_MEM" | "op_kind rm = ASM_MEM" "op_base rm < 0" | "op_kind rm = ASM_MEM" "0 \<le> op_base rm" by linarith
    then show ?thesis
    proof cases
      case 1
      then have "e' = enc_byte ?e2 (0xC0 OR push_bit 3 ?r OR (op_reg rm AND 7))" using run kind by (auto simp: rm_kind_def)
      then show ?thesis
        using decode_register [OF 1 ok(1) kind r, of ?rex] rex_of_bits by (simp add: enc_byte_def)
    next
      case 2
      then have "enc_rip ?e2 ?r rm = Some e'" using run by simp
      from decode_rip [OF this 2 r, of ?rex] show ?thesis by metis
    next
      case 3
      then have "enc_based ?e2 ?r rm = Some e'" using run by simp
      from decode_based [OF this ok(1) 3 r, of ?rex] rex_of_bits show ?thesis by metis
    qed
  qed
  then obtain bs where bs: "e_bytes e' = e_bytes ?e2 @ bs" "\<And>rest. decode_rm ?rex (bs @ rest) = Some (reg, rm_of rm, rest)"
    unfolding reg by blast
  show thesis
  proof (rule that)
    show "e_bytes e' = e_bytes e @ (prefix_bytes prefix ?rex @ map of_nat opcode @ bs)" using bs(1) e2 by simp
    fix rest
    have "decode_modrm (prefix_bytes prefix ?rex @ map of_nat opcode @ (bs @ rest)) =
        Some (\<lparr>x_prefix = prefix, x_rex = ?rex, x_opcode = opcode, x_reg = reg, x_rm = rm_of rm\<rparr>, rest)"
      by (subst decode_prefixes [OF ok(3,4) rex_of_is_rex]) (simp_all add: bs(2))
    then show "decode_modrm ((prefix_bytes prefix ?rex @ map of_nat opcode @ bs) @ rest) =
        Some (\<lparr>x_prefix = prefix, x_rex = ?rex, x_opcode = opcode, x_reg = reg, x_rm = rm_of rm\<rparr>, rest)" by simp
  qed
qed

section \<open>Immediates\<close>

definition imm_operand :: "i64 \<Rightarrow> asm_operand" where
  "imm_operand v = no_operand\<lparr>op_kind := ASM_IMM, op_imm := v\<rparr>"

text \<open>What a move of an immediate into a register loads: the register, and the 64 bits that it has afterwards.
  The form with a ModRM byte extends the sign; of the other one, 32 bits are extended with zeros.\<close>

definition mov_loads :: "u8 list \<Rightarrow> (nat \<times> i64) option" where
  "mov_loads bs =
     (let (rex, t) = take_byte is_rex bs
      in case t of
           [] \<Rightarrow> None
         | b # imm \<Rightarrow>
             if unat b div 8 = 0xB8 div 8
             then if length imm = (if rex_bit rex 3 then 8 else 4)
                  then Some (extended rex 0 (unat b mod 8), of_nat (le_value imm)) else None
             else (case decode_modrm bs of
                     Some (x, imm) \<Rightarrow>
                       (case x_rm x of
                          RmReg r \<Rightarrow>
                            if x_prefix x = 0 \<and> rex_bit (x_rex x) 3 \<and> x_opcode x = [0xC7] \<and> x_reg x = 0 \<and> length imm = 4
                            then Some (r, le_signed imm) else None
                        | _ \<Rightarrow> None)
                   | None \<Rightarrow> None))"

text \<open>The operation, the register and the immediate of an arithmetic instruction on 64 bits.\<close>

definition alu_computes :: "u8 list \<Rightarrow> (nat \<times> nat \<times> i64) option" where
  "alu_computes bs =
     (let (rex, t) = take_byte is_rex bs
      in if \<not> rex_bit rex 3 then None
         else case t of
           [] \<Rightarrow> None
         | b # imm \<Rightarrow>
             if unat b < 64 \<and> unat b mod 8 = 5 then if length imm = 4 then Some (unat b div 8, 0, le_signed imm) else None
             else (case decode_modrm bs of
                     Some (x, imm) \<Rightarrow>
                       (case x_rm x of
                          RmReg r \<Rightarrow>
                            if (x_opcode x = [0x83] \<and> length imm = 1) \<or> (x_opcode x = [0x81] \<and> length imm = 4)
                            then Some (x_reg x, r, le_signed imm) else None
                        | _ \<Rightarrow> None)
                   | None \<Rightarrow> None))"

lemma reg_operand_ok: "r < 16 \<Longrightarrow> operand_ok (reg_operand r 8)"
  by (simp add: operand_ok_def reg_operand_def)

lemma rm_of_reg: "rm_of (reg_operand r 8) = RmReg r"
  by (simp add: rm_of_def reg_operand_def)

text \<open>An instruction with REX.W and a one-byte opcode on a register.\<close>

lemma enc_gpr_wide:
  assumes "enc_gpr e 8 o8 opc ext False (reg_operand r 8) = Some e'" and "e_bytes e = []" and "r < 16" and "ext < 16" and "opcode_ok [opc]"
  obtains bs where "e_bytes e' = bs" and "\<And>rest. \<exists>rex. rex_bit (Some rex) 3 \<and> take_byte is_rex (bs @ rest) = (Some rex, of_nat opc # drop 2 bs @ rest) \<and>
      decode_modrm (bs @ rest) = Some (\<lparr>x_prefix = 0, x_rex = Some rex, x_opcode = [opc], x_reg = ext, x_rm = RmReg r\<rparr>, rest)"
proof -
  let ?rm = "reg_operand r 8"
  have m: "enc_modrm e 0 True [opc] ext False ?rm = Some e'" using assms(1) by (simp add: enc_gpr_def size_prefix_def)
  have p: "prefix_ok 0" by (simp add: prefix_ok_def)
  obtain bs where bs: "e_bytes e' = e_bytes e @ bs"
      "\<And>rest. decode_modrm (bs @ rest) =
        Some (\<lparr>x_prefix = 0, x_rex = rex_of True ext False ?rm, x_opcode = [opc], x_reg = ext, x_rm = rm_of ?rm\<rparr>, rest)"
    using enc_modrm_decodes [OF m reg_operand_ok [OF assms(3)] assms(4) p assms(5)] by blast
  have kind: "rm_kind ?rm" by (simp add: rm_kind_def reg_operand_def)
  obtain rex where rex: "rex_of True ext False ?rm = Some rex" by (simp add: rex_of_def)
  have w: "rex_bit (Some rex) 3" using rex_of_bits(1) [of True ext False ?rm] rex by simp
  have "is_rex rex" "rex < 256" using rex_of_is_rex [OF rex] by simp_all
  moreover obtain c where "bs = [of_nat rex, of_nat opc, c]"
    using m bs(1) assms(2) unfolding enc_modrm_def rex_byte_eq [OF reg_operand_ok [OF assms(3)] kind assms(4)] rex
    by (auto simp: enc_byte_def reg_operand_def Let_def)
  ultimately have "take_byte is_rex (bs @ rest) = (Some rex, of_nat opc # drop 2 bs @ rest)" for rest
    by (simp add: take_byte_def unat_of_nat_byte)
  then show thesis using that [of bs] bs assms(2) w unfolding rex rm_of_reg by auto
qed

lemma le_value_4: "of_nat (le_value (le_bytes 4 v)) = (of_nat (unat v mod 4294967296) :: i64)"
  by (simp add: le_value_le_bytes del: le_bytes.simps)

lemma le_value_8: "of_nat (le_value (le_bytes 8 v)) = (v :: i64)"
proof -
  have "unat v < 2 ^ LENGTH(64)" by (rule unsigned_less)
  then have "unat v mod 2 ^ 64 = unat v" by simp
  then show ?thesis by (simp add: le_value_le_bytes del: le_bytes.simps)
qed

lemma unsigned_range: "0 \<le> sint v \<Longrightarrow> sint v \<le> 0xFFFFFFFF \<Longrightarrow> unat (v :: i64) mod 4294967296 = unat v"
proof -
  assume v: "0 \<le> sint v" "sint v \<le> 0xFFFFFFFF"
  have "uint v = sint v"
    using unsigned_of_int [of "sint v", where 'a = int and 'b = 64] v by (simp add: take_bit_int_eq_self)
  then have "unat v \<le> 0xFFFFFFFF" using v(2) by (simp add: unat_eq_nat_uint nat_le_iff)
  then show ?thesis by simp
qed

lemma mov_is_no_alu: "map_of alu_names ''mov'' = None"
  by code_simp

lemma asm_encode_mov:
  "asm_encode e ''mov'' [reg_operand r 8, imm_operand v] = enc_mov e [reg_operand r 8, imm_operand v]"
  by (simp add: asm_encode_def mov_is_no_alu)

lemma mov_operands:
  "is_rm (imm_operand v) = False" "is_gpr (imm_operand v) = False" "is_mem (imm_operand v) = False"
  "is_imm (imm_operand v)" "is_gpr (reg_operand r w)" "is_rm (reg_operand r w)" "asm_width [reg_operand r w, b] = w"
  "op_imm (imm_operand v) = v" "op_reg (reg_operand r w) = r" "\<not> op_high8 (reg_operand r 8)"
  by (simp_all add: is_rm_def is_gpr_def is_mem_def is_imm_def imm_operand_def reg_operand_def asm_width_def)

lemma octal: "low < 8 \<Longrightarrow> (8 * k + low) div 8 = k \<and> (8 * k + low) mod 8 = (low :: nat)"
  by simp

lemma mov_immediate:
  assumes r: "r < 16"
  shows "\<exists>e. asm_encode (new_encoder obj) ''mov'' [reg_operand r 8, imm_operand v] = Some e \<and> mov_loads (e_bytes e) = Some (r, v)"
proof -
  let ?e = "new_encoder obj"
  have short: "take_byte is_rex (0x41 # bs) = (Some 0x41, bs)" "take_byte is_rex (0x48 # bs) = (Some 0x48, bs)"
      "take_byte is_rex (0x49 # bs) = (Some 0x49, bs)" for bs
    by (simp_all add: take_byte_def is_rex_def)
  have op: "unat (of_nat (0xB8 + r mod 8) :: u8) = 0xB8 + r mod 8" by (rule unat_of_nat_byte) simp
  have opf: "(0xB8 + r mod 8) div 8 = 23" "(0xB8 + r mod 8) mod 8 = r mod 8" using octal [of "r mod 8" 23] by simp_all
  have "q < 8 \<Longrightarrow> (0xB8 + q) div 16 = 11" for q :: nat by presburger
  then have no_rex: "(0xB8 + r mod 8) div 16 = 11" by simp
  consider "0 \<le> sint v" "sint v \<le> 0xFFFFFFFF" | "\<not> (0 \<le> sint v \<and> sint v \<le> 0xFFFFFFFF)" "fits_i32 v"
    | "\<not> (0 \<le> sint v \<and> sint v \<le> 0xFFFFFFFF)" "\<not> fits_i32 v" by blast
  then show ?thesis
  proof cases
    case 1
    let ?bs = "(if 8 \<le> r then [0x41] else []) @ of_nat (0xB8 + r mod 8) # le_bytes 4 v"
    have "\<exists>e. asm_encode ?e ''mov'' [reg_operand r 8, imm_operand v] = Some e \<and> e_bytes e = ?bs"
      using 1 r register_bits(2) [OF r] by (simp add: asm_encode_mov enc_mov_def Let_def mov_operands enc_byte_def enc_imm_def new_encoder_def
          register_bits(1) del: le_bytes.simps)
    moreover have "mov_loads ?bs = Some (r, v)"
    proof (cases "8 \<le> r")
      case True
      then have "extended (Some 0x41) 0 (r mod 8) = r" using r by (intro extended_mod) (simp_all add: rex_bit_def)
      then show ?thesis using True short op opf le_value_4 [of v] unsigned_range [OF 1]
        by (simp add: mov_loads_def is_rex_def rex_bit_def del: le_bytes.simps of_nat_add)
    next
      case False
      then show ?thesis using op opf no_rex le_value_4 [of v] unsigned_range [OF 1]
        by (simp add: mov_loads_def take_byte_def is_rex_def rex_bit_def extended_def del: le_bytes.simps of_nat_add)
    qed
    ultimately show ?thesis by metis
  next
    case 2
    then have "asm_encode ?e ''mov'' [reg_operand r 8, imm_operand v] =
        map_option (\<lambda>e. enc_imm e v 4) (enc_gpr ?e 8 0xC7 0xC7 0 False (reg_operand r 8))"
      by (auto simp: asm_encode_mov enc_mov_def Let_def mov_operands)
    then obtain e where e: "enc_gpr ?e 8 0xC7 0xC7 0 False (reg_operand r 8) = Some e"
        "asm_encode ?e ''mov'' [reg_operand r 8, imm_operand v] = Some (enc_imm e v 4)"
      by (auto simp: enc_gpr_def enc_modrm_def rex_byte_def Let_def reg_operand_def)
    have op: "opcode_ok [0xC7]" by (simp add: opcode_ok_def is_prefix_def is_rex_def)
    obtain bs where bs: "e_bytes e = bs" "\<And>rest. \<exists>rex. rex_bit (Some rex) 3 \<and>
        take_byte is_rex (bs @ rest) = (Some rex, of_nat 0xC7 # drop 2 bs @ rest) \<and>
        decode_modrm (bs @ rest) = Some (\<lparr>x_prefix = 0, x_rex = Some rex, x_opcode = [0xC7], x_reg = 0, x_rm = RmReg r\<rparr>, rest)"
      by (rule enc_gpr_wide [OF e(1) _ r _ op]) (simp_all add: new_encoder_def)
    obtain rex where rex: "rex_bit (Some rex) 3" "take_byte is_rex (bs @ le_bytes 4 v) = (Some rex, of_nat 0xC7 # drop 2 bs @ le_bytes 4 v)"
        "decode_modrm (bs @ le_bytes 4 v) = Some (\<lparr>x_prefix = 0, x_rex = Some rex, x_opcode = [0xC7], x_reg = 0, x_rm = RmReg r\<rparr>, le_bytes 4 v)"
      using bs(2) by blast
    have "mov_loads (bs @ le_bytes 4 v) = Some (r, v)"
      using disp_dword [OF 2(2)] rex by (simp add: mov_loads_def del: le_bytes.simps)
    then show ?thesis using e(2) bs(1) by (simp add: enc_imm_def del: le_bytes.simps)
  next
    case 3
    let ?bs = "(if 8 \<le> r then 0x49 else 0x48) # of_nat (0xB8 + r mod 8) # le_bytes 8 v"
    have "\<exists>e. asm_encode ?e ''mov'' [reg_operand r 8, imm_operand v] = Some e \<and> e_bytes e = ?bs"
      using 3 r register_bits(2) [OF r] by (auto simp: asm_encode_mov enc_mov_def Let_def mov_operands enc_byte_def enc_imm_def new_encoder_def
          register_bits(1) simp del: le_bytes.simps)
    moreover have "mov_loads ?bs = Some (r, v)"
    proof (cases "8 \<le> r")
      case True
      then have "extended (Some 0x49) 0 (r mod 8) = r" using r by (intro extended_mod) (simp_all add: rex_bit_def)
      then show ?thesis using True short op opf le_value_8 [of v]
        by (simp add: mov_loads_def is_rex_def rex_bit_def del: le_bytes.simps of_nat_add)
    next
      case False
      then show ?thesis using short op opf le_value_8 [of v]
        by (simp add: mov_loads_def is_rex_def rex_bit_def extended_def del: le_bytes.simps of_nat_add)
    qed
    ultimately show ?thesis by metis
  qed
qed

lemma fits_iff: "le_signed (le_bytes 4 v) = v \<longleftrightarrow> fits_i32 v"
proof
  assume v: "le_signed (le_bytes 4 v) = v"
  have "le_signed (le_bytes 4 v) = scast (ucast v :: u32)"
    by (simp add: le_signed_def le_value_le_bytes of_nat_unat_mod del: le_bytes.simps)
  moreover have "sint (scast (ucast v :: u32) :: i64) = signed_take_bit 63 (sint (ucast v :: u32))"
    by (subst signed_scast_eq) simp
  ultimately have s: "sint v = signed_take_bit 63 (sint (ucast v :: u32))" using v by metis
  have range: "- (2 ^ 31) \<le> sint (ucast v :: u32)" "sint (ucast v :: u32) < 2 ^ 31"
    using sint_greater_eq [of "ucast v :: u32"] sint_less [of "ucast v :: u32"] by simp_all
  have "signed_take_bit 63 (sint (ucast v :: u32)) = sint (ucast v :: u32)"
    using range by (intro signed_take_bit_int_eq_self) simp_all
  then show "fits_i32 v" using s range by (simp add: fits_i32_def)
qed (rule disp_dword)

lemma enc_gpr_wide_ok:
  obtains e where "enc_gpr (new_encoder obj) 8 o8 opc ext False (reg_operand r 8) = Some e"
  by (auto simp: enc_gpr_def enc_modrm_def rex_byte_def Let_def reg_operand_def)

text \<open>An arithmetic instruction with a ModRM byte and an immediate.\<close>

lemma alu_modrm:
  assumes e: "enc_gpr (new_encoder obj) 8 opc opc op False (reg_operand r 8) = Some e" and r: "r < 16" and op: "op < 8"
    and n: "(opc = 0x83 \<and> n = 1) \<or> (opc = 0x81 \<and> n = 4)"
  shows "alu_computes (e_bytes (enc_imm e v n)) = Some (op, r, le_signed (le_bytes n v))"
proof -
  have opc: "opcode_ok [opc]" "opc < 256" "\<not> opc < 64" using n by (auto simp: opcode_ok_def is_prefix_def is_rex_def)
  obtain bs where bs: "e_bytes e = bs" "\<And>rest. \<exists>rex. rex_bit (Some rex) 3 \<and>
      take_byte is_rex (bs @ rest) = (Some rex, of_nat opc # drop 2 bs @ rest) \<and>
      decode_modrm (bs @ rest) = Some (\<lparr>x_prefix = 0, x_rex = Some rex, x_opcode = [opc], x_reg = op, x_rm = RmReg r\<rparr>, rest)"
    by (rule enc_gpr_wide [OF e _ r _ opc(1)]) (use op in \<open>simp_all add: new_encoder_def\<close>)
  have "unat (of_nat opc :: u8) = opc" using opc(2) by (rule unat_of_nat_byte)
  then show ?thesis
    using bs(2) [of "le_bytes n v"] n opc(3) unfolding enc_imm_def
    by (auto simp: alu_computes_def Let_def bs(1) simp del: le_bytes.simps)
qed

lemma alu_immediate:
  assumes m: "(m, op) \<in> set alu_names" and r: "r < 16"
  shows "\<exists>e w. asm_encode (new_encoder obj) m [reg_operand r 8, imm_operand v] = Some e \<and>
    alu_computes (e_bytes e) = Some (op, r, w) \<and> (w = v \<longleftrightarrow> fits_i32 v)"
proof -
  let ?e = "new_encoder obj"
  have "distinct (map fst alu_names)" by code_simp
  then have "map_of alu_names m = Some op" using m by (rule map_of_is_SomeI)
  then have enc: "asm_encode ?e m [reg_operand r 8, imm_operand v] = enc_alu ?e op [reg_operand r 8, imm_operand v]"
    by (simp add: asm_encode_def)
  have op: "op < 8" using m by (auto simp: alu_names_def)
  have bytes: "e_bytes (enc_finish e) = e_bytes e" for e by (simp add: enc_finish_def split: option.split)
  consider "fits_i8 v" | "\<not> fits_i8 v" "r = 0" | "\<not> fits_i8 v" "r \<noteq> 0" by blast
  then show ?thesis
  proof cases
    case 1
    obtain e where e: "enc_gpr ?e 8 0x83 0x83 op False (reg_operand r 8) = Some e" by (rule enc_gpr_wide_ok)
    then have "asm_encode ?e m [reg_operand r 8, imm_operand v] = Some (enc_finish (enc_imm e v 1))"
      using 1 by (simp add: enc enc_alu_def Let_def mov_operands)
    moreover have "alu_computes (e_bytes (enc_finish (enc_imm e v 1))) = Some (op, r, v)"
      unfolding bytes using alu_modrm [OF e r op, of 1 v] disp_byte [OF 1] by simp
    moreover have "fits_i32 v" using 1 by (simp add: fits_i8_def fits_i32_def)
    ultimately show ?thesis by blast
  next
    case 2
    let ?bs = "[0x48, of_nat (op * 8 + 5)] @ le_bytes 4 v"
    have "\<exists>e. asm_encode ?e m [reg_operand r 8, imm_operand v] = Some e \<and> e_bytes e = ?bs"
      unfolding enc using 2 by (simp add: enc_alu_def Let_def mov_operands bytes enc_byte_def enc_imm_def new_encoder_def del: le_bytes.simps)
    moreover have "alu_computes ?bs = Some (op, 0, le_signed (le_bytes 4 v))"
    proof -
      have "unat (of_nat (op * 8 + 5) :: u8) = op * 8 + 5" using op by (intro unat_of_nat_byte) simp
      moreover have "(op * 8 + 5) div 8 = op" "(op * 8 + 5) mod 8 = 5" "op * 8 + 5 < 64" using op octal [of 5 op] by (simp_all add: mult.commute)
      ultimately show ?thesis
        by (simp add: alu_computes_def take_byte_def is_rex_def rex_bit_def del: le_bytes.simps of_nat_add)
    qed
    ultimately show ?thesis using 2 fits_iff [of v] by metis
  next
    case 3
    obtain e where e: "enc_gpr ?e 8 0x81 0x81 op False (reg_operand r 8) = Some e" by (rule enc_gpr_wide_ok)
    then have "asm_encode ?e m [reg_operand r 8, imm_operand v] = Some (enc_finish (enc_imm e v 4))"
      using 3 by (simp add: enc enc_alu_def Let_def mov_operands)
    moreover have "alu_computes (e_bytes (enc_finish (enc_imm e v 4))) = Some (op, r, le_signed (le_bytes 4 v))"
      unfolding bytes using alu_modrm [OF e r op, of 4 v] by simp
    ultimately show ?thesis using fits_iff by blast
  qed
qed

section \<open>The properties\<close>

text \<open>C17: decoding the bytes that \<^verbatim>\<open>enc_modrm\<close> writes gives back what was encoded, for every operand that the
  parser makes, every register and every opcode of the assembler: the prefix, the opcode, the register, and the
  register or the base, index and displacement of the operand, and nothing is left. \<^verbatim>\<open>spl\<close>, \<^verbatim>\<open>bpl\<close>,
  \<^verbatim>\<open>sil\<close> and \<^verbatim>\<open>dil\<close> have the REX prefix without which they would be other registers.\<close>

theorem modrm_roundtrip:
  assumes "enc_modrm (new_encoder obj) prefix w opcode reg h rm = Some e"
    and "operand_ok rm" and "reg < 16" and "prefix_ok prefix" and "opcode_ok opcode"
  shows "decode_modrm (e_bytes e) =
    Some (\<lparr>x_prefix = prefix, x_rex = rex_of w reg h rm, x_opcode = opcode, x_reg = reg, x_rm = rm_of rm\<rparr>, [])"
proof -
  obtain bs where "e_bytes e = bs" "\<And>rest. decode_modrm (bs @ rest) =
      Some (\<lparr>x_prefix = prefix, x_rex = rex_of w reg h rm, x_opcode = opcode, x_reg = reg, x_rm = rm_of rm\<rparr>, rest)"
    using enc_modrm_decodes [OF assms] by (auto simp: new_encoder_def)
  then show ?thesis using append_Nil2 by metis
qed

text \<open>C18: a move of a number into a 64-bit register is always known, and loads exactly that number, in
  whichever of its three forms it is encoded.\<close>

theorem mov_immediate_loads:
  assumes "r < 16"
  shows "\<exists>e. asm_encode (new_encoder obj) ''mov'' [reg_operand r 8, imm_operand v] = Some e \<and> mov_loads (e_bytes e) = Some (r, v)"
  by (rule mov_immediate [OF assms])

text \<open>C19: an arithmetic instruction of a 64-bit register and a number is always encoded as the operation on
  that register. It computes with the number of the source exactly when that fits into 32 bits; other numbers
  are cut off without an error.\<close>

theorem alu_immediate_exact:
  assumes "(m, op) \<in> set alu_names" and "r < 16"
  shows "\<exists>e w. asm_encode (new_encoder obj) m [reg_operand r 8, imm_operand v] = Some e \<and>
    alu_computes (e_bytes e) = Some (op, r, w) \<and> (w = v \<longleftrightarrow> fits_i32 v)"
  by (rule alu_immediate [OF assms])

theorem modrm_roundtrip_witness:
  "\<exists>e. enc_modrm (new_encoder new_object) 0x66 True [0x0F, 0xAF] 9 False (no_operand\<lparr>op_kind := ASM_MEM, op_base := 13, op_index := 12, op_disp := - 8\<rparr>) = Some e \<and>
     decode_modrm (e_bytes e) =
       Some (\<lparr>x_prefix = 0x66, x_rex = Some 0x4F, x_opcode = [0x0F, 0xAF], x_reg = 9, x_rm = RmBased 13 (Some 12) (- 8)\<rparr>, [])"
proof -
  let ?rm = "no_operand\<lparr>op_kind := ASM_MEM, op_base := 13, op_index := 12, op_disp := - 8\<rparr>"
  obtain e where e: "enc_modrm (new_encoder new_object) 0x66 True [0x0F, 0xAF] 9 False ?rm = Some e"
    by (auto simp: enc_modrm_def rex_byte_def enc_based_def fits_i32_def no_operand_def Let_def)
  have "operand_ok ?rm" "prefix_ok 0x66" "opcode_ok [0x0F, 0xAF]"
    by (simp_all add: operand_ok_def no_operand_def prefix_ok_def is_prefix_def opcode_ok_def)
  moreover have "rm_of ?rm = RmBased 13 (Some 12) (- 8)" "rex_of True 9 False ?rm = Some 0x4F"
    by (simp_all add: rm_of_def rex_of_def rex_x_def rex_b_def no_operand_def)
  ultimately show ?thesis using modrm_roundtrip [OF e, of] e by simp
qed

theorem mov_immediate_loads_witness:
  "\<exists>e. asm_encode (new_encoder new_object) ''mov'' [reg_operand 11 8, imm_operand (- 1)] = Some e \<and> mov_loads (e_bytes e) = Some (11, - 1)"
  by (rule mov_immediate_loads) simp

theorem alu_immediate_exact_witness:
  "\<exists>e w. asm_encode (new_encoder new_object) ''sub'' [reg_operand 4 8, imm_operand 4096] = Some e \<and>
    alu_computes (e_bytes e) = Some (5, 4, w) \<and> (w = 4096 \<longleftrightarrow> fits_i32 4096)"
  by (rule alu_immediate_exact) (simp_all add: alu_names_def)

end
