(* ===== verification/AsmText.thy ===== *)
theory AsmText
  imports AsmEncode
begin

text \<open>
  The assembler of a text, \<^verbatim>\<open>x64_assemble\<close> of \<^verbatim>\<open>src/src/x64_asm.c\<close>: its lines, labels, directives, data and
  instructions, the layout that gives the jumps their sizes, and the bytes of the text section. The text has no
  NUL. The places of an error are values of \<open>asm_error\<close>; \<open>Stuck\<close> is a symbol search that does not end, which
  an object in order does not have.
\<close>

record asm_item =
  t_start :: nat
  t_size :: nat
  t_is_jump :: bool
  t_condition :: "nat option"
  t_target :: nat
  t_is_short :: bool
  t_reloc_start :: nat
  t_reloc_count :: nat
  t_line :: nat

record assembler =
  as_obj :: asm_object
  as_section :: asm_section_id
  as_scope :: string
  as_items :: "asm_item list"
  as_item_bytes :: asm_bytes
  as_pending :: "asm_reloc list"
  as_label_item :: "int list"

datatype asm_error =
    ALIGN_IN_TEXT | TIMES_WITHOUT_DB | NOT_A_NUMBER | OUTSIDE_OF_TEXT | UNKNOWN_OPERAND | UNKNOWN_INSTRUCTION
  | NO_LABEL | LINE_TOO_LONG | LABEL_DEFINED_TWICE | UNKNOWN_SECTION | UNDEFINED_SYMBOL

datatype 'a outcome = Done 'a | Failed asm_error nat | Stuck

definition and_then :: "'a outcome \<Rightarrow> ('a \<Rightarrow> 'b outcome) \<Rightarrow> 'b outcome" where
  "and_then r f = (case r of Done x \<Rightarrow> f x | Failed error line \<Rightarrow> Failed error line | Stuck \<Rightarrow> Stuck)"

text \<open>The symbol of a name, in the object of the assembler.\<close>

definition with_symbol :: "assembler \<Rightarrow> string \<Rightarrow> (nat \<Rightarrow> assembler \<Rightarrow> 'a outcome) \<Rightarrow> 'a outcome" where
  "with_symbol as name f =
     (case asm_symbol (as_obj as) name of
        Some (symbol, obj) \<Rightarrow> f symbol (as\<lparr>as_obj := obj\<rparr>)
      | None \<Rightarrow> Stuck)"

section \<open>Items and labels\<close>

definition asm_add_item :: "assembler \<Rightarrow> asm_item \<Rightarrow> assembler" where
  "asm_add_item as item = as\<lparr>as_items := as_items as @ [item]\<rparr>"

definition asm_add_pending :: "assembler \<Rightarrow> asm_reloc \<Rightarrow> assembler" where
  "asm_add_pending as reloc = as\<lparr>as_pending := as_pending as @ [reloc]\<rparr>"

definition label_capacity :: "nat \<Rightarrow> nat \<Rightarrow> nat" where
  "label_capacity old symbol = double_until (symbol + 1) (if old \<noteq> 0 then old else 1024)"

definition asm_set_label_item :: "assembler \<Rightarrow> nat \<Rightarrow> nat \<Rightarrow> assembler" where
  "asm_set_label_item as symbol item =
     (let labels = as_label_item as;
          labels = (if length labels \<le> symbol
                    then labels @ replicate (label_capacity (length labels) symbol - length labels) (- 1) else labels)
      in as\<lparr>as_label_item := labels[symbol := int item]\<rparr>)"

definition section_bytes :: "assembler \<Rightarrow> asm_bytes" where
  "section_bytes as = o_sections (as_obj as) (as_section as)"

definition put_section :: "assembler \<Rightarrow> asm_bytes \<Rightarrow> assembler" where
  "put_section as bytes =
     as\<lparr>as_obj := (as_obj as)\<lparr>o_sections := (o_sections (as_obj as))(as_section as := bytes)\<rparr>\<rparr>"

function asm_align :: "asm_bytes \<Rightarrow> nat \<Rightarrow> u8 \<Rightarrow> asm_bytes" where
  "asm_align bytes align fill =
     (if 1 < align \<and> ab_size bytes mod align \<noteq> 0 then asm_align (asm_put_byte bytes fill) align fill else bytes)"
  by pat_completeness auto
termination
  by (relation "measure (\<lambda>(bytes, align, fill). (align - ab_size bytes mod align) mod align)")
    (auto simp: ab_size_def mod_Suc intro: diff_less_mono2)

declare asm_align.simps [simp del]

section \<open>Data\<close>

text \<open>\<^verbatim>\<open>atoi\<close>, for a number that fits.\<close>

definition c_atoi_signed :: "string \<Rightarrow> int" where
  "c_atoi_signed s =
     (case dropWhile is_space s of
        [] \<Rightarrow> 0
      | c # cs \<Rightarrow> if c = CHR ''-'' then - int (c_atoi cs) else if c = CHR ''+'' then int (c_atoi cs) else int (c_atoi (c # cs)))"

text \<open>The text from the first occurrence of \<^verbatim>\<open>db\<close> on.\<close>

fun find_db :: "string \<Rightarrow> string option" where
  "find_db [] = None"
| "find_db (c # cs) = (if take 2 (c # cs) = ''db'' then Some (c # cs) else find_db cs)"

definition data_size :: "string \<Rightarrow> nat" where
  "data_size directive = (if directive = ''db'' then 1 else if directive = ''dw'' then 2 else if directive = ''dd'' then 4 else 8)"

definition is_trailing :: "char \<Rightarrow> bool" where
  "is_trailing c \<longleftrightarrow> is_blank c \<or> c = CHR 0x0A \<or> c = CHR 0x0D"

definition data_word :: "assembler \<Rightarrow> nat \<Rightarrow> string \<Rightarrow> nat \<Rightarrow> assembler outcome" where
  "data_word as n word line =
     (if word = [] then Done as
      else case asm_parse_number word of
        Some v \<Rightarrow> Done (put_section as (foldl asm_put_byte (section_bytes as) (le_bytes n v)))
      | None \<Rightarrow>
          if n = 8
          then with_symbol as (asm_symbol_name word (Some (as_scope as)) 160) (\<lambda>symbol as.
            let reloc = \<lparr>r_section = as_section as, r_offset = ab_size (section_bytes as), r_kind = ASM_RELOC_ABS64,
                         r_symbol = symbol, r_addend = 0, r_trailing = 0\<rparr>;
                as = as\<lparr>as_obj := asm_add_reloc (as_obj as) reloc\<rparr>
            in Done (put_section as (foldl asm_put_byte (section_bytes as) (replicate 8 0))))
          else Failed NOT_A_NUMBER line)"

function data_words :: "assembler \<Rightarrow> nat \<Rightarrow> string \<Rightarrow> nat \<Rightarrow> assembler outcome" where
  "data_words as n [] line = Done as"
| "data_words as n (c # cs) line =
     (let p = dropWhile is_blank (c # cs);
          word = rev (dropWhile is_trailing (rev (takeWhile (\<lambda>c. c \<noteq> CHR '','') p)));
          rest = dropWhile (\<lambda>c. c \<noteq> CHR '','') p
      in and_then (data_word as n word line) (\<lambda>as. data_words as n (tl rest) line))"
  by pat_completeness auto
termination
proof (relation "measure (\<lambda>(as, n, p, line). length p)")
  fix as n c cs line p word rest as'
  assume p: "p = dropWhile is_blank (c # cs)" and rest: "rest = dropWhile (\<lambda>c. c \<noteq> CHR '','') (p :: string)"
  have "length rest \<le> length (c # cs)"
    unfolding p rest using length_dropWhile_le order_trans by blast
  then show "((as' :: assembler, n :: nat, tl rest, line :: nat), as :: assembler, n, c # cs, line)
      \<in> measure (\<lambda>(as, n, p, line). length p)"
    by (cases rest) auto
qed simp

definition asm_data_line :: "assembler \<Rightarrow> string \<Rightarrow> string \<Rightarrow> nat \<Rightarrow> assembler outcome" where
  "asm_data_line as directive rest line =
     (if directive = ''align''
      then (let align = c_atoi_signed rest;
                alignment = o_alignment (as_obj as);
                as = (if alignment (as_section as) < align
                      then as\<lparr>as_obj := (as_obj as)\<lparr>o_alignment := alignment(as_section as := align)\<rparr>\<rparr> else as)
            in if as_section as = ASM_TEXT then Failed ALIGN_IN_TEXT line
               else Done (put_section as (asm_align (section_bytes as) (nat align) 0)))
      else if directive = ''times''
      then (let count = nat (c_atoi_signed rest)
            in case find_db rest of
                 None \<Rightarrow> Failed TIMES_WITHOUT_DB line
               | Some db \<Rightarrow>
                   Done (put_section as (foldl asm_put_byte (section_bytes as)
                           (replicate count (of_int (c_atoi_signed (drop 2 db)))))))
      else data_words as (data_size directive) rest line)"

section \<open>Instructions\<close>

fun operand_length :: "int \<Rightarrow> string \<Rightarrow> nat" where
  "operand_length depth [] = 0"
| "operand_length depth (c # cs) =
     (if c = CHR '';'' \<or> (c = CHR '','' \<and> depth = 0) then 0
      else Suc (operand_length (if c = CHR ''['' then depth + 1 else if c = CHR '']'' then depth - 1 else depth) cs))"

definition is_line_end :: "char \<Rightarrow> bool" where
  "is_line_end c \<longleftrightarrow> c = CHR 0x0A \<or> c = CHR 0x0D"

text \<open>At most \<open>n\<close> operands.\<close>

fun asm_operands :: "nat \<Rightarrow> string \<Rightarrow> string \<Rightarrow> asm_operand list option" where
  "asm_operands 0 p scope = Some []"
| "asm_operands (Suc n) p scope =
     (if p = [] \<or> hd p = CHR '';'' then Some []
      else
        let l = operand_length 0 p;
            rest = drop l p;
            rest = (if take 1 rest = '','' then dropWhile is_blank (tl rest) else rest)
        in case asm_parse_operand (rev (dropWhile is_line_end (rev (take l p)))) (Some scope) of
             None \<Rightarrow> None
           | Some op \<Rightarrow> map_option (\<lambda>ops. op # ops) (asm_operands n rest scope))"

definition jump_condition :: "string \<Rightarrow> nat option option" where
  "jump_condition mnemonic =
     (if mnemonic = ''jmp'' then Some None
      else if take 1 mnemonic = ''j'' then map_option Some (asm_condition (tl mnemonic)) else None)"

definition add_encoded :: "assembler \<Rightarrow> asm_encoder \<Rightarrow> nat \<Rightarrow> assembler" where
  "add_encoded as e line =
     (let start = ab_size (as_item_bytes as);
          item = \<lparr>t_start = start, t_size = length (e_bytes e), t_is_jump = False, t_condition = None, t_target = 0,
                  t_is_short = False, t_reloc_start = length (as_pending as), t_reloc_count = length (e_relocs e), t_line = line\<rparr>;
          as = as\<lparr>as_obj := e_obj e\<rparr>;
          as = foldl (\<lambda>as r. asm_add_pending as (r\<lparr>r_offset := r_offset r + start\<rparr>)) as (e_relocs e);
          as = as\<lparr>as_item_bytes := asm_put (as_item_bytes as) (e_bytes e)\<rparr>
      in asm_add_item as item)"

definition asm_instruction :: "assembler \<Rightarrow> string \<Rightarrow> string \<Rightarrow> nat \<Rightarrow> assembler outcome" where
  "asm_instruction as mnemonic rest line =
     (if as_section as \<noteq> ASM_TEXT then Failed OUTSIDE_OF_TEXT line
      else case asm_operands 3 (dropWhile is_blank rest) (as_scope as) of
        None \<Rightarrow> Failed UNKNOWN_OPERAND line
      | Some ops \<Rightarrow>
          if jump_condition mnemonic \<noteq> None \<and> length ops = 1 \<and> op_kind (ops ! 0) = ASM_LABEL
          then with_symbol as (op_symbol (ops ! 0)) (\<lambda>symbol as.
            Done (asm_add_item as \<lparr>t_start = ab_size (as_item_bytes as), t_size = 0, t_is_jump = True,
                    t_condition = the (jump_condition mnemonic), t_target = symbol, t_is_short = True, t_reloc_start = 0,
                    t_reloc_count = 0, t_line = line\<rparr>))
          else case asm_encode (new_encoder (as_obj as)) mnemonic ops of
            None \<Rightarrow> Failed UNKNOWN_INSTRUCTION line
          | Some e \<Rightarrow> Done (add_encoded as (enc_finish e) line))"

section \<open>The layout of the jumps\<close>

text \<open>A displacement that fits into 8 bits. Offsets are \<^verbatim>\<open>int\<close>s: the text section is smaller than 2 GB.\<close>

definition is_near :: "int \<Rightarrow> bool" where
  "is_near d \<longleftrightarrow> - 128 \<le> d \<and> d \<le> 127"

definition item_size :: "asm_item \<Rightarrow> nat" where
  "item_size item =
     (if t_is_jump item then if t_is_short item then 2 else if t_condition item = None then 5 else 6 else t_size item)"

fun item_offsets :: "nat \<Rightarrow> asm_item list \<Rightarrow> nat list" where
  "item_offsets offset [] = [offset]"
| "item_offsets offset (item # items) = offset # item_offsets (offset + t_size item) items"

definition label_of :: "int list \<Rightarrow> nat \<Rightarrow> int" where
  "label_of labels target = (if target < length labels then labels ! target else - 1)"

definition must_grow :: "int list \<Rightarrow> nat list \<Rightarrow> nat \<Rightarrow> asm_item \<Rightarrow> bool" where
  "must_grow labels offsets i item \<longleftrightarrow>
     t_is_jump item \<and> t_is_short item \<and>
     (let target = label_of labels (t_target item)
      in target < 0 \<or> \<not> is_near (int (offsets ! nat target) - (int (offsets ! i) + 2)))"

definition grow_item :: "int list \<Rightarrow> nat list \<Rightarrow> nat \<Rightarrow> asm_item \<Rightarrow> asm_item" where
  "grow_item labels offsets i item = (if must_grow labels offsets i item then item\<lparr>t_is_short := False\<rparr> else item)"

text \<open>One round: the sizes and offsets, the items with the jumps that do not reach made long, and whether there
  were any.\<close>

definition layout_pass :: "int list \<Rightarrow> asm_item list \<Rightarrow> nat list \<times> asm_item list \<times> bool" where
  "layout_pass labels items =
     (let items = map (\<lambda>item. item\<lparr>t_size := item_size item\<rparr>) items;
          offsets = item_offsets 0 items
      in (offsets, map2 (grow_item labels offsets) [0..<length items] items,
          list_ex (\<lambda>(i, item). must_grow labels offsets i item) (zip [0..<length items] items)))"

definition short_jumps :: "asm_item list \<Rightarrow> nat" where
  "short_jumps items = length (filter (\<lambda>item. t_is_jump item \<and> t_is_short item) items)"

lemma short_jumps_Cons: "short_jumps (item # items) = of_bool (t_is_jump item \<and> t_is_short item) + short_jumps items"
  by (simp add: short_jumps_def)

lemma grow_item_short: "of_bool (t_is_jump (grow_item labels offsets i item) \<and> t_is_short (grow_item labels offsets i item)) =
    (if must_grow labels offsets i item then 0 else of_bool (t_is_jump item \<and> t_is_short item) :: nat)"
  by (simp add: grow_item_def)

lemma must_grow_short: "must_grow labels offsets i item \<Longrightarrow> t_is_jump item \<and> t_is_short item"
  by (simp add: must_grow_def)

lemma grow_not_more: "short_jumps (map2 (grow_item labels offsets) is items) \<le> short_jumps items"
proof (induction items arbitrary: "is")
  case (Cons item items)
  show ?case
  proof (cases "is")
    case (Cons i js)
    then show ?thesis using Cons.IH [of js] by (simp add: short_jumps_Cons grow_item_short)
  qed (simp add: short_jumps_def)
qed (simp add: short_jumps_def)

lemma grow_fewer:
  "list_ex (\<lambda>(i, item). must_grow labels offsets i item) (zip is items) \<Longrightarrow>
     short_jumps (map2 (grow_item labels offsets) is items) < short_jumps items"
proof (induction items arbitrary: "is")
  case (Cons item items)
  then obtain i js where "is": "is = i # js" by (cases "is") auto
  show ?case
  proof (cases "must_grow labels offsets i item")
    case True
    then show ?thesis
      using grow_not_more [of labels offsets js items] "is" must_grow_short [OF True]
      by (simp add: short_jumps_Cons grow_item_short)
  next
    case False
    then show ?thesis using Cons.prems Cons.IH [of js] "is" by (simp add: short_jumps_Cons grow_item_short)
  qed
qed simp

function asm_layout :: "int list \<Rightarrow> asm_item list \<Rightarrow> asm_item list \<times> nat list" where
  "asm_layout labels items =
     (let (offsets, items', changed) = layout_pass labels items
      in if changed then asm_layout labels items' else (items', offsets))"
  by pat_completeness auto
termination
proof (relation "measure (\<lambda>(labels, items). short_jumps items)")
  fix labels :: "int list" and items x offsets y items' and changed :: bool
  assume x: "x = layout_pass labels items" "(offsets, y) = x" "(items', changed) = y" changed
  let ?sized = "map (\<lambda>item. item\<lparr>t_size := item_size item\<rparr>) items"
  have "short_jumps ?sized = short_jumps items"
    by (induction items) (simp_all add: short_jumps_def)
  moreover have "short_jumps items' < short_jumps ?sized"
    using x grow_fewer [of labels offsets "[0..<length items]" ?sized] by (simp add: layout_pass_def Let_def)
  ultimately show "((labels, items'), labels, items) \<in> measure (\<lambda>(labels, items). short_jumps items)" by simp
qed simp

declare asm_layout.simps [simp del]

section \<open>The bytes of the text section\<close>

definition jump_bytes :: "asm_item \<Rightarrow> int \<Rightarrow> u8 list" where
  "jump_bytes item displacement =
     (if t_is_short item
      then [(case t_condition item of None \<Rightarrow> 0xEB | Some condition \<Rightarrow> of_nat (0x70 + condition)), of_int displacement]
      else (case t_condition item of None \<Rightarrow> [0xE9] | Some condition \<Rightarrow> [0x0F, of_nat (0x80 + condition)]) @
           le_bytes 4 (of_int displacement :: i32))"

definition put_text :: "assembler \<Rightarrow> u8 list \<Rightarrow> assembler" where
  "put_text as bytes =
     as\<lparr>as_obj := (as_obj as)\<lparr>o_sections := (o_sections (as_obj as))(ASM_TEXT := asm_put (o_sections (as_obj as) ASM_TEXT) bytes)\<rparr>\<rparr>"

definition place_item :: "nat list \<Rightarrow> assembler \<Rightarrow> nat \<Rightarrow> asm_item \<Rightarrow> assembler outcome" where
  "place_item offsets as i item =
     (if t_is_jump item
      then let target = label_of (as_label_item as) (t_target item)
           in if target < 0 then Failed NO_LABEL (t_line item)
              else Done (put_text as (jump_bytes item (int (offsets ! nat target) - (int (offsets ! i) + int (t_size item)))))
      else
        let start = ab_size (o_sections (as_obj as) ASM_TEXT);
            as = put_text as (take (t_size item) (drop (t_start item) (ab_data (as_item_bytes as))));
            relocs = take (t_reloc_count item) (drop (t_reloc_start item) (as_pending as))
        in Done (as\<lparr>as_obj := foldl (\<lambda>obj r. asm_add_reloc obj (r\<lparr>r_section := ASM_TEXT, r_offset := start + (r_offset r - t_start item)\<rparr>))
                               (as_obj as) relocs\<rparr>))"

definition place_symbol :: "int list \<Rightarrow> nat list \<Rightarrow> nat \<Rightarrow> asm_symbol_entry \<Rightarrow> asm_symbol_entry" where
  "place_symbol labels offsets s symbol =
     (if s < length labels \<and> 0 \<le> labels ! s
      then symbol\<lparr>y_section := Some ASM_TEXT, y_offset := offsets ! nat (labels ! s)\<rparr> else symbol)"

definition asm_finish_text :: "assembler \<Rightarrow> assembler outcome" where
  "asm_finish_text as =
     (let (items, offsets) = asm_layout (as_label_item as) (as_items as)
      in and_then
           (foldl (\<lambda>r (i, item). and_then r (\<lambda>as. place_item offsets as i item)) (Done (as\<lparr>as_items := items\<rparr>))
              (zip [0..<length items] items))
           (\<lambda>as. Done (as\<lparr>as_obj := (as_obj as)\<lparr>o_symbols :=
                     map2 (place_symbol (as_label_item as) offsets) [0..<length (o_symbols (as_obj as))]
                       (o_symbols (as_obj as))\<rparr>\<rparr>)))"

section \<open>Lines\<close>

lemma tl_dropWhile_shorter: "length (tl (dropWhile P (c # cs))) < length (c # cs)"
  using length_dropWhile_le [of P "c # cs"] by (simp only: length_tl) simp

function source_lines :: "string \<Rightarrow> string list" where
  "source_lines [] = []"
| "source_lines (c # cs) =
     takeWhile (\<lambda>c. c \<noteq> CHR 0x0A) (c # cs) # source_lines (tl (dropWhile (\<lambda>c. c \<noteq> CHR 0x0A) (c # cs)))"
  by pat_completeness auto
termination
proof (relation "measure length")
  fix c and cs :: string
  show "(tl (dropWhile (\<lambda>c. c \<noteq> CHR 0x0A) (c # cs)), c # cs) \<in> measure length"
    unfolding in_measure by (rule tl_dropWhile_shorter)
qed simp

fun strip_comment :: "bool \<Rightarrow> string \<Rightarrow> string" where
  "strip_comment in_string [] = []"
| "strip_comment in_string (c # cs) =
     (let in_string = (if c = CHR 0x22 \<or> c = CHR 0x27 then \<not> in_string else in_string)
      in if c = CHR '';'' \<and> \<not> in_string then [] else c # strip_comment in_string cs)"

definition line_text :: "string \<Rightarrow> string" where
  "line_text line = rev (dropWhile (\<lambda>c. is_blank c \<or> c = CHR 0x0D) (rev (strip_comment False line)))"

definition update_symbol :: "assembler \<Rightarrow> nat \<Rightarrow> (asm_symbol_entry \<Rightarrow> asm_symbol_entry) \<Rightarrow> assembler" where
  "update_symbol as s f =
     as\<lparr>as_obj := (as_obj as)\<lparr>o_symbols := (o_symbols (as_obj as))[s := f (o_symbols (as_obj as) ! s)]\<rparr>\<rparr>"

text \<open>A label, without its colon.\<close>

definition label_line :: "assembler \<Rightarrow> string \<Rightarrow> nat \<Rightarrow> assembler outcome" where
  "label_line as label line =
     (let name = asm_symbol_name label (Some (as_scope as)) 160;
          as = (if take 1 label = ''.'' then as else as\<lparr>as_scope := name\<rparr>)
      in with_symbol as name (\<lambda>symbol as.
           if y_section (o_symbols (as_obj as) ! symbol) \<noteq> None \<or> 0 \<le> label_of (as_label_item as) symbol
           then Failed LABEL_DEFINED_TWICE line
           else if as_section as = ASM_TEXT then Done (asm_set_label_item as symbol (length (as_items as)))
           else Done (update_symbol as symbol (\<lambda>y. y\<lparr>y_section := Some (as_section as), y_offset := ab_size (section_bytes as)\<rparr>))))"

definition asm_section_names :: "(string \<times> asm_section_id) list" where
  "asm_section_names = [(''.text'', ASM_TEXT), (''.data'', ASM_DATA), (''.rdata'', ASM_RDATA)]"

definition find_section :: "string \<Rightarrow> asm_section_id option" where
  "find_section name = (if name = ''.rodata'' then Some ASM_RDATA else map_of asm_section_names name)"

definition directive_line :: "assembler \<Rightarrow> string \<Rightarrow> nat \<Rightarrow> assembler outcome" where
  "directive_line as txt line =
     (let word = take 31 (takeWhile (\<lambda>c. \<not> is_blank c) txt);
          rest = dropWhile is_blank (drop (length word) txt)
      in if word = ''bits'' \<or> word = ''default'' then Done as
         else if word = ''section''
         then (case find_section rest of
                 None \<Rightarrow> Failed UNKNOWN_SECTION line
               | Some s \<Rightarrow> Done (as\<lparr>as_section := s\<rparr>))
         else if word = ''extern'' \<or> word = ''global''
         then with_symbol as (asm_symbol_name rest None 160) (\<lambda>symbol as.
           Done (update_symbol as symbol (if hd word = CHR ''e'' then y_is_extern_update (\<lambda>_. True) else y_is_global_update (\<lambda>_. True))))
         else if word \<in> set [''db'', ''dw'', ''dd'', ''dq'', ''times'', ''align''] then asm_data_line as word rest line
         else asm_instruction as word rest line)"

definition assemble_line :: "assembler \<Rightarrow> nat \<Rightarrow> string \<Rightarrow> assembler outcome" where
  "assemble_line as number line =
     (if 1024 \<le> length line then Failed LINE_TOO_LONG number
      else
        let line = line_text line; txt = dropWhile is_blank line
        in if txt = [] then Done as
           else if \<not> is_blank (hd line) \<and> last line = CHR '':'' then label_line as (butlast line) number
           else directive_line as txt number)"

definition new_assembler :: assembler where
  "new_assembler = \<lparr>as_obj = new_object, as_section = ASM_TEXT, as_scope = [], as_items = [], as_item_bytes = no_bytes,
                    as_pending = [], as_label_item = []\<rparr>"

definition assemble_lines :: "string list \<Rightarrow> assembler outcome" where
  "assemble_lines source =
     foldl (\<lambda>r (number, line). and_then r (\<lambda>as. assemble_line as number line)) (Done new_assembler)
       (zip [1..<Suc (length source)] source)"

definition x64_assemble :: "string \<Rightarrow> asm_object outcome" where
  "x64_assemble source =
     and_then (assemble_lines (source_lines source)) (\<lambda>as.
       and_then (asm_finish_text as) (\<lambda>as.
         if list_ex (\<lambda>y. y_section y = None \<and> \<not> y_is_extern y) (o_symbols (as_obj as)) then Failed UNDEFINED_SYMBOL 0
         else Done (as_obj as)))"

end
