(* ===== verification/AsmLayout.thy ===== *)
theory AsmLayout
  imports AsmText
begin

text \<open>
  The layout of the text section and its bytes. \<^verbatim>\<open>asm_layout\<close> gives the shortest jumps that reach: whatever
  other sizes reach too, no jump is longer than it is there. In the bytes of \<^verbatim>\<open>asm_finish_text\<close> every jump goes to
  its label, for the items that the lines of a text make.
\<close>

section \<open>Offsets\<close>

lemma item_offsets_length [simp]: "length (item_offsets offset items) = Suc (length items)"
  by (induction items arbitrary: offset) simp_all

lemma item_offsets_nth:
  "i \<le> length items \<Longrightarrow> item_offsets offset items ! i = offset + sum_list (map t_size (take i items))"
proof (induction items arbitrary: offset i)
  case (Cons item items)
  then show ?case by (cases i) simp_all
qed simp

definition size_between :: "asm_item list \<Rightarrow> nat \<Rightarrow> nat \<Rightarrow> nat" where
  "size_between items a b = sum_list (map t_size (take (b - a) (drop a items)))"

lemma offset_difference:
  assumes "a \<le> b" and "b \<le> length items"
  shows "item_offsets 0 items ! b = item_offsets 0 items ! a + size_between items a b"
proof -
  have "take b items = take a items @ take (b - a) (drop a items)"
    using assms(1) by (metis le_add_diff_inverse take_add)
  then show ?thesis using assms by (simp add: item_offsets_nth size_between_def)
qed

lemma size_between_Suc:
  "a < b \<Longrightarrow> b \<le> length items \<Longrightarrow> size_between items a b = t_size (items ! a) + size_between items (Suc a) b"
  by (simp add: size_between_def Cons_nth_drop_Suc [symmetric] Suc_diff_Suc [symmetric] take_Suc_Cons)

lemma size_between_mono:
  assumes "list_all2 (\<lambda>x y. t_size x \<le> t_size y) xs ys"
  shows "size_between xs a b \<le> size_between ys a b"
proof -
  have "list_all2 (\<lambda>x y. t_size x \<le> t_size y) (take (b - a) (drop a xs)) (take (b - a) (drop a ys))"
    using assms by (intro list_all2_takeI list_all2_dropI)
  then show ?thesis
    unfolding size_between_def by (induction rule: list_all2_induct) simp_all
qed

section \<open>Layouts\<close>

text \<open>Items that differ only in the sizes of the jumps.\<close>

definition same_item :: "asm_item \<Rightarrow> asm_item \<Rightarrow> bool" where
  "same_item x y \<longleftrightarrow> x\<lparr>t_size := 0, t_is_short := False\<rparr> = y\<lparr>t_size := 0, t_is_short := False\<rparr> \<and>
     (t_is_jump x \<or> t_size x = t_size y)"

text \<open>A layout in which every short jump reaches its target.\<close>

definition reaches :: "int list \<Rightarrow> asm_item list \<Rightarrow> bool" where
  "reaches labels items \<longleftrightarrow>
     (\<forall>i < length items. t_size (items ! i) = item_size (items ! i) \<and> \<not> must_grow labels (item_offsets 0 items) i (items ! i))"

lemma same_itemD:
  assumes "same_item x y"
  shows "t_is_jump x = t_is_jump y" "t_condition x = t_condition y" "t_target x = t_target y" "t_start x = t_start y"
    "t_reloc_start x = t_reloc_start y" "t_reloc_count x = t_reloc_count y" "t_line x = t_line y"
    "\<not> t_is_jump x \<Longrightarrow> t_size x = t_size y"
  using assms unfolding same_item_def by (cases x; cases y; simp)+

lemma same_item_refl: "same_item x x"
  by (simp add: same_item_def)

lemma same_item_trans: "same_item x y \<Longrightarrow> same_item y z \<Longrightarrow> same_item x z"
  unfolding same_item_def by (cases x; cases y; cases z) auto

lemma same_item_sym: "same_item x y \<Longrightarrow> same_item y x"
  unfolding same_item_def by (cases x; cases y) auto

lemma same_item_layout:
  "same_item x (x\<lparr>t_size := item_size x\<rparr>)" "same_item x (grow_item labels offsets i x)"
  by (cases x; simp add: same_item_def item_size_def grow_item_def must_grow_def)+

definition sized :: "asm_item list \<Rightarrow> asm_item list" where
  "sized items = map (\<lambda>item. item\<lparr>t_size := item_size item\<rparr>) items"

lemma list_ex_zip_upt: "list_ex (\<lambda>(i, x). P i x) (zip [0..<length xs] xs) \<longleftrightarrow> (\<exists>i < length xs. P i (xs ! i))"
proof -
  have "list_ex (\<lambda>(i, x). P i x) (zip [0..<length xs] xs) \<longleftrightarrow> (\<exists>n < length xs. case zip [0..<length xs] xs ! n of (i, x) \<Rightarrow> P i x)"
    by (simp add: list_ex_length)
  then show ?thesis by auto
qed

lemma layout_pass_eq:
  "layout_pass labels items =
     (item_offsets 0 (sized items), map2 (grow_item labels (item_offsets 0 (sized items))) [0..<length items] (sized items),
      \<exists>i < length items. must_grow labels (item_offsets 0 (sized items)) i (sized items ! i))"
  using list_ex_zip_upt [of "must_grow labels (item_offsets 0 (sized items))" "sized items"]
  by (simp add: layout_pass_def Let_def sized_def)

lemma sized_length [simp]: "length (sized items) = length items"
  by (simp add: sized_def)

lemma same_items_sized: "list_all2 same_item items (sized items)"
  unfolding sized_def by (simp add: list_all2_map2 list_all2_conv_all_nth same_item_layout)

lemma asm_layout_unfold:
  "asm_layout labels items =
     (if \<exists>i < length items. must_grow labels (item_offsets 0 (sized items)) i (sized items ! i)
      then asm_layout labels (map2 (grow_item labels (item_offsets 0 (sized items))) [0..<length items] (sized items))
      else (map2 (grow_item labels (item_offsets 0 (sized items))) [0..<length items] (sized items), item_offsets 0 (sized items)))"
  by (subst asm_layout.simps) (simp add: layout_pass_eq)

lemma layout_result:
  assumes "asm_layout labels items = (items', offsets)"
  shows "list_all2 same_item items items' \<and> offsets = item_offsets 0 items' \<and> reaches labels items'"
  using assms
proof (induction labels items arbitrary: items' offsets rule: asm_layout.induct)
  case (1 labels items)
  let ?offsets = "item_offsets 0 (sized items)"
  let ?grown = "map2 (grow_item labels ?offsets) [0..<length items] (sized items)"
  have grown: "list_all2 same_item items ?grown"
    unfolding list_all2_conv_all_nth
  proof (intro conjI allI impI)
    fix i assume i: "i < length items"
    have "same_item (items ! i) (sized items ! i)" using same_items_sized i by (simp add: list_all2_conv_all_nth)
    then show "same_item (items ! i) (?grown ! i)" using i same_item_layout(2) same_item_trans by simp
  qed simp
  show ?case
  proof (cases "\<exists>i < length items. must_grow labels ?offsets i (sized items ! i)")
    case True
    have "asm_layout labels ?grown = (items', offsets)"
      using "1.prems"(1) unfolding asm_layout_unfold [of labels items] if_P [OF True] .
    note this = "1.IH" [OF refl layout_pass_eq [symmetric] refl True this]
    then have r: "list_all2 same_item ?grown items'" "offsets = item_offsets 0 items'" "reaches labels items'" by simp_all
    have "list_all2 same_item items items'"
      by (rule list_all2_trans [OF _ grown r(1)]) (rule same_item_trans)
    then show ?thesis using r by simp
  next
    case False
    then have r: "items' = ?grown" "offsets = ?offsets"
      using "1.prems"(1) unfolding asm_layout_unfold [of labels items] if_not_P [OF False] prod.inject by blast+
    have eq: "?grown = sized items"
      by (rule nth_equalityI) (use False in \<open>auto simp: grow_item_def\<close>)
    have "reaches labels (sized items)"
      using False by (auto simp: reaches_def sized_def item_size_def)
    then show ?thesis using r grown eq by simp
  qed
qed

section \<open>No shorter jumps\<close>

text \<open>A jump that is short in \<open>y\<close> is short in \<open>x\<close>.\<close>

definition shorter :: "asm_item \<Rightarrow> asm_item \<Rightarrow> bool" where
  "shorter x y \<longleftrightarrow> same_item x y \<and> (t_is_jump x \<longrightarrow> t_is_short y \<longrightarrow> t_is_short x)"

lemma shorter_size: "shorter x y \<Longrightarrow> item_size x \<le> item_size y"
  using same_itemD [of x y] by (auto simp: shorter_def item_size_def)

lemma label_range: "list_all (\<lambda>l. l \<le> int n) labels \<Longrightarrow> 0 \<le> label_of labels s \<Longrightarrow> nat (label_of labels s) \<le> n"
  by (auto simp: label_of_def list_all_length split: if_splits)

text \<open>A displacement that reaches in a longer layout reaches in a shorter one.\<close>

lemma near_shorter:
  assumes le: "list_all2 (\<lambda>x y. t_size x \<le> t_size y) xs ys" and i: "i < length xs" and t: "t \<le> length xs"
    and size2: "t_size (xs ! i) = 2" "t_size (ys ! i) = 2"
    and near: "is_near (int (item_offsets 0 ys ! t) - (int (item_offsets 0 ys ! i) + 2))"
  shows "is_near (int (item_offsets 0 xs ! t) - (int (item_offsets 0 xs ! i) + 2))"
proof (cases "t \<le> i")
  case True
  have len: "length ys = length xs" using le by (simp add: list_all2_lengthD)
  have "int (item_offsets 0 zs ! t) - (int (item_offsets 0 zs ! i) + 2) = - int (size_between zs t i) - 2"
    if "length zs = length xs" for zs using offset_difference [OF True, of zs] i that by simp
  then show ?thesis using size_between_mono [OF le, of t i] near len by (simp add: is_near_def)
next
  case False
  have len: "length ys = length xs" using le by (simp add: list_all2_lengthD)
  have "int (item_offsets 0 zs ! t) - (int (item_offsets 0 zs ! i) + 2) = int (size_between zs (Suc i) t)"
    if "length zs = length xs" "t_size (zs ! i) = 2" for zs
    using offset_difference [of i t zs] size_between_Suc [of i t zs] t that False by simp
  then show ?thesis using size_between_mono [OF le, of "Suc i" t] near len size2 by (simp add: is_near_def)
qed

lemma pass_keeps_shorter:
  assumes labels: "list_all (\<lambda>l. l \<le> int (length items)) labels"
    and short: "list_all2 shorter items best" and best: "reaches labels best"
  shows "list_all2 shorter (map2 (grow_item labels (item_offsets 0 (sized items))) [0..<length items] (sized items)) best"
  unfolding list_all2_conv_all_nth
proof (intro conjI allI impI)
  have len: "length best = length items" using short by (simp add: list_all2_lengthD)
  let ?offsets = "item_offsets 0 (sized items)"
  show "length (map2 (grow_item labels ?offsets) [0..<length items] (sized items)) = length best" using len by simp
  have le: "list_all2 (\<lambda>x y. t_size x \<le> t_size y) (sized items) best"
    unfolding list_all2_conv_all_nth
  proof (intro conjI allI impI)
    fix j assume j: "j < length (sized items)"
    then have "shorter (items ! j) (best ! j)" using short by (simp add: list_all2_conv_all_nth)
    then have "item_size (items ! j) \<le> item_size (best ! j)" by (rule shorter_size)
    then show "t_size (sized items ! j) \<le> t_size (best ! j)" using best j len by (simp add: sized_def reaches_def)
  qed (simp add: len)
  fix i assume "i < length (map2 (grow_item labels ?offsets) [0..<length items] (sized items))"
  then have i: "i < length items" by simp
  have s: "shorter (items ! i) (best ! i)" using short i by (simp add: list_all2_conv_all_nth)
  have x: "sized items ! i = (items ! i)\<lparr>t_size := item_size (items ! i)\<rparr>" using i by (simp add: sized_def)
  have keep: "shorter (sized items ! i) (best ! i)"
    unfolding shorter_def
  proof
    have "same_item (sized items ! i) (items ! i)" unfolding x by (rule same_item_sym [OF same_item_layout(1)])
    then show "same_item (sized items ! i) (best ! i)" using s same_item_trans unfolding shorter_def by blast
    show "t_is_jump (sized items ! i) \<longrightarrow> t_is_short (best ! i) \<longrightarrow> t_is_short (sized items ! i)"
      using s unfolding x shorter_def by simp
  qed
  have no: "\<not> must_grow labels ?offsets i (sized items ! i)" if jump: "t_is_jump (best ! i)" "t_is_short (best ! i)"
  proof -
    have b: "\<not> must_grow labels (item_offsets 0 best) i (best ! i)" "t_size (best ! i) = item_size (best ! i)"
      using best i len by (simp_all add: reaches_def)
    have same: "t_target (sized items ! i) = t_target (best ! i)" "t_is_jump (sized items ! i)" "t_is_short (sized items ! i)"
      using same_itemD keep jump by (auto simp: shorter_def)
    let ?t = "label_of labels (t_target (best ! i))"
    have t: "0 \<le> ?t" "is_near (int (item_offsets 0 best ! nat ?t) - (int (item_offsets 0 best ! i) + 2))"
      using b(1) jump by (auto simp: must_grow_def Let_def)
    have "is_near (int (?offsets ! nat ?t) - (int (?offsets ! i) + 2))"
      by (rule near_shorter [OF le _ _ _ _ t(2)])
        (use i label_range [OF labels t(1)] same jump b(2) x in \<open>auto simp: item_size_def\<close>)
    then show ?thesis using t(1) same by (simp add: must_grow_def)
  qed
  show "shorter (map2 (grow_item labels ?offsets) [0..<length items] (sized items) ! i) (best ! i)"
  proof (cases "must_grow labels ?offsets i (sized items ! i)")
    case True
    then have "\<not> (t_is_jump (best ! i) \<and> t_is_short (best ! i))" using no by blast
    moreover have same: "same_item (grow_item labels ?offsets i (sized items ! i)) (best ! i)"
      using same_item_trans [OF same_item_sym [OF same_item_layout(2)]] keep unfolding shorter_def by blast
    ultimately have "shorter (grow_item labels ?offsets i (sized items ! i)) (best ! i)"
      using same_itemD(1) [OF same] unfolding shorter_def by blast
    then show ?thesis using i by simp
  next
    case False
    then show ?thesis using i keep by (simp add: grow_item_def)
  qed
qed

lemma layout_shortest:
  assumes "asm_layout labels items = (items', offsets)" and "list_all (\<lambda>l. l \<le> int (length items)) labels"
    and "list_all2 shorter items best" and "reaches labels best"
  shows "list_all2 shorter items' best"
  using assms
proof (induction labels items arbitrary: items' offsets rule: asm_layout.induct)
  case (1 labels items)
  let ?offsets = "item_offsets 0 (sized items)"
  let ?grown = "map2 (grow_item labels ?offsets) [0..<length items] (sized items)"
  have grown: "list_all2 shorter ?grown best" by (rule pass_keeps_shorter [OF "1.prems"(2-4)])
  show ?case
  proof (cases "\<exists>i < length items. must_grow labels ?offsets i (sized items ! i)")
    case True
    have "asm_layout labels ?grown = (items', offsets)"
      using "1.prems"(1) unfolding asm_layout_unfold [of labels items] if_P [OF True] .
    from "1.IH" [OF refl layout_pass_eq [symmetric] refl True this] show ?thesis using grown "1.prems"(2,4) by simp
  next
    case False
    then have "items' = ?grown"
      using "1.prems"(1) unfolding asm_layout_unfold [of labels items] if_not_P [OF False] prod.inject by blast+
    then show ?thesis using grown by simp
  qed
qed

section \<open>The bytes\<close>

text \<open>What the processor does with a jump: its condition, its length and where it goes from its end.\<close>

definition decode_jump :: "u8 list \<Rightarrow> (nat option \<times> nat \<times> int) option" where
  "decode_jump bs =
     (case bs of
        b # d # _ \<Rightarrow>
          if b = 0xEB then Some (None, 2, sint d)
          else if unat b div 16 = 7 then Some (Some (unat b mod 16), 2, sint d)
          else if b = 0xE9 \<and> 5 \<le> length bs then Some (None, 5, sint (of_nat (le_value (take 4 (drop 1 bs))) :: i32))
          else if b = 0x0F \<and> unat d div 16 = 8 \<and> 6 \<le> length bs
          then Some (Some (unat d mod 16), 6, sint (of_nat (le_value (take 4 (drop 2 bs))) :: i32))
          else None
      | _ \<Rightarrow> None)"

definition item_ok :: "asm_item \<Rightarrow> bool" where
  "item_ok item \<longleftrightarrow> (case t_condition item of None \<Rightarrow> True | Some condition \<Rightarrow> condition < 16)"

lemma le_value_dword: "of_nat (le_value (le_bytes 4 d)) = (d :: i32)"
proof -
  have "unat d < 2 ^ LENGTH(32)" by (rule unsigned_less)
  then show ?thesis by (simp add: le_value_le_bytes del: le_bytes.simps)
qed

lemma le_bytes_not_Nil: "le_bytes 4 d \<noteq> []"
  using length_le_bytes [of 4 d] by (metis list.size(3) zero_neq_numeral)

lemma sint_of_int_near: "is_near d \<Longrightarrow> sint (of_int d :: u8) = d"
  by (simp add: is_near_def signed_of_int signed_take_bit_int_eq_self)

lemma sint_of_int_far: "\<bar>d\<bar> < 2 ^ 31 \<Longrightarrow> sint (of_int d :: i32) = d"
  by (simp add: signed_of_int signed_take_bit_int_eq_self)

lemma jump_bytes_length: "t_is_jump item \<Longrightarrow> length (jump_bytes item d) = item_size item"
  by (simp add: jump_bytes_def item_size_def del: le_bytes.simps split: option.split)

lemma jump_bytes_decode:
  assumes "item_ok item" and "t_is_jump item" and "\<bar>d\<bar> < 2 ^ 31" and "t_is_short item \<Longrightarrow> is_near d"
  shows "decode_jump (jump_bytes item d @ rest) = Some (t_condition item, item_size item, d)"
proof -
  have cc: "unat (of_nat (0x70 + c) :: u8) = 0x70 + c" "unat (of_nat (0x80 + c) :: u8) = 0x80 + c" "of_nat (0x70 + c) \<noteq> (0xEB :: u8)"
      "(0x70 + c) div 16 = 7" "(0x70 + c) mod 16 = c" "(0x80 + c) div 16 = 8" "(0x80 + c) mod 16 = c"
    if "t_condition item = Some c" for c
  proof -
    have c: "c < 16" using assms(1) that by (simp add: item_ok_def)
    show u: "unat (of_nat (0x70 + c) :: u8) = 0x70 + c" "unat (of_nat (0x80 + c) :: u8) = 0x80 + c"
      by (simp_all only: unat_of_nat) (use c in simp_all)
    show "of_nat (0x70 + c) \<noteq> (0xEB :: u8)"
    proof
      assume "of_nat (0x70 + c) = (0xEB :: u8)"
      then have "unat (of_nat (0x70 + c) :: u8) = 0xEB" by simp
      then show False using u c by simp
    qed
    have "(16 * k + c) div 16 = k \<and> (16 * k + c) mod 16 = c" for k using c by simp
    from this [of 7] this [of 8]
    show "(0x70 + c) div 16 = 7" "(0x70 + c) mod 16 = c" "(0x80 + c) div 16 = 8" "(0x80 + c) mod 16 = c" by simp_all
  qed
  show "decode_jump (jump_bytes item d @ rest) = Some (t_condition item, item_size item, d)"
  proof (cases "t_is_short item")
    case True
    then show ?thesis
      using cc assms(2,4) by (cases "t_condition item") (simp_all add: decode_jump_def jump_bytes_def item_size_def sint_of_int_near del: of_nat_add)
  next
    case False
    then show ?thesis
      using cc assms(2) sint_of_int_far [OF assms(3)] le_value_dword [of "of_int d"]
      by (cases "t_condition item") (auto simp: decode_jump_def jump_bytes_def item_size_def le_bytes_not_Nil simp del: le_bytes.simps of_nat_add split: list.split)
  qed
qed

text \<open>The bytes of an item.\<close>

definition item_code :: "assembler \<Rightarrow> nat list \<Rightarrow> nat \<Rightarrow> asm_item \<Rightarrow> u8 list" where
  "item_code as offsets i item =
     (if t_is_jump item
      then jump_bytes item (int (offsets ! nat (label_of (as_label_item as) (t_target item))) - (int (offsets ! i) + int (t_size item)))
      else take (t_size item) (drop (t_start item) (ab_data (as_item_bytes as))))"

definition text_of :: "assembler \<Rightarrow> u8 list" where
  "text_of as = ab_data (o_sections (as_obj as) ASM_TEXT)"

text \<open>Two assemblers that differ at most in the object.\<close>

definition same_but_object :: "assembler \<Rightarrow> assembler \<Rightarrow> bool" where
  "same_but_object as as' \<longleftrightarrow> as'\<lparr>as_obj := as_obj as\<rparr> = as"

lemma same_but_objectD:
  assumes "same_but_object as as'"
  shows "as_label_item as' = as_label_item as" "as_item_bytes as' = as_item_bytes as" "as_pending as' = as_pending as"
    "as_items as' = as_items as"
  using assms unfolding same_but_object_def by (cases as; cases as'; simp)+

lemma foldl_relocs:
  "o_sections (foldl (\<lambda>obj r. asm_add_reloc obj (f r)) obj rs) = o_sections obj \<and>
   o_symbols (foldl (\<lambda>obj r. asm_add_reloc obj (f r)) obj rs) = o_symbols obj"
  by (induction rs arbitrary: obj) (simp_all add: asm_add_reloc_def)

lemma place_item_Done:
  assumes "place_item offsets as i item = Done as'"
  shows "same_but_object as as'" "text_of as' = text_of as @ item_code as offsets i item"
    "o_symbols (as_obj as') = o_symbols (as_obj as)" "t_is_jump item \<Longrightarrow> 0 \<le> label_of (as_label_item as) (t_target item)"
proof -
  show "same_but_object as as'"
    using assms by (cases as) (auto simp: place_item_def Let_def same_but_object_def put_text_def split: if_splits)
  show "text_of as' = text_of as @ item_code as offsets i item"
    using assms by (auto simp: place_item_def Let_def text_of_def item_code_def put_text_def foldl_relocs split: if_splits)
  show "o_symbols (as_obj as') = o_symbols (as_obj as)"
    using assms by (auto simp: place_item_def Let_def put_text_def foldl_relocs split: if_splits)
  show "t_is_jump item \<Longrightarrow> 0 \<le> label_of (as_label_item as) (t_target item)"
    using assms by (auto simp: place_item_def Let_def split: if_splits)
qed

lemma foldl_and_then_Failed: "foldl (\<lambda>r x. and_then r (f x)) (Failed error line) xs = Failed error line"
  and foldl_and_then_Stuck: "foldl (\<lambda>r x. and_then r (f x)) Stuck xs = Stuck"
  by (induction xs) (simp_all add: and_then_def)

lemma and_then_Done: "and_then r f = Done y \<longleftrightarrow> (\<exists>x. r = Done x \<and> f x = Done y)"
  by (simp add: and_then_def split: outcome.split)

lemma place_items_Done:
  assumes "foldl (\<lambda>r (i, item). and_then r (\<lambda>as. place_item offsets as i item)) (Done as) xs = Done as'"
  shows "same_but_object as as' \<and> text_of as' = text_of as @ concat (map (\<lambda>(i, item). item_code as offsets i item) xs) \<and>
    o_symbols (as_obj as') = o_symbols (as_obj as) \<and>
    (\<forall>(i, item) \<in> set xs. t_is_jump item \<longrightarrow> 0 \<le> label_of (as_label_item as) (t_target item))"
  using assms
proof (induction xs arbitrary: as' rule: rev_induct)
  case Nil
  then show ?case by (simp add: same_but_object_def)
next
  case (snoc x xs)
  obtain i item where x: "x = (i, item)" by (cases x)
  obtain as1 where as1: "foldl (\<lambda>r (i, item). and_then r (\<lambda>as. place_item offsets as i item)) (Done as) xs = Done as1"
      "place_item offsets as1 i item = Done as'"
    using snoc.prems by (auto simp: x and_then_Done)
  note IH = snoc.IH [OF as1(1)] and last = place_item_Done [OF as1(2)]
  have eq: "same_but_object as as1" using IH by simp
  have "item_code as1 offsets i item = item_code as offsets i item" by (simp add: item_code_def same_but_objectD [OF eq])
  moreover have "same_but_object as as'" using eq last(1) by (cases as; cases as1; cases as') (simp add: same_but_object_def)
  ultimately show ?case using IH last same_but_objectD(1) [OF eq] by (auto simp: x)
qed

text \<open>Where an item is in the bytes.\<close>

lemma drop_concat:
  assumes "i < length xs" and "\<And>j. j < length xs \<Longrightarrow> length (f j (xs ! j)) = t_size (xs ! j)"
  shows "\<exists>rest. drop (item_offsets 0 xs ! i) (concat (map (\<lambda>(i, x). f i x) (zip [0..<length xs] xs))) = f i (xs ! i) @ rest"
    and "length (concat (map (\<lambda>(i, x). f i x) (zip [0..<length xs] xs))) = item_offsets 0 xs ! length xs"
proof -
  have len: "length (concat (map (\<lambda>(i, x). f i x) (take k (zip [0..<length xs] xs)))) = sum_list (map t_size (take k xs))"
    if "k \<le> length xs" for k
    using that
  proof (induction k)
    case (Suc k)
    then have k: "k < length xs" by simp
    then show ?case using Suc.IH assms(2) [OF k] by (simp add: take_Suc_conv_app_nth)
  qed simp
  show "length (concat (map (\<lambda>(i, x). f i x) (zip [0..<length xs] xs))) = item_offsets 0 xs ! length xs"
    using len [of "length xs"] by (simp add: item_offsets_nth)
  let ?z = "zip [0..<length xs] xs"
  have split: "?z = take i ?z @ (i, xs ! i) # drop (Suc i) ?z"
    using assms(1) id_take_nth_drop [of i ?z] by simp
  have "concat (map (\<lambda>(i, x). f i x) ?z) = concat (map (\<lambda>(i, x). f i x) (take i ?z @ (i, xs ! i) # drop (Suc i) ?z))"
    using split by (rule arg_cong [where f = "\<lambda>z. concat (map (\<lambda>(i, x). f i x) z)"])
  also have "\<dots> = concat (map (\<lambda>(i, x). f i x) (take i ?z)) @ f i (xs ! i) @ concat (map (\<lambda>(i, x). f i x) (drop (Suc i) ?z))"
    by simp
  finally have "concat (map (\<lambda>(i, x). f i x) ?z) =
      concat (map (\<lambda>(i, x). f i x) (take i ?z)) @ f i (xs ! i) @ concat (map (\<lambda>(i, x). f i x) (drop (Suc i) ?z))" .
  then show "\<exists>rest. drop (item_offsets 0 xs ! i) (concat (map (\<lambda>(i, x). f i x) ?z)) = f i (xs ! i) @ rest"
    using len [of i] assms(1) by (simp add: item_offsets_nth)
qed

section \<open>The jumps of a text\<close>

text \<open>What the lines of a text keep: jumps start short, the other items have their bytes, and a label is before an
  item or at the end.\<close>

definition lines_ok :: "assembler \<Rightarrow> bool" where
  "lines_ok as \<longleftrightarrow>
     list_all (\<lambda>item. item_ok item \<and> (if t_is_jump item then t_is_short item
                 else t_start item + t_size item \<le> length (ab_data (as_item_bytes as)))) (as_items as) \<and>
     list_all (\<lambda>l. l \<le> int (length (as_items as))) (as_label_item as)"

lemma finish_text_jumps:
  assumes fin: "asm_finish_text as = Done as'" and ok: "lines_ok as" and empty: "text_of as = []"
    and small: "length (text_of as') < 2 ^ 31"
  obtains offsets where "length (as_items as') = length (as_items as)"
    and "list_all2 same_item (as_items as) (as_items as')" and "offsets = item_offsets 0 (as_items as')"
    and "\<And>i. i < length (as_items as') \<Longrightarrow> t_is_jump (as_items as' ! i) \<Longrightarrow>
      \<exists>d. decode_jump (drop (offsets ! i) (text_of as')) = Some (t_condition (as_items as' ! i), t_size (as_items as' ! i), d) \<and>
          0 \<le> label_of (as_label_item as) (t_target (as_items as' ! i)) \<and>
          int (offsets ! i) + int (t_size (as_items as' ! i)) + d =
            int (offsets ! nat (label_of (as_label_item as) (t_target (as_items as' ! i))))"
    and "\<And>s. s < length (o_symbols (as_obj as)) \<Longrightarrow> 0 \<le> label_of (as_label_item as) s \<Longrightarrow>
      y_section (o_symbols (as_obj as') ! s) = Some ASM_TEXT \<and>
      y_offset (o_symbols (as_obj as') ! s) = offsets ! nat (label_of (as_label_item as) s)"
    and "reaches (as_label_item as) (as_items as')"
proof -
  obtain items offsets where lay: "asm_layout (as_label_item as) (as_items as) = (items, offsets)" by fastforce
  let ?as = "as\<lparr>as_items := items\<rparr>"
  note res = layout_result [OF lay]
  have same: "list_all2 same_item (as_items as) items" and off: "offsets = item_offsets 0 items"
    and reach: "reaches (as_label_item as) items" using res by simp_all
  have len: "length items = length (as_items as)" using same by (simp add: list_all2_lengthD)
  obtain as1 where as1: "foldl (\<lambda>r (i, item). and_then r (\<lambda>as. place_item offsets as i item)) (Done ?as)
        (zip [0..<length items] items) = Done as1"
      and as': "as' = as1\<lparr>as_obj := (as_obj as1)\<lparr>o_symbols := map2 (place_symbol (as_label_item as1) offsets)
        [0..<length (o_symbols (as_obj as1))] (o_symbols (as_obj as1))\<rparr>\<rparr>"
    using fin unfolding asm_finish_text_def lay Let_def case_prod_conv and_then_Done by auto
  note placed = place_items_Done [OF as1]
  have obj: "same_but_object ?as as1" using placed by simp
  have fields: "as_label_item as1 = as_label_item as" "as_items as1 = items" using same_but_objectD [OF obj] by simp_all
  have items': "as_items as' = items" by (simp add: as' fields)
  have symbols: "o_symbols (as_obj as1) = o_symbols (as_obj as)" using placed by simp
  have bytes: "text_of as' = concat (map (\<lambda>(i, item). item_code ?as offsets i item) (zip [0..<length items] items))"
    using placed empty by (simp add: text_of_def as')
  have item: "item_ok (items ! i)" "t_size (items ! i) = item_size (items ! i)"
      "t_is_jump (items ! i) \<or> t_start (items ! i) + t_size (items ! i) \<le> length (ab_data (as_item_bytes as))"
    if i: "i < length items" for i
  proof -
    have s: "same_item (as_items as ! i) (items ! i)" using same i len by (simp add: list_all2_conv_all_nth)
    have "item_ok (as_items as ! i) \<and> (if t_is_jump (as_items as ! i) then t_is_short (as_items as ! i)
        else t_start (as_items as ! i) + t_size (as_items as ! i) \<le> length (ab_data (as_item_bytes as)))"
      using ok i len by (simp add: lines_ok_def list_all_length)
    then show "item_ok (items ! i)"
      "t_is_jump (items ! i) \<or> t_start (items ! i) + t_size (items ! i) \<le> length (ab_data (as_item_bytes as))"
      using same_itemD [OF s] by (auto simp: item_ok_def split: if_splits)
    show "t_size (items ! i) = item_size (items ! i)" using reach i by (simp add: reaches_def)
  qed
  have labels: "list_all (\<lambda>l. l \<le> int (length items)) (as_label_item as)" using ok len by (simp add: lines_ok_def)
  let ?code = "item_code ?as offsets"
  have code_length: "length (?code j (items ! j)) = t_size (items ! j)" if "j < length items" for j
    using item [OF that] by (auto simp: item_code_def jump_bytes_length)
  note at = drop_concat [of _ items ?code, OF _ code_length]
  have total: "item_offsets 0 items ! length items < 2 ^ 31"
    using small drop_concat(2) [of 0 items ?code] code_length bytes by (cases "items = []") simp_all
  have below: "item_offsets 0 items ! k < 2 ^ 31" if "k \<le> length items" for k
    using offset_difference [of k "length items" items] that total by simp
  show thesis
  proof (rule that)
    show "length (as_items as') = length (as_items as)" "list_all2 same_item (as_items as) (as_items as')"
        "reaches (as_label_item as) (as_items as')" "offsets = item_offsets 0 (as_items as')"
      using len same reach off by (simp_all add: items')
  next
    fix i assume "i < length (as_items as')" and "t_is_jump (as_items as' ! i)"
    then have i: "i < length items" and jump: "t_is_jump (items ! i)" by (simp_all add: items')
    define t where "t = label_of (as_label_item as) (t_target (items ! i))"
    define d where "d = int (offsets ! nat t) - (int (offsets ! i) + int (t_size (items ! i)))"
    have "(i, items ! i) \<in> set (zip [0..<length items] items)" using i by (auto simp: in_set_zip intro!: exI [of _ i])
    then have t0: "0 \<le> t" using placed jump unfolding t_def by fastforce
    have tn: "nat t \<le> length items" using label_range [OF labels] t0 unfolding t_def by blast
    have next_off: "offsets ! i + t_size (items ! i) = offsets ! Suc i"
      using offset_difference [of i "Suc i" items] size_between_Suc [of i "Suc i" items] i
      by (simp add: off size_between_def)
    have far: "\<bar>d\<bar> < 2 ^ 31"
      using below [OF tn] below [of "Suc i"] i next_off unfolding d_def off by simp
    have near: "is_near d" if "t_is_short (items ! i)"
      using reach i jump that t0 item(2) [OF i]
      by (auto simp: reaches_def must_grow_def Let_def d_def t_def off item_size_def)
    obtain rest where rest: "drop (offsets ! i) (text_of as') = ?code i (items ! i) @ rest"
      using drop_concat(1) [of i items ?code] i code_length off bytes by auto
    have "?code i (items ! i) = jump_bytes (items ! i) d" using jump by (simp add: item_code_def d_def t_def)
    then have "decode_jump (drop (offsets ! i) (text_of as')) = Some (t_condition (items ! i), t_size (items ! i), d)"
      using jump_bytes_decode [OF item(1) [OF i] jump far near] rest item(2) [OF i] by simp
    then show "\<exists>d. decode_jump (drop (offsets ! i) (text_of as')) = Some (t_condition (as_items as' ! i), t_size (as_items as' ! i), d) \<and>
        0 \<le> label_of (as_label_item as) (t_target (as_items as' ! i)) \<and>
        int (offsets ! i) + int (t_size (as_items as' ! i)) + d =
          int (offsets ! nat (label_of (as_label_item as) (t_target (as_items as' ! i))))"
      using t0 unfolding items' t_def [symmetric] d_def by auto
  next
    fix s assume s: "s < length (o_symbols (as_obj as))" "0 \<le> label_of (as_label_item as) s"
    then have "s < length (as_label_item as)" "label_of (as_label_item as) s = as_label_item as ! s"
      by (auto simp: label_of_def split: if_splits)
    then show "y_section (o_symbols (as_obj as') ! s) = Some ASM_TEXT \<and>
        y_offset (o_symbols (as_obj as') ! s) = offsets ! nat (label_of (as_label_item as) s)"
      using s by (simp add: as' symbols fields place_symbol_def)
  qed
qed

section \<open>The lines keep it\<close>

text \<open>Data and symbols leave the items, their bytes and the labels as they are.\<close>

definition keeps :: "assembler \<Rightarrow> assembler \<Rightarrow> bool" where
  "keeps as as' \<longleftrightarrow> as_items as' = as_items as \<and> as_item_bytes as' = as_item_bytes as \<and> as_label_item as' = as_label_item as"

lemma keeps_lines_ok: "keeps as as' \<Longrightarrow> lines_ok as \<Longrightarrow> lines_ok as'"
  by (simp only: keeps_def lines_ok_def)

lemma keeps_trans: "keeps as as1 \<Longrightarrow> keeps as1 as2 \<Longrightarrow> keeps as as2"
  by (simp add: keeps_def)

lemma keeps_simps [simp]:
  "keeps as (put_section as bytes)" "keeps as (update_symbol as s f)" "keeps as (as\<lparr>as_obj := obj\<rparr>)"
  "keeps as (as\<lparr>as_section := sec\<rparr>)" "keeps as as" "keeps as (as\<lparr>as_scope := scope\<rparr>)"
  by (simp_all add: keeps_def put_section_def update_symbol_def)

lemma with_symbol_Done:
  assumes "with_symbol as name f = Done as'"
  obtains symbol obj where "asm_symbol (as_obj as) name = Some (symbol, obj)" and "f symbol (as\<lparr>as_obj := obj\<rparr>) = Done as'"
  using assms by (auto simp: with_symbol_def split: option.splits)

lemma data_word_keeps: "data_word as n word line = Done as' \<Longrightarrow> keeps as as'"
  by (auto simp: data_word_def Let_def keeps_def put_section_def elim!: with_symbol_Done split: if_splits option.splits)

lemma data_words_keeps: "data_words as n p line = Done as' \<Longrightarrow> keeps as as'"
proof (induction as n p line rule: data_words.induct)
  case (2 as n c cs line)
  then obtain as1 where "data_word as n (rev (dropWhile is_trailing (rev (takeWhile (\<lambda>c. c \<noteq> CHR '','') (dropWhile is_blank (c # cs)))))) line = Done as1"
      "data_words as1 n (tl (dropWhile (\<lambda>c. c \<noteq> CHR '','') (dropWhile is_blank (c # cs)))) line = Done as'"
    unfolding data_words.simps(2) Let_def and_then_Done by blast
  then show ?case using "2.IH" [OF refl refl refl] data_word_keeps keeps_trans by blast
qed simp

lemma asm_data_line_keeps: "asm_data_line as directive rest line = Done as' \<Longrightarrow> keeps as as'"
  unfolding asm_data_line_def Let_def
  by (auto simp: keeps_def put_section_def split: if_splits option.splits dest!: data_words_keeps)

lemma condition_code_less: "asm_condition cc = Some c \<Longrightarrow> c < 16"
proof -
  have "list_all (\<lambda>(cc, c). c < 16) condition_codes" by code_simp
  then show "asm_condition cc = Some c \<Longrightarrow> c < 16" by (auto simp: asm_condition_def list_all_iff dest!: map_of_SomeD)
qed

lemma lines_ok_add_item:
  assumes "lines_ok as" and "item_ok item" and "if t_is_jump item then t_is_short item else t_start item + t_size item \<le> length (ab_data bytes)"
    and "length (ab_data (as_item_bytes as)) \<le> length (ab_data bytes)"
    and "as_items as' = as_items as @ [item]" "as_item_bytes as' = bytes" "as_label_item as' = as_label_item as"
  shows "lines_ok as'"
  using assms by (force simp: lines_ok_def list_all_iff)

lemma foldl_pending:
  "as_items (foldl (\<lambda>as r. asm_add_pending as (f r)) as rs) = as_items as \<and>
   as_item_bytes (foldl (\<lambda>as r. asm_add_pending as (f r)) as rs) = as_item_bytes as \<and>
   as_label_item (foldl (\<lambda>as r. asm_add_pending as (f r)) as rs) = as_label_item as"
  by (induction rs arbitrary: as) (simp_all add: asm_add_pending_def)

lemma add_encoded_ok: "lines_ok as \<Longrightarrow> lines_ok (add_encoded as e line)"
  by (erule lines_ok_add_item [where bytes = "asm_put (as_item_bytes as) (e_bytes e)"
        and item = "\<lparr>t_start = ab_size (as_item_bytes as), t_size = length (e_bytes e), t_is_jump = False, t_condition = None, t_target = 0,
                  t_is_short = False, t_reloc_start = length (as_pending as), t_reloc_count = length (e_relocs e), t_line = line\<rparr>"])
    (simp_all add: add_encoded_def Let_def asm_add_item_def foldl_pending item_ok_def ab_size_def)

lemma asm_instruction_ok:
  assumes "asm_instruction as mnemonic rest line = Done as'" and ok: "lines_ok as"
  shows "lines_ok as'"
proof -
  obtain ops where ops: "asm_operands 3 (dropWhile is_blank rest) (as_scope as) = Some ops"
    using assms(1) by (auto simp: asm_instruction_def split: if_splits option.splits)
  show ?thesis
  proof (cases "jump_condition mnemonic \<noteq> None \<and> length ops = 1 \<and> op_kind (ops ! 0) = ASM_LABEL")
    case True
    let ?item = "\<lambda>symbol. \<lparr>t_start = ab_size (as_item_bytes as), t_size = 0, t_is_jump = True,
                    t_condition = the (jump_condition mnemonic), t_target = symbol, t_is_short = True, t_reloc_start = 0,
                    t_reloc_count = 0, t_line = line\<rparr>"
    obtain symbol obj where "as' = asm_add_item (as\<lparr>as_obj := obj\<rparr>) (?item symbol)"
      using assms(1) True ops by (auto simp: asm_instruction_def elim!: with_symbol_Done split: if_splits)
    moreover have "item_ok (?item symbol)"
      using True condition_code_less by (auto simp: item_ok_def jump_condition_def split: if_splits option.splits)
    ultimately show ?thesis
      by (intro lines_ok_add_item [OF ok, of "?item symbol" "as_item_bytes as"]) (simp_all add: asm_add_item_def)
  next
    case False
    then obtain e where "as' = add_encoded as e line"
      using assms(1) ops by (auto simp: asm_instruction_def simp del: One_nat_def split: if_splits option.splits)
    then show ?thesis using add_encoded_ok [OF ok] by simp
  qed
qed

lemma set_label_ok:
  assumes "lines_ok as"
  shows "lines_ok (asm_set_label_item as symbol (length (as_items as)))"
proof -
  have "\<forall>l \<in> set (as_label_item as). l \<le> int (length (as_items as))" using assms by (simp add: lines_ok_def list_all_iff)
  then have "\<forall>l \<in> set (as_label_item (asm_set_label_item as symbol (length (as_items as)))). l \<le> int (length (as_items as))"
    by (auto simp: asm_set_label_item_def Let_def dest!: subsetD [OF set_update_subset_insert])
  then show ?thesis using assms by (simp add: lines_ok_def list_all_iff asm_set_label_item_def Let_def)
qed

text \<open>A step that keeps it, whatever it gives.\<close>

definition okay :: "assembler outcome \<Rightarrow> bool" where
  "okay r \<longleftrightarrow> (\<forall>as. r = Done as \<longrightarrow> lines_ok as)"

lemma okay_Done: "lines_ok as \<Longrightarrow> okay (Done as)"
  and okay_Failed: "okay (Failed error line)"
  and okay_Stuck: "okay Stuck"
  by (simp_all add: okay_def)

lemma okay_if: "(c \<Longrightarrow> okay x) \<Longrightarrow> (\<not> c \<Longrightarrow> okay y) \<Longrightarrow> okay (if c then x else y)"
  by simp

lemma okay_option: "okay x \<Longrightarrow> (\<And>v. okay (f v)) \<Longrightarrow> okay (case v of None \<Rightarrow> x | Some v \<Rightarrow> f v)"
  by (simp split: option.split)

lemma okay_symbol:
  assumes "lines_ok as" and "\<And>symbol obj. lines_ok (as\<lparr>as_obj := obj\<rparr>) \<Longrightarrow> okay (f symbol (as\<lparr>as_obj := obj\<rparr>))"
  shows "okay (with_symbol as name f)"
  using assms keeps_lines_ok [OF keeps_simps(3) assms(1)] by (auto simp: okay_def with_symbol_def split: option.splits)

lemmas okay_intros = okay_Done okay_Failed okay_if okay_option okay_symbol

lemma lines_ok_set_label: "lines_ok as \<Longrightarrow> n = length (as_items as) \<Longrightarrow> lines_ok (asm_set_label_item as symbol n)"
  using set_label_ok by simp

lemma lines_ok_updates:
  "lines_ok as \<Longrightarrow> lines_ok (update_symbol as s f)" "lines_ok as \<Longrightarrow> lines_ok (as\<lparr>as_section := sec\<rparr>)"
  by (rule keeps_lines_ok [OF keeps_simps(2)], assumption) (rule keeps_lines_ok [OF keeps_simps(4)], assumption)

lemma label_line_okay:
  assumes "lines_ok as"
  shows "okay (label_line as label line)"
proof -
  let ?as = "if take 1 label = ''.'' then as else as\<lparr>as_scope := asm_symbol_name label (Some (as_scope as)) 160\<rparr>"
  have "lines_ok ?as" using assms keeps_lines_ok [OF keeps_simps(6) assms] by simp
  then show ?thesis
    unfolding label_line_def Let_def by (intro okay_intros lines_ok_set_label lines_ok_updates) simp_all
qed

lemma directive_line_okay:
  assumes "lines_ok as"
  shows "okay (directive_line as t line)"
proof -
  have data: "okay (asm_data_line as word rest line)" for word rest
    unfolding okay_def using asm_data_line_keeps keeps_lines_ok assms by blast
  have inst: "okay (asm_instruction as word rest line)" for word rest
    unfolding okay_def using asm_instruction_ok assms by blast
  show ?thesis
    unfolding directive_line_def Let_def by (intro okay_intros lines_ok_updates data inst assms)
qed

lemma assemble_line_okay: "lines_ok as \<Longrightarrow> okay (assemble_line as number line)"
  unfolding assemble_line_def Let_def by (intro okay_intros label_line_okay directive_line_okay)

lemma assemble_lines_okay: "okay (assemble_lines source)"
proof -
  have "okay (foldl (\<lambda>r (number, line). and_then r (\<lambda>as. assemble_line as number line)) (Done new_assembler) xs)" for xs
  proof (induction xs rule: rev_induct)
    case Nil
    then show ?case by (simp add: okay_def lines_ok_def new_assembler_def)
  next
    case (snoc x xs)
    then show ?case
      using assemble_line_okay by (cases x) (auto simp: okay_def and_then_Done)
  qed
  then show ?thesis by (simp add: assemble_lines_def)
qed

lemma assemble_lines_ok: "assemble_lines source = Done as \<Longrightarrow> lines_ok as"
  using assemble_lines_okay by (simp add: okay_def)

section \<open>The properties\<close>



section \<open>A loop\<close>

definition loop_source :: string where
  "loop_source = ''a:'' @ [CHR 0x0A] @ '' jmp a''"

lemma loop_lines:
  obtains as where "assemble_lines (source_lines loop_source) = Done as" and "text_of as = []"
    and "as_items as = [\<lparr>t_start = 0, t_size = 0, t_is_jump = True, t_condition = None, t_target = 0, t_is_short = True,
           t_reloc_start = 0, t_reloc_count = 0, t_line = 2\<rparr>]"
    and "label_of (as_label_item as) 0 = 0"
proof -
  obtain i obj where o: "asm_symbol new_object ''a'' = Some (i, obj)" "obj_ok obj" "i < length (o_symbols obj)"
      "y_name (o_symbols obj ! i) = ''a''"
      "o_symbols obj = o_symbols new_object \<or> (o_symbols obj = o_symbols new_object @ [new_symbol ''a''] \<and> i = length (o_symbols new_object))"
      "o_sections obj = o_sections new_object"
    by (rule asm_symbol_ok [OF new_object_ok, of "''a''"])
  then have i: "i = 0" "o_symbols obj = [new_symbol ''a'']" by (auto simp: new_object_def)
  have again: "asm_symbol obj ''a'' = Some (0, obj)"
  proof -
    have "''a'' \<in> set (sym_names (o_symbols obj))" by (simp add: i sym_names_def new_symbol_def)
    then show ?thesis using asm_symbol_known [OF o(2), of "''a''"] i by (metis length_Cons less_Suc0 list.size(3) One_nat_def)
  qed
  have lines: "source_lines loop_source = [''a:'', '' jmp a'']" by code_simp
  have spelt: "line_text ''a:'' = ''a:''" "line_text '' jmp a'' = '' jmp a''" by code_simp+
  let ?labels = "(replicate 1024 (- 1))[0 := 0 :: int]"
  let ?as = "new_assembler\<lparr>as_obj := obj, as_scope := ''a'', as_label_item := ?labels\<rparr>"
  have name: "asm_symbol_name ''a'' (Some []) 160 = ''a''" by code_simp
  have cap: "label_capacity 0 0 = 1024" by (simp add: label_capacity_def double_until.simps)
  have one: "assemble_line new_assembler 1 ''a:'' = Done ?as"
    by (simp add: assemble_line_def spelt is_blank_def label_line_def new_assembler_def name with_symbol_def o(1) i label_of_def
        asm_set_label_item_def cap new_symbol_def Let_def)
  have ops: "asm_operands 3 ''a'' ''a'' = Some [no_operand\<lparr>op_kind := ASM_LABEL, op_symbol := ''a''\<rparr>]"
    by code_simp
  have cond: "jump_condition ''jmp'' = Some None" by (simp add: jump_condition_def)
  have word: "take 31 (takeWhile (\<lambda>c. \<not> is_blank c) ''jmp a'') = ''jmp''" "dropWhile is_blank (drop 3 ''jmp a'') = ''a''"
     "dropWhile is_blank '' jmp a'' = ''jmp a''" "dropWhile is_blank ''a'' = ''a''"
    by code_simp+
  have two: "assemble_line ?as 2 '' jmp a'' = Done (?as\<lparr>as_items := [\<lparr>t_start = 0, t_size = 0, t_is_jump = True, t_condition = None,
      t_target = 0, t_is_short = True, t_reloc_start = 0, t_reloc_count = 0, t_line = 2\<rparr>]\<rparr>)"
    by (simp add: assemble_line_def spelt directive_line_def word is_blank_def asm_instruction_def new_assembler_def ops cond with_symbol_def
        again asm_add_item_def ab_size_def no_bytes_def)
  show thesis
    by (rule that [of "?as\<lparr>as_items := [\<lparr>t_start = 0, t_size = 0, t_is_jump = True, t_condition = None,
      t_target = 0, t_is_short = True, t_reloc_start = 0, t_reloc_count = 0, t_line = 2\<rparr>]\<rparr>"])
      (use one two in \<open>simp_all add: assemble_lines_def lines and_then_def text_of_def o(6) new_object_def no_bytes_def label_of_def upt_rec numeral_2_eq_2\<close>)
qed

lemma loop_layout:
  assumes "label_of labels 0 = 0"
  shows "asm_layout labels [\<lparr>t_start = 0, t_size = 0, t_is_jump = True, t_condition = None, t_target = 0, t_is_short = True,
           t_reloc_start = 0, t_reloc_count = 0, t_line = 2\<rparr>] =
    ([\<lparr>t_start = 0, t_size = 2, t_is_jump = True, t_condition = None, t_target = 0, t_is_short = True,
           t_reloc_start = 0, t_reloc_count = 0, t_line = 2\<rparr>], [0, 2])"
  using assms by (subst asm_layout_unfold) (simp add: sized_def item_size_def must_grow_def is_near_def grow_item_def)

lemma loop_finish:
  assumes "text_of as = []" and "as_items as = [\<lparr>t_start = 0, t_size = 0, t_is_jump = True, t_condition = None, t_target = 0, t_is_short = True,
           t_reloc_start = 0, t_reloc_count = 0, t_line = 2\<rparr>]" and "label_of (as_label_item as) 0 = 0"
  obtains as' where "asm_finish_text as = Done as'" and "text_of as' = [0xEB, 0xFE]"
  using assms
  by (simp add: asm_finish_text_def loop_layout and_then_def place_item_def Let_def jump_bytes_def put_text_def text_of_def)



end
