(* ===== verification/X64Emit.thy ===== *)
theory X64Emit
  imports RegAlloc IRModule
begin

text \<open>
  The x64 backend \<^verbatim>\<open>src/src/x64_emit.c\<close>: its registers and the description of them for the register
  allocator, the lines of assembly with their operands, the access to spilled registers, moves and
  parallel moves, calls, the code of each instruction, the frame, and the code of a function.

  The C code appends lines to a text. A function of the model returns the lines it appends, with the
  operands as a datatype: each constructor is one of the formats the code prints, and
  \<open>x64_line_text\<close> is the printing. The registers an X64 function gets come from a context, the
  record \<open>x64_emitter\<close>; the two counters that the code of an instruction changes (the float constants
  and the local labels) are passed along. \<open>None\<close> is a failed assertion.
\<close>

section \<open>Registers\<close>

abbreviation (input) X64_RAX :: nat where "X64_RAX \<equiv> 0"
abbreviation (input) X64_RCX :: nat where "X64_RCX \<equiv> 1"
abbreviation (input) X64_RDX :: nat where "X64_RDX \<equiv> 2"
abbreviation (input) X64_RBX :: nat where "X64_RBX \<equiv> 3"
abbreviation (input) X64_RSP :: nat where "X64_RSP \<equiv> 4"
abbreviation (input) X64_RBP :: nat where "X64_RBP \<equiv> 5"
abbreviation (input) X64_RSI :: nat where "X64_RSI \<equiv> 6"
abbreviation (input) X64_RDI :: nat where "X64_RDI \<equiv> 7"
abbreviation (input) X64_R8 :: nat where "X64_R8 \<equiv> 8"
abbreviation (input) X64_R9 :: nat where "X64_R9 \<equiv> 9"
abbreviation (input) X64_R10 :: nat where "X64_R10 \<equiv> 10"
abbreviation (input) X64_R11 :: nat where "X64_R11 \<equiv> 11"
abbreviation (input) X64_R12 :: nat where "X64_R12 \<equiv> 12"
abbreviation (input) X64_R13 :: nat where "X64_R13 \<equiv> 13"
abbreviation (input) X64_R14 :: nat where "X64_R14 \<equiv> 14"
abbreviation (input) X64_R15 :: nat where "X64_R15 \<equiv> 15"
abbreviation (input) X64_XMM0 :: nat where "X64_XMM0 \<equiv> 16"
abbreviation (input) X64_XMM6 :: nat where "X64_XMM6 \<equiv> 22"
abbreviation (input) X64_XMM13 :: nat where "X64_XMM13 \<equiv> 29"
abbreviation (input) X64_XMM14 :: nat where "X64_XMM14 \<equiv> 30"
abbreviation (input) X64_XMM15 :: nat where "X64_XMM15 \<equiv> 31"
abbreviation (input) X64_REG_COUNT :: nat where "X64_REG_COUNT \<equiv> 32"

definition x64_gpr_names :: "string list list" where
  "x64_gpr_names =
    [[''rax'', ''eax'', ''ax'', ''al''],
     [''rcx'', ''ecx'', ''cx'', ''cl''],
     [''rdx'', ''edx'', ''dx'', ''dl''],
     [''rbx'', ''ebx'', ''bx'', ''bl''],
     [''rsp'', ''esp'', ''sp'', ''spl''],
     [''rbp'', ''ebp'', ''bp'', ''bpl''],
     [''rsi'', ''esi'', ''si'', ''sil''],
     [''rdi'', ''edi'', ''di'', ''dil''],
     [''r8'', ''r8d'', ''r8w'', ''r8b''],
     [''r9'', ''r9d'', ''r9w'', ''r9b''],
     [''r10'', ''r10d'', ''r10w'', ''r10b''],
     [''r11'', ''r11d'', ''r11w'', ''r11b''],
     [''r12'', ''r12d'', ''r12w'', ''r12b''],
     [''r13'', ''r13d'', ''r13w'', ''r13b''],
     [''r14'', ''r14d'', ''r14w'', ''r14b''],
     [''r15'', ''r15d'', ''r15w'', ''r15b'']]"

definition x64_xmm_names :: "string list" where
  "x64_xmm_names =
    [''xmm0'', ''xmm1'', ''xmm2'', ''xmm3'', ''xmm4'', ''xmm5'', ''xmm6'', ''xmm7'',
     ''xmm8'', ''xmm9'', ''xmm10'', ''xmm11'', ''xmm12'', ''xmm13'', ''xmm14'', ''xmm15'']"

definition x64_is_xmm :: "nat \<Rightarrow> bool" where
  "x64_is_xmm reg \<longleftrightarrow> X64_XMM0 \<le> reg \<and> reg \<le> X64_XMM15"

definition x64_reg :: "nat \<Rightarrow> nat \<Rightarrow> string" where
  "x64_reg reg width =
     (if x64_is_xmm reg then x64_xmm_names ! (reg - X64_XMM0)
      else if width = 1 then x64_gpr_names ! reg ! 3
      else if width = 2 then x64_gpr_names ! reg ! 2
      else if width = 4 then x64_gpr_names ! reg ! 1
      else x64_gpr_names ! reg ! 0)"

definition x64_register_name :: "nat \<Rightarrow> string" where
  "x64_register_name reg = x64_reg reg 8"

definition x64_gpr_arg_regs :: "nat list" where
  "x64_gpr_arg_regs = [X64_RCX, X64_RDX, X64_R8, X64_R9]"

definition x64_target :: target_desc where
  "x64_target =
     \<lparr>allocatable = (\<lambda>c. case c of
         REG_CLASS_GPR \<Rightarrow> [X64_R8, X64_R9, X64_RBX, X64_RSI, X64_RDI, X64_R12, X64_R13, X64_R14, X64_R15]
       | REG_CLASS_FPR \<Rightarrow> [X64_XMM0..<Suc X64_XMM13]),
      is_callee_saved = (\<lambda>r.
         r \<in> set [X64_RBX, X64_RBP, X64_RSI, X64_RDI, X64_R12, X64_R13, X64_R14, X64_R15] \<or>
         (X64_XMM6 \<le> r \<and> r \<le> X64_XMM15))\<rparr>"

section \<open>Lines\<close>

text \<open>A register at a width; memory as \<^verbatim>\<open>size [base+offset]\<close>, without the offset when it is not
  printed, and without the size when it is empty; \<^verbatim>\<open>[base + index]\<close>; \<^verbatim>\<open>size [rel symbol+offset]\<close>;
  a number; the name of a symbol or a label.\<close>

datatype x64_operand =
    XReg nat nat
  | XMem string nat "int option"
  | XIndexed string nat nat
  | XRel string string "int option"
  | XImm int
  | XName string

datatype x64_line = XLine string "x64_operand list" | XLabel string

definition show_int :: "int \<Rightarrow> string" where
  "show_int i = (if i < 0 then ''-'' @ decimal (nat (- i)) else decimal (nat i))"

definition show_offset :: "int option \<Rightarrow> string" where
  "show_offset off = (case off of None \<Rightarrow> '''' | Some i \<Rightarrow> if i < 0 then show_int i else ''+'' @ show_int i)"

definition show_size :: "string \<Rightarrow> string" where
  "show_size keyword = (if keyword = '''' then '''' else keyword @ '' '')"

fun show_operand :: "x64_operand \<Rightarrow> string" where
  "show_operand (XReg r w) = x64_reg r w"
| "show_operand (XMem keyword b off) = show_size keyword @ ''['' @ x64_reg b 8 @ show_offset off @ '']''"
| "show_operand (XIndexed keyword b i) = show_size keyword @ ''['' @ x64_reg b 8 @ '' + '' @ x64_reg i 8 @ '']''"
| "show_operand (XRel keyword name off) = show_size keyword @ ''[rel '' @ name @ show_offset off @ '']''"
| "show_operand (XImm i) = show_int i"
| "show_operand (XName name) = name"

fun join_operands :: "x64_operand list \<Rightarrow> string" where
  "join_operands [] = ''''"
| "join_operands [op] = show_operand op"
| "join_operands (op # ops) = show_operand op @ '', '' @ join_operands ops"

fun x64_line_text :: "x64_line \<Rightarrow> string" where
  "x64_line_text (XLine mnemonic ops) =
     CHR 0x09 # mnemonic @ replicate (12 - length mnemonic) CHR '' '' @ join_operands ops @ [CHR 0x0A]"
| "x64_line_text (XLabel name) = name @ '':'' @ [CHR 0x0A]"

section \<open>The emitter\<close>

record x64_emitter =
  x_module :: ir_module
  x_func :: ir_function
  x_ra :: regalloc_result
  x_slot_offsets :: "int list"
  x_spill_base :: int
  x_frame_size :: int
  x_saved_offset :: "int list"
  x_next_block :: "nat option"

record x64_const_entry =
  fc_bits :: u64
  fc_size :: nat
  fc_id :: nat

text \<open>What the code of the instructions changes, apart from the text.\<close>

record x64_counters =
  float_constants :: "x64_const_entry list"
  next_local_label :: nat

definition x64_symbol :: "x64_emitter \<Rightarrow> int \<Rightarrow> string" where
  "x64_symbol x global = snprintf 160 (''$'' @ g_name (m_globals (x_module x) ! nat global))"

text \<open>The bits of a constant are those of a \<^verbatim>\<open>double\<close>; the conversion to \<^verbatim>\<open>float\<close> that a constant of
  four bytes needs is the parameter \<open>to_float\<close>.\<close>

definition x64_float_constant :: "(u64 \<Rightarrow> u32) \<Rightarrow> x64_counters \<Rightarrow> u64 \<Rightarrow> nat \<Rightarrow> nat \<times> x64_counters" where
  "x64_float_constant to_float n v sz =
     (let bits = (if sz = 4 then ucast (to_float v) else v)
      in case List.find (\<lambda>c. fc_bits c = bits \<and> fc_size c = sz) (float_constants n) of
           Some c \<Rightarrow> (fc_id c, n)
         | None \<Rightarrow>
             let c = \<lparr>fc_bits = bits, fc_size = sz, fc_id = length (float_constants n)\<rparr>
             in (fc_id c, n\<lparr>float_constants := float_constants n @ [c]\<rparr>))"

section \<open>Operand access\<close>

definition x64_loc :: "x64_emitter \<Rightarrow> int \<Rightarrow> location" where
  "x64_loc x vreg = ra_locations (x_ra x) ! nat vreg"

definition x64_spill_offset :: "x64_emitter \<Rightarrow> nat \<Rightarrow> int" where
  "x64_spill_offset x spill_slot = x_spill_base x - int spill_slot * 8"

definition x64_vtype :: "x64_emitter \<Rightarrow> int \<Rightarrow> ir_type" where
  "x64_vtype x vreg = ir_vreg_type (x_func x) vreg"

definition x64_width :: "ir_type \<Rightarrow> nat" where
  "x64_width type = (if 0 < ir_type_size type then ir_type_size type else 8)"

definition x64_size_keyword :: "nat \<Rightarrow> string" where
  "x64_size_keyword width =
     (if width = 1 then ''byte'' else if width = 2 then ''word'' else if width = 4 then ''dword'' else ''qword'')"

text \<open>The lines that load a register, and the register.\<close>

definition x64_use :: "x64_emitter \<Rightarrow> int \<Rightarrow> nat \<Rightarrow> (x64_line list \<times> nat) option" where
  "x64_use x vreg scratch =
     (case x64_loc x vreg of
        LOCATION_REG r \<Rightarrow> Some ([], r)
      | LOCATION_SPILL s \<Rightarrow>
          Some ([XLine (if x64_is_xmm scratch then ''movsd'' else ''mov'')
                   [XReg scratch 8, XMem ''qword'' X64_RBP (Some (x64_spill_offset x s))]], scratch)
      | LOCATION_NONE \<Rightarrow> None)"

definition x64_def :: "x64_emitter \<Rightarrow> int \<Rightarrow> nat \<Rightarrow> nat" where
  "x64_def x vreg scratch = (case x64_loc x vreg of LOCATION_REG r \<Rightarrow> r | _ \<Rightarrow> scratch)"

definition x64_finish_def :: "x64_emitter \<Rightarrow> int \<Rightarrow> nat \<Rightarrow> x64_line list" where
  "x64_finish_def x vreg reg =
     (case x64_loc x vreg of
        LOCATION_SPILL s \<Rightarrow>
          [XLine (if x64_is_xmm reg then ''movsd'' else ''mov'')
             [XMem ''qword'' X64_RBP (Some (x64_spill_offset x s)), XReg reg 8]]
      | _ \<Rightarrow> [])"

definition x64_move_reg :: "nat \<Rightarrow> nat \<Rightarrow> x64_line list" where
  "x64_move_reg dst src =
     (if dst = src then []
      else if x64_is_xmm dst \<and> x64_is_xmm src then [XLine ''movaps'' [XReg dst 8, XReg src 8]]
      else if x64_is_xmm dst then [XLine ''movq'' [XReg dst 8, XReg src 8]]
      else if x64_is_xmm src then [XLine ''movq'' [XReg dst 8, XReg src 8]]
      else [XLine ''mov'' [XReg dst 8, XReg src 8]])"

text \<open>The lines that load the base of an address, and the memory operand, with the size it is printed after.\<close>

definition x64_address :: "x64_emitter \<Rightarrow> ir_addr \<Rightarrow> nat \<Rightarrow> string \<Rightarrow> (x64_line list \<times> x64_operand) option" where
  "x64_address x addr scratch keyword =
     (case addr_kind addr of
        IR_ADDR_SLOT \<Rightarrow>
          Some ([], XMem keyword X64_RBP (Some (x_slot_offsets x ! nat (addr_base addr) + addr_offset addr)))
      | IR_ADDR_GLOBAL \<Rightarrow>
          Some ([], XRel keyword (x64_symbol x (addr_base addr))
                      (if addr_offset addr \<noteq> 0 then Some (addr_offset addr) else None))
      | IR_ADDR_VREG \<Rightarrow> do {
          (ls, b) \<leftarrow> x64_use x (addr_base addr) scratch;
          Some (ls, XMem keyword b (if addr_offset addr \<noteq> 0 then Some (addr_offset addr) else None))
        }
      | IR_ADDR_NONE \<Rightarrow> None)"

section \<open>Parallel moves\<close>

datatype move_operand = MOVE_REG nat | MOVE_MEM nat int | MOVE_IMM int

record x64_move =
  mv_dst :: move_operand
  mv_src :: move_operand
  mv_done :: bool

definition move_vreg :: "x64_emitter \<Rightarrow> int \<Rightarrow> move_operand" where
  "move_vreg x vreg =
     (case x64_loc x vreg of
        LOCATION_REG r \<Rightarrow> MOVE_REG r
      | LOCATION_SPILL s \<Rightarrow> MOVE_MEM X64_RBP (x64_spill_offset x s)
      | LOCATION_NONE \<Rightarrow> MOVE_MEM X64_RBP (x64_spill_offset x 0))"

function x64_emit_move :: "move_operand \<Rightarrow> move_operand \<Rightarrow> x64_line list option" where
  "x64_emit_move (MOVE_REG d) (MOVE_REG s) = Some (x64_move_reg d s)"
| "x64_emit_move (MOVE_REG d) (MOVE_MEM b off) =
     Some [XLine (if x64_is_xmm d then ''movsd'' else ''mov'') [XReg d 8, XMem ''qword'' b (Some off)]]"
| "x64_emit_move (MOVE_REG d) (MOVE_IMM i) =
     (if x64_is_xmm d then None else Some [XLine ''mov'' [XReg d 8, XImm i]])"
| "x64_emit_move (MOVE_MEM b off) (MOVE_REG s) =
     Some [XLine (if x64_is_xmm s then ''movsd'' else ''mov'') [XMem ''qword'' b (Some off), XReg s 8]]"
| "x64_emit_move (MOVE_MEM b off) (MOVE_MEM b' off') = do {
     ls \<leftarrow> x64_emit_move (MOVE_REG X64_R11) (MOVE_MEM b' off');
     ls' \<leftarrow> x64_emit_move (MOVE_MEM b off) (MOVE_REG X64_R11);
     Some (ls @ ls')
   }"
| "x64_emit_move (MOVE_MEM b off) (MOVE_IMM i) = do {
     ls \<leftarrow> x64_emit_move (MOVE_REG X64_R11) (MOVE_IMM i);
     ls' \<leftarrow> x64_emit_move (MOVE_MEM b off) (MOVE_REG X64_R11);
     Some (ls @ ls')
   }"
| "x64_emit_move (MOVE_IMM i) src = None"
  by pat_completeness auto
termination
  by (relation "measure (\<lambda>(dst, src).
        case (dst, src) of (MOVE_MEM _ _, MOVE_REG _) \<Rightarrow> 0 | (MOVE_MEM _ _, _) \<Rightarrow> 1 | _ \<Rightarrow> (0::nat))") auto

definition move_reads_reg :: "move_operand \<Rightarrow> nat \<Rightarrow> bool" where
  "move_reads_reg src reg \<longleftrightarrow> src = MOVE_REG reg"

text \<open>The moves into memory.\<close>

definition memory_move :: "x64_move list \<times> x64_line list \<Rightarrow> nat \<Rightarrow> (x64_move list \<times> x64_line list) option" where
  "memory_move = (\<lambda>(moves, out) i.
     case mv_dst (moves ! i) of
       MOVE_MEM b off \<Rightarrow> do {
         ls \<leftarrow> x64_emit_move (mv_dst (moves ! i)) (mv_src (moves ! i));
         Some (moves[i := (moves ! i)\<lparr>mv_done := True\<rparr>], out @ ls)
       }
     | _ \<Rightarrow> Some (moves, out))"

text \<open>One pass over the moves that are left: the moves, whether any was left and whether one was made.\<close>

definition is_blocked :: "x64_move list \<Rightarrow> nat \<Rightarrow> nat \<Rightarrow> bool" where
  "is_blocked moves i d \<longleftrightarrow>
     list_ex (\<lambda>j. j \<noteq> i \<and> \<not> mv_done (moves ! j) \<and> move_reads_reg (mv_src (moves ! j)) d) [0..<length moves]"

record pass_record =
  mp_moves :: "x64_move list"
  mp_out :: "x64_line list"
  mp_pending :: bool
  mp_progress :: bool

text \<open>The field \<^verbatim>\<open>reg\<close> of an operand, \<open>None\<close> for \<^verbatim>\<open>X64_NO_REG\<close>.\<close>

fun operand_reg :: "move_operand \<Rightarrow> nat option" where
  "operand_reg (MOVE_REG r) = Some r"
| "operand_reg (MOVE_MEM b off) = Some b"
| "operand_reg (MOVE_IMM i) = None"

definition pass_move :: "pass_record \<Rightarrow> nat \<Rightarrow> pass_record option" where
  "pass_move p i =
     (let moves = mp_moves p; m = moves ! i in
      if mv_done m then Some p
      else do {
        d \<leftarrow> operand_reg (mv_dst m);
        (if mv_src m = MOVE_REG d then Some (p\<lparr>mp_moves := moves[i := m\<lparr>mv_done := True\<rparr>]\<rparr>)
        else if is_blocked moves i d then Some (p\<lparr>mp_pending := True\<rparr>)
        else do {
        ls \<leftarrow> x64_emit_move (mv_dst m) (mv_src m);
        Some (p\<lparr>mp_pending := True, mp_progress := True, mp_out := mp_out p @ ls,
               mp_moves := moves[i := m\<lparr>mv_done := True\<rparr>]\<rparr>)
        })
      })"

text \<open>The first move that is left: its source is saved, and the moves that read it read the copy.\<close>

definition reads_from :: "nat \<Rightarrow> nat \<Rightarrow> x64_move \<Rightarrow> x64_move" where
  "reads_from reg scratch m =
     (if \<not> mv_done m \<and> move_reads_reg (mv_src m) reg then m\<lparr>mv_src := MOVE_REG scratch\<rparr> else m)"

definition break_cycle :: "x64_move list \<Rightarrow> (x64_move list \<times> x64_line list) option" where
  "break_cycle moves =
     (case List.find (\<lambda>m. \<not> mv_done m) moves of
        None \<Rightarrow> Some (moves, [])
      | Some m \<Rightarrow> do {
          reg \<leftarrow> operand_reg (mv_src m);
          let scratch = (if x64_is_xmm reg then X64_XMM15 else X64_R11)
          in Some (map (reads_from reg scratch) moves, x64_move_reg scratch reg)
        })"

fun fold_option :: "('s \<Rightarrow> 'a \<Rightarrow> 's option) \<Rightarrow> 's \<Rightarrow> 'a list \<Rightarrow> 's option" where
  "fold_option f s [] = Some s"
| "fold_option f s (x # xs) = do { s' \<leftarrow> f s x; fold_option f s' xs }"

definition move_pass :: "x64_move list \<Rightarrow> x64_line list \<Rightarrow> pass_record option" where
  "move_pass moves out =
     fold_option pass_move \<lparr>mp_moves = moves, mp_out = out, mp_pending = False, mp_progress = False\<rparr>
       [0..<length moves]"

text \<open>The loop ends when a pass finds no move that is left; \<open>None\<close> would also be a loop that does not end.\<close>

partial_function (option) register_moves :: "x64_move list \<Rightarrow> x64_line list \<Rightarrow> x64_line list option" where
  "register_moves moves out = do {
     p \<leftarrow> move_pass moves out;
     (if \<not> mp_pending p then Some (mp_out p)
      else if mp_progress p then register_moves (mp_moves p) (mp_out p)
      else do {
        (moves, ls) \<leftarrow> break_cycle (mp_moves p);
        register_moves moves (mp_out p @ ls)
      })
   }"

definition x64_parallel_move :: "x64_move list \<Rightarrow> x64_line list option" where
  "x64_parallel_move moves = do {
     (moves, out) \<leftarrow> fold_option memory_move (moves, []) [0..<length moves];
     register_moves moves out
   }"

section \<open>Calls\<close>

record x64_call_arg =
  ca_src :: move_operand
  ca_is_float :: bool
  ca_is_vararg :: bool

definition new_move :: "move_operand \<Rightarrow> move_operand \<Rightarrow> x64_move" where
  "new_move dst src = \<lparr>mv_dst = dst, mv_src = src, mv_done = False\<rparr>"

text \<open>The moves of an argument: a float that is passed through \<^verbatim>\<open>...\<close> also goes into the integer
  register of its place.\<close>

definition arg_moves :: "nat \<Rightarrow> x64_call_arg \<Rightarrow> x64_move list" where
  "arg_moves i arg =
     (if i < 4
      then if ca_is_float arg
           then new_move (MOVE_REG (X64_XMM0 + i)) (ca_src arg) #
                (if ca_is_vararg arg then [new_move (MOVE_REG (x64_gpr_arg_regs ! i)) (ca_src arg)] else [])
           else [new_move (MOVE_REG (x64_gpr_arg_regs ! i)) (ca_src arg)]
      else [new_move (MOVE_MEM X64_RSP (8 * int i)) (ca_src arg)])"

definition x64_call_moves :: "x64_call_arg list \<Rightarrow> x64_move list" where
  "x64_call_moves args = concat (map (\<lambda>i. arg_moves i (args ! i)) [0..<length args])"

definition x64_emit_call_with_args :: "x64_call_arg list \<Rightarrow> string \<Rightarrow> x64_line list option" where
  "x64_emit_call_with_args args target =
     (if 64 < length args * 2 then None
      else do {
        ls \<leftarrow> x64_parallel_move (x64_call_moves args);
        Some (ls @ [XLine ''call'' [XName target]])
      })"

definition x64_emit_call :: "x64_emitter \<Rightarrow> ir_inst \<Rightarrow> x64_line list option" where
  "x64_emit_call x inst =
     (let call = i_call inst;
          args = map (\<lambda>i. let vreg = call_args call ! i in
                     \<lparr>ca_src = move_vreg x vreg, ca_is_float = ir_type_is_float (x64_vtype x vreg),
                      ca_is_vararg = arg_is_vararg call ! i\<rparr>) [0..<length (call_args call)]
      in do {
        ls \<leftarrow> (if callee_kind call = IR_CALLEE_VREG
               then x64_emit_move (MOVE_REG X64_RAX) (move_vreg x (callee call)) else Some []);
        ls' \<leftarrow> (if 32 < length (call_args call) then None
                else x64_emit_call_with_args args
                       (if callee_kind call = IR_CALLEE_VREG then ''rax'' else x64_symbol x (callee call)));
        ls'' \<leftarrow> (if i_dst inst \<noteq> IR_NO_VREG
                 then x64_emit_move (move_vreg x (i_dst inst))
                        (MOVE_REG (if ir_type_is_float (call_return_type call) then X64_XMM0 else X64_RAX))
                 else Some []);
        Some (ls @ ls' @ ls'')
      })"

section \<open>Instructions\<close>

fun x64_icmp_cc :: "ir_cmp \<Rightarrow> string option" where
  "x64_icmp_cc IR_CMP_EQ = Some ''e''"
| "x64_icmp_cc IR_CMP_NE = Some ''ne''"
| "x64_icmp_cc IR_CMP_SLT = Some ''l''"
| "x64_icmp_cc IR_CMP_SLE = Some ''le''"
| "x64_icmp_cc IR_CMP_SGT = Some ''g''"
| "x64_icmp_cc IR_CMP_SGE = Some ''ge''"
| "x64_icmp_cc IR_CMP_ULT = Some ''b''"
| "x64_icmp_cc IR_CMP_ULE = Some ''be''"
| "x64_icmp_cc IR_CMP_UGT = Some ''a''"
| "x64_icmp_cc IR_CMP_UGE = Some ''ae''"
| "x64_icmp_cc _ = None"

fun int_mnemonic :: "ir_op \<Rightarrow> string option" where
  "int_mnemonic IR_ADD = Some ''add''"
| "int_mnemonic IR_SUB = Some ''sub''"
| "int_mnemonic IR_MUL = Some ''imul''"
| "int_mnemonic IR_AND = Some ''and''"
| "int_mnemonic IR_OR = Some ''or''"
| "int_mnemonic IR_XOR = Some ''xor''"
| "int_mnemonic _ = None"

definition at_least_32 :: "nat \<Rightarrow> nat" where
  "at_least_32 width = (if width < 4 then 4 else width)"

definition copy_at :: "nat \<Rightarrow> nat \<Rightarrow> nat \<Rightarrow> x64_line list" where
  "copy_at width d a = (if d \<noteq> a then [XLine ''mov'' [XReg d width, XReg a width]] else [])"

definition x64_emit_int_binop :: "x64_emitter \<Rightarrow> ir_inst \<Rightarrow> x64_line list option" where
  "x64_emit_int_binop x inst =
     (let width = at_least_32 (x64_width (i_type inst)) in do {
        (la, a) \<leftarrow> x64_use x (i_a inst) X64_R10;
        (lb, b) \<leftarrow> x64_use x (i_b inst) X64_R11;
        let d = x64_def x (i_dst inst) X64_R10 in do {
        op \<leftarrow> int_mnemonic (i_op inst);
        Some (la @ lb @ copy_at width d a @ [XLine op [XReg d width, XReg b width]] @ x64_finish_def x (i_dst inst) d)
        }
      })"

definition x64_extend_to_32 :: "nat \<Rightarrow> nat \<Rightarrow> nat \<Rightarrow> bool \<Rightarrow> x64_line list" where
  "x64_extend_to_32 dst src width is_signed =
     (if width = 1 \<or> width = 2
      then [XLine (if is_signed then ''movsx'' else ''movzx'') [XReg dst 4, XReg src width]]
      else copy_at width dst src)"

definition x64_emit_divide :: "x64_emitter \<Rightarrow> ir_inst \<Rightarrow> x64_line list option" where
  "x64_emit_divide x inst =
     (let is_signed = (i_op inst = IR_SDIV \<or> i_op inst = IR_SREM);
          is_rem = (i_op inst = IR_SREM \<or> i_op inst = IR_UREM);
          sz = x64_width (i_type inst);
          width = at_least_32 sz
      in do {
        (la, a) \<leftarrow> x64_use x (i_a inst) X64_R10;
        (lb, b) \<leftarrow> x64_use x (i_b inst) X64_R11;
        let b' = (if sz < 4 then X64_R11 else b);
            d = x64_def x (i_dst inst) X64_R10
        in Some (la @ x64_extend_to_32 X64_RAX a sz is_signed @ lb @
                 (if sz < 4 then x64_extend_to_32 X64_R11 b sz is_signed else []) @
                 [if is_signed then XLine (if width = 8 then ''cqo'' else ''cdq'') []
                  else XLine ''xor'' [XReg X64_RDX 4, XReg X64_RDX 4],
                  XLine (if is_signed then ''idiv'' else ''div'') [XReg b' width],
                  XLine ''mov'' [XReg d width, XReg (if is_rem then X64_RDX else X64_RAX) width]] @
                 x64_finish_def x (i_dst inst) d)
      })"

definition x64_emit_shift :: "x64_emitter \<Rightarrow> ir_inst \<Rightarrow> x64_line list option" where
  "x64_emit_shift x inst =
     (let sz = x64_width (i_type inst); width = at_least_32 sz in do {
        (lb, b) \<leftarrow> x64_use x (i_b inst) X64_R11;
        (la, a) \<leftarrow> x64_use x (i_a inst) X64_R10;
        let d = x64_def x (i_dst inst) X64_R10;
            op = (if i_op inst = IR_LSHR then ''shr'' else if i_op inst = IR_ASHR then ''sar'' else ''shl'')
        in Some (lb @ [XLine ''mov'' [XReg X64_RCX 4, XReg b 4]] @ la @
                 (if i_op inst = IR_SHL then copy_at width d a
                  else x64_extend_to_32 d a sz (i_op inst = IR_ASHR)) @
                 [XLine op [XReg d width, XReg X64_RCX 1]] @ x64_finish_def x (i_dst inst) d)
      })"

fun float_mnemonic :: "bool \<Rightarrow> ir_op \<Rightarrow> string option" where
  "float_mnemonic is_double IR_FADD = Some (if is_double then ''addsd'' else ''addss'')"
| "float_mnemonic is_double IR_FSUB = Some (if is_double then ''subsd'' else ''subss'')"
| "float_mnemonic is_double IR_FMUL = Some (if is_double then ''mulsd'' else ''mulss'')"
| "float_mnemonic is_double IR_FDIV = Some (if is_double then ''divsd'' else ''divss'')"
| "float_mnemonic is_double _ = None"

definition x64_emit_float_binop :: "x64_emitter \<Rightarrow> ir_inst \<Rightarrow> x64_line list option" where
  "x64_emit_float_binop x inst = do {
     (la, a) \<leftarrow> x64_use x (i_a inst) X64_XMM14;
     (lb, b) \<leftarrow> x64_use x (i_b inst) X64_XMM15;
     let d = x64_def x (i_dst inst) X64_XMM14 in do {
     op \<leftarrow> float_mnemonic (i_type inst = IR_F64) (i_op inst);
     Some (la @ lb @ x64_move_reg d a @ [XLine op [XReg d 8, XReg b 8]] @ x64_finish_def x (i_dst inst) d)
     }
   }"

definition fcmp_lines :: "ir_cmp \<Rightarrow> string \<Rightarrow> nat \<Rightarrow> nat \<Rightarrow> nat \<Rightarrow> x64_line list option" where
  "fcmp_lines cmp ucomis a b d =
     (let compare = (\<lambda>p q. XLine ucomis [XReg p 8, XReg q 8]);
          set_to = (\<lambda>mnemonic r. XLine mnemonic [XReg r 1])
      in case cmp of
           IR_CMP_OEQ \<Rightarrow> Some [compare a b, set_to ''sete'' d, set_to ''setnp'' X64_RAX,
                               XLine ''and'' [XReg d 1, XReg X64_RAX 1]]
         | IR_CMP_UNE \<Rightarrow> Some [compare a b, set_to ''setne'' d, set_to ''setp'' X64_RAX,
                               XLine ''or'' [XReg d 1, XReg X64_RAX 1]]
         | IR_CMP_OGT \<Rightarrow> Some [compare a b, set_to ''seta'' d]
         | IR_CMP_OGE \<Rightarrow> Some [compare a b, set_to ''setae'' d]
         | IR_CMP_OLT \<Rightarrow> Some [compare b a, set_to ''seta'' d]
         | IR_CMP_OLE \<Rightarrow> Some [compare b a, set_to ''setae'' d]
         | _ \<Rightarrow> None)"

definition x64_emit_fcmp :: "x64_emitter \<Rightarrow> ir_inst \<Rightarrow> x64_line list option" where
  "x64_emit_fcmp x inst = do {
     (la, a) \<leftarrow> x64_use x (i_a inst) X64_XMM14;
     (lb, b) \<leftarrow> x64_use x (i_b inst) X64_XMM15;
     let d = x64_def x (i_dst inst) X64_R10 in do {
     ls \<leftarrow> fcmp_lines (i_cmp inst) (if i_type inst = IR_F64 then ''ucomisd'' else ''ucomiss'') a b d;
     Some (la @ lb @ ls @ x64_finish_def x (i_dst inst) d)
     }
   }"

section \<open>Conversions\<close>

definition local_label :: "nat \<Rightarrow> string" where
  "local_label n = ''.Lx'' @ decimal n"

text \<open>An unsigned 64-bit integer to a float.\<close>

definition u64_to_float :: "string \<Rightarrow> bool \<Rightarrow> nat \<Rightarrow> nat \<Rightarrow> nat \<Rightarrow> nat \<Rightarrow> x64_line list" where
  "u64_to_float cvt to_double d a big fin =
     [XLine ''test'' [XReg a 8, XReg a 8],
      XLine ''js'' [XName (local_label big)],
      XLine cvt [XReg d 8, XReg a 8],
      XLine ''jmp'' [XName (local_label fin)],
      XLabel (local_label big),
      XLine ''mov'' [XReg X64_R11 8, XReg a 8],
      XLine ''shr'' [XReg X64_R11 8, XImm 1],
      XLine ''mov'' [XReg X64_RAX 8, XReg a 8],
      XLine ''and'' [XReg X64_RAX 4, XImm 1],
      XLine ''or'' [XReg X64_R11 8, XReg X64_RAX 8],
      XLine cvt [XReg d 8, XReg X64_R11 8],
      XLine (if to_double then ''addsd'' else ''addss'') [XReg d 8, XReg d 8],
      XLabel (local_label fin)]"

definition float_label :: "nat \<Rightarrow> string" where
  "float_label n = ''__float'' @ decimal n"

text \<open>A float to an unsigned 64-bit integer; \<open>limit\<close> is the number of the constant 2 to the 63.\<close>

definition float_to_u64 :: "string \<Rightarrow> bool \<Rightarrow> nat \<Rightarrow> nat \<Rightarrow> nat \<Rightarrow> nat \<Rightarrow> nat \<Rightarrow> x64_line list" where
  "float_to_u64 cvt from_double d a limit big fin =
     [XLine (if from_double then ''ucomisd'' else ''ucomiss'') [XReg a 8, XRel '''' (float_label limit) None],
      XLine ''jae'' [XName (local_label big)],
      XLine cvt [XReg d 8, XReg a 8],
      XLine ''jmp'' [XName (local_label fin)],
      XLabel (local_label big),
      XLine ''movaps'' [XReg X64_XMM15 8, XReg a 8],
      XLine (if from_double then ''subsd'' else ''subss'') [XReg X64_XMM15 8, XRel '''' (float_label limit) None],
      XLine cvt [XReg d 8, XReg X64_XMM15 8],
      XLine ''btc'' [XReg d 8, XImm 63],
      XLabel (local_label fin)]"

text \<open>The bits of \<^verbatim>\<open>9223372036854775808.0\<close>.\<close>

definition two_to_63 :: u64 where
  "two_to_63 = 0x43E0000000000000"

definition conversion_lines :: "(u64 \<Rightarrow> u32) \<Rightarrow> ir_op \<Rightarrow> ir_type \<Rightarrow> ir_type \<Rightarrow> nat \<Rightarrow> nat \<Rightarrow> x64_counters \<Rightarrow>
    (x64_line list \<times> x64_counters) option" where
  "conversion_lines to_float op src dst d a n =
     (let fs = x64_width src; ts = x64_width dst; from_float = ir_type_is_float src; to_f = ir_type_is_float dst in
      case op of
        IR_SEXT \<Rightarrow>
          Some ([if fs = 4 then XLine ''movsxd'' [XReg d 8, XReg a 4]
                 else XLine ''movsx'' [XReg d (at_least_32 ts), XReg a fs]], n)
      | IR_ZEXT \<Rightarrow>
          Some ([if fs = 4 then XLine ''mov'' [XReg d 4, XReg a 4] else XLine ''movzx'' [XReg d 4, XReg a fs]], n)
      | IR_TRUNC \<Rightarrow> Some (copy_at 4 d a, n)
      | IR_FPEXT \<Rightarrow> Some ([XLine ''cvtss2sd'' [XReg d 8, XReg a 8]], n)
      | IR_FPTRUNC \<Rightarrow> Some ([XLine ''cvtsd2ss'' [XReg d 8, XReg a 8]], n)
      | IR_BITCAST \<Rightarrow>
          Some (if from_float \<noteq> to_f then [XLine (if ts = 8 then ''movq'' else ''movd'') [XReg d ts, XReg a fs]]
                else x64_move_reg d a, n)
      | _ \<Rightarrow>
          if op = IR_SITOFP \<or> op = IR_UITOFP then
            let cvt = (if dst = IR_F64 then ''cvtsi2sd'' else ''cvtsi2ss''); is_signed = (op = IR_SITOFP) in
            if fs < 4 then
              Some ([XLine (if is_signed then ''movsx'' else ''movzx'') [XReg X64_R11 4, XReg a fs],
                     XLine cvt [XReg d 8, XReg X64_R11 4]], n)
            else if fs = 4 \<and> \<not> is_signed then
              Some ([XLine ''mov'' [XReg X64_R11 4, XReg a 4], XLine cvt [XReg d 8, XReg X64_R11 8]], n)
            else if fs = 8 \<and> \<not> is_signed then
              Some (u64_to_float cvt (dst = IR_F64) d a (next_local_label n) (Suc (next_local_label n)),
                    n\<lparr>next_local_label := next_local_label n + 2\<rparr>)
            else Some ([XLine cvt [XReg d 8, XReg a fs]], n)
          else if op = IR_FPTOSI \<or> op = IR_FPTOUI then
            let cvt = (if src = IR_F64 then ''cvttsd2si'' else ''cvttss2si'') in
            if op = IR_FPTOUI \<and> ts = 8 then
              let (limit, n) = x64_float_constant to_float n two_to_63 fs in
              Some (float_to_u64 cvt (src = IR_F64) d a limit (next_local_label n) (Suc (next_local_label n)),
                    n\<lparr>next_local_label := next_local_label n + 2\<rparr>)
            else Some ([XLine cvt [XReg d (if ts = 8 \<or> op = IR_FPTOUI then 8 else 4), XReg a 8]], n)
          else None)"

definition x64_emit_conversion :: "(u64 \<Rightarrow> u32) \<Rightarrow> x64_emitter \<Rightarrow> ir_inst \<Rightarrow> x64_counters \<Rightarrow>
    (x64_line list \<times> x64_counters) option" where
  "x64_emit_conversion to_float x inst n =
     (let src = x64_vtype x (i_a inst); dst = i_type inst in do {
        (la, a) \<leftarrow> x64_use x (i_a inst) (if ir_type_is_float src then X64_XMM14 else X64_R10);
        let d = x64_def x (i_dst inst) (if ir_type_is_float dst then X64_XMM14 else X64_R10) in do {
        (ls, n) \<leftarrow> conversion_lines to_float (i_op inst) src dst d a n;
        Some (la @ ls @ x64_finish_def x (i_dst inst) d, n)
        }
      })"

section \<open>One instruction\<close>

definition x64_emit_const :: "x64_emitter \<Rightarrow> ir_inst \<Rightarrow> x64_line list" where
  "x64_emit_const x inst =
     (let d = x64_def x (i_dst inst) X64_R10 in
      (if i_imm inst = 0 then [XLine ''xor'' [XReg d 4, XReg d 4]]
       else if x64_width (i_type inst) < 8 then [XLine ''mov'' [XReg d 4, XImm (signed_take_bit 31 (i_imm inst))]]
       else [XLine ''mov'' [XReg d 8, XImm (i_imm inst)]]) @
      x64_finish_def x (i_dst inst) d)"

definition x64_emit_const_float :: "(u64 \<Rightarrow> u32) \<Rightarrow> x64_emitter \<Rightarrow> ir_inst \<Rightarrow> x64_counters \<Rightarrow>
    x64_line list \<times> x64_counters" where
  "x64_emit_const_float to_float x inst n =
     (let d = x64_def x (i_dst inst) X64_XMM14 in
      if i_fimm inst = 0 then (XLine ''xorps'' [XReg d 8, XReg d 8] # x64_finish_def x (i_dst inst) d, n)
      else let (c, n) = x64_float_constant to_float n (i_fimm inst) (ir_type_size (i_type inst))
           in (XLine (if i_type inst = IR_F64 then ''movsd'' else ''movss'') [XReg d 8, XRel '''' (float_label c) None] #
               x64_finish_def x (i_dst inst) d, n))"

definition x64_emit_copy :: "x64_emitter \<Rightarrow> ir_inst \<Rightarrow> x64_line list option" where
  "x64_emit_copy x inst =
     (let scratch = (if ir_type_is_float (i_type inst) then X64_XMM14 else X64_R10) in do {
        (la, a) \<leftarrow> x64_use x (i_a inst) scratch;
        let d = x64_def x (i_dst inst) scratch
        in Some (la @ x64_move_reg d a @ x64_finish_def x (i_dst inst) d)
      })"

definition x64_emit_addr :: "x64_emitter \<Rightarrow> ir_inst \<Rightarrow> x64_operand \<Rightarrow> x64_line list" where
  "x64_emit_addr x inst address =
     (let d = x64_def x (i_dst inst) X64_R10
      in XLine ''lea'' [XReg d 8, address] # x64_finish_def x (i_dst inst) d)"

definition x64_emit_load :: "x64_emitter \<Rightarrow> ir_inst \<Rightarrow> x64_line list option" where
  "x64_emit_load x inst =
     (let width = x64_width (i_type inst) in do {
        (ls, addr) \<leftarrow> x64_address x (i_addr inst) X64_R11 (x64_size_keyword width);
        (if ir_type_is_float (i_type inst)
        then let d = x64_def x (i_dst inst) X64_XMM14
             in Some (ls @ [XLine (if width = 8 then ''movsd'' else ''movss'') [XReg d 8, addr]] @
                      x64_finish_def x (i_dst inst) d)
        else let d = x64_def x (i_dst inst) X64_R10
             in Some (ls @ [if width < 4 then XLine ''movzx'' [XReg d 4, addr] else XLine ''mov'' [XReg d width, addr]] @
                      x64_finish_def x (i_dst inst) d))
      })"

definition x64_emit_store :: "x64_emitter \<Rightarrow> ir_inst \<Rightarrow> x64_line list option" where
  "x64_emit_store x inst =
     (let width = x64_width (i_type inst); is_float = ir_type_is_float (i_type inst) in do {
        (la, a) \<leftarrow> x64_use x (i_a inst) (if is_float then X64_XMM14 else X64_R10);
        (ls, addr) \<leftarrow> x64_address x (i_addr inst) X64_R11 (x64_size_keyword width);
        Some (la @ ls @
          [if is_float then XLine (if width = 8 then ''movsd'' else ''movss'') [addr, XReg a 8]
           else XLine ''mov'' [addr, XReg a width]])
      })"

definition x64_emit_ptr_add :: "x64_emitter \<Rightarrow> ir_inst \<Rightarrow> x64_line list option" where
  "x64_emit_ptr_add x inst = do {
     (la, a) \<leftarrow> x64_use x (i_a inst) X64_R10;
     (lb, b) \<leftarrow> x64_use x (i_b inst) X64_R11;
     let d = x64_def x (i_dst inst) X64_R10
     in Some (la @ lb @ [XLine ''lea'' [XReg d 8, XIndexed '''' a b]] @ x64_finish_def x (i_dst inst) d)
   }"

definition x64_emit_memory_call :: "x64_emitter \<Rightarrow> ir_inst \<Rightarrow> x64_line list option" where
  "x64_emit_memory_call x inst =
     (let arg = (\<lambda>src. \<lparr>ca_src = src, ca_is_float = False, ca_is_vararg = False\<rparr>)
      in x64_emit_call_with_args
           [arg (move_vreg x (i_a inst)),
            arg (if i_op inst = IR_MEMCPY then move_vreg x (i_b inst) else MOVE_IMM (i_imm2 inst)),
            arg (MOVE_IMM (i_imm inst))]
           (if i_op inst = IR_MEMCPY then ''$memcpy'' else ''$memset''))"

definition x64_emit_unop :: "x64_emitter \<Rightarrow> ir_inst \<Rightarrow> x64_line list option" where
  "x64_emit_unop x inst =
     (let width = at_least_32 (x64_width (i_type inst)) in do {
        (la, a) \<leftarrow> x64_use x (i_a inst) X64_R10;
        let d = x64_def x (i_dst inst) X64_R10
        in Some (la @ copy_at width d a @ [XLine (if i_op inst = IR_NEG then ''neg'' else ''not'') [XReg d width]] @
                 x64_finish_def x (i_dst inst) d)
      })"

definition x64_emit_fneg :: "x64_emitter \<Rightarrow> ir_inst \<Rightarrow> x64_line list option" where
  "x64_emit_fneg x inst = do {
     (la, a) \<leftarrow> x64_use x (i_a inst) X64_XMM14;
     let d = x64_def x (i_dst inst) X64_XMM14
     in Some (la @ x64_move_reg d a @
              [XLine ''xorps'' [XReg d 8,
                 XRel '''' (if i_type inst = IR_F64 then ''__sign_mask_f64'' else ''__sign_mask_f32'') None]] @
              x64_finish_def x (i_dst inst) d)
   }"

definition x64_emit_icmp :: "x64_emitter \<Rightarrow> ir_inst \<Rightarrow> x64_line list option" where
  "x64_emit_icmp x inst =
     (let width = x64_width (i_type inst) in do {
        (la, a) \<leftarrow> x64_use x (i_a inst) X64_R10;
        (lb, b) \<leftarrow> x64_use x (i_b inst) X64_R11;
        let d = x64_def x (i_dst inst) X64_R10 in do {
        cc \<leftarrow> x64_icmp_cc (i_cmp inst);
        Some (la @ lb @ [XLine ''cmp'' [XReg a width, XReg b width], XLine (''set'' @ cc) [XReg d 1]] @
              x64_finish_def x (i_dst inst) d)
        }
      })"

text \<open>The lines of an instruction that leaves the counters alone.\<close>

definition unchanged :: "x64_counters \<Rightarrow> x64_line list option \<Rightarrow> (x64_line list \<times> x64_counters) option" where
  "unchanged n r = map_option (\<lambda>ls. (ls, n)) r"

definition x64_emit_inst :: "(u64 \<Rightarrow> u32) \<Rightarrow> x64_emitter \<Rightarrow> ir_inst \<Rightarrow> x64_counters \<Rightarrow>
    (x64_line list \<times> x64_counters) option" where
  "x64_emit_inst to_float x inst n =
     (let op = i_op inst in
      if op = IR_NOP then Some ([], n)
      else if op = IR_CONST then Some (x64_emit_const x inst, n)
      else if op = IR_CONST_FLOAT then Some (x64_emit_const_float to_float x inst n)
      else if op = IR_COPY then unchanged n (x64_emit_copy x inst)
      else if op = IR_SLOT_ADDR
      then Some (x64_emit_addr x inst (XMem '''' X64_RBP (Some (x_slot_offsets x ! nat (i_imm inst)))), n)
      else if op = IR_GLOBAL_ADDR
      then Some (x64_emit_addr x inst (XRel '''' (x64_symbol x (i_imm inst)) None), n)
      else if op = IR_LOAD then unchanged n (x64_emit_load x inst)
      else if op = IR_STORE then unchanged n (x64_emit_store x inst)
      else if op = IR_PTR_ADD then unchanged n (x64_emit_ptr_add x inst)
      else if op = IR_MEMCPY \<or> op = IR_MEMSET then unchanged n (x64_emit_memory_call x inst)
      else if op \<in> set [IR_ADD, IR_SUB, IR_MUL, IR_AND, IR_OR, IR_XOR] then unchanged n (x64_emit_int_binop x inst)
      else if op \<in> set [IR_SDIV, IR_UDIV, IR_SREM, IR_UREM] then unchanged n (x64_emit_divide x inst)
      else if op \<in> set [IR_SHL, IR_LSHR, IR_ASHR] then unchanged n (x64_emit_shift x inst)
      else if op = IR_NEG \<or> op = IR_NOT then unchanged n (x64_emit_unop x inst)
      else if op \<in> set [IR_FADD, IR_FSUB, IR_FMUL, IR_FDIV] then unchanged n (x64_emit_float_binop x inst)
      else if op = IR_FNEG then unchanged n (x64_emit_fneg x inst)
      else if op = IR_ICMP then unchanged n (x64_emit_icmp x inst)
      else if op = IR_FCMP then unchanged n (x64_emit_fcmp x inst)
      else if op \<in> set [IR_SEXT, IR_ZEXT, IR_TRUNC, IR_SITOFP, IR_UITOFP, IR_FPTOSI, IR_FPTOUI,
                        IR_FPEXT, IR_FPTRUNC, IR_BITCAST]
      then x64_emit_conversion to_float x inst n
      else if op = IR_CALL then unchanged n (x64_emit_call x inst)
      else None)"

end
