(* ===== verification/X64Machine.thy ===== *)
theory X64Machine
  imports X64Emit "HOL-Library.Signed_Division"
begin

text \<open>
  What the lines of \<^verbatim>\<open>X64Emit\<close> do when the machine runs them: a state with the registers, the bytes
  of the memory and the flags, and the effect of each line of integer code and of each move. Of an
  xmm register the state has the low 64 bits, all that the compiler uses. A line that has no meaning
  here (float arithmetic, jumps, calls and \<^verbatim>\<open>ret\<close>; the jumps and \<^verbatim>\<open>ret\<close> are in \<^verbatim>\<open>X64Flow\<close>), a division
  that traps and a condition without a comparison before it are \<open>None\<close>. The carry that \<^verbatim>\<open>dec\<close> leaves is that of a
  subtraction; no line reads it.
\<close>

section \<open>Memory\<close>

primrec load_bytes :: "nat \<Rightarrow> u64 \<Rightarrow> (u64 \<Rightarrow> u8) \<Rightarrow> u64" where
  "load_bytes 0 a m = 0"
| "load_bytes (Suc n) a m = push_bit 8 (load_bytes n (a + 1) m) OR ucast (m a)"

definition store_bytes :: "nat \<Rightarrow> u64 \<Rightarrow> u64 \<Rightarrow> (u64 \<Rightarrow> u8) \<Rightarrow> u64 \<Rightarrow> u8" where
  "store_bytes n a v m = (\<lambda>p. if unat (p - a) < n then ucast (drop_bit (8 * unat (p - a)) v) else m p)"

text \<open>The \<open>n\<close> bytes at \<open>a\<close> and the \<open>k\<close> bytes at \<open>b\<close> have none in common.\<close>

definition apart :: "nat \<Rightarrow> u64 \<Rightarrow> nat \<Rightarrow> u64 \<Rightarrow> bool" where
  "apart n a k b \<longleftrightarrow> n \<le> unat (b - a) \<and> k \<le> unat (a - b)"

lemma apart_sym: "apart n a k b \<longleftrightarrow> apart k b n a"
  by (auto simp: apart_def)

lemma bit_load_bytes:
  "bit (load_bytes n a m) i \<longleftrightarrow> i < 64 \<and> i < 8 * n \<and> bit (m (a + of_nat (i div 8))) (i mod 8)"
proof (induction n arbitrary: a i)
  case (Suc n)
  show ?case
  proof (cases "i < 8")
    case True
    then show ?thesis by (auto simp: bit_simps)
  next
    case False
    define k where "k = i - 8"
    then have i: "i = k + 8" using False by simp
    have "\<not> bit (m a) i" using False bit_imp_le_length [of "m a" i] by auto
    then have "bit (load_bytes (Suc n) a m) i \<longleftrightarrow> i < 64 \<and> bit (load_bytes n (a + 1) m) k"
      by (auto simp: bit_simps i)
    also have "\<dots> \<longleftrightarrow> i < 64 \<and> k < 8 * n \<and> bit (m (a + 1 + of_nat (k div 8))) (k mod 8)"
      using Suc.IH [of "a + 1" k] by (auto simp: i)
    also have "a + 1 + of_nat (k div 8) = a + of_nat (i div 8)"
    proof -
      have "i div 8 = Suc (k div 8)" by (simp add: i)
      then show ?thesis by simp
    qed
    also have "k mod 8 = i mod 8" by (simp add: i)
    finally show ?thesis by (simp add: i)
  qed
qed simp

lemma load_store_same:
  assumes "n \<le> 8"
  shows "load_bytes n a (store_bytes n a v m) = take_bit (8 * n) v"
proof (rule bit_word_eqI)
  fix i assume i: "i < LENGTH(64)"
  show "bit (load_bytes n a (store_bytes n a v m)) i \<longleftrightarrow> bit (take_bit (8 * n) v) i"
  proof (cases "i < 8 * n")
    case True
    then have k: "i div 8 < n" "i div 8 < 8" using assms by (auto simp: less_mult_imp_div_less)
    then have "unat (a + of_nat (i div 8) - a) = i div 8" by (simp add: unsigned_of_nat take_bit_nat_eq_self)
    then show ?thesis
      using i True k by (simp add: bit_load_bytes store_bytes_def bit_simps)
  qed (simp add: bit_load_bytes bit_simps)
qed

lemma unat_diff_sym:
  fixes a b :: u64
  assumes "a \<noteq> b"
  shows "unat (a - b) + unat (b - a) = 2 ^ 64"
proof -
  have "uint (b - a) \<noteq> 0" using assms by (metis right_minus_eq uint_0_iff)
  have "uint (a - b) = uint (- (b - a))" by simp
  also have "\<dots> = (- uint (b - a)) mod 2 ^ 64" by (simp add: uint_word_ariths(4) del: minus_diff_eq)
  also have "\<dots> = 2 ^ 64 - uint (b - a)"
    using \<open>uint (b - a) \<noteq> 0\<close> unsigned_less [of "b - a", where ?'a = int]
    by (simp add: zmod_zminus1_eq_if)
  finally have "int (unat (a - b) + unat (b - a)) = 2 ^ 64" by (simp only: of_nat_add uint_nat [symmetric])
  then have "int (unat (a - b) + unat (b - a)) = int (2 ^ 64)" by simp
  then show ?thesis by (rule of_nat_eq_iff [THEN iffD1])
qed

lemma store_apart:
  assumes "apart n a k b" and "i < k"
  shows "store_bytes n a v m (b + of_nat i) = m (b + of_nat i)"
proof -
  have "unat (b - a) + i < 2 ^ 64"
  proof (cases "a = b")
    case False
    then show ?thesis using unat_diff_sym [of a b] assms by (simp add: apart_def)
  qed (use assms in \<open>simp add: apart_def\<close>)
  then have "unat (b - a + of_nat i) = unat (b - a) + i"
    by (simp add: unat_word_ariths unsigned_of_nat take_bit_nat_eq_self)
  moreover have "b + of_nat i - a = b - a + of_nat i" by simp
  ultimately show ?thesis using assms(1) by (simp only: store_bytes_def apart_def) simp
qed

lemma load_cong:
  assumes "\<And>i. i < n \<Longrightarrow> m (a + of_nat i) = m' (a + of_nat i)"
  shows "load_bytes n a m = load_bytes n a m'"
  by (rule bit_word_eqI) (auto simp: bit_load_bytes assms less_mult_imp_div_less)

lemma load_store_apart [simp]: "apart n a k b \<Longrightarrow> load_bytes k b (store_bytes n a v m) = load_bytes k b m"
  by (rule load_cong) (rule store_apart)

section \<open>State\<close>

record x64_flags =
  zf :: bool
  sf :: bool
  cf :: bool
  ovf :: bool

record x64_state =
  xregs :: "nat \<Rightarrow> u64"
  xmem :: "u64 \<Rightarrow> u8"
  xflags :: "x64_flags option"
  xsyms :: "string \<Rightarrow> u64"

definition set_reg :: "nat \<Rightarrow> u64 \<Rightarrow> x64_state \<Rightarrow> x64_state" where
  "set_reg r v st = st\<lparr>xregs := (xregs st)(r := v)\<rparr>"

section \<open>Operands\<close>

fun operand_address :: "x64_operand \<Rightarrow> x64_state \<Rightarrow> u64 option" where
  "operand_address (XMem keyword b off) st =
     Some (xregs st b + word_of_int (case off of None \<Rightarrow> 0 | Some i \<Rightarrow> i))"
| "operand_address (XIndexed keyword b i) st = Some (xregs st b + xregs st i)"
| "operand_address (XRel keyword name off) st =
     Some (xsyms st name + word_of_int (case off of None \<Rightarrow> 0 | Some i \<Rightarrow> i))"
| "operand_address _ st = None"

text \<open>The width of an operand, of a register or printed before an address.\<close>

definition keyword_width :: "string \<Rightarrow> nat option" where
  "keyword_width keyword =
     (if keyword = ''byte'' then Some 1 else if keyword = ''word'' then Some 2
      else if keyword = ''dword'' then Some 4 else if keyword = ''qword'' then Some 8 else None)"

fun operand_width :: "x64_operand \<Rightarrow> nat option" where
  "operand_width (XReg r w) = Some (if w = 1 \<or> w = 2 \<or> w = 4 then w else 8)"
| "operand_width (XMem keyword b off) = keyword_width keyword"
| "operand_width (XIndexed keyword b i) = keyword_width keyword"
| "operand_width (XRel keyword name off) = keyword_width keyword"
| "operand_width _ = None"

fun read_operand :: "nat \<Rightarrow> x64_operand \<Rightarrow> x64_state \<Rightarrow> u64 option" where
  "read_operand w (XReg r _) st = Some (take_bit (8 * w) (xregs st r))"
| "read_operand w (XImm i) st = Some (take_bit (8 * w) (word_of_int i))"
| "read_operand w op st = do { a \<leftarrow> operand_address op st; Some (load_bytes w a (xmem st)) }"

text \<open>A write of 32 bits clears the upper half of a register; a narrower one leaves the rest.\<close>

definition merge_width :: "nat \<Rightarrow> u64 \<Rightarrow> u64 \<Rightarrow> u64" where
  "merge_width w old v =
     (if w = 8 then v else if w = 4 then take_bit 32 v
      else take_bit (8 * w) v OR (old AND NOT (mask (8 * w))))"

fun write_operand :: "nat \<Rightarrow> x64_operand \<Rightarrow> u64 \<Rightarrow> x64_state \<Rightarrow> x64_state option" where
  "write_operand w (XReg r _) v st = Some (set_reg r (merge_width w (xregs st r) v) st)"
| "write_operand w (XImm i) v st = None"
| "write_operand w op v st = do { a \<leftarrow> operand_address op st; Some (st\<lparr>xmem := store_bytes w a v (xmem st)\<rparr>) }"

section \<open>Instructions\<close>

text \<open>The value of the low \<open>w\<close> bytes as a signed number.\<close>

definition signed_at :: "nat \<Rightarrow> u64 \<Rightarrow> int" where
  "signed_at w v = signed_take_bit (8 * w - 1) (uint v)"

definition unsigned_at :: "nat \<Rightarrow> u64 \<Rightarrow> int" where
  "unsigned_at w v = uint (take_bit (8 * w) v)"

definition compare_flags :: "nat \<Rightarrow> u64 \<Rightarrow> u64 \<Rightarrow> x64_flags" where
  "compare_flags w a b =
     \<lparr>zf = take_bit (8 * w) (a - b) = 0, sf = signed_at w (a - b) < 0,
      cf = unsigned_at w a < unsigned_at w b,
      ovf = signed_at w a - signed_at w b \<noteq> signed_at w (a - b)\<rparr>"

definition condition_holds :: "string \<Rightarrow> x64_flags \<Rightarrow> bool option" where
  "condition_holds cc f =
     (if cc = ''e'' then Some (zf f) else if cc = ''ne'' then Some (\<not> zf f)
      else if cc = ''l'' then Some (sf f \<noteq> ovf f) else if cc = ''le'' then Some (zf f \<or> sf f \<noteq> ovf f)
      else if cc = ''g'' then Some (\<not> zf f \<and> sf f = ovf f) else if cc = ''ge'' then Some (sf f = ovf f)
      else if cc = ''b'' then Some (cf f) else if cc = ''be'' then Some (cf f \<or> zf f)
      else if cc = ''a'' then Some (\<not> cf f \<and> \<not> zf f) else if cc = ''ae'' then Some (\<not> cf f)
      else None)"

text \<open>The quotient and the remainder of the double-width number \<open>high:low\<close>; a quotient that does not fit
  traps.\<close>

definition divide :: "bool \<Rightarrow> nat \<Rightarrow> u64 \<Rightarrow> u64 \<Rightarrow> u64 \<Rightarrow> (int \<times> int) option" where
  "divide is_signed w high low d =
     (let dividend = (if is_signed then signed_at w high else unsigned_at w high) * 2 ^ (8 * w) + unsigned_at w low;
          divisor = (if is_signed then signed_at w d else unsigned_at w d);
          q = dividend sdiv divisor
      in if divisor = 0 then None
         else if (if is_signed then - (2 ^ (8 * w - 1)) \<le> q \<and> q < 2 ^ (8 * w - 1) else q < 2 ^ (8 * w))
         then Some (q, dividend smod divisor) else None)"

definition arithmetic :: "string \<Rightarrow> (u64 \<Rightarrow> u64 \<Rightarrow> u64) option" where
  "arithmetic mnemonic =
     (if mnemonic = ''add'' then Some (+) else if mnemonic = ''sub'' then Some (-)
      else if mnemonic = ''imul'' then Some (*) else if mnemonic = ''and'' then Some (AND)
      else if mnemonic = ''or'' then Some (OR) else if mnemonic = ''xor'' then Some (XOR) else None)"

definition shift :: "string \<Rightarrow> (nat \<Rightarrow> nat \<Rightarrow> u64 \<Rightarrow> u64) option" where
  "shift mnemonic =
     (if mnemonic = ''shl'' then Some (\<lambda>w n v. push_bit n v)
      else if mnemonic = ''shr'' then Some (\<lambda>w n v. drop_bit n (take_bit (8 * w) v))
      else if mnemonic = ''sar'' then Some (\<lambda>w n v. word_of_int (drop_bit n (signed_at w v)))
      else None)"

definition no_flags :: "x64_state \<Rightarrow> x64_state" where
  "no_flags st = st\<lparr>xflags := None\<rparr>"

definition pair_width :: "x64_operand \<Rightarrow> x64_operand \<Rightarrow> nat option" where
  "pair_width d s = (case operand_width d of None \<Rightarrow> operand_width s | w \<Rightarrow> w)"

definition exec_binary :: "string \<Rightarrow> x64_operand \<Rightarrow> x64_operand \<Rightarrow> x64_state \<Rightarrow> x64_state option" where
  "exec_binary mnemonic d s st =
     (if mnemonic \<in> set [''mov'', ''movaps'', ''movq'', ''movsd''] then do {
        w \<leftarrow> pair_width d s; v \<leftarrow> read_operand w s st; write_operand w d v st
      }
      else if mnemonic = ''movzx'' then do {
        w \<leftarrow> operand_width d; w' \<leftarrow> operand_width s; v \<leftarrow> read_operand w' s st; write_operand w d v st
      }
      else if mnemonic = ''movsx'' \<or> mnemonic = ''movsxd'' then do {
        w \<leftarrow> operand_width d; w' \<leftarrow> operand_width s; v \<leftarrow> read_operand w' s st;
        write_operand w d (word_of_int (signed_at w' v)) st
      }
      else if mnemonic = ''lea'' then do {
        w \<leftarrow> operand_width d; a \<leftarrow> operand_address s st; write_operand w d a st
      }
      else if mnemonic = ''cmp'' then do {
        w \<leftarrow> pair_width d s; a \<leftarrow> read_operand w d st; b \<leftarrow> read_operand w s st;
        Some (st\<lparr>xflags := Some (compare_flags w a b)\<rparr>)
      }
      else if mnemonic = ''test'' then do {
        w \<leftarrow> pair_width d s; a \<leftarrow> read_operand w d st; b \<leftarrow> read_operand w s st;
        Some (st\<lparr>xflags := Some (compare_flags w (a AND b) 0)\<rparr>)
      }
      else (case arithmetic mnemonic of
        Some f \<Rightarrow> do {
          w \<leftarrow> pair_width d s; a \<leftarrow> read_operand w d st; b \<leftarrow> read_operand w s st;
          write_operand w d (f a b) (no_flags st)
        }
      | None \<Rightarrow> do {
          f \<leftarrow> shift mnemonic; w \<leftarrow> operand_width d; a \<leftarrow> read_operand w d st; n \<leftarrow> read_operand 1 s st;
          write_operand w d (f w (unat n mod (if w = 8 then 64 else 32)) a) (no_flags st)
        }))"

definition exec_unary :: "string \<Rightarrow> x64_operand \<Rightarrow> x64_state \<Rightarrow> x64_state option" where
  "exec_unary mnemonic d st = do {
     w \<leftarrow> operand_width d;
     (if mnemonic = ''neg'' then do { a \<leftarrow> read_operand w d st; write_operand w d (- a) (no_flags st) }
      else if mnemonic = ''not'' then do { a \<leftarrow> read_operand w d st; write_operand w d (NOT a) st }
      else if mnemonic = ''idiv'' \<or> mnemonic = ''div'' then do {
        a \<leftarrow> read_operand w d st;
        (q, r) \<leftarrow> divide (mnemonic = ''idiv'') w (xregs st X64_RDX) (xregs st X64_RAX) a;
        st \<leftarrow> write_operand w (XReg X64_RAX w) (word_of_int q) (no_flags st);
        write_operand w (XReg X64_RDX w) (word_of_int r) st
      }
      else if mnemonic = ''push'' then do {
        a \<leftarrow> read_operand w d st;
        Some (st\<lparr>xregs := (xregs st)(X64_RSP := xregs st X64_RSP - 8),
                 xmem := store_bytes 8 (xregs st X64_RSP - 8) a (xmem st)\<rparr>)
      }
      else if mnemonic = ''dec'' then do {
        a \<leftarrow> read_operand w d st;
        write_operand w d (a - 1) (st\<lparr>xflags := Some (compare_flags w a 1)\<rparr>)
      }
      else if take 3 mnemonic = ''set'' then do {
        f \<leftarrow> xflags st; c \<leftarrow> condition_holds (drop 3 mnemonic) f;
        write_operand 1 d (of_bool c) st
      }
      else None)
   }"

text \<open>\<^verbatim>\<open>cdq\<close> and \<^verbatim>\<open>cqo\<close> fill \<^verbatim>\<open>rdx\<close> with the sign of \<^verbatim>\<open>rax\<close>.\<close>

definition sign_fill :: "nat \<Rightarrow> x64_state \<Rightarrow> x64_state option" where
  "sign_fill w st =
     write_operand w (XReg X64_RDX w) (if signed_at w (xregs st X64_RAX) < 0 then - 1 else 0) st"

text \<open>\<^verbatim>\<open>leave\<close> takes the frame away.\<close>

definition leave_frame :: "x64_state \<Rightarrow> x64_state" where
  "leave_frame st =
     st\<lparr>xregs := (xregs st)(X64_RSP := xregs st X64_RBP + 8, X64_RBP := load_bytes 8 (xregs st X64_RBP) (xmem st))\<rparr>"

fun exec_line :: "x64_line \<Rightarrow> x64_state \<Rightarrow> x64_state option" where
  "exec_line (XLabel name) st = Some st"
| "exec_line (XLine mnemonic []) st =
     (if mnemonic = ''cdq'' then sign_fill 4 st else if mnemonic = ''cqo'' then sign_fill 8 st
      else if mnemonic = ''leave'' then Some (leave_frame st) else None)"
| "exec_line (XLine mnemonic [d]) st = exec_unary mnemonic d st"
| "exec_line (XLine mnemonic [d, s]) st = exec_binary mnemonic d s st"
| "exec_line _ st = None"

fun exec_lines :: "x64_line list \<Rightarrow> x64_state \<Rightarrow> x64_state option" where
  "exec_lines [] st = Some st"
| "exec_lines (l # ls) st = do { st' \<leftarrow> exec_line l st; exec_lines ls st' }"

lemma exec_lines_append: "exec_lines (ls @ ls') st = do { st' \<leftarrow> exec_lines ls st; exec_lines ls' st' }"
  by (induction ls arbitrary: st) (auto split: Option.bind_splits)

lemma exec_lines_split: "exec_lines (l # l' # ls) st = do { st' \<leftarrow> exec_lines [l] st; exec_lines (l' # ls) st' }"
  by (cases "exec_line l st") auto

end
