(* ===== verification/X64Moves.thy ===== *)
theory X64Moves
  imports X64Machine
begin

text \<open>
  The parallel moves of the x64 backend, run: \<open>x64_parallel_move\<close> ends, and its code leaves in every
  destination the value its source had before the first move, whatever cycles the moves form. The
  destinations are different, the bases of the memory operands and the scratch registers are none of
  them, and the memory that is written is not read by another move. The arguments of a call and the
  parameters of a function meet these conditions.
\<close>

section \<open>The values of operands\<close>

fun move_address :: "x64_state \<Rightarrow> nat \<Rightarrow> int \<Rightarrow> u64" where
  "move_address st b off = xregs st b + word_of_int off"

fun move_value :: "move_operand \<Rightarrow> x64_state \<Rightarrow> u64" where
  "move_value (MOVE_REG r) st = xregs st r"
| "move_value (MOVE_MEM b off) st = load_bytes 8 (move_address st b off) (xmem st)"
| "move_value (MOVE_IMM i) st = word_of_int i"

definition store_at :: "nat \<Rightarrow> int \<Rightarrow> u64 \<Rightarrow> x64_state \<Rightarrow> x64_state" where
  "store_at b off v st = st\<lparr>xmem := store_bytes 8 (move_address st b off) v (xmem st)\<rparr>"

lemma set_reg_simps [simp]:
  "xregs (set_reg r v st) = (xregs st)(r := v)"
  "xmem (set_reg r v st) = xmem st"
  "xsyms (set_reg r v st) = xsyms st"
  "xflags (set_reg r v st) = xflags st"
  "set_reg r (xregs st r) st = st"
  by (simp_all add: set_reg_def)

lemma store_at_simps [simp]:
  "xregs (store_at b off v st) = xregs st"
  "xmem (store_at b off v st) = store_bytes 8 (move_address st b off) v (xmem st)"
  by (simp_all add: store_at_def)

lemma keyword_qword [simp]: "keyword_width ''qword'' = Some 8"
  by (simp add: keyword_width_def)

lemma take_bit_64 [simp]: "take_bit 64 (v :: u64) = v"
  by (rule bit_word_eqI) (simp add: bit_simps)

lemma merge_8 [simp]: "merge_width 8 old v = v"
  by (simp add: merge_width_def)

text \<open>The full-width moves.\<close>

lemma exec_full_move:
  assumes "mnemonic \<in> set [''mov'', ''movaps'', ''movq'', ''movsd'']"
  shows "exec_lines [XLine mnemonic [XReg d 8, XReg s 8]] st = Some (set_reg d (xregs st s) st)"
    and "exec_lines [XLine mnemonic [XReg d 8, XMem ''qword'' b (Some off)]] st =
      Some (set_reg d (move_value (MOVE_MEM b off) st) st)"
    and "exec_lines [XLine mnemonic [XReg d 8, XImm i]] st = Some (set_reg d (word_of_int i) st)"
    and "exec_lines [XLine mnemonic [XMem ''qword'' b (Some off), XReg s 8]] st = Some (store_at b off (xregs st s) st)"
  using assms by (simp_all add: exec_binary_def pair_width_def store_at_def)

lemma exec_move_reg: "exec_lines (x64_move_reg d s) st = Some (set_reg d (xregs st s) st)"
  by (simp add: x64_move_reg_def exec_full_move del: exec_lines.simps(2))

lemma exec_reg_move:
  assumes "\<And>i. src = MOVE_IMM i \<Longrightarrow> \<not> x64_is_xmm d"
  shows "\<exists>ls. x64_emit_move (MOVE_REG d) src = Some ls \<and> exec_lines ls st = Some (set_reg d (move_value src st) st)"
  using assms by (cases src) (auto simp: exec_move_reg exec_full_move simp del: exec_lines.simps(2))

lemma not_xmm_r11 [simp]: "\<not> x64_is_xmm 11"
  by (simp add: x64_is_xmm_def)

lemma xmm15 [simp]: "x64_is_xmm 31"
  by (simp add: x64_is_xmm_def)

lemma exec_mem_move:
  assumes "b \<noteq> X64_R11"
  shows "\<exists>ls v. x64_emit_move (MOVE_MEM b off) src = Some ls \<and>
    exec_lines ls st = Some (store_at b off (move_value src st) (set_reg X64_R11 v st))"
proof (cases src)
  case (MOVE_REG s)
  have "set_reg X64_R11 (xregs st X64_R11) st = st" by simp
  then show ?thesis
    using MOVE_REG by (intro exI [of _ "[_]"] exI [of _ "xregs st X64_R11"] conjI)
      (auto simp: exec_full_move simp del: exec_lines.simps(2))
next
  case (MOVE_MEM b' off')
  then show ?thesis
    using assms by (auto simp: exec_full_move exec_lines_split simp del: exec_lines.simps(2))
next
  case (MOVE_IMM i)
  then show ?thesis
    using assms by (auto simp: exec_full_move exec_lines_split simp del: exec_lines.simps(2))
qed

section \<open>What the moves may be\<close>

definition scratch_reg :: "nat \<Rightarrow> bool" where
  "scratch_reg r \<longleftrightarrow> r = X64_R11 \<or> r = X64_XMM15"

definition base_reg :: "nat \<Rightarrow> bool" where
  "base_reg b \<longleftrightarrow> b = X64_RSP \<or> b = X64_RBP"

fun dst_ok :: "move_operand \<Rightarrow> bool" where
  "dst_ok (MOVE_REG r) \<longleftrightarrow> \<not> scratch_reg r \<and> \<not> base_reg r"
| "dst_ok (MOVE_MEM b off) \<longleftrightarrow> base_reg b"
| "dst_ok (MOVE_IMM i) \<longleftrightarrow> False"

fun src_ok :: "move_operand \<Rightarrow> bool" where
  "src_ok (MOVE_REG r) \<longleftrightarrow> \<not> scratch_reg r"
| "src_ok (MOVE_MEM b off) \<longleftrightarrow> base_reg b"
| "src_ok (MOVE_IMM i) \<longleftrightarrow> True"

fun xmm_immediate :: "move_operand \<Rightarrow> move_operand \<Rightarrow> bool" where
  "xmm_immediate (MOVE_REG r) (MOVE_IMM i) \<longleftrightarrow> x64_is_xmm r"
| "xmm_immediate _ _ \<longleftrightarrow> False"

fun cells_apart :: "x64_state \<Rightarrow> move_operand \<Rightarrow> move_operand \<Rightarrow> bool" where
  "cells_apart st (MOVE_MEM b off) (MOVE_MEM b' off') \<longleftrightarrow> apart 8 (move_address st b off) 8 (move_address st b' off')"
| "cells_apart st _ _ \<longleftrightarrow> True"

fun same_register :: "move_operand \<Rightarrow> move_operand \<Rightarrow> bool" where
  "same_register (MOVE_REG r) (MOVE_REG r') \<longleftrightarrow> r = r'"
| "same_register _ _ \<longleftrightarrow> False"

definition move_ok :: "x64_move \<Rightarrow> bool" where
  "move_ok m \<longleftrightarrow> \<not> mv_done m \<and> dst_ok (mv_dst m) \<and> src_ok (mv_src m) \<and> \<not> xmm_immediate (mv_dst m) (mv_src m)"

definition moves_ok :: "x64_state \<Rightarrow> x64_move list \<Rightarrow> bool" where
  "moves_ok st moves \<longleftrightarrow>
     (\<forall>m \<in> set moves. move_ok m) \<and>
     (\<forall>i < length moves. \<forall>j < length moves. i \<noteq> j \<longrightarrow>
        \<not> same_register (mv_dst (moves ! i)) (mv_dst (moves ! j)) \<and>
        cells_apart st (mv_dst (moves ! i)) (mv_dst (moves ! j)) \<and>
        cells_apart st (mv_dst (moves ! i)) (mv_src (moves ! j)))"

section \<open>The state between two moves\<close>

definition written_reg :: "x64_move list \<Rightarrow> nat \<Rightarrow> bool" where
  "written_reg moves r \<longleftrightarrow> scratch_reg r \<or> (\<exists>m \<in> set moves. mv_dst m = MOVE_REG r)"

definition written_byte :: "x64_state \<Rightarrow> x64_move list \<Rightarrow> u64 \<Rightarrow> bool" where
  "written_byte st moves a \<longleftrightarrow>
     (\<exists>m \<in> set moves. case mv_dst m of MOVE_MEM b off \<Rightarrow> unat (a - move_address st b off) < 8 | _ \<Rightarrow> False)"

definition others_kept :: "x64_state \<Rightarrow> x64_move list \<Rightarrow> x64_state \<Rightarrow> bool" where
  "others_kept st0 moves st \<longleftrightarrow>
     (\<forall>r. \<not> written_reg moves r \<longrightarrow> xregs st r = xregs st0 r) \<and>
     (\<forall>a. \<not> written_byte st0 moves a \<longrightarrow> xmem st a = xmem st0 a)"

definition move_state :: "x64_state \<Rightarrow> x64_move list \<Rightarrow> x64_move list \<Rightarrow> x64_state \<Rightarrow> bool" where
  "move_state st0 ms0 ms st \<longleftrightarrow>
     length ms = length ms0 \<and> others_kept st0 ms0 st \<and>
     (\<forall>i < length ms0.
        mv_dst (ms ! i) = mv_dst (ms0 ! i) \<and>
        (if mv_done (ms ! i) then move_value (mv_dst (ms0 ! i)) st = move_value (mv_src (ms0 ! i)) st0
         else move_value (mv_src (ms ! i)) st = move_value (mv_src (ms0 ! i)) st0 \<and>
              (mv_src (ms ! i) = mv_src (ms0 ! i) \<or> (\<exists>r. mv_src (ms ! i) = MOVE_REG r \<and> scratch_reg r))))"

lemma base_kept:
  assumes "moves_ok st0 ms0" and "others_kept st0 ms0 st" and "base_reg b"
  shows "xregs st b = xregs st0 b"
proof -
  have "\<not> written_reg ms0 b"
    using assms(1,3) by (fastforce simp: written_reg_def moves_ok_def move_ok_def scratch_reg_def base_reg_def)
  then show ?thesis using assms(2) by (simp add: others_kept_def)
qed

lemma move_state_start:
  assumes "moves_ok st0 ms0"
  shows "move_state st0 ms0 ms0 st0"
  using assms by (auto simp: move_state_def others_kept_def moves_ok_def move_ok_def)

text \<open>Making one move. The other moves keep their sources, and those that are made their destinations.\<close>

lemma move_state_perform:
  assumes "move_state st0 ms0 ms st" and "i < length ms0" and "\<not> mv_done (ms ! i)"
    and "others_kept st0 ms0 st'" and "move_value (mv_dst (ms0 ! i)) st' = move_value (mv_src (ms ! i)) st"
    and "\<And>j. j < length ms0 \<Longrightarrow> j \<noteq> i \<Longrightarrow> mv_done (ms ! j) \<Longrightarrow>
      move_value (mv_dst (ms0 ! j)) st' = move_value (mv_dst (ms0 ! j)) st"
    and "\<And>j. j < length ms0 \<Longrightarrow> j \<noteq> i \<Longrightarrow> \<not> mv_done (ms ! j) \<Longrightarrow>
      move_value (mv_src (ms ! j)) st' = move_value (mv_src (ms ! j)) st"
  shows "move_state st0 ms0 (ms[i := (ms ! i)\<lparr>mv_done := True\<rparr>]) st'"
proof -
  have "j = i \<or> j \<noteq> i" for j by simp
  then show ?thesis using assms unfolding move_state_def by (auto simp: nth_list_update)
qed

lemma others_kept_reg:
  "others_kept st0 ms0 st \<Longrightarrow> written_reg ms0 r \<Longrightarrow> others_kept st0 ms0 (set_reg r v st)"
  by (auto simp: others_kept_def)

lemma others_kept_store:
  assumes "others_kept st0 ms0 st" and "m \<in> set ms0" and "mv_dst m = MOVE_MEM b off" and "xregs st b = xregs st0 b"
  shows "others_kept st0 ms0 (store_at b off v st)"
proof -
  have "store_bytes 8 (move_address st b off) v (xmem st) a = xmem st0 a" if "\<not> written_byte st0 ms0 a" for a
  proof -
    have "\<not> unat (a - move_address st b off) < 8"
      using that assms(2-4) by (fastforce simp: written_byte_def)
    then show ?thesis using that assms(1) by (simp add: store_bytes_def others_kept_def)
  qed
  then show ?thesis using assms(1) by (simp add: others_kept_def)
qed

lemma value_set_scratch:
  "src_ok op \<or> dst_ok op \<Longrightarrow> scratch_reg r \<Longrightarrow> move_value op (set_reg r v st) = move_value op st"
  by (cases op) (auto simp: scratch_reg_def base_reg_def)

lemma value_store: "cells_apart st (MOVE_MEM b off) op \<Longrightarrow> move_value op (store_at b off v st) = move_value op st"
  by (cases op) auto

lemma cells_apart_cong:
  assumes "\<And>b. base_reg b \<Longrightarrow> xregs st b = xregs st0 b" and "dst_ok op" and "src_ok op' \<or> dst_ok op'"
  shows "cells_apart st op op' = cells_apart st0 op op'"
  using assms by (cases op; cases op') auto

lemma moves_okD:
  assumes "moves_ok st0 ms0" and "i < length ms0"
  shows "dst_ok (mv_dst (ms0 ! i))" "src_ok (mv_src (ms0 ! i))" "\<not> xmm_immediate (mv_dst (ms0 ! i)) (mv_src (ms0 ! i))"
    "\<not> mv_done (ms0 ! i)"
  using assms by (auto simp: moves_ok_def move_ok_def)

lemma move_stateD:
  assumes "move_state st0 ms0 ms st"
  shows "length ms = length ms0" "others_kept st0 ms0 st"
    and "i < length ms0 \<Longrightarrow> mv_dst (ms ! i) = mv_dst (ms0 ! i)"
    and "i < length ms0 \<Longrightarrow> mv_done (ms ! i) \<Longrightarrow> move_value (mv_dst (ms0 ! i)) st = move_value (mv_src (ms0 ! i)) st0"
    and "i < length ms0 \<Longrightarrow> \<not> mv_done (ms ! i) \<Longrightarrow> move_value (mv_src (ms ! i)) st = move_value (mv_src (ms0 ! i)) st0"
    and "i < length ms0 \<Longrightarrow> \<not> mv_done (ms ! i) \<Longrightarrow>
      mv_src (ms ! i) = mv_src (ms0 ! i) \<or> (\<exists>r. mv_src (ms ! i) = MOVE_REG r \<and> scratch_reg r)"
  using assms unfolding move_state_def by auto

section \<open>Moves into memory\<close>

definition set_done :: "nat \<Rightarrow> x64_move list \<Rightarrow> x64_move list" where
  "set_done i ms = ms[i := (ms ! i)\<lparr>mv_done := True\<rparr>]"

lemma set_done_simps [simp]:
  "length (set_done i ms) = length ms"
  "i < length ms \<Longrightarrow> mv_dst (set_done i ms ! j) = mv_dst (ms ! j)"
  "i < length ms \<Longrightarrow> mv_src (set_done i ms ! j) = mv_src (ms ! j)"
  "i < length ms \<Longrightarrow> mv_done (set_done i ms ! j) \<longleftrightarrow> j = i \<or> mv_done (ms ! j)"
  by (auto simp: set_done_def nth_list_update)

lemma memory_step:
  assumes ok: "moves_ok st0 ms0" and inv: "move_state st0 ms0 ms st" and i: "i < length ms0" "\<not> mv_done (ms ! i)"
    and dst: "mv_dst (ms0 ! i) = MOVE_MEM b off"
    and srcs: "\<And>j. j < length ms0 \<Longrightarrow> mv_src (ms ! j) = mv_src (ms0 ! j)"
  shows "\<exists>ls st'. x64_emit_move (MOVE_MEM b off) (mv_src (ms ! i)) = Some ls \<and> exec_lines ls st = Some st' \<and>
    move_state st0 ms0 (set_done i ms) st'"
proof -
  note okD = moves_okD [OF ok]
  have b: "base_reg b" using okD(1) [OF i(1)] dst by simp
  then have "b \<noteq> X64_R11" by (auto simp: base_reg_def)
  from exec_mem_move [OF this] obtain ls v
    where ls: "x64_emit_move (MOVE_MEM b off) (mv_src (ms ! i)) = Some ls"
      and run: "exec_lines ls st = Some (store_at b off (move_value (mv_src (ms ! i)) st) (set_reg X64_R11 v st))"
    by blast
  define st1 where "st1 = set_reg X64_R11 v st"
  define st' where "st' = store_at b off (move_value (mv_src (ms ! i)) st) st1"
  have kept1: "others_kept st0 ms0 st1"
    unfolding st1_def by (rule others_kept_reg [OF move_stateD(2) [OF inv]]) (simp add: written_reg_def scratch_reg_def)
  have bases: "xregs st1 b = xregs st0 b" if "base_reg b" for b by (rule base_kept [OF ok kept1 that])
  have scratch: "move_value op st1 = move_value op st" if "src_ok op \<or> dst_ok op" for op
    unfolding st1_def using that by (rule value_set_scratch) (simp add: scratch_reg_def)
  have keeps: "move_value op st' = move_value op st"
    if "src_ok op \<or> dst_ok op" and "cells_apart st0 (MOVE_MEM b off) op" for op
  proof -
    have "cells_apart st1 (MOVE_MEM b off) op"
      using cells_apart_cong [OF bases, of "MOVE_MEM b off" op] that b by simp
    then show ?thesis using value_store scratch [OF that(1)] by (simp add: st'_def)
  qed
  have "move_state st0 ms0 (set_done i ms) st'"
    unfolding set_done_def
  proof (rule move_state_perform [OF inv i])
    show "others_kept st0 ms0 st'"
      unfolding st'_def using others_kept_store [OF kept1 nth_mem [OF i(1)] dst bases [OF b]] .
    show "move_value (mv_dst (ms0 ! i)) st' = move_value (mv_src (ms ! i)) st"
      by (simp add: dst st'_def load_store_same)
    show "move_value (mv_dst (ms0 ! j)) st' = move_value (mv_dst (ms0 ! j)) st" if "j < length ms0" "j \<noteq> i" for j
      using that i(1) ok dst okD(1) [OF that(1)] by (intro keeps) (auto simp: moves_ok_def)
    show "move_value (mv_src (ms ! j)) st' = move_value (mv_src (ms ! j)) st" if "j < length ms0" "j \<noteq> i" for j
      using that i(1) ok dst okD(2) [OF that(1)] srcs [OF that(1)] by (intro keeps) (auto simp: moves_ok_def)
  qed
  then show ?thesis using ls run unfolding st'_def st1_def by blast
qed

definition is_memory :: "move_operand \<Rightarrow> bool" where
  "is_memory op \<longleftrightarrow> (\<exists>b off. op = MOVE_MEM b off)"

lemma memory_moves:
  assumes ok: "moves_ok st0 ms0" and "move_state st0 ms0 ms st" and "exec_lines out st0 = Some st"
    and "k + n = length ms0"
    and "\<And>j. j < length ms0 \<Longrightarrow> mv_src (ms ! j) = mv_src (ms0 ! j)"
    and "\<And>j. j < length ms0 \<Longrightarrow> mv_done (ms ! j) \<longleftrightarrow> j < k \<and> is_memory (mv_dst (ms0 ! j))"
  shows "\<exists>ms' out' st'. fold_option memory_move (ms, out) [k..<length ms0] = Some (ms', out') \<and>
    exec_lines out' st0 = Some st' \<and> move_state st0 ms0 ms' st' \<and>
    (\<forall>j < length ms0. mv_done (ms' ! j) \<longleftrightarrow> is_memory (mv_dst (ms0 ! j)))"
  using assms(2-)
proof (induction n arbitrary: k ms out st)
  case 0
  then show ?case by auto
next
  case (Suc n)
  then have k: "k < length ms0" "[k..<length ms0] = k # [Suc k..<length ms0]" by (auto simp: upt_conv_Cons)
  note inv = Suc.prems(1) and D = move_stateD [OF Suc.prems(1)]
  show ?case
  proof (cases "is_memory (mv_dst (ms0 ! k))")
    case True
    then obtain b off where dst: "mv_dst (ms0 ! k) = MOVE_MEM b off" by (auto simp: is_memory_def)
    have "\<not> mv_done (ms ! k)" using Suc.prems(5) k by simp
    from memory_step [OF ok inv k(1) this dst Suc.prems(4)] obtain ls st'
      where step: "x64_emit_move (MOVE_MEM b off) (mv_src (ms ! k)) = Some ls" "exec_lines ls st = Some st'"
        "move_state st0 ms0 (set_done k ms) st'" by blast
    have "memory_move (ms, out) k = Some (set_done k ms, out @ ls)"
      using step(1) dst D(3) [OF k(1)] by (simp add: memory_move_def set_done_def)
    moreover have "exec_lines (out @ ls) st0 = Some st'" using Suc.prems(2) step(2) by (simp add: exec_lines_append)
    then have "\<exists>ms' out' st'. fold_option memory_move (set_done k ms, out @ ls) [Suc k..<length ms0] = Some (ms', out') \<and>
        exec_lines out' st0 = Some st' \<and> move_state st0 ms0 ms' st' \<and>
        (\<forall>j < length ms0. mv_done (ms' ! j) \<longleftrightarrow> is_memory (mv_dst (ms0 ! j)))"
      using Suc.prems True k(1) D(1) by (intro Suc.IH [OF step(3)]) (auto simp: less_Suc_eq)
    ultimately show ?thesis using k(2) by simp
  next
    case False
    then have "memory_move (ms, out) k = Some (ms, out)"
      using D(3) [OF k(1)] by (auto simp: memory_move_def is_memory_def split: move_operand.splits)
    moreover have "\<exists>ms' out' st'. fold_option memory_move (ms, out) [Suc k..<length ms0] = Some (ms', out') \<and>
        exec_lines out' st0 = Some st' \<and> move_state st0 ms0 ms' st' \<and>
        (\<forall>j < length ms0. mv_done (ms' ! j) \<longleftrightarrow> is_memory (mv_dst (ms0 ! j)))"
      using Suc.prems False by (intro Suc.IH [OF inv]) (auto simp: less_Suc_eq)
    ultimately show ?thesis using k(2) by simp
  qed
qed

section \<open>Moves into registers\<close>

text \<open>Between passes every move into memory is made.\<close>

definition reg_state :: "x64_state \<Rightarrow> x64_move list \<Rightarrow> x64_move list \<Rightarrow> x64_state \<Rightarrow> bool" where
  "reg_state st0 ms0 ms st \<longleftrightarrow>
     move_state st0 ms0 ms st \<and> (\<forall>i < length ms0. is_memory (mv_dst (ms0 ! i)) \<longrightarrow> mv_done (ms ! i))"

lemma reg_stateD: "reg_state st0 ms0 ms st \<Longrightarrow> move_state st0 ms0 ms st"
  by (simp add: reg_state_def)

lemma pending_dst:
  assumes "moves_ok st0 ms0" and "reg_state st0 ms0 ms st" and "i < length ms0" and "\<not> mv_done (ms ! i)"
  obtains d where "mv_dst (ms0 ! i) = MOVE_REG d" "\<not> scratch_reg d" "\<not> base_reg d"
  using assms(2-4) moves_okD(1) [OF assms(1,3)]
  by (cases "mv_dst (ms0 ! i)") (auto simp: reg_state_def is_memory_def)

lemma different_dsts:
  assumes "moves_ok st0 ms0" and "i < length ms0" and "j < length ms0"
    and "mv_dst (ms0 ! i) = MOVE_REG d" and "mv_dst (ms0 ! j) = MOVE_REG d"
  shows "i = j"
  using assms unfolding moves_ok_def by force

lemma value_set_reg:
  assumes "src_ok op \<or> dst_ok op \<or> (\<exists>r. op = MOVE_REG r)" and "op \<noteq> MOVE_REG d" and "\<not> base_reg d"
  shows "move_value op (set_reg d v st) = move_value op st"
  using assms by (cases op) (auto simp: base_reg_def)

lemma pending_src:
  assumes "moves_ok st0 ms0" and "move_state st0 ms0 ms st" and "i < length ms0" and "\<not> mv_done (ms ! i)"
  shows "src_ok (mv_src (ms ! i)) \<or> (\<exists>r. mv_src (ms ! i) = MOVE_REG r)"
  using move_stateD(6) [OF assms(2-4)] moves_okD(2) [OF assms(1,3)] by auto

lemma register_step:
  assumes ok: "moves_ok st0 ms0" and inv: "reg_state st0 ms0 ms st" and i: "i < length ms0" "\<not> mv_done (ms ! i)"
    and dst: "mv_dst (ms0 ! i) = MOVE_REG d"
    and free: "\<And>j. j < length ms0 \<Longrightarrow> j \<noteq> i \<Longrightarrow> \<not> mv_done (ms ! j) \<Longrightarrow> mv_src (ms ! j) \<noteq> MOVE_REG d"
  shows "\<exists>ls st'. x64_emit_move (MOVE_REG d) (mv_src (ms ! i)) = Some ls \<and> exec_lines ls st = Some st' \<and>
    reg_state st0 ms0 (set_done i ms) st'"
proof -
  note mv = reg_stateD [OF inv]
  note D = move_stateD [OF mv] and okD = moves_okD [OF ok]
  have d: "\<not> scratch_reg d" "\<not> base_reg d" using okD(1) [OF i(1)] dst by auto
  have nx: "\<not> x64_is_xmm d" if "mv_src (ms ! i) = MOVE_IMM k" for k
  proof -
    have "mv_src (ms0 ! i) = MOVE_IMM k" using that D(6) [OF i] by simp
    then show ?thesis using okD(3) [OF i(1)] dst by simp
  qed
  obtain ls
    where ls: "x64_emit_move (MOVE_REG d) (mv_src (ms ! i)) = Some ls"
      "exec_lines ls st = Some (set_reg d (move_value (mv_src (ms ! i)) st) st)"
    using exec_reg_move [of "mv_src (ms ! i)" d st] nx by blast
  define st' where "st' = set_reg d (move_value (mv_src (ms ! i)) st) st"
  have "move_state st0 ms0 (set_done i ms) st'"
    unfolding set_done_def
  proof (rule move_state_perform [OF mv i])
    show "others_kept st0 ms0 st'"
      unfolding st'_def using dst i(1) nth_mem [OF i(1)]
      by (intro others_kept_reg [OF D(2)]) (auto simp: written_reg_def)
    show "move_value (mv_dst (ms0 ! i)) st' = move_value (mv_src (ms ! i)) st" by (simp add: dst st'_def)
    show "move_value (mv_dst (ms0 ! j)) st' = move_value (mv_dst (ms0 ! j)) st" if "j < length ms0" "j \<noteq> i" for j
      unfolding st'_def using okD(1) [OF that(1)] different_dsts [OF ok i(1) that(1) dst] that d
      by (intro value_set_reg) auto
    show "move_value (mv_src (ms ! j)) st' = move_value (mv_src (ms ! j)) st"
      if "j < length ms0" "j \<noteq> i" "\<not> mv_done (ms ! j)" for j
      unfolding st'_def using pending_src [OF ok mv that(1,3)] free [OF that] d by (intro value_set_reg) auto
  qed
  then have "reg_state st0 ms0 (set_done i ms) st'"
    using inv i(1) D(1) by (auto simp: reg_state_def)
  then show ?thesis using ls unfolding st'_def by blast
qed

text \<open>A move whose source is its destination is made.\<close>

lemma self_step:
  assumes ok: "moves_ok st0 ms0" and inv: "reg_state st0 ms0 ms st" and i: "i < length ms0" "\<not> mv_done (ms ! i)"
    and dst: "mv_dst (ms0 ! i) = MOVE_REG d" and src: "mv_src (ms ! i) = MOVE_REG d"
  shows "reg_state st0 ms0 (set_done i ms) st"
proof -
  note mv = reg_stateD [OF inv]
  have "move_state st0 ms0 (set_done i ms) st"
    unfolding set_done_def
    by (rule move_state_perform [OF mv i move_stateD(2) [OF mv]]) (simp_all add: dst src)
  then show ?thesis using inv i(1) move_stateD(1) [OF mv] by (auto simp: reg_state_def)
qed

section \<open>A pass\<close>

text \<open>What a pass over the moves \<open>ms\<close> has done after its first \<open>k\<close> moves.\<close>

definition blocked_by :: "x64_move list \<Rightarrow> x64_move list \<Rightarrow> nat \<Rightarrow> bool" where
  "blocked_by ms0 ms j \<longleftrightarrow>
     (\<exists>k < length ms0. k \<noteq> j \<and> \<not> mv_done (ms ! k) \<and>
        (\<exists>d. mv_dst (ms0 ! j) = MOVE_REG d \<and> mv_src (ms ! k) = MOVE_REG d))"

definition pass_state :: "x64_state \<Rightarrow> x64_move list \<Rightarrow> x64_move list \<Rightarrow> nat \<Rightarrow> pass_record \<Rightarrow> bool" where
  "pass_state st0 ms0 ms k p \<longleftrightarrow>
     (\<exists>st. exec_lines (mp_out p) st0 = Some st \<and> reg_state st0 ms0 (mp_moves p) st) \<and>
     (\<forall>j < length ms0. mv_src (mp_moves p ! j) = mv_src (ms ! j) \<and> (mv_done (ms ! j) \<longrightarrow> mv_done (mp_moves p ! j))) \<and>
     (mp_progress p \<longrightarrow> (\<exists>j < length ms0. \<not> mv_done (ms ! j) \<and> mv_done (mp_moves p ! j))) \<and>
     (\<not> mp_pending p \<longrightarrow> (\<forall>j < k. mv_done (mp_moves p ! j))) \<and>
     (mp_pending p \<longrightarrow> \<not> mp_progress p \<longrightarrow> (\<exists>j < k. \<not> mv_done (mp_moves p ! j))) \<and>
     (\<not> mp_progress p \<longrightarrow> (\<forall>j < k. mv_done (mp_moves p ! j) \<or> blocked_by ms0 (mp_moves p) j))"

lemma pass_state_step:
  assumes ok: "moves_ok st0 ms0" and p: "pass_state st0 ms0 ms k p" and k: "k < length ms0"
  shows "\<exists>p'. pass_move p k = Some p' \<and> pass_state st0 ms0 ms (Suc k) p'"
proof -
  define m where "m = mp_moves p"
  obtain st where st: "exec_lines (mp_out p) st0 = Some st" "reg_state st0 ms0 m st"
    using p unfolding pass_state_def m_def by blast
  note D = move_stateD [OF reg_stateD [OF st(2)]]
  show ?thesis
  proof (cases "mv_done (m ! k)")
    case True
    then have "pass_move p k = Some p" by (simp add: pass_move_def m_def)
    moreover have "pass_state st0 ms0 ms (Suc k) p"
      using p True unfolding pass_state_def m_def by (auto simp: less_Suc_eq)
    ultimately show ?thesis by blast
  next
    case False
    from pending_dst [OF ok st(2) k False] obtain d
      where d: "mv_dst (ms0 ! k) = MOVE_REG d" .
    have md: "mv_dst (m ! k) = MOVE_REG d" using D(3) [OF k] d by simp
    have msk: "\<not> mv_done (ms ! k)" using p k False unfolding pass_state_def m_def by blast
    consider (self) "mv_src (m ! k) = MOVE_REG d" | (blocked) "mv_src (m ! k) \<noteq> MOVE_REG d" "is_blocked m k d"
      | (free) "mv_src (m ! k) \<noteq> MOVE_REG d" "\<not> is_blocked m k d" by blast
    then show ?thesis
    proof cases
      case self
      define p' where "p' = p\<lparr>mp_moves := set_done k m\<rparr>"
      have "pass_move p k = Some p'"
        using self False md by (simp add: pass_move_def m_def [symmetric] p'_def set_done_def Let_def)
      moreover have "reg_state st0 ms0 (set_done k m) st" by (rule self_step [OF ok st(2) k False d self])
      moreover have "blocked_by ms0 (set_done k m) j" if "blocked_by ms0 m j" "j \<noteq> k" "j < length ms0" for j
      proof -
        from that(1) obtain l e where l: "l < length ms0" "l \<noteq> j" "\<not> mv_done (m ! l)"
          "mv_dst (ms0 ! j) = MOVE_REG e" "mv_src (m ! l) = MOVE_REG e" unfolding blocked_by_def by blast
        have "l \<noteq> k" using l(4,5) self different_dsts [OF ok k that(3) d] that(2) by auto
        then show ?thesis using l k D(1) unfolding blocked_by_def by auto
      qed
      ultimately show ?thesis
        using p st(1) k D(1) unfolding pass_state_def m_def [symmetric] p'_def
        by (auto simp: less_Suc_eq)
    next
      case blocked
      define p' where "p' = p\<lparr>mp_pending := True\<rparr>"
      have "pass_move p k = Some p'"
        using blocked False md by (simp add: pass_move_def m_def [symmetric] p'_def Let_def)
      moreover have "blocked_by ms0 m k"
        using blocked(2) d D(1) by (auto simp: is_blocked_def blocked_by_def list_ex_iff move_reads_reg_def)
      ultimately show ?thesis
        using p False unfolding pass_state_def m_def p'_def by (auto simp: less_Suc_eq)
    next
      case free
      have "mv_src (m ! j) \<noteq> MOVE_REG d" if "j < length ms0" "j \<noteq> k" "\<not> mv_done (m ! j)" for j
        using free(2) that D(1) by (auto simp: is_blocked_def list_ex_iff move_reads_reg_def)
      from register_step [OF ok st(2) k False d this] obtain ls st'
        where step: "x64_emit_move (MOVE_REG d) (mv_src (m ! k)) = Some ls" "exec_lines ls st = Some st'"
          "reg_state st0 ms0 (set_done k m) st'" by blast
      define p' where "p' = p\<lparr>mp_pending := True, mp_progress := True, mp_out := mp_out p @ ls, mp_moves := set_done k m\<rparr>"
      have "pass_move p k = Some p'"
        using free False md step(1) by (simp add: pass_move_def m_def [symmetric] p'_def set_done_def Let_def)
      moreover have "exec_lines (mp_out p @ ls) st0 = Some st'" using st(1) step(2) by (simp add: exec_lines_append)
      ultimately show ?thesis
        using p step(3) k msk D(1) unfolding pass_state_def m_def [symmetric] p'_def by auto
    qed
  qed
qed

lemma pass_states:
  assumes "moves_ok st0 ms0" and "k + n = length ms0" and "pass_state st0 ms0 ms k p"
  shows "\<exists>p'. fold_option pass_move p [k..<length ms0] = Some p' \<and> pass_state st0 ms0 ms (length ms0) p'"
  using assms(2,3)
proof (induction n arbitrary: k p)
  case (Suc n)
  then have k: "k < length ms0" "[k..<length ms0] = k # [Suc k..<length ms0]" by (auto simp: upt_conv_Cons)
  from pass_state_step [OF assms(1) Suc.prems(2) k(1)] obtain p'
    where "pass_move p k = Some p'" "pass_state st0 ms0 ms (Suc k) p'" by blast
  with Suc.IH [of "Suc k" p'] Suc.prems(1) k(2) show ?case by simp
qed auto

section \<open>Cycles\<close>

text \<open>When every move that is left is blocked, the registers they read are the registers they write.\<close>

definition pending :: "x64_move list \<Rightarrow> nat set" where
  "pending ms = {i. i < length ms \<and> \<not> mv_done (ms ! i)}"

lemma finite_pending [simp]: "finite (pending ms)"
  by (simp add: pending_def)

lemma blocked_sources:
  assumes ok: "moves_ok st0 ms0" and inv: "reg_state st0 ms0 ms st"
    and blocked: "\<And>i. i \<in> pending ms \<Longrightarrow> blocked_by ms0 ms i" and i: "i \<in> pending ms"
  shows "\<exists>j \<in> pending ms. \<exists>d. mv_src (ms ! i) = MOVE_REG d \<and> mv_dst (ms0 ! j) = MOVE_REG d"
proof -
  have len: "length ms = length ms0" by (rule move_stateD(1) [OF reg_stateD [OF inv]])
  have "\<exists>k \<in> pending ms. \<exists>d. mv_dst (ms0 ! j) = MOVE_REG d \<and> mv_src (ms ! k) = MOVE_REG d" if "j \<in> pending ms" for j
    using blocked [OF that] len unfolding blocked_by_def pending_def by fastforce
  then obtain f where f: "\<And>j. j \<in> pending ms \<Longrightarrow> f j \<in> pending ms \<and>
      (\<exists>d. mv_dst (ms0 ! j) = MOVE_REG d \<and> mv_src (ms ! f j) = MOVE_REG d)" by metis
  have "inj_on f (pending ms)"
  proof (rule inj_onI)
    fix j k assume jk: "j \<in> pending ms" "k \<in> pending ms" "f j = f k"
    from f [OF jk(1)] f [OF jk(2)] obtain d where "mv_dst (ms0 ! j) = MOVE_REG d" "mv_dst (ms0 ! k) = MOVE_REG d"
      using jk(3) by auto
    moreover have "j < length ms0" "k < length ms0" using jk(1,2) len by (simp_all add: pending_def)
    ultimately show "j = k" using different_dsts [OF ok] by blast
  qed
  moreover have "f ` pending ms \<subseteq> pending ms" using f by blast
  ultimately have "f ` pending ms = pending ms" by (simp add: endo_inj_surj)
  then obtain j where "j \<in> pending ms" "f j = i" using i by (metis imageE)
  then show ?thesis using f by blast
qed

lemma break_cycle_step:
  assumes ok: "moves_ok st0 ms0" and inv: "reg_state st0 ms0 ms st"
    and blocked: "\<And>i. i \<in> pending ms \<Longrightarrow> blocked_by ms0 ms i" and i: "i \<in> pending ms"
  shows "\<exists>ms' ls st' reg scratch. break_cycle ms = Some (ms', ls) \<and> exec_lines ls st = Some st' \<and>
    reg_state st0 ms0 ms' st' \<and> ms' = map (reads_from reg scratch) ms \<and> scratch_reg scratch \<and>
    (\<exists>k \<in> pending ms. mv_src (ms ! k) = MOVE_REG reg) \<and> \<not> scratch_reg reg"
proof -
  note mv = reg_stateD [OF inv]
  note D = move_stateD [OF mv]
  have reads: "\<exists>r. mv_src (ms ! k) = MOVE_REG r \<and> \<not> scratch_reg r" if "k \<in> pending ms" for k
  proof -
    from blocked_sources [OF ok inv blocked that] obtain j d
      where j: "j \<in> pending ms" "mv_src (ms ! k) = MOVE_REG d" "mv_dst (ms0 ! j) = MOVE_REG d" by blast
    then show ?thesis using moves_okD(1) [OF ok, of j] D(1) by (auto simp: pending_def)
  qed
  have "\<exists>m \<in> set ms. \<not> mv_done m" using i by (auto simp: pending_def)
  then obtain m where m: "List.find (\<lambda>m. \<not> mv_done m) ms = Some m"
    by (metis (no_types, lifting) find_None_iff2 option.exhaust)
  then obtain k where k: "k \<in> pending ms" "m = ms ! k"
    by (auto simp: find_Some_iff pending_def)
  then obtain reg where reg: "mv_src m = MOVE_REG reg" "\<not> scratch_reg reg" using reads by blast
  define scratch where "scratch = (if x64_is_xmm reg then X64_XMM15 else X64_R11)"
  have scratch: "scratch_reg scratch" by (simp add: scratch_def scratch_reg_def)
  define ms' where "ms' = map (reads_from reg scratch) ms"
  define st' where "st' = set_reg scratch (xregs st reg) st"
  have br: "break_cycle ms = Some (ms', x64_move_reg scratch reg)"
    by (simp add: break_cycle_def m reg(1) scratch_def ms'_def Let_def)
  have run: "exec_lines (x64_move_reg scratch reg) st = Some st'" by (simp add: exec_move_reg st'_def)
  have at: "mv_dst (ms' ! j) = mv_dst (ms ! j)" "mv_done (ms' ! j) = mv_done (ms ! j)"
    "mv_src (ms' ! j) = (if \<not> mv_done (ms ! j) \<and> mv_src (ms ! j) = MOVE_REG reg then MOVE_REG scratch else mv_src (ms ! j))"
    if "j < length ms0" for j
    using that D(1) by (auto simp: ms'_def reads_from_def move_reads_reg_def)
  have "others_kept st0 ms0 st'"
    unfolding st'_def by (rule others_kept_reg [OF D(2)]) (simp add: written_reg_def scratch)
  moreover have "move_value (mv_dst (ms0 ! j)) st' = move_value (mv_dst (ms0 ! j)) st" if "j < length ms0" for j
    unfolding st'_def by (rule value_set_scratch [OF disjI2 [OF moves_okD(1) [OF ok that]] scratch])
  moreover have "move_value (mv_src (ms' ! j)) st' = move_value (mv_src (ms ! j)) st \<and>
      (mv_src (ms' ! j) = mv_src (ms0 ! j) \<or> (\<exists>r. mv_src (ms' ! j) = MOVE_REG r \<and> scratch_reg r))"
    if "j < length ms0" "\<not> mv_done (ms ! j)" for j
  proof -
    have "j \<in> pending ms" using that D(1) by (simp add: pending_def)
    then obtain r where r: "mv_src (ms ! j) = MOVE_REG r" "\<not> scratch_reg r" using reads by blast
    then have "mv_src (ms0 ! j) = MOVE_REG r" using D(6) [OF that] by auto
    then show ?thesis using at(3) [OF that(1)] that(2) r scratch by (cases "r = reg") (auto simp: st'_def)
  qed
  ultimately have "move_state st0 ms0 ms' st'"
    using D at unfolding move_state_def by (auto simp: ms'_def)
  then have "reg_state st0 ms0 ms' st'" using inv at(2) by (simp add: reg_state_def)
  then show ?thesis using br run k reg scratch unfolding ms'_def by blast
qed

section \<open>All moves\<close>

text \<open>Each pass makes a move, or takes a move away from the registers it is blocked on.\<close>

definition unsaved :: "x64_move list \<Rightarrow> nat set" where
  "unsaved ms = {i \<in> pending ms. \<forall>r. mv_src (ms ! i) = MOVE_REG r \<longrightarrow> \<not> scratch_reg r}"

lemma finite_unsaved [simp]: "finite (unsaved ms)"
  by (simp add: unsaved_def)

lemma fewer_unsaved:
  assumes "scratch_reg scratch" and "\<exists>k \<in> pending ms. mv_src (ms ! k) = MOVE_REG reg" and "\<not> scratch_reg reg"
  shows "pending (map (reads_from reg scratch) ms) = pending ms"
    and "unsaved (map (reads_from reg scratch) ms) \<subset> unsaved ms"
proof -
  show same: "pending (map (reads_from reg scratch) ms) = pending ms"
    by (auto simp: pending_def reads_from_def split: if_splits)
  obtain k where k: "k \<in> pending ms" "mv_src (ms ! k) = MOVE_REG reg" using assms(2) by blast
  have "k \<in> unsaved ms" using k assms(3) by (simp add: unsaved_def)
  moreover have "k \<notin> unsaved (map (reads_from reg scratch) ms)"
    using k assms(1) by (auto simp: unsaved_def same) (auto simp: pending_def reads_from_def move_reads_reg_def)
  moreover have "unsaved (map (reads_from reg scratch) ms) \<subseteq> unsaved ms"
    using assms(3) unfolding unsaved_def same
    by (auto simp: pending_def reads_from_def move_reads_reg_def split: if_splits)
  ultimately show "unsaved (map (reads_from reg scratch) ms) \<subset> unsaved ms" by blast
qed

definition all_moved :: "x64_state \<Rightarrow> x64_move list \<Rightarrow> x64_state \<Rightarrow> bool" where
  "all_moved st0 ms0 st \<longleftrightarrow>
     others_kept st0 ms0 st \<and> (\<forall>m \<in> set ms0. move_value (mv_dst m) st = move_value (mv_src m) st0)"

lemma all_moved_when_done:
  assumes "move_state st0 ms0 ms st" and "\<forall>j < length ms0. mv_done (ms ! j)"
  shows "all_moved st0 ms0 st"
  using assms by (auto simp: all_moved_def move_state_def in_set_conv_nth)

lemma register_moves_done:
  assumes ok: "moves_ok st0 ms0"
  shows "reg_state st0 ms0 ms st \<Longrightarrow> exec_lines out st0 = Some st \<Longrightarrow>
    \<exists>ls st'. register_moves ms out = Some ls \<and> exec_lines ls st0 = Some st' \<and> all_moved st0 ms0 st'"
proof (induction ms arbitrary: out st rule: wf_induct_rule [OF wf_measures, of "[\<lambda>ms. card (pending ms), \<lambda>ms. card (unsaved ms)]"])
  case (1 ms)
  have len: "length ms = length ms0" by (rule move_stateD(1) [OF reg_stateD [OF "1.prems"(1)]])
  have "pass_state st0 ms0 ms 0 \<lparr>mp_moves = ms, mp_out = out, mp_pending = False, mp_progress = False\<rparr>"
    using "1.prems" by (simp add: pass_state_def)
  from pass_states [OF ok _ this, of "length ms0"] obtain p
    where p: "move_pass ms out = Some p" "pass_state st0 ms0 ms (length ms0) p"
    by (auto simp: move_pass_def len)
  then obtain st1 where st1: "exec_lines (mp_out p) st0 = Some st1" "reg_state st0 ms0 (mp_moves p) st1"
    unfolding pass_state_def by blast
  have len1: "length (mp_moves p) = length ms0" by (rule move_stateD(1) [OF reg_stateD [OF st1(2)]])
  have sub: "pending (mp_moves p) \<subseteq> pending ms"
    using p(2) len len1 unfolding pass_state_def pending_def by auto
  show ?case
  proof (cases "mp_pending p")
    case False
    then have "\<forall>j < length ms0. mv_done (mp_moves p ! j)" using p(2) by (simp add: pass_state_def)
    then have "all_moved st0 ms0 st1" using all_moved_when_done [OF reg_stateD [OF st1(2)]] by blast
    then show ?thesis using p(1) False st1(1) by (subst register_moves.simps) simp
  next
    case pend: True
    show ?thesis
    proof (cases "mp_progress p")
      case True
      then obtain j where "j < length ms0" "\<not> mv_done (ms ! j)" "mv_done (mp_moves p ! j)"
        using p(2) unfolding pass_state_def by blast
      then have "pending (mp_moves p) \<subset> pending ms" using sub len by (auto simp: pending_def)
      then have "card (pending (mp_moves p)) < card (pending ms)" by (simp add: psubset_card_mono)
      then have "(mp_moves p, ms) \<in> measures [\<lambda>ms. card (pending ms), \<lambda>ms. card (unsaved ms)]" by simp
      from "1.IH" [OF this st1(2,1)] show ?thesis
        using p(1) pend True by (subst register_moves.simps) simp
    next
      case False
      have blocked: "blocked_by ms0 (mp_moves p) i" if "i \<in> pending (mp_moves p)" for i
        using p(2) False that len1 by (auto simp: pass_state_def pending_def)
      have "\<exists>i. i \<in> pending (mp_moves p)"
        using p(2) pend False len1 by (auto simp: pass_state_def pending_def)
      then obtain i where "i \<in> pending (mp_moves p)" by blast
      from break_cycle_step [OF ok st1(2) blocked this] obtain ms' ls st' reg scratch
        where br: "break_cycle (mp_moves p) = Some (ms', ls)" "exec_lines ls st1 = Some st'"
          "reg_state st0 ms0 ms' st'" "ms' = map (reads_from reg scratch) (mp_moves p)"
          and scratch: "scratch_reg scratch" "\<exists>k \<in> pending (mp_moves p). mv_src (mp_moves p ! k) = MOVE_REG reg"
            "\<not> scratch_reg reg" by blast
      have "exec_lines (mp_out p @ ls) st0 = Some st'" using st1(1) br(2) by (simp add: exec_lines_append)
      moreover have "(ms', ms) \<in> measures [\<lambda>ms. card (pending ms), \<lambda>ms. card (unsaved ms)]"
      proof (cases "pending (mp_moves p) = pending ms")
        case True
        then have "unsaved (mp_moves p) = unsaved ms"
          using p(2) len len1 by (auto simp: unsaved_def pass_state_def pending_def)
        then show ?thesis using fewer_unsaved [OF scratch] True br(4) finite_unsaved by (simp add: psubset_card_mono)
      next
        case False
        then have "card (pending (mp_moves p)) < card (pending ms)" using sub by (simp add: psubset_card_mono psubset_eq)
        then show ?thesis using fewer_unsaved [OF scratch] br(4) by simp
      qed
      ultimately show ?thesis
        using "1.IH" [OF _ br(3)] p(1) pend False br(1) by (subst register_moves.simps) simp
    qed
  qed
qed

lemma parallel_moves:
  assumes ok: "moves_ok st moves"
  shows "\<exists>ls st'. x64_parallel_move moves = Some ls \<and> exec_lines ls st = Some st' \<and> all_moved st moves st'"
proof -
  have "\<not> mv_done (moves ! j)" if "j < length moves" for j using moves_okD(4) [OF ok that] .
  then obtain ms' out' st1
    where mem: "fold_option memory_move (moves, []) [0..<length moves] = Some (ms', out')"
      "exec_lines out' st = Some st1" "move_state st moves ms' st1"
      "\<forall>j < length moves. mv_done (ms' ! j) \<longleftrightarrow> is_memory (mv_dst (moves ! j))"
    using memory_moves [OF ok move_state_start [OF ok], of "[]" 0 "length moves"] by auto
  have "reg_state st moves ms' st1" using mem(3,4) by (simp add: reg_state_def)
  from register_moves_done [OF ok this mem(2)] show ?thesis
    using mem(1) by (simp add: x64_parallel_move_def)
qed

text \<open>C12: the code of a parallel move is emitted, runs, and makes all moves at once: in the state after
  it every destination, a register or eight bytes of memory, has the value that its source had before,
  and no other register but the two scratch registers and no other byte has changed. The loop that makes
  the moves ends, for cycles too.\<close>

theorem parallel_move_at_once:
  assumes "moves_ok st moves"
  shows "\<exists>ls st'. x64_parallel_move moves = Some ls \<and> exec_lines ls st = Some st' \<and>
    (\<forall>m \<in> set moves. move_value (mv_dst m) st' = move_value (mv_src m) st) \<and>
    (\<forall>r. \<not> written_reg moves r \<longrightarrow> xregs st' r = xregs st r) \<and>
    (\<forall>a. \<not> written_byte st moves a \<longrightarrow> xmem st' a = xmem st a)"
  using parallel_moves [OF assms] unfolding all_moved_def others_kept_def by blast

text \<open>Two registers that change places, a third that takes one of the old values, a stack argument from
  a spilled register, and a number.\<close>

definition swap_moves :: "x64_move list" where
  "swap_moves =
     [new_move (MOVE_REG X64_RCX) (MOVE_REG X64_RDX), new_move (MOVE_REG X64_RDX) (MOVE_REG X64_RCX),
      new_move (MOVE_REG X64_R8) (MOVE_REG X64_RCX), new_move (MOVE_MEM X64_RSP 32) (MOVE_MEM X64_RBP (- 8)),
      new_move (MOVE_REG X64_R9) (MOVE_IMM 7)]"

definition swap_state :: x64_state where
  "swap_state =
     \<lparr>xregs = (\<lambda>r. if r = X64_RSP then 4096 else if r = X64_RBP then 8192 else of_nat r), xmem = (\<lambda>a. 0),
      xflags = None, xsyms = (\<lambda>s. 0)\<rparr>"

lemma swap_moves_ok: "moves_ok swap_state swap_moves"
  by (simp add: moves_ok_def swap_moves_def swap_state_def new_move_def move_ok_def scratch_reg_def base_reg_def
      apart_def All_less_Suc x64_is_xmm_def)

lemma parallel_move_at_once_witness:
  "\<exists>ls st'. x64_parallel_move swap_moves = Some ls \<and> exec_lines ls swap_state = Some st' \<and>
     xregs st' X64_RCX = 2 \<and> xregs st' X64_RDX = 1 \<and> xregs st' X64_R8 = 1 \<and> xregs st' X64_RBX = 3"
proof -
  obtain ls st' where "x64_parallel_move swap_moves = Some ls" "exec_lines ls swap_state = Some st'"
      "\<forall>m \<in> set swap_moves. move_value (mv_dst m) st' = move_value (mv_src m) swap_state"
      "\<forall>r. \<not> written_reg swap_moves r \<longrightarrow> xregs st' r = xregs swap_state r"
    using parallel_move_at_once [OF swap_moves_ok] by blast
  then show ?thesis
    by (auto simp: swap_moves_def new_move_def swap_state_def written_reg_def scratch_reg_def)
qed

section \<open>The arguments of a call\<close>

lemma apart_offsets:
  assumes "x + int n \<le> y" and "y + int k - x \<le> 2 ^ 64" and "0 < n" and "0 < k"
  shows "apart n (b + word_of_int x) k (b + word_of_int y)"
proof -
  define d where "d = y - x"
  have d: "0 < d" "d < 2 ^ 64" "int n \<le> d" "int k \<le> 2 ^ 64 - d" using assms by (simp_all add: d_def)
  define e where "e = 2 ^ 64 - d"
  have unat_of: "unat (word_of_int i :: u64) = nat i" if "0 \<le> i" "i < 2 ^ 64" for i
    using that by (simp add: unsigned_of_int take_bit_int_eq_self)
  have diffs: "(b + word_of_int y) - (b + word_of_int x) = (word_of_int d :: u64)"
    "(b + word_of_int x) - (b + word_of_int y) = (word_of_int e :: u64)"
    by (simp_all add: d_def e_def)
  have "int k \<le> e" "0 \<le> e" "e < 2 ^ 64" using d by (simp_all add: e_def)
  then show ?thesis
    unfolding apart_def diffs using d by (simp add: unat_of nat_le_iff le_nat_iff)
qed

lemma stack_args_apart:
  assumes "i \<noteq> j" and "i < 2 ^ 32" and "j < 2 ^ 32"
  shows "apart 8 (b + word_of_int (8 * int i)) 8 (b + word_of_int (8 * int j))"
proof (cases "i < j")
  case True
  then show ?thesis using assms by (intro apart_offsets) auto
next
  case False
  then have "apart 8 (b + word_of_int (8 * int j)) 8 (b + word_of_int (8 * int i))"
    using assms by (intro apart_offsets) auto
  then show ?thesis using apart_sym by blast
qed

text \<open>What the sources of the arguments may be: no scratch register, no number for a float, and memory
  that is not where an argument on the stack is stored.\<close>

definition arg_ok :: "x64_state \<Rightarrow> nat \<Rightarrow> x64_call_arg \<Rightarrow> bool" where
  "arg_ok st n arg \<longleftrightarrow>
     src_ok (ca_src arg) \<and> (ca_is_float arg \<longrightarrow> (case ca_src arg of MOVE_IMM i \<Rightarrow> False | _ \<Rightarrow> True)) \<and>
     (\<forall>i < n. 4 \<le> i \<longrightarrow> cells_apart st (MOVE_MEM X64_RSP (8 * int i)) (ca_src arg))"

definition arg_place :: "nat \<Rightarrow> x64_call_arg \<Rightarrow> move_operand" where
  "arg_place i arg =
     (if 4 \<le> i then MOVE_MEM X64_RSP (8 * int i)
      else if ca_is_float arg then MOVE_REG (X64_XMM0 + i) else MOVE_REG (x64_gpr_arg_regs ! i))"

lemma set_call_moves:
  "m \<in> set (x64_call_moves args) \<longleftrightarrow> (\<exists>i < length args. m \<in> set (arg_moves i (args ! i)))"
  by (auto simp: x64_call_moves_def)

lemma less_4: "i < (4 :: nat) \<longleftrightarrow> i = 0 \<or> i = 1 \<or> i = 2 \<or> i = 3"
  by auto

lemma arg_moves_dst:
  assumes "m \<in> set (arg_moves i arg)"
  shows "(4 \<le> i \<and> mv_dst m = MOVE_MEM X64_RSP (8 * int i)) \<or>
    (i < 4 \<and> (mv_dst m = MOVE_REG (X64_XMM0 + i) \<and> ca_is_float arg \<or> mv_dst m = MOVE_REG ([1, 2, 8, 9] ! i)))"
    and "mv_src m = ca_src arg" and "\<not> mv_done m"
  using assms by (auto simp: arg_moves_def new_move_def x64_gpr_arg_regs_def split: if_splits)

lemma arg_moves_places:
  assumes "m \<in> set (arg_moves i arg)" and "m' \<in> set (arg_moves j arg')" and "mv_dst m = mv_dst m'"
  shows "i = j"
  using arg_moves_dst(1) [OF assms(1)] arg_moves_dst(1) [OF assms(2)] assms(3) by (auto simp: less_4)

lemma distinct_call_moves: "distinct (map mv_dst (x64_call_moves args))"
proof -
  have "distinct (map mv_dst (concat (map (\<lambda>i. arg_moves i (args ! i)) [0..<n])))" for n
  proof (induction n)
    case (Suc n)
    have "distinct (map mv_dst (arg_moves n (args ! n)))"
      by (auto simp: arg_moves_def new_move_def x64_gpr_arg_regs_def less_4)
    moreover have "mv_dst m \<noteq> mv_dst m'"
      if "m \<in> set (arg_moves n (args ! n))" "i < n" "m' \<in> set (arg_moves i (args ! i))" for i m m'
      using arg_moves_places [OF that(1,3)] that(2) by auto
    ultimately show ?case using Suc by (fastforce simp: map_concat)
  qed simp
  then show ?thesis by (simp add: x64_call_moves_def)
qed

lemma call_moves_ok:
  assumes "length args \<le> 32" and "\<And>arg. arg \<in> set args \<Longrightarrow> arg_ok st (length args) arg"
  shows "moves_ok st (x64_call_moves args)"
proof -
  let ?ms = "x64_call_moves args"
  have at: "\<exists>k < length args. m \<in> set (arg_moves k (args ! k)) \<and> arg_ok st (length args) (args ! k)" if "m \<in> set ?ms" for m
    using that assms(2) by (auto simp: set_call_moves)
  have "move_ok m" if "m \<in> set ?ms" for m
  proof -
    from at [OF that] obtain k where k: "k < length args" "m \<in> set (arg_moves k (args ! k))"
      "arg_ok st (length args) (args ! k)" by blast
    note D = arg_moves_dst [OF k(2)]
    have "\<not> xmm_immediate (mv_dst m) (mv_src m)"
      using D(1,2) k(3) by (cases "ca_src (args ! k)") (auto simp: arg_ok_def x64_is_xmm_def less_4)
    moreover have "dst_ok (mv_dst m)" using D(1) by (auto simp: scratch_reg_def base_reg_def less_4)
    ultimately show ?thesis using D(2,3) k(3) by (simp add: move_ok_def arg_ok_def)
  qed
  moreover have "\<not> same_register (mv_dst (?ms ! i)) (mv_dst (?ms ! j)) \<and>
      cells_apart st (mv_dst (?ms ! i)) (mv_dst (?ms ! j)) \<and> cells_apart st (mv_dst (?ms ! i)) (mv_src (?ms ! j))"
    if ij: "i < length ?ms" "j < length ?ms" "i \<noteq> j" for i j
  proof -
    have ne: "mv_dst (?ms ! i) \<noteq> mv_dst (?ms ! j)"
      using distinct_call_moves ij by (simp add: distinct_conv_nth)
    from at [OF nth_mem [OF ij(1)]] obtain k where k: "k < length args" "?ms ! i \<in> set (arg_moves k (args ! k))" by blast
    from at [OF nth_mem [OF ij(2)]] obtain l where l: "l < length args" "?ms ! j \<in> set (arg_moves l (args ! l))"
      "arg_ok st (length args) (args ! l)" by blast
    note D = arg_moves_dst [OF k(2)] and E = arg_moves_dst [OF l(2)]
    have "cells_apart st (mv_dst (?ms ! i)) (mv_dst (?ms ! j))"
      using D(1) E(1) ne stack_args_apart [of k l "xregs st X64_RSP"] k(1) l(1) assms(1) by auto
    moreover have "cells_apart st (mv_dst (?ms ! i)) (mv_src (?ms ! j))"
      using D(1) E(2) l(3) k(1) by (auto simp: arg_ok_def)
    moreover have "\<not> same_register (mv_dst (?ms ! i)) (mv_dst (?ms ! j))"
      using ne by (cases "mv_dst (?ms ! i)"; cases "mv_dst (?ms ! j)") auto
    ultimately show ?thesis by blast
  qed
  ultimately show ?thesis by (simp add: moves_ok_def)
qed

text \<open>C13: at the call instruction every argument is where the Win64 convention has it: the first four in
  their registers, floats in xmm registers and, when they are passed through \<^verbatim>\<open>...\<close>, also in the integer
  register of their place, and the others on the stack, each with the value its source had before
  the moves.\<close>

theorem call_passes_arguments:
  assumes "length args \<le> 32" and "\<And>arg. arg \<in> set args \<Longrightarrow> arg_ok st (length args) arg"
  shows "\<exists>ls st'. x64_emit_call_with_args args target = Some (ls @ [XLine ''call'' [XName target]]) \<and>
    exec_lines ls st = Some st' \<and>
    (\<forall>i < length args. move_value (arg_place i (args ! i)) st' = move_value (ca_src (args ! i)) st \<and>
       (i < 4 \<longrightarrow> ca_is_vararg (args ! i) \<longrightarrow>
          xregs st' (x64_gpr_arg_regs ! i) = move_value (ca_src (args ! i)) st))"
proof -
  obtain ls st' where ls: "x64_parallel_move (x64_call_moves args) = Some ls" "exec_lines ls st = Some st'"
      "all_moved st (x64_call_moves args) st'"
    using parallel_moves [OF call_moves_ok [OF assms]] by blast
  have "\<not> 64 < length args * 2" using assms(1) by simp
  then have "x64_emit_call_with_args args target = Some (ls @ [XLine ''call'' [XName target]])"
    by (simp add: x64_emit_call_with_args_def ls(1))
  moreover have "move_value (arg_place i (args ! i)) st' = move_value (ca_src (args ! i)) st \<and>
       (i < 4 \<longrightarrow> ca_is_vararg (args ! i) \<longrightarrow>
          xregs st' (x64_gpr_arg_regs ! i) = move_value (ca_src (args ! i)) st)" if i: "i < length args" for i
  proof -
    have moved: "move_value (mv_dst m) st' = move_value (mv_src m) st" if "m \<in> set (arg_moves i (args ! i))" for m
    proof -
      have "m \<in> set (x64_call_moves args)" using that i set_call_moves by blast
      then show ?thesis using ls(3) by (simp add: all_moved_def)
    qed
    have "new_move (arg_place i (args ! i)) (ca_src (args ! i)) \<in> set (arg_moves i (args ! i))"
      by (simp add: arg_moves_def arg_place_def)
    moreover have "new_move (MOVE_REG (x64_gpr_arg_regs ! i)) (ca_src (args ! i)) \<in> set (arg_moves i (args ! i))"
      if "i < 4" "ca_is_vararg (args ! i)"
      using that by (simp add: arg_moves_def)
    ultimately show ?thesis using moved by (force simp: new_move_def)
  qed
  ultimately show ?thesis using ls(2) by blast
qed

definition example_args :: "x64_call_arg list" where
  "example_args =
     [\<lparr>ca_src = MOVE_REG X64_R8, ca_is_float = False, ca_is_vararg = False\<rparr>,
      \<lparr>ca_src = MOVE_REG X64_XMM0, ca_is_float = True, ca_is_vararg = True\<rparr>,
      \<lparr>ca_src = MOVE_REG X64_RDX, ca_is_float = False, ca_is_vararg = True\<rparr>,
      \<lparr>ca_src = MOVE_IMM 7, ca_is_float = False, ca_is_vararg = False\<rparr>,
      \<lparr>ca_src = MOVE_MEM X64_RBP (- 8), ca_is_float = False, ca_is_vararg = False\<rparr>]"

lemma example_args_ok:
  assumes "arg \<in> set example_args"
  shows "arg_ok swap_state (length example_args) arg"
proof -
  have fifth: "(\<forall>i < Suc (Suc (Suc (Suc (Suc 0)))). 4 \<le> i \<longrightarrow> P i) \<longleftrightarrow> P 4" for P :: "nat \<Rightarrow> bool" by (auto simp: less_Suc_eq numeral_eq_Suc)
  show ?thesis
    using assms
    by (auto simp: example_args_def arg_ok_def scratch_reg_def base_reg_def swap_state_def apart_def fifth)
qed

lemma call_passes_arguments_witness:
  "\<exists>ls st'. x64_emit_call_with_args example_args ''$f'' = Some (ls @ [XLine ''call'' [XName ''$f'']]) \<and>
    exec_lines ls swap_state = Some st' \<and> xregs st' X64_RCX = 8 \<and> xregs st' X64_RDX = 16 \<and>
    xregs st' X64_R8 = 2 \<and> xregs st' X64_R9 = 7"
proof -
  have n: "length example_args \<le> 32" by (simp add: example_args_def)
  obtain ls st' where "x64_emit_call_with_args example_args ''$f'' = Some (ls @ [XLine ''call'' [XName ''$f'']])"
      "exec_lines ls swap_state = Some st'"
      and m: "\<forall>i < length example_args. move_value (arg_place i (example_args ! i)) st' =
          move_value (ca_src (example_args ! i)) swap_state \<and>
        (i < 4 \<longrightarrow> ca_is_vararg (example_args ! i) \<longrightarrow>
          xregs st' (x64_gpr_arg_regs ! i) = move_value (ca_src (example_args ! i)) swap_state)"
    using call_passes_arguments [OF n example_args_ok] by blast
  moreover have "xregs st' X64_RCX = 8 \<and> xregs st' X64_RDX = 16 \<and> xregs st' X64_R8 = 2 \<and> xregs st' X64_R9 = 7"
    using m [rule_format, of 0] m [rule_format, of 1] m [rule_format, of 2] m [rule_format, of 3]
    by (simp add: example_args_def arg_place_def x64_gpr_arg_regs_def swap_state_def)
  ultimately show ?thesis by blast
qed

end
