(* ===== verification/X64Correct.thy ===== *)
theory X64Correct
  imports X64Moves
begin

text \<open>
  The integer instructions of the intermediate representation against the code that
  \<^verbatim>\<open>x64_emit_inst\<close> emits for them: a reference semantics on 64-bit values of which only the low bytes
  of the type count, as \<^verbatim>\<open>ir.h\<close> has it, and the proof that running the emitted code on the machine
  of \<^verbatim>\<open>X64Machine\<close> leaves that value in the location of the destination, and nothing else changed but
  the registers the backend reserves.
\<close>

section \<open>The meaning of the instructions\<close>

definition vreg_value :: "x64_emitter \<Rightarrow> x64_state \<Rightarrow> int \<Rightarrow> u64" where
  "vreg_value x st vreg = move_value (move_vreg x vreg) st"

text \<open>A division by zero, a signed quotient that does not fit and a shift by the size or more have no
  value.\<close>

fun int_binop_value :: "ir_op \<Rightarrow> nat \<Rightarrow> u64 \<Rightarrow> u64 \<Rightarrow> u64 option" where
  "int_binop_value IR_ADD s a b = Some (a + b)"
| "int_binop_value IR_SUB s a b = Some (a - b)"
| "int_binop_value IR_MUL s a b = Some (a * b)"
| "int_binop_value IR_AND s a b = Some (a AND b)"
| "int_binop_value IR_OR s a b = Some (a OR b)"
| "int_binop_value IR_XOR s a b = Some (a XOR b)"
| "int_binop_value IR_SDIV s a b =
     (if signed_at s b = 0 \<or> (signed_at s a = - (2 ^ (8 * s - 1)) \<and> signed_at s b = - 1) then None
      else Some (word_of_int (signed_at s a sdiv signed_at s b)))"
| "int_binop_value IR_SREM s a b =
     (if signed_at s b = 0 \<or> (signed_at s a = - (2 ^ (8 * s - 1)) \<and> signed_at s b = - 1) then None
      else Some (word_of_int (signed_at s a smod signed_at s b)))"
| "int_binop_value IR_UDIV s a b =
     (if unsigned_at s b = 0 then None else Some (word_of_int (unsigned_at s a div unsigned_at s b)))"
| "int_binop_value IR_UREM s a b =
     (if unsigned_at s b = 0 then None else Some (word_of_int (unsigned_at s a mod unsigned_at s b)))"
| "int_binop_value IR_SHL s a b =
     (if unsigned_at s b < int (8 * s) then Some (push_bit (nat (unsigned_at s b)) a) else None)"
| "int_binop_value IR_LSHR s a b =
     (if unsigned_at s b < int (8 * s) then Some (drop_bit (nat (unsigned_at s b)) (take_bit (8 * s) a)) else None)"
| "int_binop_value IR_ASHR s a b =
     (if unsigned_at s b < int (8 * s)
      then Some (word_of_int (drop_bit (nat (unsigned_at s b)) (signed_at s a))) else None)"
| "int_binop_value _ s a b = None"

fun icmp_value :: "ir_cmp \<Rightarrow> nat \<Rightarrow> u64 \<Rightarrow> u64 \<Rightarrow> bool option" where
  "icmp_value IR_CMP_EQ s a b = Some (unsigned_at s a = unsigned_at s b)"
| "icmp_value IR_CMP_NE s a b = Some (unsigned_at s a \<noteq> unsigned_at s b)"
| "icmp_value IR_CMP_SLT s a b = Some (signed_at s a < signed_at s b)"
| "icmp_value IR_CMP_SLE s a b = Some (signed_at s a \<le> signed_at s b)"
| "icmp_value IR_CMP_SGT s a b = Some (signed_at s b < signed_at s a)"
| "icmp_value IR_CMP_SGE s a b = Some (signed_at s b \<le> signed_at s a)"
| "icmp_value IR_CMP_ULT s a b = Some (unsigned_at s a < unsigned_at s b)"
| "icmp_value IR_CMP_ULE s a b = Some (unsigned_at s a \<le> unsigned_at s b)"
| "icmp_value IR_CMP_UGT s a b = Some (unsigned_at s b < unsigned_at s a)"
| "icmp_value IR_CMP_UGE s a b = Some (unsigned_at s b \<le> unsigned_at s a)"
| "icmp_value _ s a b = None"

text \<open>The value of an instruction, with the values of its operands and the addresses from the state.\<close>

definition ir_int_value :: "x64_emitter \<Rightarrow> x64_state \<Rightarrow> ir_inst \<Rightarrow> u64 option" where
  "ir_int_value x st inst =
     (let s = x64_width (i_type inst); a = vreg_value x st (i_a inst); b = vreg_value x st (i_b inst);
          from_type = x64_vtype x (i_a inst); fs = x64_width from_type
      in if ir_type_is_float (i_type inst) then None
         else case i_op inst of
           IR_CONST \<Rightarrow> Some (word_of_int (i_imm inst))
         | IR_COPY \<Rightarrow> Some a
         | IR_SLOT_ADDR \<Rightarrow> Some (xregs st X64_RBP + word_of_int (x_slot_offsets x ! nat (i_imm inst)))
         | IR_GLOBAL_ADDR \<Rightarrow> Some (xsyms st (x64_symbol x (i_imm inst)))
         | IR_PTR_ADD \<Rightarrow> Some (a + b)
         | IR_NEG \<Rightarrow> Some (- a)
         | IR_NOT \<Rightarrow> Some (NOT a)
         | IR_ICMP \<Rightarrow> map_option of_bool (icmp_value (i_cmp inst) s a b)
         | IR_SEXT \<Rightarrow> if fs < s \<and> \<not> ir_type_is_float from_type then Some (word_of_int (signed_at fs a)) else None
         | IR_ZEXT \<Rightarrow> if fs < s \<and> \<not> ir_type_is_float from_type then Some (take_bit (8 * fs) a) else None
         | IR_TRUNC \<Rightarrow> if s < fs \<and> \<not> ir_type_is_float from_type then Some a else None
         | op \<Rightarrow> int_binop_value op s a b)"

definition result_size :: "ir_inst \<Rightarrow> nat" where
  "result_size inst =
     (if i_op inst = IR_ICMP then 1
      else if i_op inst \<in> set [IR_SLOT_ADDR, IR_GLOBAL_ADDR, IR_PTR_ADD] then 8 else x64_width (i_type inst))"

section \<open>Places\<close>

text \<open>The place of an integer register: one that the allocator hands out for integers, or a spill slot.\<close>

definition int_place :: "x64_emitter \<Rightarrow> int \<Rightarrow> bool" where
  "int_place x vreg \<longleftrightarrow>
     (case x64_loc x vreg of
        LOCATION_REG r \<Rightarrow> r \<in> set (allocatable x64_target REG_CLASS_GPR)
      | LOCATION_SPILL s \<Rightarrow> True
      | LOCATION_NONE \<Rightarrow> False)"

text \<open>The registers that are not handed out and that the code of an instruction may change.\<close>

definition temporaries :: "nat set" where
  "temporaries = {X64_RAX, X64_RCX, X64_RDX, X64_R10, X64_R11}"

definition keeps_others :: "x64_emitter \<Rightarrow> int \<Rightarrow> x64_state \<Rightarrow> x64_state \<Rightarrow> bool" where
  "keeps_others x dst st st' \<longleftrightarrow>
     (\<forall>r. r \<notin> temporaries \<longrightarrow> x64_loc x dst \<noteq> LOCATION_REG r \<longrightarrow> xregs st' r = xregs st r) \<and>
     (\<forall>a. (case x64_loc x dst of
             LOCATION_SPILL s \<Rightarrow> 8 \<le> unat (a - move_address st X64_RBP (x64_spill_offset x s))
           | _ \<Rightarrow> True) \<longrightarrow> xmem st' a = xmem st a)"

definition touches :: "nat set \<Rightarrow> x64_state \<Rightarrow> x64_state \<Rightarrow> bool" where
  "touches R st st' \<longleftrightarrow> (\<forall>r. r \<notin> R \<longrightarrow> xregs st' r = xregs st r) \<and> xmem st' = xmem st \<and> xsyms st' = xsyms st"

lemma int_place_reg:
  "int_place x v \<Longrightarrow> x64_loc x v = LOCATION_REG r \<Longrightarrow> r \<notin> temporaries \<and> r \<noteq> X64_RSP \<and> r \<noteq> X64_RBP \<and> \<not> x64_is_xmm r"
  by (auto simp: int_place_def x64_target_def temporaries_def x64_is_xmm_def)

lemma touchesD: "touches R st st' \<Longrightarrow> r \<notin> R \<Longrightarrow> xregs st' r = xregs st r"
  by (simp add: touches_def)

lemma touches_refl [simp]: "touches R st st"
  by (simp add: touches_def)

lemma touches_trans: "touches R st st1 \<Longrightarrow> touches S st1 st2 \<Longrightarrow> R \<subseteq> T \<Longrightarrow> S \<subseteq> T \<Longrightarrow> touches T st st2"
  unfolding touches_def by (metis subsetD)

lemma touches_set_reg [simp]: "r \<in> R \<Longrightarrow> touches R st (set_reg r v st)"
  by (simp add: touches_def)

text \<open>Loading an operand.\<close>

lemma x64_use_runs:
  assumes "int_place x v" and "scratch = X64_R10 \<or> scratch = X64_R11"
  shows "\<exists>ls r. x64_use x v scratch = Some (ls, r) \<and>
    (\<forall>st. exec_lines ls st = Some (set_reg r (vreg_value x st v) st)) \<and>
    (x64_loc x v = LOCATION_REG r \<and> r \<notin> temporaries \<or> (\<exists>s. x64_loc x v = LOCATION_SPILL s) \<and> r = scratch)"
proof (cases "x64_loc x v")
  case LOCATION_NONE
  then show ?thesis using assms by (simp add: int_place_def)
next
  case (LOCATION_REG r)
  then show ?thesis
    using int_place_reg [OF assms(1)]
    by (simp add: x64_use_def vreg_value_def move_vreg_def)
next
  case (LOCATION_SPILL s)
  have "\<not> x64_is_xmm scratch" using assms(2) by (auto simp: x64_is_xmm_def)
  then show ?thesis
    using LOCATION_SPILL exec_full_move(2) [of "''mov''" scratch X64_RBP "x64_spill_offset x s"]
    by (simp add: x64_use_def vreg_value_def move_vreg_def del: exec_lines.simps)
qed

lemma vreg_value_kept:
  assumes "int_place x v" and "touches R st st'" and "R \<subseteq> temporaries"
  shows "vreg_value x st' v = vreg_value x st v"
proof (cases "x64_loc x v")
  case (LOCATION_REG r)
  then have "r \<notin> R" using int_place_reg [OF assms(1)] assms(3) by blast
  then show ?thesis using LOCATION_REG assms(2) by (simp add: vreg_value_def move_vreg_def touches_def)
next
  case (LOCATION_SPILL s)
  have "X64_RBP \<notin> R" using assms(3) by (auto simp: temporaries_def)
  then show ?thesis using LOCATION_SPILL assms(2) by (simp add: vreg_value_def move_vreg_def touches_def)
qed (use assms in \<open>simp add: int_place_def\<close>)

lemma x64_uses_run:
  assumes a: "int_place x a" and b: "int_place x b"
  obtains la ra lb rb where
    "x64_use x a X64_R10 = Some (la, ra)" "x64_use x b X64_R11 = Some (lb, rb)"
    "\<And>st. \<exists>st1. exec_lines (la @ lb) st = Some st1 \<and> touches {X64_R10, X64_R11} st st1 \<and>
        xregs st1 ra = vreg_value x st a \<and> xregs st1 rb = vreg_value x st b"
    "x64_loc x a = LOCATION_REG ra \<and> ra \<notin> temporaries \<or> ra = X64_R10"
    "x64_loc x b = LOCATION_REG rb \<and> rb \<notin> temporaries \<or> rb = X64_R11"
proof -
  obtain la ra where A: "x64_use x a X64_R10 = Some (la, ra)"
    "\<And>st. exec_lines la st = Some (set_reg ra (vreg_value x st a) st)"
    "x64_loc x a = LOCATION_REG ra \<and> ra \<notin> temporaries \<or> (\<exists>s. x64_loc x a = LOCATION_SPILL s) \<and> ra = X64_R10"
    using x64_use_runs [OF a disjI1 [OF refl]] by blast
  obtain lb rb where B: "x64_use x b X64_R11 = Some (lb, rb)"
    "\<And>st. exec_lines lb st = Some (set_reg rb (vreg_value x st b) st)"
    "x64_loc x b = LOCATION_REG rb \<and> rb \<notin> temporaries \<or> (\<exists>s. x64_loc x b = LOCATION_SPILL s) \<and> rb = X64_R11"
    using x64_use_runs [OF b disjI2 [OF refl]] by blast
  have "\<exists>st1. exec_lines (la @ lb) st = Some st1 \<and> touches {X64_R10, X64_R11} st st1 \<and>
      xregs st1 ra = vreg_value x st a \<and> xregs st1 rb = vreg_value x st b" for st
  proof -
    define sta where "sta = set_reg ra (vreg_value x st a) st"
    have ta: "touches {X64_R10} st sta"
      using A(3) by (auto simp: sta_def touches_def vreg_value_def move_vreg_def)
    have vb: "vreg_value x sta b = vreg_value x st b"
      by (rule vreg_value_kept [OF b ta]) (simp add: temporaries_def)
    define stb where "stb = set_reg rb (vreg_value x sta b) sta"
    have "touches {X64_R11} sta stb"
      using B(3) by (auto simp: stb_def touches_def vreg_value_def move_vreg_def)
    then have "touches {X64_R10, X64_R11} st stb" using ta by (rule_tac touches_trans [OF ta]) auto
    moreover have "exec_lines (la @ lb) st = Some stb" by (simp add: exec_lines_append A(2) B(2) sta_def stb_def)
    moreover have "xregs stb rb = vreg_value x st b" by (simp add: stb_def vb)
    moreover have "xregs stb ra = vreg_value x st a"
    proof (cases "ra = rb")
      case True
      then have "x64_loc x a = x64_loc x b" using A(3) B(3) by (auto simp: temporaries_def)
      then have "vreg_value x st a = vreg_value x st b" by (simp add: vreg_value_def move_vreg_def)
      then show ?thesis using True vb by (simp add: stb_def)
    qed (simp add: stb_def sta_def)
    ultimately show ?thesis by blast
  qed
  then show ?thesis using that A B by blast
qed

text \<open>Storing the result.\<close>

lemma x64_def_place:
  assumes "int_place x v"
  shows "x64_loc x v = LOCATION_REG (x64_def x v X64_R10) \<and> x64_def x v X64_R10 \<notin> temporaries \<or>
    x64_def x v X64_R10 = X64_R10"
  using assms int_place_reg [OF assms] by (auto simp: x64_def_def int_place_def split: location.splits)

lemma not_xmm_def: "int_place x v \<Longrightarrow> \<not> x64_is_xmm (x64_def x v X64_R10)"
  using int_place_reg by (auto simp: x64_def_def x64_is_xmm_def split: location.splits)

lemma finish_def_runs:
  assumes dst: "int_place x v" and d: "d = x64_def x v X64_R10" and t: "touches (insert d temporaries) st st2"
  shows "\<exists>st3. exec_lines (x64_finish_def x v d) st2 = Some st3 \<and> vreg_value x st3 v = xregs st2 d \<and>
    keeps_others x v st st3"
proof (cases "x64_loc x v")
  case (LOCATION_REG r)
  then have "d = r" by (simp add: d x64_def_def)
  then show ?thesis
    using LOCATION_REG t
    by (auto simp: x64_finish_def_def vreg_value_def move_vreg_def keeps_others_def touches_def)
next
  case (LOCATION_SPILL s)
  then have d10: "d = X64_R10" by (simp add: d x64_def_def)
  have rbp: "xregs st2 X64_RBP = xregs st X64_RBP"
    using t d10 by (simp add: touches_def temporaries_def)
  have "exec_lines (x64_finish_def x v d) st2 = Some (store_at X64_RBP (x64_spill_offset x s) (xregs st2 d) st2)"
    using LOCATION_SPILL not_xmm_def [OF dst] d exec_full_move(4) [of "''mov''"]
    by (simp add: x64_finish_def_def del: exec_lines.simps)
  moreover have "vreg_value x (store_at X64_RBP (x64_spill_offset x s) (xregs st2 d) st2) v = xregs st2 d"
    using LOCATION_SPILL by (simp add: vreg_value_def move_vreg_def load_store_same)
  moreover have "keeps_others x v st (store_at X64_RBP (x64_spill_offset x s) (xregs st2 d) st2)"
    using LOCATION_SPILL t d10 rbp
    by (auto simp: keeps_others_def touches_def store_bytes_def temporaries_def)
  ultimately show ?thesis by blast
qed (use dst in \<open>simp add: int_place_def\<close>)

section \<open>Words of a width\<close>

definition width_ok :: "nat \<Rightarrow> bool" where
  "width_ok w \<longleftrightarrow> w = 1 \<or> w = 2 \<or> w = 4 \<or> w = 8"

lemma x64_width_ok: "width_ok (x64_width t)"
  by (cases t) (auto simp: x64_width_def width_ok_def)

lemma at_least_32_cases: "width_ok s \<Longrightarrow> at_least_32 s = 4 \<or> at_least_32 s = 8"
  by (auto simp: at_least_32_def width_ok_def)

lemma at_least_32_ge: "s \<le> at_least_32 s"
  by (auto simp: at_least_32_def)

text \<open>The low bytes of what is written to a register are those of the value.\<close>

lemma low_merge:
  assumes "width_ok w" and "s \<le> w"
  shows "take_bit (8 * s) (merge_width w old v) = take_bit (8 * s) v"
proof (rule bit_word_eqI)
  fix i assume "i < LENGTH(64)"
  then show "bit (take_bit (8 * s) (merge_width w old v)) i \<longleftrightarrow> bit (take_bit (8 * s) v) i"
    using assms by (auto simp: merge_width_def bit_simps width_ok_def)
qed

lemma low_low: "s \<le> w \<Longrightarrow> take_bit (8 * s) (take_bit (8 * w) (v :: u64)) = take_bit (8 * s) v"
  by (simp add: min_def)

lemma signed_at_low: "0 < w \<Longrightarrow> signed_at w (take_bit (8 * w) v) = signed_at w v"
  unfolding signed_at_def unsigned_take_bit_eq by (intro bit_eqI) (auto simp: bit_simps min_def)

lemma signed_at_cong: "0 < w \<Longrightarrow> take_bit (8 * w) u = take_bit (8 * w) v \<Longrightarrow> signed_at w u = signed_at w v"
  by (metis signed_at_low)

lemma unsigned_at_low: "unsigned_at w (take_bit (8 * w) v) = unsigned_at w v"
  by (simp add: unsigned_at_def)

lemma signed_at_range:
  assumes "0 < w"
  shows "- (2 ^ (8 * w - 1)) \<le> signed_at w v" "signed_at w v < 2 ^ (8 * w - 1)"
  by (simp_all add: signed_at_def signed_take_bit_int_greater_eq_minus_exp signed_take_bit_int_less_exp)

lemma unsigned_at_range: "0 \<le> unsigned_at w v" "unsigned_at w v < 2 ^ (8 * w)"
  by (simp_all add: unsigned_at_def unsigned_take_bit_eq)

lemma signed_at_of_int:
  assumes "0 < w" and "8 * w \<le> 64" and "- (2 ^ (8 * w - 1)) \<le> i" and "i < 2 ^ (8 * w - 1)"
  shows "signed_at w (word_of_int i) = i"
proof -
  have "signed_at w (word_of_int i) = signed_take_bit (8 * w - 1) (take_bit 64 i)"
    by (simp add: signed_at_def unsigned_of_int)
  also have "\<dots> = signed_take_bit (8 * w - 1) i"
    using assms(1,2) by (intro bit_eqI) (auto simp: bit_simps min_def)
  also have "\<dots> = i" using assms(3,4) by (simp add: signed_take_bit_int_eq_self)
  finally show ?thesis .
qed

lemma low_of_signed:
  assumes "0 < w" and "8 * w \<le> 64"
  shows "take_bit (8 * w) (word_of_int (signed_at w v) :: u64) = take_bit (8 * w) v"
proof (rule bit_word_eqI)
  fix i assume "i < LENGTH(64)"
  then show "bit (take_bit (8 * w) (word_of_int (signed_at w v) :: u64)) i \<longleftrightarrow> bit (take_bit (8 * w) v) i"
  proof (cases "i < 8 * w - 1 \<or> \<not> i < 8 * w")
    case False
    then have "i = 8 * w - 1" by linarith
    then show ?thesis using assms by (auto simp: bit_simps signed_at_def min_def)
  qed (use assms in \<open>auto simp: bit_simps signed_at_def min_def\<close>)
qed

lemma low_of_int_cong:
  assumes "8 * w \<le> 64" and "i mod 2 ^ (8 * w) = j mod 2 ^ (8 * w)"
  shows "take_bit (8 * w) (word_of_int i :: u64) = take_bit (8 * w) (word_of_int j)"
proof -
  have "take_bit (8 * w) (word_of_int i :: u64) = word_of_int (take_bit (8 * w) i)" for i
    using assms(1) by (intro bit_word_eqI) (auto simp: bit_simps)
  then show ?thesis using assms(2) by (simp add: take_bit_eq_mod)
qed

text \<open>Arithmetic on more bytes has the same low bytes.\<close>

lemma low_ring:
  fixes u v :: u64
  assumes "n \<le> 64" and "g = (+) \<and> h = (+) \<or> g = (-) \<and> h = (-) \<or> g = (*) \<and> h = (*)"
  shows "uint (take_bit n (g u v)) = take_bit n (h (take_bit n (uint u)) (take_bit n (uint v)))"
proof -
  have "uint (g u v) = take_bit 64 (h (uint u) (uint v))"
    using assms(2) by (auto simp: uint_word_ariths take_bit_eq_mod)
  then have "uint (take_bit n (g u v)) = take_bit n (h (uint u) (uint v))"
    using assms(1) by (simp add: unsigned_take_bit_eq min_def)
  also have "\<dots> = take_bit n (h (take_bit n (uint u)) (take_bit n (uint v)))"
    using assms(2) by (auto simp: take_bit_add take_bit_diff take_bit_mult)
  finally show ?thesis .
qed

lemma low_ring_cong:
  fixes u v u' v' :: u64
  assumes "n \<le> 64" and "g = (+) \<or> g = (-) \<or> g = (*)" and "take_bit n u = take_bit n u'" and "take_bit n v = take_bit n v'"
  shows "take_bit n (g u v) = take_bit n (g u' v')"
proof -
  obtain h :: "int \<Rightarrow> int \<Rightarrow> int" where "g = (+) \<and> h = (+) \<or> g = (-) \<and> h = (-) \<or> g = (*) \<and> h = (*)" using assms(2) by blast
  from low_ring [OF assms(1) this] have "uint (take_bit n (g u v)) = uint (take_bit n (g u' v'))"
    using assms(3,4) by (simp flip: unsigned_take_bit_eq)
  then show ?thesis by (simp add: word_uint_eq_iff)
qed

lemma low_arithmetic:
  assumes "arithmetic mnemonic = Some f" and "s \<le> w" and "w \<le> 8"
  shows "take_bit (8 * s) (f (take_bit (8 * w) a) (take_bit (8 * w) b)) = take_bit (8 * s) (f a b)"
proof -
  have "f = (+) \<or> f = (-) \<or> f = (*) \<or> f = (AND) \<or> f = (OR) \<or> f = (XOR)"
    using assms(1) by (simp add: arithmetic_def split: if_splits)
  moreover have "take_bit (8 * s) (f (take_bit (8 * w) a) (take_bit (8 * w) b)) = take_bit (8 * s) (f a b)"
    if "f = (+) \<or> f = (-) \<or> f = (*)"
    by (rule low_ring_cong [OF _ that low_low [OF assms(2)] low_low [OF assms(2)]]) (use assms(2,3) in simp)
  moreover have "take_bit (8 * s) (f (take_bit (8 * w) a) (take_bit (8 * w) b)) = take_bit (8 * s) (f a b)"
    if "f = (AND) \<or> f = (OR) \<or> f = (XOR)"
    using assms(2) that by (intro bit_word_eqI) (auto simp: bit_simps)
  ultimately show ?thesis by blast
qed

section \<open>Lines on registers\<close>

lemma operand_width_reg [simp]: "width_ok w \<Longrightarrow> operand_width (XReg r w) = Some w"
  by (auto simp: width_ok_def)

declare operand_width.simps(1) [simp del]

lemma no_flags_simps [simp]:
  "xregs (no_flags st) = xregs st" "xmem (no_flags st) = xmem st" "xsyms (no_flags st) = xsyms st"
  by (simp_all add: no_flags_def)

lemma width_ok_simps [simp]: "width_ok 1" "width_ok (Suc 0)" "width_ok 2" "width_ok 4" "width_ok 8"
  by (simp_all add: width_ok_def)

lemma width_okD: "width_ok w \<Longrightarrow> 0 < w \<and> w \<le> 8"
  by (auto simp: width_ok_def)

lemma exec_reg_mov:
  assumes "width_ok w"
  shows "exec_lines [XLine ''mov'' [XReg d w, XReg a w]] st =
    Some (set_reg d (merge_width w (xregs st d) (take_bit (8 * w) (xregs st a))) st)"
  using assms by (simp add: exec_binary_def pair_width_def)

lemma exec_copy_at:
  assumes "width_ok w"
  shows "exec_lines (copy_at w d a) st =
    Some (if d = a then st else set_reg d (merge_width w (xregs st d) (take_bit (8 * w) (xregs st a))) st)"
  using exec_reg_mov [OF assms] by (simp add: copy_at_def del: exec_lines.simps(2))

lemma exec_arithmetic:
  assumes "arithmetic mnemonic = Some f" and "width_ok w"
  shows "exec_lines [XLine mnemonic [XReg d w, XReg b w]] st =
    Some (set_reg d (merge_width w (xregs st d) (f (take_bit (8 * w) (xregs st d)) (take_bit (8 * w) (xregs st b)))) (no_flags st))"
proof -
  have "mnemonic = ''add'' \<or> mnemonic = ''sub'' \<or> mnemonic = ''imul'' \<or> mnemonic = ''and'' \<or> mnemonic = ''or'' \<or>
      mnemonic = ''xor''"
    using assms(1) by (simp add: arithmetic_def split: if_splits)
  then show ?thesis using assms by (elim disjE) (simp_all add: exec_binary_def pair_width_def)
qed

lemma exec_shift:
  assumes "shift mnemonic = Some f" and "width_ok w"
  shows "exec_lines [XLine mnemonic [XReg d w, XReg c 1]] st =
    Some (set_reg d (merge_width w (xregs st d)
      (f w (unat (take_bit 8 (xregs st c)) mod (if w = 8 then 64 else 32)) (take_bit (8 * w) (xregs st d)))) (no_flags st))"
proof -
  have "mnemonic = ''shl'' \<or> mnemonic = ''shr'' \<or> mnemonic = ''sar''"
    using assms(1) by (simp add: shift_def split: if_splits)
  then show ?thesis using assms by (elim disjE) (simp_all add: exec_binary_def arithmetic_def)
qed

lemma exec_extend:
  assumes "width_ok w" and "width_ok w'"
  shows "exec_lines [XLine ''movzx'' [XReg d w, XReg a w']] st =
      Some (set_reg d (merge_width w (xregs st d) (take_bit (8 * w') (xregs st a))) st)"
    and "mnemonic = ''movsx'' \<or> mnemonic = ''movsxd'' \<Longrightarrow> exec_lines [XLine mnemonic [XReg d w, XReg a w']] st =
      Some (set_reg d (merge_width w (xregs st d) (word_of_int (signed_at w' (xregs st a)))) st)"
  using assms width_okD [OF assms(2)] by (auto simp: exec_binary_def signed_at_low)

lemma exec_lea:
  "operand_address s st = Some a \<Longrightarrow> exec_lines [XLine ''lea'' [XReg d 8, s]] st = Some (set_reg d a st)"
  by (simp add: exec_binary_def)

lemma exec_unop:
  assumes "width_ok w"
  shows "exec_lines [XLine ''neg'' [XReg d w]] st =
      Some (set_reg d (merge_width w (xregs st d) (- take_bit (8 * w) (xregs st d))) (no_flags st))"
    and "exec_lines [XLine ''not'' [XReg d w]] st =
      Some (set_reg d (merge_width w (xregs st d) (NOT (take_bit (8 * w) (xregs st d)))) st)"
  using assms by (simp_all add: exec_unary_def)

lemma touches_no_flags [simp]: "touches R st (set_reg r v (no_flags st')) \<longleftrightarrow> touches R st (set_reg r v st')"
  by (simp add: touches_def)

section \<open>An instruction from its parts\<close>

text \<open>The lines leave the low \<open>s\<close> bytes of \<open>v\<close> in the place of \<open>dst\<close>.\<close>

definition computes :: "x64_emitter \<Rightarrow> int \<Rightarrow> nat \<Rightarrow> u64 \<Rightarrow> x64_state \<Rightarrow> x64_line list \<Rightarrow> bool" where
  "computes x dst s v st ls \<longleftrightarrow>
     (\<exists>st'. exec_lines ls st = Some st' \<and> take_bit (8 * s) (vreg_value x st' dst) = take_bit (8 * s) v \<and>
            keeps_others x dst st st')"

lemma computes_finish:
  assumes "int_place x dst" and "exec_lines ls st = Some st2"
    and "touches (insert (x64_def x dst X64_R10) temporaries) st st2"
    and "take_bit (8 * s) (xregs st2 (x64_def x dst X64_R10)) = take_bit (8 * s) v"
  shows "computes x dst s v st (ls @ x64_finish_def x dst (x64_def x dst X64_R10))"
  using finish_def_runs [OF assms(1) refl assms(3)] assms(2,4)
  unfolding computes_def by (force simp: exec_lines_append)

text \<open>An operand that is loaded while only temporaries have changed.\<close>

lemma load_operand:
  assumes "int_place x v" and "scratch = X64_R10 \<or> scratch = X64_R11"
  shows "\<exists>ls r. x64_use x v scratch = Some (ls, r) \<and>
    (x64_loc x v = LOCATION_REG r \<and> r \<notin> temporaries \<or> r = scratch) \<and>
    (\<forall>R st st1. touches R st st1 \<longrightarrow> R \<subseteq> temporaries \<longrightarrow>
       (\<exists>st2. exec_lines ls st1 = Some st2 \<and> touches {scratch} st1 st2 \<and> xregs st2 r = vreg_value x st v))"
proof -
  from x64_use_runs [OF assms] obtain ls r where u: "x64_use x v scratch = Some (ls, r)"
    "\<And>st. exec_lines ls st = Some (set_reg r (vreg_value x st v) st)"
    "x64_loc x v = LOCATION_REG r \<and> r \<notin> temporaries \<or> (\<exists>s. x64_loc x v = LOCATION_SPILL s) \<and> r = scratch" by blast
  have "\<exists>st2. exec_lines ls st1 = Some st2 \<and> touches {scratch} st1 st2 \<and> xregs st2 r = vreg_value x st v"
    if "touches R st st1" "R \<subseteq> temporaries" for R st st1
  proof -
    have "vreg_value x st1 v = vreg_value x st v" using vreg_value_kept [OF assms(1) that] .
    moreover have "touches {scratch} st1 (set_reg r (vreg_value x st1 v) st1)"
      using u(3) by (auto simp: touches_def vreg_value_def move_vreg_def)
    ultimately show ?thesis using u(2) by simp
  qed
  then show ?thesis using u by blast
qed

lemma def_not_operand:
  assumes "int_place x dst" and "x64_loc x dst \<noteq> x64_loc x b"
    and "x64_loc x b = LOCATION_REG rb \<and> rb \<notin> temporaries \<or> rb = X64_R11"
  shows "rb \<noteq> x64_def x dst X64_R10" "x64_def x dst X64_R10 \<noteq> X64_R11"
  using x64_def_place [OF assms(1)] assms(2,3) by (auto simp: temporaries_def)

text \<open>Code that computes a value into the register of the destination, from the registers of the operands.\<close>

definition leaves :: "x64_emitter \<Rightarrow> int \<Rightarrow> nat \<Rightarrow> u64 \<Rightarrow> x64_line list \<Rightarrow> x64_state \<Rightarrow> bool" where
  "leaves x dst s v ls st \<longleftrightarrow>
     (\<exists>st2. exec_lines ls st = Some st2 \<and> touches (insert (x64_def x dst X64_R10) temporaries) st st2 \<and>
            take_bit (8 * s) (xregs st2 (x64_def x dst X64_R10)) = take_bit (8 * s) v)"

definition unary_core :: "x64_emitter \<Rightarrow> int \<Rightarrow> nat \<Rightarrow> u64 \<Rightarrow> u64 \<Rightarrow> (nat \<Rightarrow> x64_line list) \<Rightarrow> bool" where
  "unary_core x dst s v va core \<longleftrightarrow> (\<forall>ra st. xregs st ra = va \<longrightarrow> leaves x dst s v (core ra) st)"

definition binary_core :: "x64_emitter \<Rightarrow> int \<Rightarrow> nat \<Rightarrow> u64 \<Rightarrow> u64 \<Rightarrow> u64 \<Rightarrow> (nat \<Rightarrow> nat \<Rightarrow> x64_line list) \<Rightarrow> bool" where
  "binary_core x dst s v va vb core \<longleftrightarrow>
     (\<forall>ra rb st. xregs st ra = va \<longrightarrow> xregs st rb = vb \<longrightarrow> rb \<noteq> x64_def x dst X64_R10 \<longrightarrow>
        leaves x dst s v (core ra rb) st)"

text \<open>One operand, then code that computes the destination.\<close>

lemma one_operand:
  assumes a: "int_place x a" and dst: "int_place x dst"
    and core: "unary_core x dst s v (vreg_value x st a) core"
  shows "\<exists>la ra. x64_use x a X64_R10 = Some (la, ra) \<and>
    computes x dst s v st (la @ core ra @ x64_finish_def x dst (x64_def x dst X64_R10))"
proof -
  from load_operand [OF a disjI1 [OF refl]] obtain la ra where A: "x64_use x a X64_R10 = Some (la, ra)"
    "\<And>R st st1. touches R st st1 \<Longrightarrow> R \<subseteq> temporaries \<Longrightarrow>
       \<exists>st2. exec_lines la st1 = Some st2 \<and> touches {X64_R10} st1 st2 \<and> xregs st2 ra = vreg_value x st a" by blast
  from A(2) [of "{}" st st] obtain st1 where st1: "exec_lines la st = Some st1" "touches {X64_R10} st st1"
    "xregs st1 ra = vreg_value x st a" by auto
  from core st1(3) have "leaves x dst s v (core ra) st1" by (simp add: unary_core_def)
  then obtain st2 where st2: "exec_lines (core ra) st1 = Some st2"
    "touches (insert (x64_def x dst X64_R10) temporaries) st1 st2"
    "take_bit (8 * s) (xregs st2 (x64_def x dst X64_R10)) = take_bit (8 * s) v" unfolding leaves_def by blast
  have "touches (insert (x64_def x dst X64_R10) temporaries) st st2"
    by (rule touches_trans [OF st1(2) st2(2)]) (auto simp: temporaries_def)
  then have "computes x dst s v st ((la @ core ra) @ x64_finish_def x dst (x64_def x dst X64_R10))"
    using st1(1) st2(1,3) by (intro computes_finish [OF dst]) (simp_all add: exec_lines_append)
  then show ?thesis using A(1) by auto
qed

text \<open>Two operands, then code that computes the destination, which is not the register of the second.\<close>

lemma two_operands:
  assumes a: "int_place x a" and b: "int_place x b" and dst: "int_place x dst" and ne: "x64_loc x dst \<noteq> x64_loc x b"
    and core: "binary_core x dst s v (vreg_value x st a) (vreg_value x st b) core"
  shows "\<exists>la ra lb rb. x64_use x a X64_R10 = Some (la, ra) \<and> x64_use x b X64_R11 = Some (lb, rb) \<and>
    computes x dst s v st (la @ lb @ core ra rb @ x64_finish_def x dst (x64_def x dst X64_R10))"
proof -
  obtain la ra lb rb where U: "x64_use x a X64_R10 = Some (la, ra)" "x64_use x b X64_R11 = Some (lb, rb)"
    "\<And>st. \<exists>st1. exec_lines (la @ lb) st = Some st1 \<and> touches {X64_R10, X64_R11} st st1 \<and>
        xregs st1 ra = vreg_value x st a \<and> xregs st1 rb = vreg_value x st b"
    "x64_loc x b = LOCATION_REG rb \<and> rb \<notin> temporaries \<or> rb = X64_R11"
    by (rule x64_uses_run [OF a b]) blast
  from U(3) [of st] obtain st1 where st1: "exec_lines (la @ lb) st = Some st1" "touches {X64_R10, X64_R11} st st1"
    "xregs st1 ra = vreg_value x st a" "xregs st1 rb = vreg_value x st b" by blast
  have "leaves x dst s v (core ra rb) st1"
    using core st1(3,4) def_not_operand(1) [OF dst ne U(4)] by (simp add: binary_core_def)
  then obtain st2 where
    st2: "exec_lines (core ra rb) st1 = Some st2" "touches (insert (x64_def x dst X64_R10) temporaries) st1 st2"
    "take_bit (8 * s) (xregs st2 (x64_def x dst X64_R10)) = take_bit (8 * s) v" unfolding leaves_def by blast
  have "touches (insert (x64_def x dst X64_R10) temporaries) st st2"
    by (rule touches_trans [OF st1(2) st2(2)]) (auto simp: temporaries_def)
  moreover have "exec_lines (la @ lb @ core ra rb) st = Some st2"
    using st1(1) st2(1) exec_lines_append [of "la @ lb" "core ra rb" st] by simp
  ultimately have "computes x dst s v st ((la @ lb @ core ra rb) @ x64_finish_def x dst (x64_def x dst X64_R10))"
    using st2(3) by (intro computes_finish [OF dst])
  then show ?thesis using U(1,2) by auto
qed

section \<open>The instructions\<close>

definition emits :: "(u64 \<Rightarrow> u32) \<Rightarrow> x64_emitter \<Rightarrow> x64_counters \<Rightarrow> ir_inst \<Rightarrow> u64 \<Rightarrow> x64_state \<Rightarrow> bool" where
  "emits to_float x n inst v st \<longleftrightarrow>
     (\<exists>ls. x64_emit_inst to_float x inst n = Some (ls, n) \<and>
           computes x (i_dst inst) (result_size inst) v st ls)"

lemma unchanged_Some [simp]: "unchanged n (Some ls) = Some (ls, n)"
  by (simp add: unchanged_def)

lemma touches_core [simp]: "touches (insert d temporaries) st (set_reg d v st') \<longleftrightarrow> touches (insert d temporaries) st st'"
  by (auto simp: touches_def)

lemma width_32:
  assumes "width_ok s"
  shows "width_ok (at_least_32 s)" "s \<le> at_least_32 s"
  using at_least_32_cases [OF assms] at_least_32_ge by (auto simp: width_ok_def)

lemma emit_int_binop:
  assumes op: "i_op inst \<in> set [IR_ADD, IR_SUB, IR_MUL, IR_AND, IR_OR, IR_XOR]"
    and places: "int_place x (i_a inst)" "int_place x (i_b inst)" "int_place x (i_dst inst)"
    and ne: "x64_loc x (i_dst inst) \<noteq> x64_loc x (i_b inst)"
    and v: "ir_int_value x st inst = Some v"
  shows "emits to_float x n inst v st"
proof -
  define s where "s = x64_width (i_type inst)"
  define w where "w = at_least_32 s"
  have s: "width_ok s" by (simp add: s_def x64_width_ok)
  note w = width_32 [OF s, folded w_def]
  obtain mnemonic f where mn: "int_mnemonic (i_op inst) = Some mnemonic" "arithmetic mnemonic = Some f"
    and f: "v = f (vreg_value x st (i_a inst)) (vreg_value x st (i_b inst))"
    using op v by (auto simp: arithmetic_def ir_int_value_def Let_def split: if_splits)
  define core where "core = (\<lambda>ra rb. copy_at w (x64_def x (i_dst inst) X64_R10) ra @
      [XLine mnemonic [XReg (x64_def x (i_dst inst) X64_R10) w, XReg rb w]])"
  have "leaves x (i_dst inst) s v (core ra rb) st1"
    if "xregs st1 ra = vreg_value x st (i_a inst)" "xregs st1 rb = vreg_value x st (i_b inst)"
      "rb \<noteq> x64_def x (i_dst inst) X64_R10" for ra rb st1
  proof -
    let ?d = "x64_def x (i_dst inst) X64_R10"
    define stc where "stc = (if ?d = ra then st1 else set_reg ?d (merge_width w (xregs st1 ?d) (take_bit (8 * w) (xregs st1 ra))) st1)"
    have c: "exec_lines (copy_at w ?d ra) st1 = Some stc" "touches (insert ?d temporaries) st1 stc"
      "xregs stc rb = vreg_value x st (i_b inst)"
      using exec_copy_at [OF w(1)] that by (auto simp: stc_def)
    have "take_bit (8 * w) (xregs stc ?d) = take_bit (8 * w) (vreg_value x st (i_a inst))"
      using that low_merge [OF w(1) order_refl] by (auto simp: stc_def)
    then have "take_bit (8 * s) (f (take_bit (8 * w) (xregs stc ?d)) (take_bit (8 * w) (xregs stc rb))) = take_bit (8 * s) v"
      using low_arithmetic [OF mn(2) w(2)] w(1) c(3) f by (simp add: width_okD)
    then show ?thesis
      using c exec_arithmetic [OF mn(2) w(1)] low_merge [OF w(1,2)]
      by (simp add: leaves_def core_def exec_lines_append del: exec_lines.simps)
  qed
  then have "binary_core x (i_dst inst) s v (vreg_value x st (i_a inst)) (vreg_value x st (i_b inst)) core"
    by (simp add: binary_core_def)
  from two_operands [OF places ne this] obtain la ra lb rb
    where u: "x64_use x (i_a inst) X64_R10 = Some (la, ra)" "x64_use x (i_b inst) X64_R11 = Some (lb, rb)"
      and c: "computes x (i_dst inst) s v st
        (la @ lb @ core ra rb @ x64_finish_def x (i_dst inst) (x64_def x (i_dst inst) X64_R10))" by blast
  have "x64_emit_int_binop x inst =
      Some (la @ lb @ core ra rb @ x64_finish_def x (i_dst inst) (x64_def x (i_dst inst) X64_R10))"
    using mn(1) u by (simp add: x64_emit_int_binop_def Let_def core_def w_def s_def)
  moreover have "x64_emit_inst to_float x inst n = unchanged n (x64_emit_int_binop x inst)"
    using op by (auto simp: x64_emit_inst_def)
  moreover have "result_size inst = s" using op by (auto simp: result_size_def s_def)
  ultimately show ?thesis using c by (simp add: emits_def)
qed

lemma low_uminus:
  assumes "s \<le> w" and "w \<le> 8"
  shows "take_bit (8 * s) (- take_bit (8 * w) (a :: u64)) = take_bit (8 * s) (- a)"
proof -
  have "take_bit (8 * s) (0 - take_bit (8 * w) a) = take_bit (8 * s) (0 - a)"
    by (rule low_ring_cong [OF _ _ refl low_low [OF assms(1)]]) (use assms in simp_all)
  then show ?thesis by simp
qed

lemma low_not: "s \<le> w \<Longrightarrow> take_bit (8 * s) (NOT (take_bit (8 * w) (a :: u64))) = take_bit (8 * s) (NOT a)"
  by (intro bit_word_eqI) (auto simp: bit_simps)

text \<open>The register of the destination after a copy.\<close>

lemma copy_core:
  assumes w: "width_ok w"
  shows "\<exists>st2. exec_lines (copy_at w d a) st = Some st2 \<and> touches (insert d temporaries) st st2 \<and>
    take_bit (8 * w) (xregs st2 d) = take_bit (8 * w) (xregs st a) \<and> (\<forall>r. r \<noteq> d \<longrightarrow> xregs st2 r = xregs st r)"
  using exec_copy_at [OF w, of d a st] low_merge [OF w order_refl] by auto

lemma emit_unop:
  assumes op: "i_op inst = IR_NEG \<or> i_op inst = IR_NOT"
    and places: "int_place x (i_a inst)" "int_place x (i_dst inst)" and v: "ir_int_value x st inst = Some v"
  shows "emits to_float x n inst v st"
proof -
  define s where "s = x64_width (i_type inst)"
  define w where "w = at_least_32 s"
  let ?d = "x64_def x (i_dst inst) X64_R10"
  have s: "width_ok s" by (simp add: s_def x64_width_ok)
  note w = width_32 [OF s, folded w_def]
  define mnemonic where "mnemonic = (if i_op inst = IR_NEG then ''neg'' else ''not'')"
  define core where "core = (\<lambda>ra. copy_at w ?d ra @ [XLine mnemonic [XReg ?d w]])"
  have "leaves x (i_dst inst) s v (core ra) st1" if a: "xregs st1 ra = vreg_value x st (i_a inst)" for ra st1
  proof -
    from copy_core [OF w(1)] obtain stc where c: "exec_lines (copy_at w ?d ra) st1 = Some stc"
      "touches (insert ?d temporaries) st1 stc" "take_bit (8 * w) (xregs stc ?d) = take_bit (8 * w) (xregs st1 ra)" by blast
    show ?thesis
      using op v c a exec_unop [OF w(1)] low_merge [OF w(1,2)] low_uminus [OF w(2)] low_not [OF w(2)] w(1)
      by (auto simp: leaves_def core_def exec_lines_append mnemonic_def ir_int_value_def Let_def width_okD simp del: exec_lines.simps split: if_splits)
  qed
  then have "unary_core x (i_dst inst) s v (vreg_value x st (i_a inst)) core" by (simp add: unary_core_def)
  from one_operand [OF places this] obtain la ra where u: "x64_use x (i_a inst) X64_R10 = Some (la, ra)"
    "computes x (i_dst inst) s v st (la @ core ra @ x64_finish_def x (i_dst inst) ?d)" by blast
  then have "x64_emit_unop x inst = Some (la @ core ra @ x64_finish_def x (i_dst inst) ?d)"
    by (simp add: x64_emit_unop_def Let_def core_def w_def s_def mnemonic_def)
  moreover have "x64_emit_inst to_float x inst n = unchanged n (x64_emit_unop x inst)"
    using op by (auto simp: x64_emit_inst_def)
  moreover have "result_size inst = s" using op by (auto simp: result_size_def s_def)
  ultimately show ?thesis using u(2) by (simp add: emits_def)
qed

section \<open>Comparisons\<close>

lemma uint_low_of_int:
  assumes "n \<le> 64"
  shows "uint (take_bit n (word_of_int i :: u64)) = i mod 2 ^ n"
proof -
  have "(2 :: int) ^ n dvd 2 ^ 64" using assms by (rule le_imp_power_dvd)
  then have "i mod 2 ^ 64 mod 2 ^ n = i mod 2 ^ n" by (rule mod_mod_cancel)
  then show ?thesis
    unfolding unsigned_take_bit_eq unsigned_of_int unfolding take_bit_eq_mod by simp
qed

lemma signed_diff:
  assumes w: "width_ok w"
  shows "(signed_at w (a - b) < 0) \<noteq> (signed_at w a - signed_at w b \<noteq> signed_at w (a - b)) \<longleftrightarrow>
    signed_at w a < signed_at w b"
proof -
  define P :: int where "P = 2 ^ (8 * w - 1)"
  have w0: "0 < w" "8 * w \<le> 64" using width_okD [OF w] by auto
  have P2: "2 ^ (8 * w) = 2 * P" using w0 by (simp add: P_def flip: power_Suc)
  define A B S where "A = signed_at w a" and "B = signed_at w b" and "S = signed_at w (a - b)"
  have r: "- P \<le> A" "A < P" "- P \<le> B" "B < P" "- P \<le> S" "S < P"
    unfolding A_def B_def S_def P_def by (rule signed_at_range [OF w0(1)])+
  have low: "take_bit (8 * w) (word_of_int (signed_at w v) :: u64) = take_bit (8 * w) v" for v
    by (rule low_of_signed [OF w0])
  have "take_bit (8 * w) (word_of_int S :: u64) = take_bit (8 * w) (word_of_int A - word_of_int B)"
    unfolding S_def low A_def B_def by (rule low_ring_cong [OF w0(2)]) (simp_all add: low)
  then have "take_bit (8 * w) (word_of_int S :: u64) = take_bit (8 * w) (word_of_int (A - B))" by simp
  then have "uint (take_bit (8 * w) (word_of_int S :: u64)) = uint (take_bit (8 * w) (word_of_int (A - B) :: u64))" by simp
  then have "S mod (2 * P) = (A - B) mod (2 * P)" unfolding uint_low_of_int [OF w0(2)] P2 .
  then have "2 * P dvd (A - B) - S" by (metis mod_eq_dvd_iff)
  then obtain k where k: "A - B = S + 2 * P * k" by (metis dvdE diff_add_cancel add.commute)
  have "0 < P" by (simp add: P_def)
  have "k < 2" "- 2 < k"
  proof -
    show "k < 2"
    proof (rule ccontr)
      assume "\<not> k < 2"
      then have "2 * P * 2 \<le> 2 * P * k" using \<open>0 < P\<close> by (intro mult_left_mono) auto
      then show False using k r by linarith
    qed
    show "- 2 < k"
    proof (rule ccontr)
      assume "\<not> - 2 < k"
      then have "2 * P * k \<le> 2 * P * (- 2)" using \<open>0 < P\<close> by (intro mult_left_mono) auto
      then show False using k r by linarith
    qed
  qed
  then consider "k = 0" | "k = 1" | "k = - 1" by linarith
  then show ?thesis
    unfolding A_def [symmetric] B_def [symmetric] S_def [symmetric] using k r \<open>0 < P\<close> by cases auto
qed

lemma low_eq_iff:
  assumes "width_ok w"
  shows "take_bit (8 * w) (a - b) = 0 \<longleftrightarrow> unsigned_at w a = unsigned_at w b"
    and "signed_at w a = signed_at w b \<longleftrightarrow> unsigned_at w a = unsigned_at w b"
proof -
  have w: "0 < w" "8 * w \<le> 64" using width_okD [OF assms] by auto
  have eq: "unsigned_at w a = unsigned_at w b \<longleftrightarrow> take_bit (8 * w) a = take_bit (8 * w) b"
    unfolding unsigned_at_def by (rule word_uint_eq_iff [symmetric])
  show "take_bit (8 * w) (a - b) = 0 \<longleftrightarrow> unsigned_at w a = unsigned_at w b"
  proof
    assume "take_bit (8 * w) (a - b) = 0"
    then have "take_bit (8 * w) ((a - b) + b) = take_bit (8 * w) (0 + b)"
      using w(2) by (intro low_ring_cong [where g = "(+)"]) simp_all
    then show "unsigned_at w a = unsigned_at w b" by (simp add: eq)
  next
    assume "unsigned_at w a = unsigned_at w b"
    then have "take_bit (8 * w) (a - b) = take_bit (8 * w) (b - b)"
      using w(2) eq by (intro low_ring_cong [where g = "(-)"]) simp_all
    then show "take_bit (8 * w) (a - b) = 0" by simp
  qed
  show "signed_at w a = signed_at w b \<longleftrightarrow> unsigned_at w a = unsigned_at w b"
    unfolding eq using signed_at_cong [OF w(1)] low_of_signed [OF w] by metis
qed

lemma condition_of_compare:
  assumes w: "width_ok w" and cc: "x64_icmp_cc cmp = Some cc" and v: "icmp_value cmp w a b = Some c"
  shows "condition_holds cc (compare_flags w a b) = Some c"
proof -
  define f where "f = compare_flags w a b"
  have lt1: "(sf f \<noteq> ovf f) = (signed_at w a < signed_at w b)"
    using signed_diff [OF w, of a b] by (simp add: f_def compare_flags_def)
  then have lt: "(sf f = ovf f) = (\<not> signed_at w a < signed_at w b)" by blast
  have z: "zf f = (unsigned_at w a = unsigned_at w b)"
    using low_eq_iff(1) [OF w, of a b] by (simp add: f_def compare_flags_def)
  have c: "cf f = (unsigned_at w a < unsigned_at w b)" by (simp add: f_def compare_flags_def)
  have le: "(signed_at w a \<le> signed_at w b) = (unsigned_at w a = unsigned_at w b \<or> signed_at w a < signed_at w b)"
    "(signed_at w b < signed_at w a) = (unsigned_at w a \<noteq> unsigned_at w b \<and> \<not> signed_at w a < signed_at w b)"
    "(signed_at w b \<le> signed_at w a) = (\<not> signed_at w a < signed_at w b)"
    using low_eq_iff(2) [OF w, of a b] by linarith+
  have ule: "(unsigned_at w a \<le> unsigned_at w b) = (unsigned_at w a < unsigned_at w b \<or> unsigned_at w a = unsigned_at w b)"
    "(unsigned_at w b < unsigned_at w a) = (\<not> unsigned_at w a < unsigned_at w b \<and> unsigned_at w a \<noteq> unsigned_at w b)"
    "(unsigned_at w b \<le> unsigned_at w a) = (\<not> unsigned_at w a < unsigned_at w b)"
    by linarith+
  have "icmp_value cmp w a b = Some c' \<Longrightarrow> condition_holds (the (x64_icmp_cc cmp)) f = Some c'" for c'
    by (cases cmp) (simp_all only: x64_icmp_cc.simps icmp_value.simps option.inject option.distinct option.sel le ule,
        simp_all add: condition_holds_def lt1 lt z c)
  then show ?thesis using cc v by (simp add: f_def)
qed

lemma compare_flags_low:
  assumes w: "width_ok w"
  shows "compare_flags w (take_bit (8 * w) a) (take_bit (8 * w) b) = compare_flags w a b"
proof -
  have w: "0 < w" "8 * w \<le> 64" using width_okD [OF assms] by auto
  have low: "take_bit (8 * w) (take_bit (8 * w) a - take_bit (8 * w) b) = take_bit (8 * w) (a - b)"
    by (rule low_ring_cong [OF w(2)]) simp_all
  then show ?thesis
    using w(1) signed_at_cong [OF w(1) low] by (simp add: compare_flags_def signed_at_low unsigned_at_low)
qed

lemma exec_compare:
  assumes "width_ok w"
  shows "exec_lines [XLine ''cmp'' [XReg a w, XReg b w]] st =
    Some (st\<lparr>xflags := Some (compare_flags w (xregs st a) (xregs st b))\<rparr>)"
  using assms by (simp add: exec_binary_def pair_width_def compare_flags_low)

lemma exec_setcc:
  assumes "xflags st = Some f" and "condition_holds cc f = Some c"
  shows "exec_lines [XLine (''set'' @ cc) [XReg d 1]] st = Some (set_reg d (merge_width 1 (xregs st d) (of_bool c)) st)"
  using assms by (simp add: exec_unary_def)

lemma emit_icmp:
  assumes op: "i_op inst = IR_ICMP"
    and places: "int_place x (i_a inst)" "int_place x (i_b inst)" "int_place x (i_dst inst)"
    and ne: "x64_loc x (i_dst inst) \<noteq> x64_loc x (i_b inst)"
    and v: "ir_int_value x st inst = Some v"
  shows "emits to_float x n inst v st"
proof -
  define w where "w = x64_width (i_type inst)"
  let ?d = "x64_def x (i_dst inst) X64_R10" and ?a = "vreg_value x st (i_a inst)" and ?b = "vreg_value x st (i_b inst)"
  have w: "width_ok w" by (simp add: w_def x64_width_ok)
  obtain c where c: "icmp_value (i_cmp inst) w ?a ?b = Some c" "v = of_bool c"
    using op v by (auto simp: ir_int_value_def Let_def w_def split: if_splits)
  then obtain cc where cc: "x64_icmp_cc (i_cmp inst) = Some cc" by (cases "i_cmp inst") auto
  define core where "core = (\<lambda>ra rb. [XLine ''cmp'' [XReg ra w, XReg rb w], XLine (''set'' @ cc) [XReg ?d 1]])"
  have "leaves x (i_dst inst) 1 v (core ra rb) st1" if "xregs st1 ra = ?a" "xregs st1 rb = ?b" for ra rb st1
  proof -
    define stf where "stf = st1\<lparr>xflags := Some (compare_flags w ?a ?b)\<rparr>"
    have "exec_lines [XLine ''cmp'' [XReg ra w, XReg rb w]] st1 = Some stf" by (simp only: exec_compare [OF w] that stf_def)
    moreover have "exec_lines [XLine (''set'' @ cc) [XReg ?d 1]] stf =
        Some (set_reg ?d (merge_width 1 (xregs stf ?d) (of_bool c)) stf)"
      by (rule exec_setcc [OF _ condition_of_compare [OF w cc c(1)]]) (simp add: stf_def)
    moreover have "touches (insert ?d temporaries) st1 stf" by (simp add: stf_def touches_def)
    ultimately show ?thesis
      using low_merge [OF width_ok_simps(1) order_refl, of "xregs stf ?d" "of_bool c"]
      by (simp add: leaves_def core_def exec_lines_split c(2) del: exec_lines.simps)
  qed
  then have "binary_core x (i_dst inst) 1 v ?a ?b core" by (simp add: binary_core_def)
  from two_operands [OF places ne this] obtain la ra lb rb
    where u: "x64_use x (i_a inst) X64_R10 = Some (la, ra)" "x64_use x (i_b inst) X64_R11 = Some (lb, rb)"
      and r: "computes x (i_dst inst) 1 v st (la @ lb @ core ra rb @ x64_finish_def x (i_dst inst) ?d)" by blast
  have "x64_emit_icmp x inst = Some (la @ lb @ core ra rb @ x64_finish_def x (i_dst inst) ?d)"
    using cc u by (simp add: x64_emit_icmp_def Let_def core_def w_def)
  moreover have "x64_emit_inst to_float x inst n = unchanged n (x64_emit_icmp x inst)"
    using op by (simp add: x64_emit_inst_def)
  moreover have "result_size inst = 1" using op by (simp add: result_size_def)
  ultimately show ?thesis using r by (simp add: emits_def)
qed

section \<open>Constants, copies and addresses\<close>

lemma no_operands:
  assumes "int_place x dst" and "leaves x dst s v core st"
  shows "computes x dst s v st (core @ x64_finish_def x dst (x64_def x dst X64_R10))"
  using assms(2) computes_finish [OF assms(1)] unfolding leaves_def by blast

lemma exec_mov_imm:
  assumes "width_ok w"
  shows "exec_lines [XLine ''mov'' [XReg d w, XImm i]] st =
    Some (set_reg d (merge_width w (xregs st d) (take_bit (8 * w) (word_of_int i))) st)"
  using assms by (simp add: exec_binary_def pair_width_def)

lemma low_int32:
  assumes "s \<le> 4"
  shows "take_bit (8 * s) (word_of_int (signed_take_bit 31 i) :: u64) = take_bit (8 * s) (word_of_int i)"
proof (rule bit_word_eqI)
  fix k assume "k < LENGTH(64)"
  show "bit (take_bit (8 * s) (word_of_int (signed_take_bit 31 i) :: u64)) k \<longleftrightarrow> bit (take_bit (8 * s) (word_of_int i :: u64)) k"
  proof (cases "k < 8 * s")
    case True
    then have "k < 31 \<or> k = 31" using assms by linarith
    then show ?thesis by (auto simp: bit_simps min_def)
  qed (simp add: bit_simps)
qed

lemma emit_const:
  assumes op: "i_op inst = IR_CONST" and dst: "int_place x (i_dst inst)" and v: "ir_int_value x st inst = Some v"
  shows "emits to_float x n inst v st"
proof -
  define s where "s = x64_width (i_type inst)"
  let ?d = "x64_def x (i_dst inst) X64_R10"
  have s: "width_ok s" by (simp add: s_def x64_width_ok)
  have vi: "v = word_of_int (i_imm inst)" using op v by (auto simp: ir_int_value_def Let_def split: if_splits)
  define core where "core = (if i_imm inst = 0 then [XLine ''xor'' [XReg ?d 4, XReg ?d 4]]
       else if s < 8 then [XLine ''mov'' [XReg ?d 4, XImm (signed_take_bit 31 (i_imm inst))]]
       else [XLine ''mov'' [XReg ?d 8, XImm (i_imm inst)]])"
  have "leaves x (i_dst inst) s v core st"
  proof -
    consider (zero) "i_imm inst = 0" | (narrow) "i_imm inst \<noteq> 0" "s < 8" "s \<le> 4" | (wide) "i_imm inst \<noteq> 0" "s = 8"
      using s by (cases "i_imm inst = 0") (auto simp: width_ok_def)
    then show ?thesis
    proof cases
      case zero
      have "exec_lines core st = Some (set_reg ?d 0 (no_flags st))"
        using zero exec_arithmetic [of "''xor''" "(XOR)" 4 ?d ?d st]
        by (simp add: core_def arithmetic_def merge_width_def del: exec_lines.simps)
      then show ?thesis using zero vi by (simp add: leaves_def)
    next
      case narrow
      then have "exec_lines core st = Some (set_reg ?d (merge_width 4 (xregs st ?d)
          (take_bit (8 * 4) (word_of_int (signed_take_bit 31 (i_imm inst))))) st)"
        using exec_mov_imm [of 4] by (simp add: core_def del: exec_lines.simps)
      then show ?thesis
        using narrow(3) vi low_int32 low_merge [of 4 s] low_low [of s 4]
        by (simp add: leaves_def)
    next
      case wide
      then have "exec_lines core st = Some (set_reg ?d (word_of_int (i_imm inst)) st)"
        using exec_mov_imm [of 8] by (simp add: core_def del: exec_lines.simps)
      then show ?thesis using vi by (simp add: leaves_def)
    qed
  qed
  then have "computes x (i_dst inst) s v st (core @ x64_finish_def x (i_dst inst) ?d)" by (rule no_operands [OF dst])
  moreover have "x64_emit_const x inst = core @ x64_finish_def x (i_dst inst) ?d"
    by (simp add: x64_emit_const_def Let_def core_def s_def)
  moreover have "x64_emit_inst to_float x inst n = Some (x64_emit_const x inst, n)"
    using op by (simp add: x64_emit_inst_def)
  moreover have "result_size inst = s" using op by (simp add: result_size_def s_def)
  ultimately show ?thesis by (simp add: emits_def)
qed

lemma emit_address:
  assumes dst: "int_place x (i_dst inst)" and address: "operand_address operand st = Some v"
    and inst: "x64_emit_inst to_float x inst n = Some (x64_emit_addr x inst operand, n)"
  shows "emits to_float x n inst v st"
proof -
  let ?d = "x64_def x (i_dst inst) X64_R10"
  have "leaves x (i_dst inst) (result_size inst) v [XLine ''lea'' [XReg ?d 8, operand]] st"
    using exec_lea [OF address] by (simp add: leaves_def del: exec_lines.simps)
  from no_operands [OF dst this] show ?thesis
    by (simp add: emits_def inst x64_emit_addr_def Let_def)
qed

lemma emit_copy:
  assumes op: "i_op inst = IR_COPY" and places: "int_place x (i_a inst)" "int_place x (i_dst inst)"
    and v: "ir_int_value x st inst = Some v"
  shows "emits to_float x n inst v st"
proof -
  let ?d = "x64_def x (i_dst inst) X64_R10"
  have t: "\<not> ir_type_is_float (i_type inst)" "v = vreg_value x st (i_a inst)"
    using op v by (auto simp: ir_int_value_def Let_def split: if_splits)
  define core where "core = x64_move_reg ?d"
  have "unary_core x (i_dst inst) (result_size inst) v (vreg_value x st (i_a inst)) core"
    by (simp add: unary_core_def leaves_def core_def exec_move_reg t)
  from one_operand [OF places this] obtain la ra where u: "x64_use x (i_a inst) X64_R10 = Some (la, ra)"
    "computes x (i_dst inst) (result_size inst) v st (la @ core ra @ x64_finish_def x (i_dst inst) ?d)" by blast
  then have "x64_emit_copy x inst = Some (la @ core ra @ x64_finish_def x (i_dst inst) ?d)"
    using t by (simp add: x64_emit_copy_def Let_def core_def)
  moreover have "x64_emit_inst to_float x inst n = unchanged n (x64_emit_copy x inst)"
    using op by (simp add: x64_emit_inst_def)
  ultimately show ?thesis using u(2) by (simp add: emits_def)
qed

lemma emit_ptr_add:
  assumes op: "i_op inst = IR_PTR_ADD"
    and places: "int_place x (i_a inst)" "int_place x (i_b inst)" "int_place x (i_dst inst)"
    and ne: "x64_loc x (i_dst inst) \<noteq> x64_loc x (i_b inst)"
    and v: "ir_int_value x st inst = Some v"
  shows "emits to_float x n inst v st"
proof -
  let ?d = "x64_def x (i_dst inst) X64_R10" and ?a = "vreg_value x st (i_a inst)" and ?b = "vreg_value x st (i_b inst)"
  have vi: "v = ?a + ?b" using op v by (auto simp: ir_int_value_def Let_def split: if_splits)
  define core where "core = (\<lambda>ra rb. [XLine ''lea'' [XReg ?d 8, XIndexed '''' ra rb]])"
  have "binary_core x (i_dst inst) (result_size inst) v ?a ?b core"
    using exec_lea [of "XIndexed _ _ _"] by (simp add: binary_core_def leaves_def core_def vi del: exec_lines.simps)
  from two_operands [OF places ne this] obtain la ra lb rb
    where u: "x64_use x (i_a inst) X64_R10 = Some (la, ra)" "x64_use x (i_b inst) X64_R11 = Some (lb, rb)"
      and r: "computes x (i_dst inst) (result_size inst) v st (la @ lb @ core ra rb @ x64_finish_def x (i_dst inst) ?d)"
    by blast
  have "x64_emit_ptr_add x inst = Some (la @ lb @ core ra rb @ x64_finish_def x (i_dst inst) ?d)"
    using u by (simp add: x64_emit_ptr_add_def core_def Let_def)
  moreover have "x64_emit_inst to_float x inst n = unchanged n (x64_emit_ptr_add x inst)"
    using op by (simp add: x64_emit_inst_def)
  ultimately show ?thesis using r by (simp add: emits_def)
qed

section \<open>Conversions of integers\<close>

lemma conversion_copies:
  assumes op: "i_op inst \<in> set [IR_SEXT, IR_ZEXT, IR_TRUNC]"
    and places: "int_place x (i_a inst)" "int_place x (i_dst inst)" and v: "ir_int_value x st inst = Some v"
    and core: "\<And>ra. conversion_lines to_float (i_op inst) (x64_vtype x (i_a inst)) (i_type inst)
        (x64_def x (i_dst inst) X64_R10) ra n = Some (core ra, n)"
    and leaves: "\<And>ra st1. xregs st1 ra = vreg_value x st (i_a inst) \<Longrightarrow>
        leaves x (i_dst inst) (x64_width (i_type inst)) v (core ra) st1"
  shows "emits to_float x n inst v st"
proof -
  let ?d = "x64_def x (i_dst inst) X64_R10"
  have t: "\<not> ir_type_is_float (i_type inst)" "\<not> ir_type_is_float (x64_vtype x (i_a inst))"
    using op v by (auto simp: ir_int_value_def Let_def split: if_splits)
  have "unary_core x (i_dst inst) (x64_width (i_type inst)) v (vreg_value x st (i_a inst)) core"
    using leaves by (simp add: unary_core_def)
  from one_operand [OF places this] obtain la ra where u: "x64_use x (i_a inst) X64_R10 = Some (la, ra)"
    "computes x (i_dst inst) (x64_width (i_type inst)) v st (la @ core ra @ x64_finish_def x (i_dst inst) ?d)" by blast
  then have "x64_emit_conversion to_float x inst n = Some (la @ core ra @ x64_finish_def x (i_dst inst) ?d, n)"
    using t core by (simp add: x64_emit_conversion_def Let_def)
  moreover have "x64_emit_inst to_float x inst n = x64_emit_conversion to_float x inst n"
    using op by (auto simp: x64_emit_inst_def)
  moreover have "result_size inst = x64_width (i_type inst)" using op by (auto simp: result_size_def)
  ultimately show ?thesis using u(2) by (simp add: emits_def)
qed

lemma emit_int_conversion:
  assumes op: "i_op inst \<in> set [IR_SEXT, IR_ZEXT, IR_TRUNC]"
    and places: "int_place x (i_a inst)" "int_place x (i_dst inst)" and v: "ir_int_value x st inst = Some v"
  shows "emits to_float x n inst v st"
proof -
  let ?d = "x64_def x (i_dst inst) X64_R10" and ?a = "vreg_value x st (i_a inst)"
  define fs ts where "fs = x64_width (x64_vtype x (i_a inst))" and "ts = x64_width (i_type inst)"
  have w: "width_ok fs" "width_ok ts" by (simp_all add: fs_def ts_def x64_width_ok)
  consider (sext) "i_op inst = IR_SEXT" "fs < ts" "v = word_of_int (signed_at fs ?a)"
    | (zext) "i_op inst = IR_ZEXT" "fs < ts" "v = take_bit (8 * fs) ?a"
    | (trunc) "i_op inst = IR_TRUNC" "ts < fs" "v = ?a"
    using op v by (auto simp: ir_int_value_def Let_def fs_def ts_def split: if_splits)
  then show ?thesis
  proof cases
    case sext
    define core where "core = (\<lambda>ra. [if fs = 4 then XLine ''movsxd'' [XReg ?d 8, XReg ra 4]
      else XLine ''movsx'' [XReg ?d (at_least_32 ts), XReg ra fs]])"
    show ?thesis
    proof (rule conversion_copies [OF op places v, of to_float n core])
      show "conversion_lines to_float (i_op inst) (x64_vtype x (i_a inst)) (i_type inst) ?d ra n = Some (core ra, n)" for ra
        by (simp add: conversion_lines_def sext(1) core_def fs_def ts_def)
      show "leaves x (i_dst inst) (x64_width (i_type inst)) v (core ra) st1"
        if "xregs st1 ra = ?a" for ra st1
        using exec_extend(2) [of "at_least_32 ts" fs "''movsx''"] exec_extend(2) [of 8 4 "''movsxd''"] w sext that
          width_32 [OF w(2)] low_merge [of "at_least_32 ts" ts]
        by (simp add: leaves_def core_def ts_def [symmetric] del: exec_lines.simps)
    qed
  next
    case zext
    define core where "core = (\<lambda>ra. [if fs = 4 then XLine ''mov'' [XReg ?d 4, XReg ra 4]
      else XLine ''movzx'' [XReg ?d 4, XReg ra fs]])"
    have fs: "fs = 1 \<or> fs = 2 \<or> fs = 4" using zext(2) w by (auto simp: width_ok_def)
    show ?thesis
    proof (rule conversion_copies [OF op places v, of to_float n core])
      show "conversion_lines to_float (i_op inst) (x64_vtype x (i_a inst)) (i_type inst) ?d ra n = Some (core ra, n)" for ra
        by (simp add: conversion_lines_def zext(1) core_def fs_def)
      show "leaves x (i_dst inst) (x64_width (i_type inst)) v (core ra) st1"
        if "xregs st1 ra = ?a" for ra st1
        using exec_extend(1) [of 4 fs] exec_reg_mov [of 4] fs zext that w
        by (auto simp: leaves_def core_def merge_width_def min_def simp del: exec_lines.simps)
    qed
  next
    case trunc
    have "ts \<le> 4" using trunc(2) w by (auto simp: width_ok_def)
    show ?thesis
    proof (rule conversion_copies [OF op places v, of to_float n "copy_at 4 ?d"])
      show "conversion_lines to_float (i_op inst) (x64_vtype x (i_a inst)) (i_type inst) ?d ra n = Some (copy_at 4 ?d ra, n)" for ra
        by (simp add: conversion_lines_def trunc(1))
      show "leaves x (i_dst inst) (x64_width (i_type inst)) v (copy_at 4 ?d ra) st1" if "xregs st1 ra = ?a" for ra st1
      proof -
        from copy_core [OF width_ok_simps(4), of ?d ra st1] obtain st2
          where c: "exec_lines (copy_at 4 ?d ra) st1 = Some st2" "touches (insert ?d temporaries) st1 st2"
            "take_bit (8 * 4) (xregs st2 ?d) = take_bit (8 * 4) (xregs st1 ra)" by blast
        have "take_bit (8 * ts) (xregs st2 ?d) = take_bit (8 * ts) (xregs st1 ra)"
          using arg_cong [OF c(3), of "take_bit (8 * ts)"] low_low [OF \<open>ts \<le> 4\<close>] by simp
        then show ?thesis using c that trunc(3) by (simp add: leaves_def ts_def)
      qed
    qed
  qed
qed

section \<open>Shifts and divisions\<close>

text \<open>An operand that is extended to the width of the operation.\<close>

lemma extended_value:
  assumes s: "width_ok s"
  shows "\<exists>st2. exec_lines (x64_extend_to_32 d a s is_signed) st = Some st2 \<and> touches {d} st st2 \<and>
    (if is_signed then signed_at (at_least_32 s) (xregs st2 d) = signed_at s (xregs st a)
     else unsigned_at (at_least_32 s) (xregs st2 d) = unsigned_at s (xregs st a))"
proof (cases "s = 1 \<or> s = 2")
  case True
  then have w: "at_least_32 s = 4" by (auto simp: at_least_32_def)
  define val where "val = (if is_signed then word_of_int (signed_at s (xregs st a)) else take_bit (8 * s) (xregs st a))"
  have run: "exec_lines (x64_extend_to_32 d a s is_signed) st = Some (set_reg d (merge_width 4 (xregs st d) val) st)"
    using True s exec_extend [of 4 s] by (auto simp: x64_extend_to_32_def val_def simp del: exec_lines.simps)
  have low: "take_bit (8 * 4) (merge_width 4 (xregs st d) val) = take_bit (8 * 4) val"
    by (rule low_merge) simp_all
  have "signed_at 4 (merge_width 4 (xregs st d) val) = signed_at s (xregs st a)" if is_signed
  proof -
    have "0 < s" "8 * s - 1 \<le> 31" using True by auto
    then have "(2 :: int) ^ (8 * s - 1) \<le> 2 ^ 31" by (intro power_increasing) auto
    then have "signed_at 4 (word_of_int (signed_at s (xregs st a))) = signed_at s (xregs st a)"
      using signed_at_range [OF \<open>0 < s\<close>, of "xregs st a"] by (intro signed_at_of_int) simp_all
    then show ?thesis using signed_at_cong [OF _ low] that by (simp add: val_def)
  qed
  moreover have "unsigned_at 4 (merge_width 4 (xregs st d) val) = unsigned_at s (xregs st a)" if "\<not> is_signed"
    using low that True by (auto simp: unsigned_at_def val_def min_def)
  ultimately show ?thesis using run w by (auto simp: touches_def)
next
  case False
  then have w: "at_least_32 s = s" using s by (auto simp: at_least_32_def width_ok_def)
  from exec_copy_at [OF s, of d a st] have run: "exec_lines (x64_extend_to_32 d a s is_signed) st =
      Some (if d = a then st else set_reg d (merge_width s (xregs st d) (take_bit (8 * s) (xregs st a))) st)"
    using False by (simp add: x64_extend_to_32_def)
  define st2 where "st2 = (if d = a then st else set_reg d (merge_width s (xregs st d) (take_bit (8 * s) (xregs st a))) st)"
  have low: "take_bit (8 * s) (xregs st2 d) = take_bit (8 * s) (xregs st a)"
    using low_merge [OF s order_refl] by (simp add: st2_def)
  have "signed_at s (xregs st2 d) = signed_at s (xregs st a)"
    using signed_at_cong [OF _ low] s width_okD by blast
  moreover have "unsigned_at s (xregs st2 d) = unsigned_at s (xregs st a)" by (simp add: unsigned_at_def low)
  ultimately show ?thesis using run w by (auto simp: st2_def touches_def)
qed

lemma shift_count:
  assumes s: "width_ok s" and c: "unsigned_at s b < int (8 * s)"
  shows "unat (take_bit 8 (take_bit 32 b)) mod (if at_least_32 s = 8 then 64 else 32) = nat (unsigned_at s b)"
proof -
  define k where "k = unat (take_bit (8 * s) b)"
  have k: "k < 8 * s" using c unfolding unsigned_at_def uint_nat k_def by linarith
  then have "k < 2 ^ 8" using width_okD [OF s] by simp
  have "take_bit 8 (take_bit 32 b) = take_bit 8 (take_bit (8 * s) b)"
    using s by (auto simp: width_ok_def min_def)
  then have "unat (take_bit 8 (take_bit 32 b)) = take_bit 8 k"
    by (simp only: unsigned_take_bit_eq k_def)
  then have "unat (take_bit 8 (take_bit 32 b)) = k" using \<open>k < 2 ^ 8\<close> by (simp only: take_bit_nat_eq_self)
  moreover have "8 * s \<le> (if at_least_32 s = 8 then 64 else 32)" using s by (auto simp: width_ok_def at_least_32_def)
  ultimately show ?thesis using k by (simp add: unsigned_at_def k_def)
qed

lemma shift_value:
  assumes s: "width_ok s" and op: "op = IR_SHL \<or> op = IR_LSHR \<or> op = IR_ASHR"
    and v: "int_binop_value op s a b = Some v" and w: "w = at_least_32 s"
    and shl: "op = IR_SHL \<Longrightarrow> take_bit (8 * w) r = take_bit (8 * w) a"
    and lshr: "op = IR_LSHR \<Longrightarrow> unsigned_at w r = unsigned_at s a"
    and ashr: "op = IR_ASHR \<Longrightarrow> signed_at w r = signed_at s a"
    and f: "shift (if op = IR_LSHR then ''shr'' else if op = IR_ASHR then ''sar'' else ''shl'') = Some f"
  shows "take_bit (8 * s) (f w (nat (unsigned_at s b)) (take_bit (8 * w) r)) = take_bit (8 * s) v"
proof -
  have w0: "s \<le> w" "0 < w" using width_32 [OF s] w s width_okD by auto
  consider "op = IR_SHL" "f = (\<lambda>w n v. push_bit n v)" | "op = IR_LSHR" "f = (\<lambda>w n v. drop_bit n (take_bit (8 * w) v))"
    | "op = IR_ASHR" "f = (\<lambda>w n v. word_of_int (drop_bit n (signed_at w v)))"
    using op f by (elim disjE) (simp_all add: shift_def)
  then show ?thesis
  proof cases
    case 1
    have "take_bit (8 * s) (push_bit n (take_bit (8 * w) r)) = take_bit (8 * s) (push_bit n a)" for n
      using w0(1) unfolding shl [OF 1(1)] by (intro bit_word_eqI) (auto simp: bit_simps)
    then show ?thesis using 1 v by (auto split: if_splits)
  next
    case 2
    have "take_bit (8 * w) r = take_bit (8 * s) a"
      using lshr [OF 2(1)] by (simp add: unsigned_at_def word_uint_eq_iff)
    then show ?thesis using 2 v w0(1) by (auto simp: min_def split: if_splits)
  next
    case 3
    then show ?thesis using v ashr [OF 3(1)] w0(2) by (auto simp: signed_at_low split: if_splits)
  qed
qed

lemma emit_shift:
  assumes op: "i_op inst \<in> set [IR_SHL, IR_LSHR, IR_ASHR]"
    and places: "int_place x (i_a inst)" "int_place x (i_b inst)" "int_place x (i_dst inst)"
    and v: "ir_int_value x st inst = Some v"
  shows "emits to_float x n inst v st"
proof -
  let ?d = "x64_def x (i_dst inst) X64_R10" and ?a = "vreg_value x st (i_a inst)" and ?b = "vreg_value x st (i_b inst)"
  define s where "s = x64_width (i_type inst)"
  define w where "w = at_least_32 s"
  have s: "width_ok s" by (simp add: s_def x64_width_ok)
  note w = width_32 [OF s, folded w_def]
  have op': "i_op inst = IR_SHL \<or> i_op inst = IR_LSHR \<or> i_op inst = IR_ASHR" using op by auto
  have val: "int_binop_value (i_op inst) s ?a ?b = Some v"
    using op' v by (auto simp: ir_int_value_def Let_def s_def split: if_splits)
  then have c: "unsigned_at s ?b < int (8 * s)" using op' by (auto split: if_splits)
  define mnemonic where "mnemonic = (if i_op inst = IR_LSHR then ''shr'' else if i_op inst = IR_ASHR then ''sar'' else ''shl'')"
  have "shift mnemonic \<noteq> None" by (simp add: shift_def mnemonic_def)
  then obtain f where f: "shift mnemonic = Some f" by blast
  define prepare where "prepare = (\<lambda>ra. if i_op inst = IR_SHL then copy_at w ?d ra else x64_extend_to_32 ?d ra s (i_op inst = IR_ASHR))"
  from load_operand [OF places(2) disjI2 [OF refl]] obtain lb rb where B: "x64_use x (i_b inst) X64_R11 = Some (lb, rb)"
    "\<And>R st st1. touches R st st1 \<Longrightarrow> R \<subseteq> temporaries \<Longrightarrow>
       \<exists>st2. exec_lines lb st1 = Some st2 \<and> touches {X64_R11} st1 st2 \<and> xregs st2 rb = vreg_value x st (i_b inst)" by blast
  from load_operand [OF places(1) disjI1 [OF refl]] obtain la ra where A: "x64_use x (i_a inst) X64_R10 = Some (la, ra)"
    "\<And>R st st1. touches R st st1 \<Longrightarrow> R \<subseteq> temporaries \<Longrightarrow>
       \<exists>st2. exec_lines la st1 = Some st2 \<and> touches {X64_R10} st1 st2 \<and> xregs st2 ra = vreg_value x st (i_a inst)" by blast
  have d: "?d \<noteq> X64_RCX" using x64_def_place [OF places(3)] by (auto simp: temporaries_def)
  from B(2) [of "{}" st st] obtain st1 where st1: "exec_lines lb st = Some st1" "touches {X64_R11} st st1" "xregs st1 rb = ?b"
    by auto
  define st2 where "st2 = set_reg X64_RCX (take_bit 32 ?b) st1"
  have run2: "exec_lines [XLine ''mov'' [XReg X64_RCX 4, XReg rb 4]] st1 = Some st2"
    by (simp add: exec_reg_mov st2_def st1(3) merge_width_def del: exec_lines.simps)
  have t2: "touches {X64_R11, X64_RCX} st st2"
    by (rule touches_trans [OF st1(2), of "{X64_RCX}"]) (auto simp: st2_def)
  from A(2) [OF t2] obtain st3 where st3: "exec_lines la st2 = Some st3" "touches {X64_R10} st2 st3" "xregs st3 ra = ?a"
    by (auto simp: temporaries_def)
  have rcx: "xregs st3 X64_RCX = take_bit 32 ?b" using touchesD [OF st3(2)] by (simp add: st2_def)
  obtain st4 where st4: "exec_lines (prepare ra) st3 = Some st4" "touches (insert ?d temporaries) st3 st4"
      "xregs st4 X64_RCX = take_bit 32 ?b"
    and r: "i_op inst = IR_SHL \<Longrightarrow> take_bit (8 * w) (xregs st4 ?d) = take_bit (8 * w) ?a"
      "i_op inst = IR_LSHR \<Longrightarrow> unsigned_at w (xregs st4 ?d) = unsigned_at s ?a"
      "i_op inst = IR_ASHR \<Longrightarrow> signed_at w (xregs st4 ?d) = signed_at s ?a"
  proof (cases "i_op inst = IR_SHL")
    case True
    from copy_core [OF w(1), of ?d ra st3] obtain st4 where "exec_lines (copy_at w ?d ra) st3 = Some st4"
      "touches (insert ?d temporaries) st3 st4" "take_bit (8 * w) (xregs st4 ?d) = take_bit (8 * w) (xregs st3 ra)"
      "\<forall>r. r \<noteq> ?d \<longrightarrow> xregs st4 r = xregs st3 r" by blast
    then show ?thesis using that True st3(3) rcx d by (simp add: prepare_def)
  next
    case False
    from extended_value [OF s, of ?d ra "i_op inst = IR_ASHR" st3, folded w_def] obtain st4
      where e: "exec_lines (x64_extend_to_32 ?d ra s (i_op inst = IR_ASHR)) st3 = Some st4" "touches {?d} st3 st4"
        "if i_op inst = IR_ASHR then signed_at w (xregs st4 ?d) = signed_at s (xregs st3 ra)
         else unsigned_at w (xregs st4 ?d) = unsigned_at s (xregs st3 ra)" by blast
    have "touches (insert ?d temporaries) st3 st4" using e(2) by (auto simp: touches_def)
    then show ?thesis using that False e st3(3) rcx d touchesD [OF e(2)] by (simp add: prepare_def)
  qed
  define st5 where "st5 = set_reg ?d (merge_width w (xregs st4 ?d)
      (f w (nat (unsigned_at s ?b)) (take_bit (8 * w) (xregs st4 ?d)))) (no_flags st4)"
  have run5: "exec_lines [XLine mnemonic [XReg ?d w, XReg X64_RCX 1]] st4 = Some st5"
    unfolding exec_shift [OF f w(1)] st4(3) shift_count [OF s c, folded w_def] by (simp add: st5_def)
  have low: "take_bit (8 * s) (xregs st5 ?d) = take_bit (8 * s) v"
    using low_merge [OF w] shift_value [OF s op' val w_def r f [unfolded mnemonic_def]] by (simp add: st5_def)
  define core where "core = lb @ [XLine ''mov'' [XReg X64_RCX 4, XReg rb 4]] @ la @ prepare ra @
    [XLine mnemonic [XReg ?d w, XReg X64_RCX 1]]"
  have run: "exec_lines core st = Some st5"
    unfolding core_def exec_lines_append by (simp only: st1(1) run2 st3(1) st4(1) run5 Option.bind.simps)
  have "touches (insert ?d temporaries) st2 st4"
    by (rule touches_trans [OF st3(2) st4(2)]) (auto simp: temporaries_def)
  then have "touches (insert ?d temporaries) st st4"
    by (rule touches_trans [OF t2]) (auto simp: temporaries_def)
  then have "touches (insert ?d temporaries) st st5" by (simp add: st5_def)
  from computes_finish [OF places(3) run this low]
  have r: "computes x (i_dst inst) s v st (core @ x64_finish_def x (i_dst inst) ?d)" .
  have "x64_emit_shift x inst = Some (core @ x64_finish_def x (i_dst inst) ?d)"
    using A(1) B(1) by (simp add: x64_emit_shift_def Let_def core_def prepare_def mnemonic_def w_def s_def)
  moreover have "x64_emit_inst to_float x inst n = unchanged n (x64_emit_shift x inst)"
    using op' by (auto simp: x64_emit_inst_def)
  moreover have "result_size inst = s" using op' by (auto simp: result_size_def s_def)
  ultimately show ?thesis using r by (simp add: emits_def)
qed

lemma sign_filled:
  assumes w: "width_ok w" and h: "signed_at w h = (if signed_at w l < 0 then - 1 else 0)"
  shows "signed_at w h * 2 ^ (8 * w) + unsigned_at w l = signed_at w l"
proof -
  have w0: "0 < w" "8 * w \<le> 64" using width_okD [OF w] by auto
  have r: "- (2 ^ (8 * w - 1)) \<le> signed_at w l" "signed_at w l < 2 ^ (8 * w - 1)"
    by (rule signed_at_range [OF w0(1)])+
  have p: "(2 :: int) ^ (8 * w) = 2 * 2 ^ (8 * w - 1)" using w0 by (simp flip: power_Suc)
  have "uint (take_bit (8 * w) l) = uint (take_bit (8 * w) (word_of_int (signed_at w l) :: u64))"
    by (simp add: low_of_signed [OF w0])
  then have u: "unsigned_at w l = signed_at w l mod 2 ^ (8 * w)"
    unfolding uint_low_of_int [OF w0(2)] by (simp add: unsigned_at_def)
  show ?thesis
  proof (cases "signed_at w l < 0")
    case True
    then have "(signed_at w l + 2 ^ (8 * w)) mod 2 ^ (8 * w) = signed_at w l + 2 ^ (8 * w)"
      using r p by (intro mod_pos_pos_trivial) auto
    then show ?thesis using True u h by simp
  next
    case False
    then have "signed_at w l mod 2 ^ (8 * w) = signed_at w l" using r p by (intro mod_pos_pos_trivial) auto
    then show ?thesis using False u h by simp
  qed
qed

lemma quotient_fits:
  fixes a b P :: int
  assumes "- P \<le> a" "a < P" "b \<noteq> 0" "\<not> (a = - P \<and> b = - 1)"
  shows "- P \<le> a sdiv b \<and> a sdiv b < P"
proof -
  have q: "\<bar>a sdiv b\<bar> = \<bar>a\<bar> div \<bar>b\<bar>"
    using assms(3) by (cases "a = 0") (simp_all add: signed_divide_int_def abs_mult abs_sgn_eq pos_imp_zdiv_nonneg_iff)
  show ?thesis
  proof (cases "\<bar>b\<bar> = 1")
    case True
    then have "a sdiv b = a \<and> b = 1 \<or> a sdiv b = - a \<and> b = - 1"
      by (auto simp: signed_divide_int_def abs_if sgn_if split: if_splits)
    then show ?thesis using assms by auto
  next
    case False
    then have "2 \<le> \<bar>b\<bar>" using assms(3) by linarith
    then have "\<bar>a\<bar> div \<bar>b\<bar> \<le> \<bar>a\<bar> div 2" by (intro zdiv_mono2) auto
    then show ?thesis using q assms(1,2) by linarith
  qed
qed

lemma exec_divide:
  assumes w: "width_ok w" and q: "divide is_signed w (xregs st X64_RDX) (xregs st X64_RAX) (take_bit (8 * w) (xregs st b)) = Some (q, r)"
    and mn: "mnemonic = (if is_signed then ''idiv'' else ''div'')"
  shows "\<exists>st2. exec_lines [XLine mnemonic [XReg b w]] st = Some st2 \<and> touches temporaries st st2 \<and>
    xregs st2 X64_RAX = merge_width w (xregs st X64_RAX) (word_of_int q) \<and>
    xregs st2 X64_RDX = merge_width w (xregs st X64_RDX) (word_of_int r)"
  using assms by (cases is_signed) (auto simp: exec_unary_def touches_def temporaries_def)

text \<open>The dividend is the extended operand, the double-width number that fills \<^verbatim>\<open>rdx\<close>.\<close>

definition dividend :: "bool \<Rightarrow> nat \<Rightarrow> u64 \<Rightarrow> int" where
  "dividend is_signed w v = (if is_signed then signed_at w v else unsigned_at w v)"

lemma fill_rdx:
  assumes w: "w = 4 \<or> w = 8"
  shows "\<exists>st2. exec_lines [if is_signed then XLine (if w = 8 then ''cqo'' else ''cdq'') []
      else XLine ''xor'' [XReg X64_RDX 4, XReg X64_RDX 4]] st = Some st2 \<and> touches {X64_RDX} st st2 \<and>
    dividend is_signed w (xregs st2 X64_RDX) * 2 ^ (8 * w) + unsigned_at w (xregs st X64_RAX) =
    dividend is_signed w (xregs st X64_RAX)"
proof (cases is_signed)
  case True
  define fill :: u64 where "fill = (if signed_at w (xregs st X64_RAX) < 0 then - 1 else 0)"
  define st2 where "st2 = set_reg X64_RDX (merge_width w (xregs st X64_RDX) fill) st"
  have wok: "width_ok w" using w by auto
  have "exec_lines [XLine (if w = 8 then ''cqo'' else ''cdq'') []] st = Some st2"
    using w by (auto simp: sign_fill_def st2_def fill_def)
  moreover have "signed_at w (xregs st2 X64_RDX) = (if signed_at w (xregs st X64_RAX) < 0 then - 1 else 0)"
  proof -
    have "signed_at w (xregs st2 X64_RDX) = signed_at w fill"
      using signed_at_cong [OF _ low_merge [OF wok order_refl]] w by (auto simp: st2_def)
    also have "\<dots> = signed_at w (word_of_int (if signed_at w (xregs st X64_RAX) < 0 then - 1 else 0))"
      by (simp add: fill_def)
    also have "\<dots> = (if signed_at w (xregs st X64_RAX) < 0 then - 1 else 0)"
      using w by (intro signed_at_of_int) auto
    finally show ?thesis .
  qed
  ultimately show ?thesis
    using True sign_filled [OF wok] by (auto simp: dividend_def st2_def)
next
  case False
  have "exec_lines [XLine ''xor'' [XReg X64_RDX 4, XReg X64_RDX 4]] st =
      Some (set_reg X64_RDX (merge_width 4 (xregs st X64_RDX) 0) (no_flags st))"
    using exec_arithmetic [of "''xor''" "(XOR)" 4] by (simp add: arithmetic_def del: exec_lines.simps)
  then show ?thesis
    using False by (auto simp: dividend_def merge_width_def unsigned_at_def touches_def simp del: exec_lines.simps)
qed

lemma divide_value:
  assumes s: "width_ok s" and w: "w = at_least_32 s" and high: "dividend is_signed w h * 2 ^ (8 * w) + unsigned_at w l = A"
    and A: "A = dividend is_signed s a" and d: "dividend is_signed w d = dividend is_signed s b"
    and B: "dividend is_signed s b \<noteq> 0"
      "is_signed \<Longrightarrow> \<not> (signed_at s a = - (2 ^ (8 * s - 1)) \<and> signed_at s b = - 1)"
  shows "divide is_signed w h l (take_bit (8 * w) d) = Some (A sdiv dividend is_signed s b, A smod dividend is_signed s b)"
proof -
  have w0: "0 < w" "0 < s" "s \<le> w" using width_32 [OF s] width_okD [OF s] w by auto
  have D: "(if is_signed then signed_at w (take_bit (8 * w) d) else unsigned_at w (take_bit (8 * w) d)) = dividend is_signed s b"
    using d w0 by (simp add: dividend_def signed_at_low unsigned_at_low split: if_splits)
  have H: "(if is_signed then signed_at w h else unsigned_at w h) * 2 ^ (8 * w) + unsigned_at w l = A"
    using high by (simp add: dividend_def)
  have le: "(2 :: int) ^ (8 * s - 1) \<le> 2 ^ (8 * w - 1)" "(2 :: int) ^ (8 * s) \<le> 2 ^ (8 * w)"
    using w0 by (auto intro!: power_increasing)
  have "if is_signed then - (2 ^ (8 * w - 1)) \<le> A sdiv dividend is_signed s b \<and> A sdiv dividend is_signed s b < 2 ^ (8 * w - 1)
      else A sdiv dividend is_signed s b < 2 ^ (8 * w)"
  proof (cases is_signed)
    case True
    have "- (2 ^ (8 * s - 1)) \<le> signed_at s a sdiv signed_at s b \<and> signed_at s a sdiv signed_at s b < 2 ^ (8 * s - 1)"
      using True B by (intro quotient_fits signed_at_range [OF w0(2)]) (auto simp: dividend_def)
    then have "- (2 ^ (8 * w - 1)) \<le> signed_at s a sdiv signed_at s b \<and> signed_at s a sdiv signed_at s b < 2 ^ (8 * w - 1)"
      using le(1) by linarith
    then show ?thesis using True A by (simp add: dividend_def)
  next
    case False
    have "A sdiv dividend is_signed s b = A div dividend is_signed s b"
      using False A B(1) unsigned_at_range [of s a] unsigned_at_range [of s b]
      by (simp add: dividend_def signed_divide_int_def sgn_if)
    also have "\<dots> \<le> A" using False A B(1) unsigned_at_range [of s a] unsigned_at_range [of s b]
        zdiv_mono2 [of A 1 "dividend is_signed s b"] by (simp add: dividend_def)
    also have "\<dots> < 2 ^ (8 * w)"
      using False A less_le_trans [OF unsigned_at_range(2) [of s a] le(2)] by (simp add: dividend_def)
    finally show ?thesis using False by simp
  qed
  then show ?thesis using B(1) unfolding divide_def Let_def D H by simp
qed

lemma division_value:
  assumes op: "op \<in> set [IR_SDIV, IR_UDIV, IR_SREM, IR_UREM]" and v: "int_binop_value op s a b = Some v"
    and sg: "is_signed = (op = IR_SDIV \<or> op = IR_SREM)" and s: "0 < s"
  shows "dividend is_signed s b \<noteq> 0"
    and "is_signed \<Longrightarrow> \<not> (signed_at s a = - (2 ^ (8 * s - 1)) \<and> signed_at s b = - 1)"
    and "v = word_of_int (if op = IR_SREM \<or> op = IR_UREM then dividend is_signed s a smod dividend is_signed s b
                          else dividend is_signed s a sdiv dividend is_signed s b)"
proof -
  have u: "unsigned_at s a sdiv unsigned_at s b = unsigned_at s a div unsigned_at s b"
    "unsigned_at s a smod unsigned_at s b = unsigned_at s a mod unsigned_at s b"
    using unsigned_at_range [of s a] unsigned_at_range [of s b]
    by (auto simp: signed_divide_int_def signed_modulo_int_def sgn_if)
  show "dividend is_signed s b \<noteq> 0" "is_signed \<Longrightarrow> \<not> (signed_at s a = - (2 ^ (8 * s - 1)) \<and> signed_at s b = - 1)"
    "v = word_of_int (if op = IR_SREM \<or> op = IR_UREM then dividend is_signed s a smod dividend is_signed s b
                          else dividend is_signed s a sdiv dividend is_signed s b)"
    using op v sg by (auto simp: dividend_def u split: if_splits)
qed

lemma emit_divide:
  assumes op: "i_op inst \<in> set [IR_SDIV, IR_UDIV, IR_SREM, IR_UREM]"
    and places: "int_place x (i_a inst)" "int_place x (i_b inst)" "int_place x (i_dst inst)"
    and v: "ir_int_value x st inst = Some v"
  shows "emits to_float x n inst v st"
proof -
  let ?d = "x64_def x (i_dst inst) X64_R10" and ?a = "vreg_value x st (i_a inst)" and ?b = "vreg_value x st (i_b inst)"
  define is_signed where "is_signed = (i_op inst = IR_SDIV \<or> i_op inst = IR_SREM)"
  define is_rem where "is_rem = (i_op inst = IR_SREM \<or> i_op inst = IR_UREM)"
  define s where "s = x64_width (i_type inst)"
  define w where "w = at_least_32 s"
  have s: "width_ok s" by (simp add: s_def x64_width_ok)
  note w = width_32 [OF s, folded w_def]
  have w48: "w = 4 \<or> w = 8" unfolding w_def by (rule at_least_32_cases [OF s])
  have val: "int_binop_value (i_op inst) s ?a ?b = Some v"
    using op v by (auto simp: ir_int_value_def Let_def s_def split: if_splits)
  note D = division_value [OF op val is_signed_def conjunct1 [OF width_okD [OF s]], folded is_rem_def]
  from load_operand [OF places(1) disjI1 [OF refl]] obtain la ra where A: "x64_use x (i_a inst) X64_R10 = Some (la, ra)"
    "\<And>R st st1. touches R st st1 \<Longrightarrow> R \<subseteq> temporaries \<Longrightarrow>
       \<exists>st2. exec_lines la st1 = Some st2 \<and> touches {X64_R10} st1 st2 \<and> xregs st2 ra = vreg_value x st (i_a inst)" by blast
  from load_operand [OF places(2) disjI2 [OF refl]] obtain lb rb where B: "x64_use x (i_b inst) X64_R11 = Some (lb, rb)"
    "x64_loc x (i_b inst) = LOCATION_REG rb \<and> rb \<notin> temporaries \<or> rb = X64_R11"
    "\<And>R st st1. touches R st st1 \<Longrightarrow> R \<subseteq> temporaries \<Longrightarrow>
       \<exists>st2. exec_lines lb st1 = Some st2 \<and> touches {X64_R11} st1 st2 \<and> xregs st2 rb = vreg_value x st (i_b inst)" by blast
  from A(2) [of "{}" st st] obtain st1 where st1: "exec_lines la st = Some st1" "touches {X64_R10} st st1" "xregs st1 ra = ?a"
    by auto
  from extended_value [OF s, of X64_RAX ra is_signed st1, folded w_def] st1(3) obtain st2
    where st2: "exec_lines (x64_extend_to_32 X64_RAX ra s is_signed) st1 = Some st2" "touches {X64_RAX} st1 st2"
      "dividend is_signed w (xregs st2 X64_RAX) = dividend is_signed s ?a" by (auto simp: dividend_def)
  have t2: "touches {X64_R10, X64_RAX} st st2" by (rule touches_trans [OF st1(2) st2(2)]) auto
  from B(3) [OF t2] obtain st3 where st3: "exec_lines lb st2 = Some st3" "touches {X64_R11} st2 st3" "xregs st3 rb = ?b"
    by (auto simp: temporaries_def)
  define b' where "b' = (if s < 4 then X64_R11 else rb)"
  define extend where "extend = (if s < 4 then x64_extend_to_32 X64_R11 rb s is_signed else [])"
  obtain st4 where st4: "exec_lines extend st3 = Some st4" "touches {X64_R11} st3 st4"
    "dividend is_signed w (xregs st4 b') = dividend is_signed s ?b"
  proof (cases "s < 4")
    case True
    from extended_value [OF s, of X64_R11 rb is_signed st3, folded w_def] st3(3) obtain st4
      where "exec_lines (x64_extend_to_32 X64_R11 rb s is_signed) st3 = Some st4" "touches {X64_R11} st3 st4"
        "dividend is_signed w (xregs st4 X64_R11) = dividend is_signed s ?b" by (auto simp: dividend_def)
    then show ?thesis using that True by (simp add: extend_def b'_def)
  next
    case False
    then have "w = s" by (simp add: w_def at_least_32_def)
    then show ?thesis using that [of st3] False st3(3) by (simp add: extend_def b'_def)
  qed
  have b': "b' \<noteq> X64_RDX" using B(2) by (auto simp: b'_def temporaries_def)
  define fill where "fill = (if is_signed then XLine (if w = 8 then ''cqo'' else ''cdq'') []
      else XLine ''xor'' [XReg X64_RDX 4, XReg X64_RDX 4])"
  from fill_rdx [OF w48, of is_signed st4, folded fill_def] obtain st5 where st5: "exec_lines [fill] st4 = Some st5"
    "touches {X64_RDX} st4 st5"
    "dividend is_signed w (xregs st5 X64_RDX) * 2 ^ (8 * w) + unsigned_at w (xregs st4 X64_RAX) =
      dividend is_signed w (xregs st4 X64_RAX)" by blast
  have rax: "xregs st4 X64_RAX = xregs st2 X64_RAX" "xregs st5 X64_RAX = xregs st4 X64_RAX"
    using touchesD [OF st3(2)] touchesD [OF st4(2)] touchesD [OF st5(2)] by simp_all
  have b5: "xregs st5 b' = xregs st4 b'" using touchesD [OF st5(2)] b' by simp
  define q where "q = dividend is_signed s ?a sdiv dividend is_signed s ?b"
  define r where "r = dividend is_signed s ?a smod dividend is_signed s ?b"
  have "divide is_signed w (xregs st5 X64_RDX) (xregs st5 X64_RAX) (take_bit (8 * w) (xregs st5 b')) = Some (q, r)"
    unfolding q_def r_def
  proof (rule divide_value [OF s w_def _ refl _ D(1,2)])
    show "dividend is_signed w (xregs st5 X64_RDX) * 2 ^ (8 * w) + unsigned_at w (xregs st5 X64_RAX) = dividend is_signed s ?a"
      using st5(3) rax st2(3) by simp
    show "dividend is_signed w (xregs st5 b') = dividend is_signed s ?b" using b5 st4(3) by simp
  qed
  from exec_divide [OF w(1) this refl] obtain st6
    where st6: "exec_lines [XLine (if is_signed then ''idiv'' else ''div'') [XReg b' w]] st5 = Some st6"
      "touches temporaries st5 st6" "xregs st6 X64_RAX = merge_width w (xregs st5 X64_RAX) (word_of_int q)"
      "xregs st6 X64_RDX = merge_width w (xregs st5 X64_RDX) (word_of_int r)" by blast
  define from_reg where "from_reg = (if is_rem then X64_RDX else X64_RAX)"
  define st7 where "st7 = set_reg ?d (merge_width w (xregs st6 ?d) (take_bit (8 * w) (xregs st6 from_reg))) st6"
  have run7: "exec_lines [XLine ''mov'' [XReg ?d w, XReg from_reg w]] st6 = Some st7"
    by (simp only: exec_reg_mov [OF w(1)] st7_def)
  have vi: "v = word_of_int (if is_rem then r else q)" using D(3) by (simp add: q_def r_def)
  have "take_bit (8 * s) (xregs st6 from_reg) = take_bit (8 * s) v"
    using low_merge [OF w] st6(3,4) vi by (simp add: from_reg_def)
  then have low: "take_bit (8 * s) (xregs st7 ?d) = take_bit (8 * s) v"
    using low_merge [OF w] low_low [OF w(2)] by (simp add: st7_def)
  define core where "core = la @ x64_extend_to_32 X64_RAX ra s is_signed @ lb @ extend @
    [fill, XLine (if is_signed then ''idiv'' else ''div'') [XReg b' w], XLine ''mov'' [XReg ?d w, XReg from_reg w]]"
  have run: "exec_lines core st = Some st7"
    unfolding core_def exec_lines_append exec_lines_split
    by (simp only: st1(1) st2(1) st3(1) st4(1) st5(1) st6(1) run7 Option.bind.simps)
  have sub: "{X64_R10, X64_RAX} \<subseteq> temporaries" "{X64_R11} \<subseteq> temporaries" "{X64_RDX} \<subseteq> temporaries"
    by (simp_all add: temporaries_def)
  note t3 = touches_trans [OF t2 st3(2) sub(1,2)]
  note t4 = touches_trans [OF t3 st4(2) subset_refl sub(2)]
  note t5 = touches_trans [OF t4 st5(2) subset_refl sub(3)]
  have "touches (insert ?d temporaries) st st6" by (rule touches_trans [OF t5 st6(2)]) auto
  then have "touches (insert ?d temporaries) st st7" by (simp add: st7_def)
  from computes_finish [OF places(3) run this low]
  have c: "computes x (i_dst inst) s v st (core @ x64_finish_def x (i_dst inst) ?d)" .
  have "x64_emit_divide x inst = Some (core @ x64_finish_def x (i_dst inst) ?d)"
    using A(1) B(1)
    by (simp add: x64_emit_divide_def Let_def core_def fill_def b'_def extend_def from_reg_def is_rem_def is_signed_def w_def s_def)
  moreover have "x64_emit_inst to_float x inst n = unchanged n (x64_emit_divide x inst)"
    using op by (auto simp: x64_emit_inst_def)
  moreover have "result_size inst = s" using op by (auto simp: result_size_def s_def)
  ultimately show ?thesis using c by (simp add: emits_def)
qed

section \<open>Every integer instruction\<close>

definition reads_a :: "ir_op \<Rightarrow> bool" where
  "reads_a op \<longleftrightarrow> op \<notin> set [IR_CONST, IR_SLOT_ADDR, IR_GLOBAL_ADDR]"

definition reads_b :: "ir_op \<Rightarrow> bool" where
  "reads_b op \<longleftrightarrow> reads_a op \<and> op \<notin> set [IR_COPY, IR_NEG, IR_NOT, IR_SEXT, IR_ZEXT, IR_TRUNC]"

text \<open>The operands and the destination have places, and the destination is not in the place of the second
  operand, as \<open>live_registers_apart\<close> has it for the allocator.\<close>

definition places_ok :: "x64_emitter \<Rightarrow> ir_inst \<Rightarrow> bool" where
  "places_ok x inst \<longleftrightarrow>
     int_place x (i_dst inst) \<and> (reads_a (i_op inst) \<longrightarrow> int_place x (i_a inst)) \<and>
     (reads_b (i_op inst) \<longrightarrow> int_place x (i_b inst) \<and> x64_loc x (i_dst inst) \<noteq> x64_loc x (i_b inst))"

lemma emit_integer:
  assumes p: "places_ok x inst" and v: "ir_int_value x st inst = Some v"
  shows "emits to_float x n inst v st"
proof -
  have dst: "int_place x (i_dst inst)" using p by (simp add: places_ok_def)
  have a: "int_place x (i_a inst)" if "reads_a (i_op inst)" using p that by (simp add: places_ok_def)
  have b: "int_place x (i_b inst)" "x64_loc x (i_dst inst) \<noteq> x64_loc x (i_b inst)" if "reads_b (i_op inst)"
    using p that by (simp_all add: places_ok_def)
  note reads = reads_a_def reads_b_def
  consider "i_op inst = IR_CONST" | "i_op inst = IR_SLOT_ADDR" | "i_op inst = IR_GLOBAL_ADDR" | "i_op inst = IR_COPY"
    | "i_op inst = IR_PTR_ADD" | "i_op inst = IR_NEG \<or> i_op inst = IR_NOT" | "i_op inst = IR_ICMP"
    | "i_op inst \<in> set [IR_SEXT, IR_ZEXT, IR_TRUNC]"
    | "i_op inst \<in> set [IR_ADD, IR_SUB, IR_MUL, IR_AND, IR_OR, IR_XOR]"
    | "i_op inst \<in> set [IR_SDIV, IR_UDIV, IR_SREM, IR_UREM]" | "i_op inst \<in> set [IR_SHL, IR_LSHR, IR_ASHR]"
    using v by (cases "i_op inst") (simp_all add: ir_int_value_def Let_def split: if_splits)
  then show ?thesis
  proof cases
    case 1
    then show ?thesis using emit_const dst v by blast
  next
    case 2
    have inst: "x64_emit_inst to_float x inst n =
        Some (x64_emit_addr x inst (XMem '''' X64_RBP (Some (x_slot_offsets x ! nat (i_imm inst)))), n)"
      using 2 by (simp add: x64_emit_inst_def)
    show ?thesis
      using 2 v by (intro emit_address [OF dst _ inst]) (simp add: ir_int_value_def Let_def split: if_splits)
  next
    case 3
    have inst: "x64_emit_inst to_float x inst n =
        Some (x64_emit_addr x inst (XRel '''' (x64_symbol x (i_imm inst)) None), n)"
      using 3 by (simp add: x64_emit_inst_def)
    show ?thesis
      using 3 v by (intro emit_address [OF dst _ inst]) (simp add: ir_int_value_def Let_def split: if_splits)
  next
    case 4
    then show ?thesis using emit_copy a dst v by (simp add: reads)
  next
    case 5
    then show ?thesis using emit_ptr_add a b dst v by (simp add: reads)
  next
    case 6
    then show ?thesis using emit_unop a dst v by (auto simp: reads)
  next
    case 7
    then show ?thesis using emit_icmp a b dst v by (simp add: reads)
  next
    case 8
    then show ?thesis using emit_int_conversion a dst v by (auto simp: reads)
  next
    case 9
    then show ?thesis using emit_int_binop a b dst v by (auto simp: reads)
  next
    case 10
    then show ?thesis using emit_divide a b(1) dst v by (auto simp: reads)
  next
    case 11
    then show ?thesis using emit_shift a b(1) dst v by (auto simp: reads)
  qed
qed

text \<open>C11: the code of every integer instruction computes it. When the instruction has a value in a state
  of the machine, code is emitted for it, the code runs from that state, and leaves the value, in the
  bytes of the type, in the place of the destination; no register but the destination and the reserved
  temporaries and no byte of memory but the spill slot of the destination is changed.\<close>

theorem integer_code_correct:
  assumes "places_ok x inst" and "ir_int_value x st inst = Some v"
  shows "\<exists>ls st'. x64_emit_inst to_float x inst n = Some (ls, n) \<and> exec_lines ls st = Some st' \<and>
    take_bit (8 * result_size inst) (vreg_value x st' (i_dst inst)) = take_bit (8 * result_size inst) v \<and>
    keeps_others x (i_dst inst) st st'"
  using emit_integer [OF assms] unfolding emits_def computes_def by blast

text \<open>A division of bytes, from a spill slot and a register, into a register.\<close>

definition example_emitter :: x64_emitter where
  "example_emitter =
     \<lparr>x_module = ir_module_new,
      x_func = \<lparr>f_name = ''f'', f_global = 0, f_is_entry_point = False, f_return_type = IR_I8,
                f_vreg_types = [IR_I8, IR_I8, IR_I8], f_params = [0, 1], f_slots = [], f_layout = [], f_made = []\<rparr>,
      x_ra = \<lparr>ra_vreg_count = 3, ra_locations = [LOCATION_SPILL 0, LOCATION_REG X64_R8, LOCATION_REG X64_R9],
              ra_intervals = [], spill_slot_count = 1, used_callee_saved = [], ra_inst_positions = []\<rparr>,
      x_slot_offsets = [], x_spill_base = - 8, x_frame_size = 16, x_saved_offset = [], x_next_block = None\<rparr>"

definition example_division :: ir_inst where
  "example_division =
     \<lparr>i_op = IR_SDIV, i_type = IR_I8, i_cmp = IR_CMP_NONE, i_dst = 2, i_a = 0, i_b = 1,
      i_addr = \<lparr>addr_kind = IR_ADDR_NONE, addr_base = 0, addr_offset = 0\<rparr>, i_imm = 0, i_imm2 = 0, i_fimm = 0,
      i_call = \<lparr>callee_kind = IR_CALLEE_DIRECT, callee = 0, call_return_type = IR_VOID, call_args = [], arg_is_vararg = []\<rparr>,
      i_line = 0, i_scope = 0\<rparr>"

definition division_state :: x64_state where
  "division_state = set_reg X64_R8 (- 2) (swap_state\<lparr>xmem := store_bytes 8 8184 100 (\<lambda>a. 0)\<rparr>)"

lemma example_places: "places_ok example_emitter example_division"
  by (simp add: places_ok_def int_place_def x64_loc_def example_emitter_def example_division_def x64_target_def
      reads_a_def reads_b_def)

lemma example_value: "ir_int_value example_emitter division_state example_division = Some (- 50)"
proof -
  have "vreg_value example_emitter division_state 0 = 100"
    by (simp add: vreg_value_def move_vreg_def x64_loc_def example_emitter_def division_state_def x64_spill_offset_def
        swap_state_def load_store_same)
  moreover have "vreg_value example_emitter division_state 1 = - 2"
    by (simp add: vreg_value_def move_vreg_def x64_loc_def example_emitter_def division_state_def)
  ultimately show ?thesis
    by (simp add: ir_int_value_def example_division_def Let_def x64_width_def signed_at_def ir_type_is_float_def
        signed_take_bit_int_eq_self)
qed

lemma integer_code_correct_witness:
  "\<exists>ls st'. x64_emit_inst (\<lambda>b. 0) example_emitter example_division
      \<lparr>float_constants = [], next_local_label = 0\<rparr> = Some (ls, \<lparr>float_constants = [], next_local_label = 0\<rparr>) \<and>
    exec_lines ls division_state = Some st' \<and>
    take_bit 8 (vreg_value example_emitter st' 2) = take_bit 8 (- 50) \<and> xregs st' X64_R8 = - 2"
proof -
  obtain ls st' where r: "x64_emit_inst (\<lambda>b. 0) example_emitter example_division
      \<lparr>float_constants = [], next_local_label = 0\<rparr> = Some (ls, \<lparr>float_constants = [], next_local_label = 0\<rparr>)"
      "exec_lines ls division_state = Some st'"
      "take_bit (8 * result_size example_division) (vreg_value example_emitter st' (i_dst example_division)) =
        take_bit (8 * result_size example_division) (- 50)"
      "keeps_others example_emitter (i_dst example_division) division_state st'"
    using integer_code_correct [OF example_places example_value] by blast
  have "xregs st' X64_R8 = - 2"
    using r(4) by (simp add: keeps_others_def temporaries_def example_division_def x64_loc_def example_emitter_def
        division_state_def)
  then show ?thesis
    using r(1-3) by (simp add: result_size_def example_division_def x64_width_def)
qed

end
