(* ===== verification/X64Memory.thy ===== *)
theory X64Memory
  imports X64Correct
begin

text \<open>
  The integer loads and stores: the code of \<^verbatim>\<open>x64_address\<close>, \<^verbatim>\<open>x64_emit_load\<close> and \<^verbatim>\<open>x64_emit_store\<close> against
  the bytes of the memory, with the three kinds of address of \<^verbatim>\<open>ir.h\<close>: a slot of the frame, a global and
  a register, each with an offset.
\<close>

section \<open>Addresses\<close>

definition ir_address :: "x64_emitter \<Rightarrow> x64_state \<Rightarrow> ir_addr \<Rightarrow> u64" where
  "ir_address x st addr =
     (case addr_kind addr of
        IR_ADDR_SLOT \<Rightarrow> xregs st X64_RBP + word_of_int (x_slot_offsets x ! nat (addr_base addr))
      | IR_ADDR_GLOBAL \<Rightarrow> xsyms st (x64_symbol x (addr_base addr))
      | IR_ADDR_VREG \<Rightarrow> vreg_value x st (addr_base addr)
      | IR_ADDR_NONE \<Rightarrow> 0) + word_of_int (addr_offset addr)"

definition addr_place :: "x64_emitter \<Rightarrow> ir_addr \<Rightarrow> bool" where
  "addr_place x addr \<longleftrightarrow>
     (case addr_kind addr of
        IR_ADDR_VREG \<Rightarrow> int_place x (addr_base addr)
      | IR_ADDR_NONE \<Rightarrow> False
      | _ \<Rightarrow> True)"

definition is_memory :: "x64_operand \<Rightarrow> string \<Rightarrow> bool" where
  "is_memory operand keyword \<longleftrightarrow> (case operand of XMem k _ _ \<Rightarrow> k = keyword | XRel k _ _ \<Rightarrow> k = keyword | _ \<Rightarrow> False)"

lemma address_runs:
  assumes "addr_place x addr"
  shows "\<exists>ls operand. x64_address x addr X64_R11 keyword = Some (ls, operand) \<and> is_memory operand keyword \<and>
    (\<forall>R st st1. touches R st st1 \<longrightarrow> R \<subseteq> temporaries \<longrightarrow>
       (\<exists>st2. exec_lines ls st1 = Some st2 \<and> touches {X64_R11} st1 st2 \<and>
              operand_address operand st2 = Some (ir_address x st addr)))"
proof (cases "addr_kind addr")
  case IR_ADDR_VREG
  then have "int_place x (addr_base addr)" using assms by (simp add: addr_place_def)
  from load_operand [OF this disjI2 [OF refl]] obtain ls r
    where u: "x64_use x (addr_base addr) X64_R11 = Some (ls, r)"
      "\<And>R st st1. touches R st st1 \<Longrightarrow> R \<subseteq> temporaries \<Longrightarrow>
         \<exists>st2. exec_lines ls st1 = Some st2 \<and> touches {X64_R11} st1 st2 \<and> xregs st2 r = vreg_value x st (addr_base addr)"
    by blast
  let ?operand = "XMem keyword r (if addr_offset addr \<noteq> 0 then Some (addr_offset addr) else None)"
  have "x64_address x addr X64_R11 keyword = Some (ls, ?operand)"
    using IR_ADDR_VREG u(1) by (simp add: x64_address_def)
  moreover have "\<exists>st2. exec_lines ls st1 = Some st2 \<and> touches {X64_R11} st1 st2 \<and>
      operand_address ?operand st2 = Some (ir_address x st addr)"
    if "touches R st st1" "R \<subseteq> temporaries" for R st st1
    using u(2) [OF that] IR_ADDR_VREG by (auto simp: ir_address_def)
  ultimately show ?thesis by (force simp: is_memory_def)
next
  case IR_ADDR_SLOT
  let ?operand = "XMem keyword X64_RBP (Some (x_slot_offsets x ! nat (addr_base addr) + addr_offset addr))"
  have "operand_address ?operand st1 = Some (ir_address x st addr)" if "touches R st st1" "R \<subseteq> temporaries" for R st st1
  proof -
    have "X64_RBP \<notin> R" using that(2) by (auto simp: temporaries_def)
    then show ?thesis using touchesD [OF that(1)] IR_ADDR_SLOT by (simp add: ir_address_def)
  qed
  moreover have "x64_address x addr X64_R11 keyword = Some ([], ?operand)"
    using IR_ADDR_SLOT by (simp add: x64_address_def)
  ultimately show ?thesis by (force simp: is_memory_def)
next
  case IR_ADDR_GLOBAL
  let ?operand = "XRel keyword (x64_symbol x (addr_base addr)) (if addr_offset addr \<noteq> 0 then Some (addr_offset addr) else None)"
  have "operand_address ?operand st1 = Some (ir_address x st addr)" if "touches R st st1" for R st st1
    using that IR_ADDR_GLOBAL by (simp add: ir_address_def touches_def)
  moreover have "x64_address x addr X64_R11 keyword = Some ([], ?operand)"
    using IR_ADDR_GLOBAL by (simp add: x64_address_def)
  ultimately show ?thesis by (force simp: is_memory_def)
qed (use assms in \<open>simp add: addr_place_def\<close>)

lemma keyword_of_width: "width_ok w \<Longrightarrow> keyword_width (x64_size_keyword w) = Some w"
  by (auto simp: width_ok_def x64_size_keyword_def keyword_width_def)

lemma memory_operand:
  assumes "is_memory operand (x64_size_keyword w)" and "width_ok w" and "operand_address operand st = Some a"
  shows "operand_width operand = Some w" "read_operand k operand st = Some (load_bytes k a (xmem st))"
    "write_operand k operand v st = Some (st\<lparr>xmem := store_bytes k a v (xmem st)\<rparr>)"
  using assms keyword_of_width by (cases operand; simp add: is_memory_def; fail)+

section \<open>Loads\<close>

lemma low_load: "n \<le> 8 \<Longrightarrow> take_bit (8 * n) (load_bytes n a m) = load_bytes n a m"
  by (rule bit_word_eqI) (auto simp: bit_load_bytes bit_simps)

lemma exec_load:
  assumes "is_memory operand (x64_size_keyword w)" and "width_ok w" and "operand_address operand st = Some a"
  shows "\<exists>st2. exec_lines [if w < 4 then XLine ''movzx'' [XReg d 4, operand] else XLine ''mov'' [XReg d w, operand]] st =
      Some st2 \<and> touches {d} st st2 \<and> take_bit (8 * w) (xregs st2 d) = load_bytes w a (xmem st)"
proof -
  note m = memory_operand [OF assms]
  have w: "w \<le> 8" using width_okD [OF assms(2)] by simp
  show ?thesis
  proof (cases "w < 4")
    case True
    have "exec_lines [XLine ''movzx'' [XReg d 4, operand]] st =
        Some (set_reg d (merge_width 4 (xregs st d) (load_bytes w a (xmem st))) st)"
      using m by (simp add: exec_binary_def)
    moreover have "take_bit (8 * w) (merge_width 4 (xregs st d) (load_bytes w a (xmem st))) = load_bytes w a (xmem st)"
      using low_merge [of 4 w] low_load [OF w] True by simp
    ultimately show ?thesis using True by simp
  next
    case False
    have "exec_lines [XLine ''mov'' [XReg d w, operand]] st =
        Some (set_reg d (merge_width w (xregs st d) (load_bytes w a (xmem st))) st)"
      using m assms(2) by (simp add: exec_binary_def pair_width_def)
    moreover have "take_bit (8 * w) (merge_width w (xregs st d) (load_bytes w a (xmem st))) = load_bytes w a (xmem st)"
      using low_merge [OF assms(2) order_refl] low_load [OF w] by simp
    ultimately show ?thesis using False by simp
  qed
qed

lemma emit_load:
  assumes op: "i_op inst = IR_LOAD" and type: "\<not> ir_type_is_float (i_type inst)"
    and dst: "int_place x (i_dst inst)" and addr: "addr_place x (i_addr inst)"
  shows "emits to_float x n inst (load_bytes (x64_width (i_type inst)) (ir_address x st (i_addr inst)) (xmem st)) st"
proof -
  let ?w = "x64_width (i_type inst)" and ?d = "x64_def x (i_dst inst) X64_R10"
  obtain ls operand where a: "x64_address x (i_addr inst) X64_R11 (x64_size_keyword ?w) = Some (ls, operand)"
    "is_memory operand (x64_size_keyword ?w)"
    "\<And>R st st1. touches R st st1 \<Longrightarrow> R \<subseteq> temporaries \<Longrightarrow> \<exists>st2. exec_lines ls st1 = Some st2 \<and>
       touches {X64_R11} st1 st2 \<and> operand_address operand st2 = Some (ir_address x st (i_addr inst))"
    using address_runs [OF addr] by blast
  from a(3) [of "{}" st st] obtain st1 where st1: "exec_lines ls st = Some st1" "touches {X64_R11} st st1"
    "operand_address operand st1 = Some (ir_address x st (i_addr inst))" by auto
  let ?line = "if ?w < 4 then XLine ''movzx'' [XReg ?d 4, operand] else XLine ''mov'' [XReg ?d ?w, operand]"
  from exec_load [OF a(2) x64_width_ok st1(3)] obtain st2 where st2: "exec_lines [?line] st1 = Some st2"
    "touches {?d} st1 st2" "take_bit (8 * ?w) (xregs st2 ?d) = load_bytes ?w (ir_address x st (i_addr inst)) (xmem st1)"
    by blast
  have mem: "xmem st1 = xmem st" using st1(2) by (simp add: touches_def)
  have "touches (insert ?d temporaries) st st2"
    by (rule touches_trans [OF st1(2) st2(2)]) (auto simp: temporaries_def)
  moreover have "exec_lines (ls @ [?line]) st = Some st2"
    using st1(1) st2(1) by (simp only: exec_lines_append Option.bind.simps)
  moreover have "take_bit (8 * ?w) (load_bytes ?w a m) = load_bytes ?w a m" for a m
    using low_load width_okD [OF x64_width_ok] by simp
  ultimately have "computes x (i_dst inst) ?w (load_bytes ?w (ir_address x st (i_addr inst)) (xmem st)) st
      ((ls @ [?line]) @ x64_finish_def x (i_dst inst) ?d)"
    using st2(3) mem by (intro computes_finish [OF dst]) simp_all
  moreover have "x64_emit_inst to_float x inst n = Some (((ls @ [?line]) @ x64_finish_def x (i_dst inst) ?d), n)"
    using op type a(1) by (simp add: x64_emit_inst_def x64_emit_load_def Let_def del: append_assoc)
  moreover have "result_size inst = ?w" using op by (simp add: result_size_def)
  ultimately show ?thesis unfolding emits_def by auto
qed

section \<open>Stores\<close>

lemma store_low: "store_bytes w a (take_bit (8 * w) v) m = store_bytes w a v m"
proof -
  have "ucast (drop_bit (8 * k) (take_bit (8 * w) v)) = (ucast (drop_bit (8 * k) v) :: u8)" if "k < w" for k
    using that by (intro bit_word_eqI) (auto simp: bit_simps)
  then show ?thesis by (auto simp: store_bytes_def)
qed

lemma emit_store:
  assumes op: "i_op inst = IR_STORE" and type: "\<not> ir_type_is_float (i_type inst)"
    and a: "int_place x (i_a inst)" and addr: "addr_place x (i_addr inst)"
  shows "\<exists>ls st'. x64_emit_inst to_float x inst n = Some (ls, n) \<and> exec_lines ls st = Some st' \<and>
    (\<forall>r. r \<notin> temporaries \<longrightarrow> xregs st' r = xregs st r) \<and>
    xmem st' = store_bytes (x64_width (i_type inst)) (ir_address x st (i_addr inst)) (vreg_value x st (i_a inst)) (xmem st)"
proof -
  let ?w = "x64_width (i_type inst)" and ?v = "vreg_value x st (i_a inst)" and ?p = "ir_address x st (i_addr inst)"
  from load_operand [OF a disjI1 [OF refl]] obtain la ra where A: "x64_use x (i_a inst) X64_R10 = Some (la, ra)"
    "x64_loc x (i_a inst) = LOCATION_REG ra \<and> ra \<notin> temporaries \<or> ra = X64_R10"
    "\<And>R st st1. touches R st st1 \<Longrightarrow> R \<subseteq> temporaries \<Longrightarrow>
       \<exists>st2. exec_lines la st1 = Some st2 \<and> touches {X64_R10} st1 st2 \<and> xregs st2 ra = vreg_value x st (i_a inst)" by blast
  obtain ls operand where p: "x64_address x (i_addr inst) X64_R11 (x64_size_keyword ?w) = Some (ls, operand)"
    "is_memory operand (x64_size_keyword ?w)"
    "\<And>R st st1. touches R st st1 \<Longrightarrow> R \<subseteq> temporaries \<Longrightarrow> \<exists>st2. exec_lines ls st1 = Some st2 \<and>
       touches {X64_R11} st1 st2 \<and> operand_address operand st2 = Some (ir_address x st (i_addr inst))"
    using address_runs [OF addr] by blast
  from A(3) [of "{}" st st] obtain st1 where st1: "exec_lines la st = Some st1" "touches {X64_R10} st st1"
    "xregs st1 ra = ?v" by auto
  have "{X64_R10} \<subseteq> temporaries" by (simp add: temporaries_def)
  from p(3) [OF st1(2) this] obtain st2 where st2: "exec_lines ls st1 = Some st2" "touches {X64_R11} st1 st2"
    "operand_address operand st2 = Some ?p" by blast
  have ra: "xregs st2 ra = ?v"
    using st1(3) touchesD [OF st2(2), of ra] A(2) by (auto simp: temporaries_def)
  have t: "touches temporaries st st2"
    by (rule touches_trans [OF st1(2) st2(2)]) (auto simp: temporaries_def)
  have "exec_lines [XLine ''mov'' [operand, XReg ra ?w]] st2 = Some (st2\<lparr>xmem := store_bytes ?w ?p ?v (xmem st2)\<rparr>)"
    using memory_operand [OF p(2) x64_width_ok st2(3)] ra x64_width_ok store_low
    by (simp add: exec_binary_def pair_width_def)
  then have run: "exec_lines (la @ ls @ [XLine ''mov'' [operand, XReg ra ?w]]) st = Some (st2\<lparr>xmem := store_bytes ?w ?p ?v (xmem st2)\<rparr>)"
    using st1(1) st2(1) by (simp only: exec_lines_append Option.bind.simps)
  have inst: "x64_emit_inst to_float x inst n = Some (la @ ls @ [XLine ''mov'' [operand, XReg ra ?w]], n)"
    using op type A(1) p(1) by (simp add: x64_emit_inst_def x64_emit_store_def Let_def)
  show ?thesis
    using run inst t by (force simp: touches_def)
qed

end
