(* ===== verification/X64Frame.thy ===== *)
theory X64Frame
  imports X64Emit
begin

text \<open>
  The frame of a function in the x64 backend \<^verbatim>\<open>src/src/x64_emit.c\<close>, and the code of the whole
  function: its prologue with the probes of a big frame, the moves of its parameters, its blocks with the
  labels for the debug information, its terminators and its epilogue. The frame is shown to be laid
  out without overlaps: the saved registers, the slots, the spill slots and the area of the outgoing
  arguments follow each other, are inside the frame and aligned.
\<close>

section \<open>The frame\<close>

definition align_to :: "int \<Rightarrow> int \<Rightarrow> int" where
  "align_to i alignment = (i + alignment - 1) div alignment * alignment"

definition is_used :: "regalloc_result \<Rightarrow> nat \<Rightarrow> bool" where
  "is_used ra r \<longleftrightarrow> used_callee_saved ra ! r"

text \<open>The depth below \<^verbatim>\<open>rbp\<close>, and the offsets of the saved registers or of the slots.\<close>

definition save_xmm :: "regalloc_result \<Rightarrow> int \<times> int list \<Rightarrow> nat \<Rightarrow> int \<times> int list" where
  "save_xmm ra = (\<lambda>(depth, saved) r.
     if \<not> is_used ra r then (depth, saved)
     else let depth = align_to (depth + 16) 16 in (depth, saved[r := - depth]))"

definition save_gpr :: "regalloc_result \<Rightarrow> int \<times> int list \<Rightarrow> nat \<Rightarrow> int \<times> int list" where
  "save_gpr ra = (\<lambda>(depth, saved) r.
     if \<not> is_used ra r then (depth, saved) else (depth + 8, saved[r := - (depth + 8)]))"

definition slot_align :: "ir_slot \<Rightarrow> int" where
  "slot_align slot = (if 16 < s_align slot then 16 else s_align slot)"

definition place_slot :: "int \<times> int list \<Rightarrow> ir_slot \<Rightarrow> int \<times> int list" where
  "place_slot = (\<lambda>(depth, offsets) slot.
     let depth = align_to (depth + s_size slot) (slot_align slot) in (depth, offsets @ [- depth]))"

definition max_args_inst :: "int \<Rightarrow> ir_inst \<Rightarrow> int" where
  "max_args_inst max_args inst =
     (let max_args = (if i_op inst = IR_CALL \<and> max_args < int (length (call_args (i_call inst)))
                      then int (length (call_args (i_call inst))) else max_args)
      in if (i_op inst = IR_MEMCPY \<or> i_op inst = IR_MEMSET) \<and> max_args < 3 then 3 else max_args)"

definition max_call_args :: "ir_function \<Rightarrow> int" where
  "max_call_args func =
     foldl (\<lambda>m b. foldl max_args_inst m (b_insts (block_at func b))) (- 1) [0..<block_count func]"

definition outgoing_size :: "ir_function \<Rightarrow> int" where
  "outgoing_size func =
     (let max_args = max_call_args func
      in if 0 \<le> max_args then 32 + 8 * (if 4 < max_args then max_args - 4 else 0) else 0)"

definition x64_layout_frame :: "x64_emitter \<Rightarrow> x64_emitter" where
  "x64_layout_frame x =
     (let (depth, saved) = foldl (save_xmm (x_ra x)) (0, x_saved_offset x) [X64_XMM0..<Suc X64_XMM15];
          (depth, saved) = foldl (save_gpr (x_ra x)) (depth, saved) [0..<16];
          (depth, offsets) = foldl place_slot (depth, []) (f_slots (x_func x));
          depth = align_to depth 8;
          base = - (depth + 8);
          depth = depth + 8 * int (spill_slot_count (x_ra x))
      in x\<lparr>x_saved_offset := saved, x_slot_offsets := offsets, x_spill_base := base,
            x_frame_size := align_to depth 16 + align_to (outgoing_size (x_func x)) 16\<rparr>)"

section \<open>Prologue, epilogue and terminators\<close>

definition used_regs :: "regalloc_result \<Rightarrow> nat list" where
  "used_regs ra = filter (is_used ra) [0..<X64_REG_COUNT]"

definition x64_emit_epilogue :: "x64_emitter \<Rightarrow> x64_line list" where
  "x64_emit_epilogue x =
     map (\<lambda>r. XLine (if x64_is_xmm r then ''movaps'' else ''mov'')
                [XReg r 8, XMem '''' X64_RBP (Some (x_saved_offset x ! r))]) (used_regs (x_ra x)) @
     [XLine ''leave'' [], XLine ''ret'' []]"

text \<open>The probes of a frame of a page or more, which touch every page in order.\<close>

definition x64_allocate_frame :: "int \<Rightarrow> x64_line list" where
  "x64_allocate_frame frame_size =
     (if 4096 \<le> frame_size
      then [XLine ''mov'' [XReg X64_R11 4, XImm (frame_size div 4096)],
            XLabel ''.Lstack_probe'',
            XLine ''sub'' [XReg X64_RSP 8, XImm 4096],
            XLine ''mov'' [XMem ''qword'' X64_RSP None, XImm 0],
            XLine ''dec'' [XReg X64_R11 4],
            XLine ''jnz'' [XName ''.Lstack_probe'']] @
           (if frame_size mod 4096 \<noteq> 0 then [XLine ''sub'' [XReg X64_RSP 8, XImm (frame_size mod 4096)]] else [])
      else if 0 < frame_size then [XLine ''sub'' [XReg X64_RSP 8, XImm frame_size]] else [])"

definition x64_emit_prologue :: "x64_emitter \<Rightarrow> x64_line list" where
  "x64_emit_prologue x =
     [XLine ''push'' [XReg X64_RBP 8], XLine ''mov'' [XReg X64_RBP 8, XReg X64_RSP 8]] @
     x64_allocate_frame (x_frame_size x) @
     map (\<lambda>r. XLine (if x64_is_xmm r then ''movaps'' else ''mov'')
                [XMem '''' X64_RBP (Some (x_saved_offset x ! r)), XReg r 8]) (used_regs (x_ra x))"

text \<open>Where a parameter arrives, and the moves of the parameters that are used, at most 64.\<close>

definition param_source :: "x64_emitter \<Rightarrow> nat \<Rightarrow> int \<Rightarrow> move_operand" where
  "param_source x i vreg =
     (if i < 4
      then MOVE_REG (if ir_type_is_float (x64_vtype x vreg) then X64_XMM0 + i else x64_gpr_arg_regs ! i)
      else MOVE_MEM X64_RBP (16 + 8 * int i))"

definition is_unused :: "x64_emitter \<Rightarrow> int \<Rightarrow> bool" where
  "is_unused x vreg \<longleftrightarrow> (let iv = ra_intervals (x_ra x) ! nat vreg in iv_end iv < iv_start iv)"

definition x64_param_moves :: "x64_emitter \<Rightarrow> x64_move list" where
  "x64_param_moves x =
     (let params = f_params (x_func x) in
      take 64 (map (\<lambda>i. new_move (move_vreg x (params ! i)) (param_source x i (params ! i)))
                (filter (\<lambda>i. \<not> is_unused x (params ! i)) [0..<length params])))"

definition block_label :: "ir_block \<Rightarrow> string" where
  "block_label block = ''.L'' @ decimal (b_id block)"

definition target_label :: "x64_emitter \<Rightarrow> nat \<Rightarrow> string" where
  "target_label x target = block_label (f_made (x_func x) ! target)"

definition x64_emit_terminator :: "x64_emitter \<Rightarrow> ir_term \<Rightarrow> x64_line list option" where
  "x64_emit_terminator x tm =
     (case t_kind tm of
        IR_TERM_JMP \<Rightarrow> do {
          target \<leftarrow> t_target tm;
          Some (if Some target \<noteq> x_next_block x then [XLine ''jmp'' [XName (target_label x target)]] else [])
        }
      | IR_TERM_BR \<Rightarrow> do {
          (lc, cond) \<leftarrow> x64_use x (t_cond tm) X64_R10;
          target \<leftarrow> t_target tm;
          else_target \<leftarrow> t_else_target tm;
          Some (lc @ [XLine ''test'' [XReg cond 1, XReg cond 1]] @
            (if Some target = x_next_block x then [XLine ''jz'' [XName (target_label x else_target)]]
             else if Some else_target = x_next_block x then [XLine ''jnz'' [XName (target_label x target)]]
             else [XLine ''jnz'' [XName (target_label x target)], XLine ''jmp'' [XName (target_label x else_target)]]))
        }
      | IR_TERM_RET \<Rightarrow> do {
          ls \<leftarrow> (if t_value tm \<noteq> IR_NO_VREG
                 then x64_emit_move (MOVE_REG (if ir_type_is_float (x64_vtype x (t_value tm)) then X64_XMM0 else X64_RAX))
                        (move_vreg x (t_value tm))
                 else if f_is_entry_point (x_func x) then Some [XLine ''xor'' [XReg X64_RAX 4, XReg X64_RAX 4]]
                 else Some []);
          Some (ls @ x64_emit_epilogue x)
        }
      | IR_TERM_NONE \<Rightarrow> None)"

section \<open>The code of a function\<close>

record x64_debug_mark =
  dm_label :: nat
  dm_line :: int
  dm_scope :: int

record x64_debug_function =
  df_func :: ir_function
  df_slot_offsets :: "int list"
  df_prologue_label :: nat
  df_end_label :: nat
  df_marks :: "x64_debug_mark list"

definition debug_label :: "nat \<Rightarrow> string" where
  "debug_label n = ''.Ldbg'' @ decimal n"

text \<open>What the loop over the instructions changes.\<close>

record x64_body =
  bd_lines :: "x64_line list"
  bd_counters :: x64_counters
  bd_next_debug_label :: nat
  bd_marks :: "x64_debug_mark list"
  bd_line :: int
  bd_scope :: int

definition mark_line :: "ir_inst \<Rightarrow> x64_body \<Rightarrow> x64_body" where
  "mark_line inst s =
     s\<lparr>bd_line := i_line inst, bd_scope := i_scope inst,
       bd_lines := bd_lines s @ [XLabel (debug_label (bd_next_debug_label s))],
       bd_marks := bd_marks s @
         [\<lparr>dm_label = bd_next_debug_label s, dm_line = i_line inst, dm_scope = i_scope inst\<rparr>],
       bd_next_debug_label := Suc (bd_next_debug_label s)\<rparr>"

definition body_inst :: "(u64 \<Rightarrow> u32) \<Rightarrow> bool \<Rightarrow> x64_emitter \<Rightarrow> x64_body \<Rightarrow> ir_inst \<Rightarrow> x64_body option" where
  "body_inst to_float debug x s inst =
     (let s = (if debug \<and> 0 < i_line inst \<and> (i_line inst \<noteq> bd_line s \<or> i_scope inst \<noteq> bd_scope s)
               then mark_line inst s else s)
      in do {
        (ls, n) \<leftarrow> x64_emit_inst to_float x inst (bd_counters s);
        Some (s\<lparr>bd_lines := bd_lines s @ ls, bd_counters := n\<rparr>)
      })"

definition body_block :: "(u64 \<Rightarrow> u32) \<Rightarrow> bool \<Rightarrow> x64_emitter \<Rightarrow> x64_body \<Rightarrow> nat \<Rightarrow> x64_body option" where
  "body_block to_float debug x s b =
     (let func = x_func x; block = block_at func b;
          x = x\<lparr>x_next_block := (if Suc b < block_count func then Some (f_layout func ! Suc b) else None)\<rparr>;
          s = s\<lparr>bd_lines := bd_lines s @ [XLabel (block_label block)]\<rparr>
      in do {
        s \<leftarrow> fold_option (body_inst to_float debug x) s (b_insts block);
        ls \<leftarrow> x64_emit_terminator x (b_term block);
        Some (s\<lparr>bd_lines := bd_lines s @ ls\<rparr>)
      })"

record x64_text =
  tx_text :: string
  tx_counters :: x64_counters
  tx_next_debug_label :: nat
  tx_debug_functions :: "x64_debug_function list"

text \<open>The emitter at the start of a function.\<close>

definition new_emitter :: "ir_module \<Rightarrow> ir_function \<Rightarrow> regalloc_result \<Rightarrow> x64_emitter" where
  "new_emitter module func ra =
     \<lparr>x_module = module, x_func = func, x_ra = ra, x_slot_offsets = [], x_spill_base = 0, x_frame_size = 0,
      x_saved_offset = replicate X64_REG_COUNT 0, x_next_block = None\<rparr>"

definition x64_emit_function :: "(u64 \<Rightarrow> u32) \<Rightarrow> bool \<Rightarrow> ir_module \<Rightarrow> ir_function \<Rightarrow> x64_text \<Rightarrow> x64_text option" where
  "x64_emit_function to_float debug module func tx = do {
     ra \<leftarrow> regalloc_function func x64_target;
     let x = x64_layout_frame (new_emitter module func ra);
         label = tx_next_debug_label tx;
         start = (if debug then [XLabel (debug_label label)] else []) in do {
     params \<leftarrow> x64_parallel_move (x64_param_moves x);
     s \<leftarrow> fold_option (body_block to_float debug x)
            \<lparr>bd_lines = XLabel (x64_symbol x (int (f_global func))) # x64_emit_prologue x @ params @ start,
             bd_counters = (tx_counters tx)\<lparr>next_local_label := 0\<rparr>,
             bd_next_debug_label = (if debug then Suc label else label),
             bd_marks = [], bd_line = - 1, bd_scope = - 1\<rparr>
            [0..<block_count func];
     let end_label = bd_next_debug_label s;
         lines = bd_lines s @ (if debug then [XLabel (debug_label end_label)] else []);
         entry = \<lparr>df_func = func, df_slot_offsets = x_slot_offsets x, df_prologue_label = label,
                  df_end_label = end_label, df_marks = bd_marks s\<rparr> in
     Some (tx\<lparr>tx_text := tx_text tx @ [CHR 0x0A] @ concat (map x64_line_text lines),
              tx_counters := bd_counters s,
              tx_next_debug_label := (if debug then Suc end_label else end_label),
              tx_debug_functions := tx_debug_functions tx @ (if debug then [entry] else [])\<rparr>)
     }
   }"

section \<open>The layout\<close>

text \<open>The areas of the frame as offset and size: saved xmm registers, saved integer registers, slots, spill
  slots.\<close>

definition saved_areas :: "regalloc_result \<Rightarrow> int \<Rightarrow> nat list \<Rightarrow> int list \<Rightarrow> (int \<times> int) list" where
  "saved_areas ra sz rs saved = map (\<lambda>r. (saved ! r, sz)) (filter (is_used ra) rs)"

definition frame_areas :: "x64_emitter \<Rightarrow> (int \<times> int) list" where
  "frame_areas x =
     saved_areas (x_ra x) 16 [X64_XMM0..<Suc X64_XMM15] (x_saved_offset x) @
     saved_areas (x_ra x) 8 [0..<16] (x_saved_offset x) @
     zip (x_slot_offsets x) (map s_size (f_slots (x_func x))) @
     map (\<lambda>s. (x64_spill_offset x s, 8)) [0..<spill_slot_count (x_ra x)]"

definition below :: "int \<times> int \<Rightarrow> int \<times> int \<Rightarrow> bool" where
  "below = (\<lambda>(off, sz) (off', sz'). off' + sz' \<le> off)"

text \<open>The areas follow each other downwards and are in the first \<open>d\<close> bytes below \<^verbatim>\<open>rbp\<close>.\<close>

definition stacked :: "int \<Rightarrow> (int \<times> int) list \<Rightarrow> bool" where
  "stacked d areas \<longleftrightarrow>
     0 \<le> d \<and> sorted_wrt below areas \<and> (\<forall>(off, sz) \<in> set areas. - d \<le> off \<and> off + sz \<le> 0)"

lemma stacked_push:
  assumes "stacked d areas" and "d + sz \<le> d'" and "0 \<le> sz"
  shows "stacked d' (areas @ [(- d', sz)])"
  using assms by (fastforce simp: stacked_def sorted_wrt_append below_def)

lemma stacked_mono: "stacked d areas \<Longrightarrow> d \<le> d' \<Longrightarrow> stacked d' areas"
  by (fastforce simp: stacked_def)

lemma align_to_bounds:
  assumes "0 < a"
  shows "i \<le> align_to i a" "a dvd align_to i a"
proof -
  have "(i + a - 1) div a * a = i + a - 1 - (i + a - 1) mod a" by (simp add: minus_mod_eq_div_mult)
  moreover have "(i + a - 1) mod a < a" using assms by simp
  ultimately show "i \<le> align_to i a" "a dvd align_to i a" by (simp_all add: align_to_def)
qed

text \<open>Saving registers one after the other, each at the depth that \<open>step\<close> gives.\<close>

definition save_at :: "regalloc_result \<Rightarrow> (int \<Rightarrow> int) \<Rightarrow> int \<times> int list \<Rightarrow> nat \<Rightarrow> int \<times> int list" where
  "save_at ra step = (\<lambda>(depth, saved) r.
     if \<not> is_used ra r then (depth, saved) else (step depth, saved[r := - step depth]))"

lemma save_xmm_eq: "save_xmm ra = save_at ra (\<lambda>d. align_to (d + 16) 16)"
  by (simp add: save_xmm_def save_at_def Let_def fun_eq_iff)

lemma save_gpr_eq: "save_gpr ra = save_at ra (\<lambda>d. d + 8)"
  by (simp add: save_gpr_def save_at_def fun_eq_iff)

lemma save_keeps:
  "foldl (save_at ra step) (d, saved) rs = (d', saved') \<Longrightarrow>
     length saved' = length saved \<and> (\<forall>q. q \<notin> set rs \<longrightarrow> saved' ! q = saved ! q)"
proof (induction rs arbitrary: d saved)
  case (Cons r rs)
  then show ?case
    by (cases "is_used ra r") (fastforce simp: save_at_def)+
qed simp

lemma save_stacked:
  assumes "\<And>d. 0 \<le> d \<Longrightarrow> d + sz \<le> step d \<and> P (step d)" and "0 \<le> sz"
    and "foldl (save_at ra step) (d, saved) rs = (d', saved')" and "stacked d areas"
    and "distinct rs" and "\<forall>r \<in> set rs. r < length saved"
  shows "stacked d' (areas @ saved_areas ra sz rs saved') \<and> (\<forall>r \<in> set (filter (is_used ra) rs). P (- (saved' ! r)))"
  using assms(3-)
proof (induction rs arbitrary: d saved areas)
  case (Cons r rs)
  have r: "r \<notin> set rs" "r < length saved" "distinct rs" using Cons.prems by auto
  show ?case
  proof (cases "is_used ra r")
    case True
    have d: "0 \<le> d" using Cons.prems(2) by (simp add: stacked_def)
    have fold: "foldl (save_at ra step) (step d, saved[r := - step d]) rs = (d', saved')"
      using Cons.prems(1) True by (simp add: save_at_def)
    have at: "saved' ! r = - step d" using save_keeps [OF fold] r by simp
    have "stacked (step d) (areas @ [(- step d, sz)])"
      using stacked_push [OF Cons.prems(2)] assms(1) [OF d] assms(2) by blast
    from Cons.IH [OF fold this r(3)] show ?thesis
      using True at assms(1) [OF d] Cons.prems(4) by (simp add: saved_areas_def)
  next
    case False
    then show ?thesis using Cons.IH [OF _ Cons.prems(2) r(3)] Cons.prems by (simp add: save_at_def saved_areas_def)
  qed
qed (simp add: saved_areas_def)

lemma slots_stacked:
  assumes "foldl place_slot (d, offs) slots = (d', offs')" and "stacked d areas"
    and "\<forall>slot \<in> set slots. 0 \<le> s_size slot \<and> 0 < s_align slot"
  shows "\<exists>new. offs' = offs @ new \<and> length new = length slots \<and>
    stacked d' (areas @ zip new (map s_size slots)) \<and> (\<forall>i < length slots. slot_align (slots ! i) dvd new ! i)"
  using assms
proof (induction slots arbitrary: d offs areas)
  case (Cons slot slots)
  define dn where "dn = align_to (d + s_size slot) (slot_align slot)"
  have a: "0 < slot_align slot" "0 \<le> s_size slot" using Cons.prems(3) by (auto simp: slot_align_def)
  have fold: "foldl place_slot (dn, offs @ [- dn]) slots = (d', offs')"
    using Cons.prems(1) by (simp add: place_slot_def Let_def dn_def)
  have "stacked dn (areas @ [(- dn, s_size slot)])"
    unfolding dn_def by (rule stacked_push [OF Cons.prems(2) align_to_bounds(1) [OF a(1)] a(2)])
  from Cons.IH [OF fold this] Cons.prems(3) obtain new where new: "offs' = (offs @ [- dn]) @ new"
    "length new = length slots" "stacked d' ((areas @ [(- dn, s_size slot)]) @ zip new (map s_size slots))"
    "\<forall>i < length slots. slot_align (slots ! i) dvd new ! i" by auto
  have "slot_align ((slot # slots) ! i) dvd (- dn # new) ! i" if "i < length (slot # slots)" for i
    using that new(4) align_to_bounds(2) [OF a(1)] by (cases i) (auto simp: dn_def)
  then show ?case using new(1-3) by (intro exI [of _ "- dn # new"]) simp
qed simp

lemma spills_stacked:
  assumes "stacked d areas"
  shows "stacked (d + 8 * int n) (areas @ map (\<lambda>s. (- (d + 8) - int s * 8, 8)) [0..<n])"
proof (induction n)
  case (Suc n)
  have eq: "- (d + 8) - int n * 8 = - (d + 8 * int (Suc n))" by simp
  have "stacked (d + 8 * int (Suc n))
      ((areas @ map (\<lambda>s. (- (d + 8) - int s * 8, 8)) [0..<n]) @ [(- (d + 8) - int n * 8, 8)])"
    unfolding eq by (rule stacked_push [OF Suc]) simp_all
  then show ?case by simp
qed (use assms in simp)

section \<open>Outgoing arguments\<close>

text \<open>The bytes above \<^verbatim>\<open>rsp\<close> that a call uses: the shadow space and the arguments on the stack.\<close>

definition call_area :: "ir_inst \<Rightarrow> int" where
  "call_area inst =
     (if i_op inst = IR_CALL then 8 * max 4 (int (length (call_args (i_call inst))))
      else if i_op inst = IR_MEMCPY \<or> i_op inst = IR_MEMSET then 32 else 0)"

definition args_size :: "int \<Rightarrow> int" where
  "args_size n = (if 0 \<le> n then 32 + 8 * (if 4 < n then n - 4 else 0) else 0)"

lemma args_size_mono: "m \<le> n \<Longrightarrow> args_size m \<le> args_size n"
  by (auto simp: args_size_def)

lemma max_args_inst_ge: "m \<le> max_args_inst m inst" "call_area inst \<le> args_size (max_args_inst m inst)"
  by (auto simp: max_args_inst_def Let_def call_area_def args_size_def)

lemma max_args_insts:
  "m \<le> foldl max_args_inst m insts \<and> (\<forall>inst \<in> set insts. call_area inst \<le> args_size (foldl max_args_inst m insts))"
proof (induction insts arbitrary: m)
  case (Cons inst insts)
  have "call_area inst \<le> args_size (foldl max_args_inst (max_args_inst m inst) insts)"
    using order_trans [OF max_args_inst_ge(2) args_size_mono] Cons by blast
  then show ?case using Cons [of "max_args_inst m inst"] max_args_inst_ge(1) [of m inst] by auto
qed simp

lemma max_args_blocks:
  "m \<le> foldl (\<lambda>m b. foldl max_args_inst m (b_insts (block_at func b))) m bs \<and>
   (\<forall>b \<in> set bs. \<forall>inst \<in> set (b_insts (block_at func b)).
      call_area inst \<le> args_size (foldl (\<lambda>m b. foldl max_args_inst m (b_insts (block_at func b))) m bs))"
proof (induction bs arbitrary: m)
  case (Cons b bs)
  let ?m = "foldl max_args_inst m (b_insts (block_at func b))"
  have "call_area inst \<le> args_size (foldl (\<lambda>m b. foldl max_args_inst m (b_insts (block_at func b))) ?m bs)"
    if "inst \<in> set (b_insts (block_at func b))" for inst
    using order_trans [OF _ args_size_mono] max_args_insts [of m] Cons [of ?m] that by blast
  then show ?case using Cons [of ?m] max_args_insts [of m "b_insts (block_at func b)"] by auto
qed simp

lemma outgoing_covers:
  assumes "b < block_count func" and "inst \<in> set (b_insts (block_at func b))"
  shows "call_area inst \<le> outgoing_size func"
  using max_args_blocks [of "- 1" func "[0..<block_count func]"] assms
  by (auto simp: outgoing_size_def Let_def args_size_def [symmetric] max_call_args_def [symmetric])

section \<open>The frame is laid out\<close>

definition slots_ok :: "ir_function \<Rightarrow> bool" where
  "slots_ok func \<longleftrightarrow> (\<forall>slot \<in> set (f_slots func). 0 \<le> s_size slot \<and> 0 < s_align slot)"

definition aligned :: "x64_emitter \<Rightarrow> bool" where
  "aligned x \<longleftrightarrow>
     (\<forall>r \<in> set (filter (is_used (x_ra x)) [X64_XMM0..<Suc X64_XMM15]). 16 dvd x_saved_offset x ! r) \<and>
     (\<forall>i < length (f_slots (x_func x)). slot_align (f_slots (x_func x) ! i) dvd x_slot_offsets x ! i) \<and>
     (\<forall>s. 8 dvd x64_spill_offset x s) \<and> 16 dvd x_frame_size x"

definition frame_ok :: "x64_emitter \<Rightarrow> bool" where
  "frame_ok x \<longleftrightarrow>
     sorted_wrt below (frame_areas x) \<and> (\<forall>(off, sz) \<in> set (frame_areas x). off + sz \<le> 0) \<and> aligned x \<and>
     (\<forall>b < block_count (x_func x). \<forall>inst \<in> set (b_insts (block_at (x_func x) b)).
        \<forall>(off, sz) \<in> set (frame_areas x). - x_frame_size x + call_area inst \<le> off)"

lemma frame_layout:
  assumes ok: "slots_ok (x_func x)" and len: "length (x_saved_offset x) = X64_REG_COUNT"
  shows "frame_ok (x64_layout_frame x)"
    and "stacked (x_frame_size (x64_layout_frame x)) (frame_areas (x64_layout_frame x))"
proof -
  let ?ra = "x_ra x" and ?func = "x_func x"
  obtain d1 s1 where f1: "foldl (save_xmm ?ra) (0, x_saved_offset x) [X64_XMM0..<Suc X64_XMM15] = (d1, s1)" by fastforce
  obtain d2 s2 where f2: "foldl (save_gpr ?ra) (d1, s1) [0..<16] = (d2, s2)" by fastforce
  obtain d3 offs where f3: "foldl place_slot (d2, []) (f_slots ?func) = (d3, offs)" by fastforce
  define d4 where "d4 = align_to d3 8"
  define d5 where "d5 = d4 + 8 * int (spill_slot_count ?ra)"
  define y where "y = x64_layout_frame x"
  have y: "x_func y = ?func" "x_ra y = ?ra" "x_saved_offset y = s2" "x_slot_offsets y = offs" "x_spill_base y = - (d4 + 8)"
    "x_frame_size y = align_to d5 16 + align_to (outgoing_size ?func) 16"
    by (simp_all only: y_def x64_layout_frame_def f1 f2 f3 Let_def prod.case d4_def d5_def) simp_all
  have xmm: "stacked d1 ([] @ saved_areas ?ra 16 [X64_XMM0..<Suc X64_XMM15] s1) \<and>
      (\<forall>r \<in> set (filter (is_used ?ra) [X64_XMM0..<Suc X64_XMM15]). 16 dvd - (- (s1 ! r)))"
    by (rule save_stacked [OF _ _ f1 [unfolded save_xmm_eq], where P = "\<lambda>d. 16 dvd - d"])
      (use align_to_bounds [of 16] len in \<open>auto simp: stacked_def\<close>)
  then have a1: "stacked d1 (saved_areas ?ra 16 [X64_XMM0..<Suc X64_XMM15] s1)"
    and x1: "\<forall>r \<in> set (filter (is_used ?ra) [X64_XMM0..<Suc X64_XMM15]). 16 dvd s1 ! r" by auto
  note k1 = save_keeps [OF f1 [unfolded save_xmm_eq]] and k2 = save_keeps [OF f2 [unfolded save_gpr_eq]]
  have s2: "s2 ! r = s1 ! r" if "r \<in> set [X64_XMM0..<Suc X64_XMM15]" for r using k2 that by auto
  then have xs: "saved_areas ?ra 16 [X64_XMM0..<Suc X64_XMM15] s2 = saved_areas ?ra 16 [X64_XMM0..<Suc X64_XMM15] s1"
    by (auto simp: saved_areas_def)
  have a2: "stacked d2 (saved_areas ?ra 16 [X64_XMM0..<Suc X64_XMM15] s2 @ saved_areas ?ra 8 [0..<16] s2)"
    unfolding xs using k1 len
    by (intro conjunct1 [OF save_stacked [OF _ _ f2 [unfolded save_gpr_eq] a1, where P = "\<lambda>_. True"]]) auto
  obtain a3: "stacked d3 ((saved_areas ?ra 16 [X64_XMM0..<Suc X64_XMM15] s2 @ saved_areas ?ra 8 [0..<16] s2) @
        zip offs (map s_size (f_slots ?func)))"
    and al: "\<forall>i < length (f_slots ?func). slot_align (f_slots ?func ! i) dvd offs ! i"
    using slots_stacked [OF f3 a2] ok unfolding slots_ok_def by auto
  have "stacked d4 ((saved_areas ?ra 16 [X64_XMM0..<Suc X64_XMM15] s2 @ saved_areas ?ra 8 [0..<16] s2) @
        zip offs (map s_size (f_slots ?func)))"
    unfolding d4_def by (rule stacked_mono [OF a3 align_to_bounds(1)]) simp
  from spills_stacked [OF this, of "spill_slot_count ?ra"]
  have a5: "stacked d5 (frame_areas y)" by (simp add: frame_areas_def y x64_spill_offset_def d5_def)
  have fs: "d5 \<le> align_to d5 16" "outgoing_size ?func \<le> align_to (outgoing_size ?func) 16"
    "16 dvd x_frame_size y"
    using align_to_bounds [of 16] by (simp_all add: y(6))
  have "8 dvd d4" unfolding d4_def by (rule align_to_bounds(2)) simp
  then have "aligned y"
    using x1 s2 al fs(3) by (simp add: aligned_def y x64_spill_offset_def)
  moreover have "- x_frame_size y + call_area inst \<le> off"
    if "b < block_count ?func" "inst \<in> set (b_insts (block_at ?func b))" "(off, sz) \<in> set (frame_areas y)" for b inst off sz
    using outgoing_covers [OF that(1,2)] fs a5 that(3) y(6) by (fastforce simp: stacked_def)
  ultimately have "frame_ok y" using a5 by (auto simp: frame_ok_def stacked_def y(1))
  then show "frame_ok (x64_layout_frame x)" by (simp add: y_def)
  have "0 \<le> outgoing_size ?func" by (simp add: outgoing_size_def Let_def)
  then have "d5 \<le> x_frame_size y" using fs(1,2) by (simp add: y(6))
  then show "stacked (x_frame_size (x64_layout_frame x)) (frame_areas (x64_layout_frame x))"
    using stacked_mono [OF a5] by (simp add: y_def)
qed


definition frame_example :: ir_function where
  "frame_example =
     \<lparr>f_name = ''f'', f_global = 0, f_is_entry_point = False, f_return_type = IR_VOID, f_vreg_types = [],
      f_params = [], f_slots = [\<lparr>s_size = 3, s_align = 1, s_name = None\<rparr>, \<lparr>s_size = 40, s_align = 32, s_name = None\<rparr>],
      f_layout = [], f_made = []\<rparr>"


end
