(* ===== verification/X64Run.thy ===== *)
theory X64Run
  imports IRVerify X64Memory X64Frame
begin

text \<open>
  A whole function: the code that \<^verbatim>\<open>x64_emit_function\<close> writes for its blocks runs, on the machine of
  \<^verbatim>\<open>X64Machine\<close> with jumps, as the function does in the intermediate representation. The parts meet here: the
  verifier says that a register is written before it is read and only once, the allocator that registers
  that are live at the same time have different places, and \<^verbatim>\<open>X64Correct\<close> what the code of an instruction
  does with these places.
\<close>

section \<open>What an allocation says of the places\<close>

lemma x64_target_ok: "target_ok x64_target"
  by (auto simp: target_ok_def x64_target_def TARGET_MAX_REGS_def split: reg_class.splits)

lemma regalloc_class:
  assumes "regalloc_function func target = Some r" and "v < vreg_count func"
  shows "iv_class (ra_intervals r ! v) = reg_class_of (f_vreg_types func ! v)"
proof -
  obtain live where live: "ir_compute_liveness func = Some live"
    using assms(1) by (auto simp: regalloc_function_def Let_def split: option.splits)
  let ?ivs = "build_intervals func live (number_function func)"
  have len: "length ?ivs = vreg_count func" by (simp add: build_intervals_events)
  have "iv_class (?ivs ! v) = map iv_class ?ivs ! v" using assms(2) len by simp
  also have "\<dots> = iv_class (empty_intervals func ! v)"
    using assms(2) by (simp add: build_intervals_events extend_class empty_intervals_def)
  finally have "iv_class (?ivs ! v) = reg_class_of (f_vreg_types func ! v)"
    using assms(2) by (simp add: empty_intervals_def)
  then show ?thesis
    using assms len by (auto simp: regalloc_function_def live Let_def)
qed

text \<open>An emitter that works on a function with the places that the allocator gave.\<close>

definition emits_for :: "x64_emitter \<Rightarrow> ir_function \<Rightarrow> bool" where
  "emits_for x func \<longleftrightarrow> x_func x = func \<and> regalloc_function func x64_target = Some (x_ra x)"

lemma emits_for_result:
  assumes "emits_for x func" and "ir_wf func"
  shows "allocation_ok x64_target (ra_intervals (x_ra x)) (ra_locations (x_ra x)) (spill_slot_count (x_ra x))"
    "length (ra_intervals (x_ra x)) = vreg_count func" "covers_function func (x_ra x)"
proof -
  obtain r where r: "regalloc_function func x64_target = Some r"
      "allocation_ok x64_target (ra_intervals r) (ra_locations r) (spill_slot_count r)"
      "length (ra_intervals r) = vreg_count func" "covers_function func r"
    using regalloc_result [OF assms(2) x64_target_ok] .
  moreover have "x_ra x = r" using r(1) assms(1) by (simp add: emits_for_def)
  ultimately show "allocation_ok x64_target (ra_intervals (x_ra x)) (ra_locations (x_ra x)) (spill_slot_count (x_ra x))"
    "length (ra_intervals (x_ra x)) = vreg_count func" "covers_function func (x_ra x)" by simp_all
qed

text \<open>A register that is covered somewhere has a place, of its class; two that are covered at the same
  position have different ones.\<close>

definition float_place :: "x64_emitter \<Rightarrow> int \<Rightarrow> bool" where
  "float_place x vreg \<longleftrightarrow>
     (case x64_loc x vreg of
        LOCATION_REG r \<Rightarrow> r \<in> set (allocatable x64_target REG_CLASS_FPR)
      | LOCATION_SPILL s \<Rightarrow> True
      | LOCATION_NONE \<Rightarrow> False)"

lemma covered_place:
  assumes x: "emits_for x func" and wf: "ir_wf func" and c: "covers (ra_intervals (x_ra x)) (nat v) pos"
    and v: "0 \<le> v"
  shows covered_float: "ir_type_is_float (ir_vreg_type func v) \<Longrightarrow> float_place x v"
    and covered_int: "\<not> ir_type_is_float (ir_vreg_type func v) \<Longrightarrow> int_place x v"
    and covered_slot: "x64_loc x v = LOCATION_SPILL s \<Longrightarrow> s < spill_slot_count (x_ra x)"
proof -
  note R = emits_for_result [OF x wf]
  let ?iv = "ra_intervals (x_ra x) ! nat v"
  have range: "nat v < vreg_count func" and used: "used_interval ?iv"
    using c R(2) by (auto simp: covers_def used_interval_def)
  have cls: "iv_class ?iv = reg_class_of (f_vreg_types func ! nat v)"
    using regalloc_class [of func x64_target "x_ra x" "nat v"] x range by (simp add: emits_for_def)
  have some: "x64_loc x v \<noteq> LOCATION_NONE"
    using R(1,2) range used by (simp add: allocation_ok_def x64_loc_def)
  have reg: "r \<in> set (allocatable x64_target (iv_class ?iv))" if "x64_loc x v = LOCATION_REG r" for r
    using R(1,2) range that by (simp add: allocation_ok_def x64_loc_def reg_allowed_def)
  have type: "ir_vreg_type func v = f_vreg_types func ! nat v"
    using v range by (simp add: ir_vreg_type_def vreg_count_def nat_less_iff)
  show "float_place x v" if "ir_type_is_float (ir_vreg_type func v)"
    using some reg cls type that by (auto simp: float_place_def reg_class_of_def split: location.splits)
  show "int_place x v" if "\<not> ir_type_is_float (ir_vreg_type func v)"
    using some reg cls type that by (auto simp: int_place_def reg_class_of_def split: location.splits)
  show "s < spill_slot_count (x_ra x)" if "x64_loc x v = LOCATION_SPILL s"
    using R(1,2) range that by (simp add: allocation_ok_def x64_loc_def)
qed

lemma covered_apart:
  assumes "emits_for x func" and "ir_wf func"
    and "covers (ra_intervals (x_ra x)) (nat v) pos" and "covers (ra_intervals (x_ra x)) (nat w) pos" and "nat v \<noteq> nat w"
  shows "x64_loc x v \<noteq> x64_loc x w"
  using covers_apart [OF emits_for_result(1) [OF assms(1,2)] assms(3-5)] by (simp add: x64_loc_def)

section \<open>Single definitions\<close>

lemma distinct_concat_upt:
  assumes "distinct (concat (map f [0..<n]))" and "a < n" and "b < n" and "v \<in> set (f a)" and "v \<in> set (f b)"
  shows "a = b"
proof -
  have "set (f c) \<inter> set (f d) = {}" if "c < d" "d < n" for c d
    using assms(1) that
  proof (induction n)
    case (Suc n)
    then have "(\<Union>a \<in> {0..<n}. set (f a)) \<inter> set (f n) = {}" and "c < n" by auto
    then show ?case using Suc by (cases "d = n") (fastforce, simp)
  qed simp
  then show ?thesis using assms(2-5) by (metis disjoint_iff nat_neq_iff)
qed

lemma distinct_filter_nth:
  assumes "distinct (filter P xs)" and "i < length xs" and "j < length xs" and "xs ! i = xs ! j" and "P (xs ! i)"
  shows "i = j"
  using assms
proof (induction xs arbitrary: i j)
  case (Cons x xs)
  have "x \<notin> set (filter P xs)" if "P x" using Cons.prems(1) that by simp
  then have no: "P x \<Longrightarrow> xs ! k \<noteq> x" if "k < length xs" for k using that nth_mem [OF that] by auto
  then show ?case using Cons.prems Cons.IH by (cases i; cases j) (auto split: if_splits)
qed simp

lemma valid_typed:
  "ir_valid m func \<Longrightarrow> b < block_count func \<Longrightarrow> i < length (insts_of func b) \<Longrightarrow> ir_typed m func (insts_of func b ! i)"
  by (simp add: ir_valid_def)

lemma dst_among: "i < length xs \<Longrightarrow> i_dst (xs ! i) = v \<Longrightarrow> v \<in> i_dst ` set xs"
  by force

text \<open>In a valid function, the register that an instruction writes is written nowhere else, and is no
  parameter.\<close>

lemma single_definition:
  assumes valid: "ir_valid m func" and b: "b < block_count func" "i < length (insts_of func b)"
    and c: "c < block_count func" "j < length (insts_of func c)"
    and v: "i_dst (insts_of func b ! i) = v" "i_dst (insts_of func c ! j) = v" "v \<noteq> IR_NO_VREG"
  shows "c = b \<and> j = i"
proof -
  let ?P = "\<lambda>v. v \<noteq> IR_NO_VREG"
  have eq: "filter ?P (all_dsts func) = concat (map (\<lambda>b. filter ?P (map i_dst (insts_of func b))) [0..<block_count func])"
    by (simp add: all_dsts_def filter_concat comp_def)
  have d: "distinct (concat (map (\<lambda>b. filter ?P (map i_dst (insts_of func b))) [0..<block_count func]))"
    using valid eq by (simp add: ir_valid_def definitions_def)
  have here: "v \<in> set (filter ?P (map i_dst (insts_of func b)))" "v \<in> set (filter ?P (map i_dst (insts_of func c)))"
    using dst_among [OF b(2) v(1)] dst_among [OF c(2) v(2)] v(3) by simp_all
  have "c = b" by (rule distinct_concat_upt [OF d c(1) b(1) here(2,1)])
  moreover have "distinct (filter ?P (map i_dst (insts_of func b)))"
    using d b(1) by (auto simp: distinct_concat_iff distinct_map)
  ultimately show ?thesis using distinct_filter_nth [of ?P "map i_dst (insts_of func b)" j i] b c v by simp
qed

lemma parameter_not_defined:
  assumes "ir_valid m func" and "b < block_count func" and "i < length (insts_of func b)"
    and "i_dst (insts_of func b ! i) \<noteq> IR_NO_VREG"
  shows "i_dst (insts_of func b ! i) \<notin> set (f_params func)"
proof -
  have "i_dst (insts_of func b ! i) \<in> set (all_dsts func)"
    using assms(2) dst_among [OF assms(3) refl] by (auto simp: all_dsts_def)
  then show ?thesis using assms(1,4) by (auto simp: ir_valid_def definitions_def)
qed

text \<open>Paths of blocks.\<close>

definition edge :: "ir_function \<Rightarrow> nat \<Rightarrow> nat \<Rightarrow> bool" where
  "edge func b c \<longleftrightarrow> b < block_count func \<and> c \<in> successors func b"

lemma live_backwards:
  assumes "live_at func b j v" and "i \<le> j" and "j \<le> length (insts_of func b)"
    and "\<forall>k. i \<le> k \<and> k < j \<longrightarrow> v \<notin> inst_defs (insts_of func b ! k)"
  shows "live_at func b i v"
  using assms
proof (induction "j - i" arbitrary: i)
  case (Suc n)
  then have "live_at func b (Suc i) v" by simp
  then show ?case using Suc.prems Suc.hyps(2) live_at.used_later [of i func b v] by simp
qed simp

text \<open>So before an instruction that a run can reach, the register that it writes is not live.\<close>

lemma target_not_live:
  assumes valid: "ir_valid m func" and path: "(edge func)\<^sup>*\<^sup>* 0 b"
    and b: "b < block_count func" "i < length (insts_of func b)"
    and d: "i_dst (insts_of func b ! i) \<noteq> IR_NO_VREG"
  shows "\<not> live_at func b i (nat (i_dst (insts_of func b ! i)))"
proof
  let ?d = "i_dst (insts_of func b ! i)"
  assume live: "live_at func b i (nat ?d)"
  have ok: "vreg_ok func ?d" by (rule typed_dst_ok [OF valid_typed [OF valid b] d])
  have only: "c = b \<and> k = i" if "c < block_count func" "k < length (insts_of func c)"
      "nat ?d \<in> inst_defs (insts_of func c ! k)" for c k
  proof -
    have "i_dst (insts_of func c ! k) \<noteq> IR_NO_VREG" using that(3) by (auto simp: inst_defs_def split: if_splits)
    moreover from this have "vreg_ok func (i_dst (insts_of func c ! k))"
      by (rule typed_dst_ok [OF valid_typed [OF valid that(1,2)]])
    ultimately have "i_dst (insts_of func c ! k) = ?d"
      using that(3) ok by (auto simp: inst_defs_def vreg_ok_def)
    then show ?thesis using single_definition [OF valid b that(1,2) refl _ d] by simp
  qed
  have start: "live_at func b 0 (nat ?d)"
    by (rule live_backwards [OF live]) (use b only [OF b(1)] in \<open>auto dest: less_trans [of _ i]\<close>)
  have "live_at func a 0 (nat ?d)" if "(edge func)\<^sup>*\<^sup>* a b" for a
    using that
  proof (induction rule: converse_rtranclp_induct)
    case base
    show ?case by (rule start)
  next
    case (step c e)
    then have c: "c < block_count func" "e \<in> successors func c" "live_at func e 0 (nat ?d)" by (auto simp: edge_def)
    show ?case
    proof (cases "c = b")
      case False
      show ?thesis
        by (rule live_backwards [OF live_at.used_after [OF c(2,3)]]) (use c(1) only False in auto)
    qed (use start in simp)
  qed
  then have "live_at func 0 0 (nat ?d)" using path by blast
  then have "?d \<in> set (f_params func)" using valid ok by (auto simp: ir_valid_def vreg_ok_def)
  then show False using parameter_not_defined [OF valid b d] by simp
qed

section \<open>The integer part of the representation\<close>

text \<open>The value of an instruction from the values of its operands; an address of a slot or a global is that
  of the functions \<open>slot\<close> and \<open>global\<close>.\<close>

definition int_value :: "ir_function \<Rightarrow> (int \<Rightarrow> u64) \<Rightarrow> (int \<Rightarrow> u64) \<Rightarrow> ir_inst \<Rightarrow> u64 \<Rightarrow> u64 \<Rightarrow> u64 option" where
  "int_value func slot global inst a b =
     (let s = x64_width (i_type inst); from_type = ir_vreg_type func (i_a inst); fs = x64_width from_type
      in if ir_type_is_float (i_type inst) then None
         else case i_op inst of
           IR_CONST \<Rightarrow> Some (word_of_int (i_imm inst))
         | IR_COPY \<Rightarrow> Some a
         | IR_SLOT_ADDR \<Rightarrow> Some (slot (i_imm inst))
         | IR_GLOBAL_ADDR \<Rightarrow> Some (global (i_imm inst))
         | IR_PTR_ADD \<Rightarrow> Some (a + b)
         | IR_NEG \<Rightarrow> Some (- a)
         | IR_NOT \<Rightarrow> Some (NOT a)
         | IR_ICMP \<Rightarrow> map_option of_bool (icmp_value (i_cmp inst) s a b)
         | IR_SEXT \<Rightarrow> if fs < s \<and> \<not> ir_type_is_float from_type then Some (word_of_int (signed_at fs a)) else None
         | IR_ZEXT \<Rightarrow> if fs < s \<and> \<not> ir_type_is_float from_type then Some (take_bit (8 * fs) a) else None
         | IR_TRUNC \<Rightarrow> if s < fs \<and> \<not> ir_type_is_float from_type then Some a else None
         | op \<Rightarrow> int_binop_value op s a b)"

lemma ir_int_value_eq:
  assumes "x_func x = func"
  shows "ir_int_value x st inst =
    int_value func (\<lambda>i. xregs st X64_RBP + word_of_int (x_slot_offsets x ! nat i)) (\<lambda>g. xsyms st (x64_symbol x g))
      inst (vreg_value x st (i_a inst)) (vreg_value x st (i_b inst))"
  by (simp add: ir_int_value_def int_value_def Let_def x64_vtype_def assms cong: ir_op.case_cong)

section \<open>Only the low bytes count\<close>

definition low_eq :: "nat \<Rightarrow> u64 \<Rightarrow> u64 \<Rightarrow> bool" where
  "low_eq s u v \<longleftrightarrow> take_bit (8 * s) u = take_bit (8 * s) v"

lemma low_eq_refl [simp]: "low_eq s u u"
  by (simp add: low_eq_def)

lemma low_eq_mono: "low_eq w u v \<Longrightarrow> s \<le> w \<Longrightarrow> low_eq s u v"
  unfolding low_eq_def by (metis low_low)

lemma low_eq_trans: "low_eq s u v \<Longrightarrow> low_eq s v w \<Longrightarrow> low_eq s u w"
  by (simp add: low_eq_def)

lemma low_eq_bits: "low_eq s u v \<longleftrightarrow> (\<forall>i < 8 * s. bit u i \<longleftrightarrow> bit v i)"
proof
  assume "low_eq s u v"
  then have "bit (take_bit (8 * s) u) i \<longleftrightarrow> bit (take_bit (8 * s) v) i" for i by (simp add: low_eq_def)
  then show "\<forall>i < 8 * s. bit u i \<longleftrightarrow> bit v i" by (metis bit_take_bit_iff)
next
  assume "\<forall>i < 8 * s. bit u i \<longleftrightarrow> bit v i"
  then show "low_eq s u v" unfolding low_eq_def by (intro bit_word_eqI) (auto simp: bit_take_bit_iff)
qed

lemma low_eq_full: "low_eq 8 u v \<longleftrightarrow> u = v"
proof -
  have "take_bit 64 w = w" for w :: u64 by (intro bit_word_eqI) (simp add: bit_simps)
  then show ?thesis by (simp add: low_eq_def)
qed

lemma low_eq_signed: "0 < s \<Longrightarrow> low_eq s u v \<Longrightarrow> signed_at s u = signed_at s v"
  unfolding low_eq_def by (rule signed_at_cong)

lemma low_eq_unsigned: "low_eq s u v \<Longrightarrow> unsigned_at s u = unsigned_at s v"
  by (simp add: low_eq_def unsigned_at_def)

lemma low_eq_ring:
  assumes "s \<le> 8" and "low_eq s a a'" and "low_eq s b b'"
  shows "low_eq s (a + b) (a' + b')" "low_eq s (a - b) (a' - b')" "low_eq s (a * b) (a' * b')" "low_eq s (- a) (- a')"
proof -
  have s: "8 * s \<le> 64" using assms(1) by simp
  note e = assms(2,3) [unfolded low_eq_def]
  show "low_eq s (a + b) (a' + b')" "low_eq s (a - b) (a' - b')" "low_eq s (a * b) (a' * b')"
    unfolding low_eq_def
    using low_ring_cong [OF s _ e, where g = "(+)"] low_ring_cong [OF s _ e, where g = "(-)"]
      low_ring_cong [OF s _ e, where g = "(*)"] by simp_all
  show "low_eq s (- a) (- a')"
    unfolding low_eq_def using low_ring_cong [OF s _ refl e(1), where g = "(-)" and u = 0] by simp
qed

lemma low_eq_bitwise:
  assumes "low_eq s a a'" and "low_eq s b b'"
  shows "low_eq s (a AND b) (a' AND b')" "low_eq s (a OR b) (a' OR b')" "low_eq s (a XOR b) (a' XOR b')"
    "low_eq s (push_bit n a) (push_bit n a')"
  using assms by (auto simp: low_eq_bits bit_simps)

lemma low_eq_not: "s \<le> 8 \<Longrightarrow> low_eq s a a' \<Longrightarrow> low_eq s (NOT a) (NOT a')"
  by (auto simp: low_eq_bits bit_simps)

lemma int_binop_value_cong:
  assumes "int_binop_value op s a b = Some v" and s: "0 < s" "s \<le> 8" and e: "low_eq s a a'" "low_eq s b b'"
  shows "\<exists>v'. int_binop_value op s a' b' = Some v' \<and> low_eq s v v'"
proof -
  note eqs = low_eq_signed [OF s(1) e(1)] low_eq_signed [OF s(1) e(2)] low_eq_unsigned [OF e(1)] low_eq_unsigned [OF e(2)]
  note rings = low_eq_ring [OF s(2) e] low_eq_bitwise [OF e]
  show ?thesis
    using assms(1) rings e by (cases op) (auto simp: eqs low_eq_def split: if_splits)
qed

lemma icmp_value_cong:
  assumes "0 < s" and "low_eq s a a'" and "low_eq s b b'"
  shows "icmp_value cmp s a b = icmp_value cmp s a' b'"
  using low_eq_signed [OF assms(1,2)] low_eq_signed [OF assms(1,3)] low_eq_unsigned [OF assms(2)] low_eq_unsigned [OF assms(3)]
  by (cases cmp) simp_all

section \<open>Typed instructions\<close>

lemma width_positive: "0 < x64_width t" "x64_width t \<le> 8"
  using width_okD [OF x64_width_ok] by simp_all

text \<open>The operations that have a value here.\<close>

definition value_ops :: "ir_op set" where
  "value_ops = {IR_CONST, IR_COPY, IR_SLOT_ADDR, IR_GLOBAL_ADDR, IR_PTR_ADD, IR_NEG, IR_NOT, IR_ICMP, IR_SEXT, IR_ZEXT,
     IR_TRUNC} \<union> int_binary"

lemma int_value_ops:
  "int_value func slot global inst a b = Some v \<Longrightarrow> i_op inst \<in> value_ops \<and> \<not> ir_type_is_float (i_type inst)"
  by (cases "i_op inst") (auto simp: int_value_def value_ops_def int_binary_def Let_def split: if_splits)

text \<open>What typing says of the registers of such an instruction: they exist, are integers, and have the width
  that the operation reads.\<close>

lemma typed_first:
  assumes "ir_typed m func inst" and "i_op inst \<in> value_ops" and "X64Correct.reads_a (i_op inst)"
  shows "vreg_ok func (i_a inst) \<and>
    (if i_op inst \<in> {IR_SEXT, IR_ZEXT, IR_TRUNC} then True else if i_op inst = IR_PTR_ADD then ir_vreg_type func (i_a inst) = IR_PTR
     else ir_vreg_type func (i_a inst) = i_type inst)"
  using assms
  by (cases "i_op inst") (auto simp: ir_typed_iff has_type_def value_ops_def op_groups X64Correct.reads_a_def)

lemma typed_second:
  assumes "ir_typed m func inst" and "i_op inst \<in> value_ops" and "X64Correct.reads_b (i_op inst)"
  shows "vreg_ok func (i_b inst) \<and>
    (if i_op inst = IR_PTR_ADD then ir_vreg_type func (i_b inst) = IR_I64 else ir_vreg_type func (i_b inst) = i_type inst)"
  using assms
  by (cases "i_op inst") (auto simp: ir_typed_iff has_type_def value_ops_def op_groups X64Correct.reads_a_def X64Correct.reads_b_def)

lemma typed_target:
  assumes "ir_typed m func inst" and "i_op inst \<in> value_ops"
  shows "i_dst inst \<noteq> IR_NO_VREG \<and> vreg_ok func (i_dst inst) \<and> result_size inst = x64_width (ir_vreg_type func (i_dst inst))"
  using assms
  by (cases "i_op inst") (auto simp: ir_typed_iff writes_def has_type_def value_ops_def op_groups result_size_def x64_width_def)

lemma typed_target_type:
  assumes "ir_typed m func inst" and "i_op inst \<in> value_ops" and "\<not> ir_type_is_float (i_type inst)"
  shows "\<not> ir_type_is_float (ir_vreg_type func (i_dst inst))"
  using assms
  by (cases "i_op inst") (auto simp: ir_typed_iff writes_def has_type_def value_ops_def op_groups ir_type_is_float_def)

lemma int_value_cong:
  assumes typed: "ir_typed m func inst" and v: "int_value func slot global inst a b = Some v"
    and a: "X64Correct.reads_a (i_op inst) \<Longrightarrow> low_eq (x64_width (ir_vreg_type func (i_a inst))) a a'"
    and b: "X64Correct.reads_b (i_op inst) \<Longrightarrow> low_eq (x64_width (ir_vreg_type func (i_b inst))) b b'"
  shows "\<exists>v'. int_value func slot global inst a' b' = Some v' \<and> low_eq (result_size inst) v v'"
proof -
  let ?s = "x64_width (i_type inst)"
  have op: "i_op inst \<in> value_ops" and nf: "\<not> ir_type_is_float (i_type inst)" using int_value_ops [OF v] by simp_all
  note first = typed_first [OF typed op] and second = typed_second [OF typed op]
  note reads = X64Correct.reads_a_def X64Correct.reads_b_def
  consider (constants) "i_op inst \<in> {IR_CONST, IR_SLOT_ADDR, IR_GLOBAL_ADDR}" | (one) "i_op inst \<in> {IR_COPY, IR_NEG, IR_NOT}"
    | (conversion) "i_op inst \<in> {IR_SEXT, IR_ZEXT, IR_TRUNC}" | (ptr) "i_op inst = IR_PTR_ADD" | (cmp) "i_op inst = IR_ICMP"
    | (binary) "i_op inst \<in> int_binary"
    using op by (auto simp: value_ops_def)
  then show ?thesis
  proof cases
    case constants
    then show ?thesis using v by (auto simp: int_value_def Let_def split: if_splits)
  next
    case one
    then have e: "low_eq ?s a a'" and size: "result_size inst = ?s"
      using a first by (auto simp: reads result_size_def)
    from one show ?thesis
      using v nf low_eq_ring(4) [OF width_positive(2) e e] low_eq_not [OF width_positive(2) e] e size
      by (auto simp: int_value_def Let_def)
  next
    case conversion
    let ?fs = "x64_width (ir_vreg_type func (i_a inst))"
    have e: "low_eq ?fs a a'" and size: "result_size inst = ?s"
      using a conversion by (auto simp: reads result_size_def)
    have "low_eq ?s a a'" if "?s < ?fs" using low_eq_mono [OF e] that by simp
    moreover have "take_bit (8 * ?fs) a = take_bit (8 * ?fs) a'" using e by (simp add: low_eq_def)
    ultimately show ?thesis
      using conversion v nf size low_eq_signed [OF width_positive(1) e]
      by (auto simp: int_value_def Let_def split: if_splits)
  next
    case ptr
    then have "low_eq 8 a a'" "low_eq 8 b b'"
      using a b first second by (auto simp: reads x64_width_def)
    then show ?thesis using v by (auto simp: low_eq_full)
  next
    case cmp
    then have e: "low_eq ?s a a'" "low_eq ?s b b'"
      using a b first second by (auto simp: reads)
    have "int_value func slot global inst a b = int_value func slot global inst a' b'"
      using cmp icmp_value_cong [OF width_positive(1) e] by (simp add: int_value_def Let_def)
    then show ?thesis using v by (intro exI [of _ v]) simp
  next
    case binary
    then have e: "low_eq ?s a a'" "low_eq ?s b b'" and size: "result_size inst = ?s"
      using a b first second by (auto simp: reads result_size_def op_groups)
    have eq: "int_value func slot global inst c d = int_binop_value (i_op inst) ?s c d" for c d
      using binary nf by (auto simp: int_value_def Let_def int_binary_def)
    show ?thesis using int_binop_value_cong [OF v [unfolded eq] width_positive e] by (simp add: eq size)
  qed
qed

section \<open>Running the representation\<close>

text \<open>The step of a function: the value of the destination and the memory after an instruction, from the
  values of its operands in their order and the memory before. The addresses of \<open>own\<close> belong to the frame
  of the function and are not for loads and stores: one that touches them has no step. Nor has an
  instruction that is not an integer one, or a call.\<close>

definition bytes_at :: "nat \<Rightarrow> u64 \<Rightarrow> u64 set" where
  "bytes_at n a = (\<lambda>i. a + of_nat i) ` {..<n}"

definition address_value :: "(int \<Rightarrow> u64) \<Rightarrow> (int \<Rightarrow> u64) \<Rightarrow> ir_addr \<Rightarrow> u64 \<Rightarrow> u64" where
  "address_value slot global addr base =
     (case addr_kind addr of
        IR_ADDR_SLOT \<Rightarrow> slot (addr_base addr)
      | IR_ADDR_GLOBAL \<Rightarrow> global (addr_base addr)
      | IR_ADDR_VREG \<Rightarrow> base
      | IR_ADDR_NONE \<Rightarrow> 0) + word_of_int (addr_offset addr)"

definition int_step :: "ir_function \<Rightarrow> (int \<Rightarrow> u64) \<Rightarrow> (int \<Rightarrow> u64) \<Rightarrow> u64 set \<Rightarrow> ir_inst \<Rightarrow> u64 list \<Rightarrow> (u64 \<Rightarrow> u8) \<Rightarrow>
    (u64 \<times> (u64 \<Rightarrow> u8)) option" where
  "int_step func slot global own inst vals mem =
     (let s = x64_width (i_type inst); addr = address_value slot global (i_addr inst) (last vals) in
      case i_op inst of
        IR_NOP \<Rightarrow> if i_dst inst = IR_NO_VREG then Some (0, mem) else None
      | IR_LOAD \<Rightarrow> if ir_type_is_float (i_type inst) \<or> bytes_at s addr \<inter> own \<noteq> {} then None
                  else Some (load_bytes s addr mem, mem)
      | IR_STORE \<Rightarrow> if ir_type_is_float (i_type inst) \<or> bytes_at s addr \<inter> own \<noteq> {} \<or> i_dst inst \<noteq> IR_NO_VREG then None
                   else Some (0, store_bytes s addr (hd vals) mem)
      | _ \<Rightarrow> map_option (\<lambda>v. (v, mem)) (int_value func slot global inst (hd vals) (last vals)))"

definition int_effect :: "ir_function \<Rightarrow> (int \<Rightarrow> u64) \<Rightarrow> (int \<Rightarrow> u64) \<Rightarrow> u64 set \<Rightarrow> ir_inst \<Rightarrow> u64 list \<Rightarrow> (u64 \<Rightarrow> u8) \<Rightarrow>
    u64 \<Rightarrow> (u64 \<Rightarrow> u8) \<Rightarrow> bool" where
  "int_effect func slot global own inst vals mem v mem' \<longleftrightarrow> int_step func slot global own inst vals mem = Some (v, mem')"

text \<open>A condition is a byte, and taken when it is not zero.\<close>

definition cond_taken :: "u64 \<Rightarrow> bool" where
  "cond_taken v \<longleftrightarrow> take_bit 8 v \<noteq> 0"

section \<open>A point of a run\<close>

text \<open>The bytes of the spill slots.\<close>

definition spill_bytes :: "x64_emitter \<Rightarrow> u64 \<Rightarrow> u64 set" where
  "spill_bytes x fp = (\<Union>s < spill_slot_count (x_ra x). bytes_at 8 (fp + word_of_int (x64_spill_offset x s)))"

definition run_setup :: "ir_module \<Rightarrow> ir_function \<Rightarrow> x64_emitter \<Rightarrow> u64 \<Rightarrow> u64 set \<Rightarrow> bool" where
  "run_setup m func x fp own \<longleftrightarrow>
     verify_pre func \<and> ir_valid m func \<and> emits_for x func \<and> spill_slot_count (x_ra x) < 2 ^ 31 \<and> spill_bytes x fp \<subseteq> own"

text \<open>The machine holds what the representation does: the frame pointer, the memory that is not the
  frame's, and, in the bytes of its type, every register that is live.\<close>

definition vreg_width :: "ir_function \<Rightarrow> nat \<Rightarrow> nat" where
  "vreg_width func v = x64_width (ir_vreg_type func (int v))"

definition holds :: "x64_emitter \<Rightarrow> u64 \<Rightarrow> (string \<Rightarrow> u64) \<Rightarrow> u64 set \<Rightarrow> nat \<Rightarrow> nat \<Rightarrow> (nat \<Rightarrow> u64) \<Rightarrow> (u64 \<Rightarrow> u8) \<Rightarrow> x64_state \<Rightarrow> bool" where
  "holds x fp syms own b i env mem st \<longleftrightarrow>
     xregs st X64_RBP = fp \<and> xsyms st = syms \<and> (\<forall>a. a \<notin> own \<longrightarrow> xmem st a = mem a) \<and>
     (\<forall>v. live_at (x_func x) b i v \<longrightarrow> low_eq (vreg_width (x_func x) v) (env v) (vreg_value x st (int v)))"

abbreviation slot_address :: "x64_emitter \<Rightarrow> u64 \<Rightarrow> int \<Rightarrow> u64" where
  "slot_address x fp \<equiv> \<lambda>i. fp + word_of_int (x_slot_offsets x ! nat i)"

abbreviation symbol_address :: "x64_emitter \<Rightarrow> (string \<Rightarrow> u64) \<Rightarrow> int \<Rightarrow> u64" where
  "symbol_address x syms \<equiv> \<lambda>g. syms (x64_symbol x g)"

text \<open>No line changes where the symbols are.\<close>

lemma write_operand_syms: "write_operand w operand v st = Some st' \<Longrightarrow> xsyms st' = xsyms st"
  by (cases operand) auto

lemma exec_binary_syms: "exec_binary mnemonic d s st = Some st' \<Longrightarrow> xsyms st' = xsyms st"
  unfolding exec_binary_def
  by (auto split: if_splits option.splits Option.bind_splits dest!: write_operand_syms simp: no_flags_def)

lemma exec_unary_syms: "exec_unary mnemonic d st = Some st' \<Longrightarrow> xsyms st' = xsyms st"
  unfolding exec_unary_def
  by (auto split: if_splits Option.bind_splits dest!: write_operand_syms simp: no_flags_def)

lemma exec_line_syms: "exec_line l st = Some st' \<Longrightarrow> xsyms st' = xsyms st"
  by (induction l st rule: exec_line.induct)
    (auto simp: sign_fill_def leave_frame_def split: if_splits dest: write_operand_syms exec_binary_syms exec_unary_syms)

lemma exec_lines_syms: "exec_lines ls st = Some st' \<Longrightarrow> xsyms st' = xsyms st"
  by (induction ls arbitrary: st) (auto split: Option.bind_splits dest!: exec_line_syms)

section \<open>What an instruction leaves alone\<close>

lemma place_reg:
  assumes "int_place x v \<or> float_place x v" and "x64_loc x v = LOCATION_REG r"
  shows "r \<notin> temporaries \<and> r \<noteq> X64_RBP"
  using assms
  by (auto simp: int_place_def float_place_def x64_target_def temporaries_def)

lemma slots_apart:
  fixes a :: u64
  assumes "s \<noteq> t" and "s < 2 ^ 31" and "t < 2 ^ 31" and "i < 8"
  shows "8 \<le> unat (a + word_of_int (base - int s * 8) + of_nat i - (a + word_of_int (base - int t * 8)))"
proof -
  have modulus: "uint (word_of_int k :: u64) = k mod 2 ^ 64" for k by (simp add: uint_word_of_int)
  have "a + word_of_int (base - int s * 8) + of_nat i - (a + word_of_int (base - int t * 8)) =
      word_of_int ((int t - int s) * 8 + int i)"
    by (simp add: algebra_simps)
  also have "uint (word_of_int ((int t - int s) * 8 + int i) :: u64) = ((int t - int s) * 8 + int i) mod 2 ^ 64"
    by (rule modulus)
  also have "8 \<le> \<dots>"
  proof (cases "s < t")
    case True
    then show ?thesis using assms by (subst mod_pos_pos_trivial) auto
  next
    case False
    then have "((int t - int s) * 8 + int i) mod 2 ^ 64 = ((int t - int s) * 8 + int i + 2 ^ 64) mod 2 ^ 64" by simp
    also have "\<dots> = (int t - int s) * 8 + int i + 2 ^ 64"
      using assms False by (intro mod_pos_pos_trivial) auto
    finally show ?thesis using assms by simp
  qed
  finally have "int 8 \<le> int (unat (a + word_of_int (base - int s * 8) + of_nat i - (a + word_of_int (base - int t * 8))))"
    by (simp only: uint_nat of_nat_numeral)
  then show ?thesis by (simp only: of_nat_le_iff)
qed

lemma kept_value:
  assumes k: "keeps_others x d st st'" and d: "int_place x d" and w: "int_place x w \<or> float_place x w"
    and ne: "x64_loc x w \<noteq> x64_loc x d"
    and slots: "\<And>v s. v = d \<or> v = w \<Longrightarrow> x64_loc x v = LOCATION_SPILL s \<Longrightarrow> s < 2 ^ 31"
  shows "vreg_value x st' w = vreg_value x st w"
proof (cases "x64_loc x w")
  case LOCATION_NONE
  then show ?thesis using w by (auto simp: int_place_def float_place_def)
next
  case (LOCATION_REG r)
  then have "r \<notin> temporaries" using place_reg [OF w] by blast
  then have "xregs st' r = xregs st r" using k ne LOCATION_REG unfolding keeps_others_def by metis
  then show ?thesis using LOCATION_REG by (simp add: vreg_value_def move_vreg_def)
next
  case (LOCATION_SPILL s)
  have "x64_loc x d \<noteq> LOCATION_REG X64_RBP" using place_reg d by blast
  then have rbp: "xregs st' X64_RBP = xregs st X64_RBP"
    using k unfolding keeps_others_def by (simp add: temporaries_def)
  let ?a = "move_address st X64_RBP (x64_spill_offset x s)"
  have "xmem st' (?a + of_nat i) = xmem st (?a + of_nat i)" if i: "i < 8" for i
  proof -
    have "case x64_loc x d of LOCATION_SPILL t \<Rightarrow>
        8 \<le> unat (?a + of_nat i - move_address st X64_RBP (x64_spill_offset x t)) | _ \<Rightarrow> True"
    proof (cases "x64_loc x d")
      case (LOCATION_SPILL t)
      then have "s \<noteq> t" "s < 2 ^ 31" "t < 2 ^ 31" using slots \<open>x64_loc x w = LOCATION_SPILL s\<close> ne by auto
      from slots_apart [OF this i, of "xregs st X64_RBP" "x_spill_base x"] show ?thesis
        using LOCATION_SPILL by (simp only: move_address.simps x64_spill_offset_def location.case)
    qed simp_all
    then show ?thesis using k unfolding keeps_others_def by blast
  qed
  then have "load_bytes 8 ?a (xmem st') = load_bytes 8 ?a (xmem st)" by (rule load_cong)
  then show ?thesis using LOCATION_SPILL rbp by (simp add: vreg_value_def move_vreg_def)
qed

text \<open>The slot of a register is in the frame.\<close>

lemma unat_less_bytes: "unat (a - b) < n \<Longrightarrow> a \<in> bytes_at n b"
  unfolding bytes_at_def by (rule image_eqI [of _ _ "unat (a - b)"]) simp_all

lemma kept_memory:
  assumes k: "keeps_others x d st st'" and fp: "xregs st X64_RBP = fp"
    and slot: "\<And>s. x64_loc x d = LOCATION_SPILL s \<Longrightarrow> s < spill_slot_count (x_ra x)"
    and own: "spill_bytes x fp \<subseteq> own" and a: "a \<notin> own"
  shows "xmem st' a = xmem st a"
proof -
  have "case x64_loc x d of LOCATION_SPILL s \<Rightarrow> 8 \<le> unat (a - move_address st X64_RBP (x64_spill_offset x s)) | _ \<Rightarrow> True"
  proof (cases "x64_loc x d")
    case (LOCATION_SPILL s)
    have "a \<notin> bytes_at 8 (fp + word_of_int (x64_spill_offset x s))"
      using own a slot [OF LOCATION_SPILL] by (auto simp: spill_bytes_def)
    then show ?thesis using unat_less_bytes LOCATION_SPILL fp by (auto simp: not_less [symmetric])
  qed simp_all
  then show ?thesis using k unfolding keeps_others_def by blast
qed

section \<open>One instruction\<close>

text \<open>A state of the machine at a point that a run can reach.\<close>

definition at_point :: "ir_module \<Rightarrow> ir_function \<Rightarrow> x64_emitter \<Rightarrow> u64 \<Rightarrow> (string \<Rightarrow> u64) \<Rightarrow> u64 set \<Rightarrow> nat \<Rightarrow> nat \<Rightarrow>
    (nat \<Rightarrow> u64) \<Rightarrow> (u64 \<Rightarrow> u8) \<Rightarrow> x64_state \<Rightarrow> bool" where
  "at_point m func x fp syms own b i env mem st \<longleftrightarrow>
     run_setup m func x fp own \<and> (edge func)\<^sup>*\<^sup>* 0 b \<and> b < block_count func \<and> i \<le> length (insts_of func b) \<and>
     holds x fp syms own b i env mem st"

lemma at_point_facts:
  assumes "at_point m func x fp syms own b i env mem st"
  shows "ir_valid m func" "ir_wf func" "emits_for x func" "x_func x = func" "b < block_count func"
    "i \<le> length (insts_of func b)" "spill_bytes x fp \<subseteq> own" "spill_slot_count (x_ra x) < 2 ^ 31"
    "xregs st X64_RBP = fp" "xsyms st = syms" "a \<notin> own \<Longrightarrow> xmem st a = mem a"
    "live_at func b i v \<Longrightarrow> low_eq (vreg_width func v) (env v) (vreg_value x st (int v))"
  using assms valid_wf by (auto simp: at_point_def run_setup_def holds_def emits_for_def)

text \<open>The registers that are live at the point or that the instruction writes.\<close>

definition in_play :: "ir_function \<Rightarrow> nat \<Rightarrow> nat \<Rightarrow> int \<Rightarrow> bool" where
  "in_play func b i v \<longleftrightarrow> 0 \<le> v \<and>
     (live_at func b i (nat v) \<or> (i < length (insts_of func b) \<and> v = i_dst (insts_of func b ! i) \<and> v \<noteq> IR_NO_VREG))"

lemma in_play_covered:
  assumes "at_point m func x fp syms own b i env mem st" and "in_play func b i v"
  shows "covers (ra_intervals (x_ra x)) (nat v) (point_pos func b i)"
  using assms(2) covers_live [OF emits_for_result(3)] covers_dst [OF emits_for_result(3)] at_point_facts [OF assms(1)]
  unfolding in_play_def by blast

lemma in_play_place:
  assumes p: "at_point m func x fp syms own b i env mem st" and v: "in_play func b i v"
  shows "ir_type_is_float (ir_vreg_type func v) \<Longrightarrow> float_place x v"
    and "\<not> ir_type_is_float (ir_vreg_type func v) \<Longrightarrow> int_place x v"
    and "x64_loc x v = LOCATION_SPILL s \<Longrightarrow> s < spill_slot_count (x_ra x)"
  using covered_place [OF at_point_facts(3) [OF p] at_point_facts(2) [OF p] in_play_covered [OF p v]] v by (auto simp: in_play_def)

lemma in_play_apart:
  assumes p: "at_point m func x fp syms own b i env mem st" and "in_play func b i v" "in_play func b i w" and "v \<noteq> w"
  shows "x64_loc x v \<noteq> x64_loc x w"
proof -
  have "0 \<le> v" "0 \<le> w" using assms(2,3) by (simp_all add: in_play_def)
  then have "nat v \<noteq> nat w" using assms(4) by simp
  then show ?thesis
    by (rule covered_apart [OF at_point_facts(3) [OF p] at_point_facts(2) [OF p] in_play_covered [OF p assms(2)]
          in_play_covered [OF p assms(3)]])
qed

lemma operand_in_play:
  assumes p: "at_point m func x fp syms own b i env mem st" and i: "i < length (insts_of func b)"
    and u: "u \<in> set (ir_inst_uses (insts_of func b ! i))" "vreg_ok func u"
  shows "in_play func b i u" "low_eq (x64_width (ir_vreg_type func u)) (env (nat u)) (vreg_value x st u)"
proof -
  have "live_at func b i (nat u)" using i u by (auto intro!: live_at.used_here simp: inst_uses_def)
  then show "in_play func b i u" "low_eq (x64_width (ir_vreg_type func u)) (env (nat u)) (vreg_value x st u)"
    using u(2) at_point_facts(12) [OF p, of "nat u"] by (auto simp: in_play_def vreg_ok_def vreg_width_def)
qed

lemma target_in_play:
  assumes p: "at_point m func x fp syms own b i env mem st" and i: "i < length (insts_of func b)"
    and d: "i_dst (insts_of func b ! i) \<noteq> IR_NO_VREG"
  shows "in_play func b i (i_dst (insts_of func b ! i))" "0 \<le> i_dst (insts_of func b ! i)"
    "\<not> live_at func b i (nat (i_dst (insts_of func b ! i)))"
proof -
  have "vreg_ok func (i_dst (insts_of func b ! i))"
    by (rule typed_dst_ok [OF valid_typed [OF at_point_facts(1) [OF p] at_point_facts(5) [OF p] i] d])
  then show "in_play func b i (i_dst (insts_of func b ! i))" "0 \<le> i_dst (insts_of func b ! i)"
    using i d by (auto simp: in_play_def vreg_ok_def)
  show "\<not> live_at func b i (nat (i_dst (insts_of func b ! i)))"
    using p i d by (intro target_not_live [where m = m]) (auto simp: at_point_def run_setup_def)
qed

text \<open>The registers that are not for temporaries and are no place of a register of the function.\<close>

definition free_kept :: "x64_emitter \<Rightarrow> x64_state \<Rightarrow> x64_state \<Rightarrow> bool" where
  "free_kept x st st' \<longleftrightarrow>
     (\<forall>r. r \<notin> temporaries \<longrightarrow> LOCATION_REG r \<notin> set (ra_locations (x_ra x)) \<longrightarrow> xregs st' r = xregs st r)"

lemma free_kept_trans: "free_kept x st st' \<Longrightarrow> free_kept x st' st'' \<Longrightarrow> free_kept x st st''"
  by (simp add: free_kept_def)

lemma free_kept_temporaries: "\<forall>r. r \<notin> temporaries \<longrightarrow> xregs st' r = xregs st r \<Longrightarrow> free_kept x st st'"
  by (simp add: free_kept_def)

text \<open>The point after an instruction whose code has left its value in the place of its destination.\<close>

lemma computed_point:
  assumes p: "at_point m func x fp syms own b i env mem st" and i: "i < length (insts_of func b)"
    and inst: "inst = insts_of func b ! i" and d: "i_dst inst \<noteq> IR_NO_VREG"
    and type: "\<not> ir_type_is_float (ir_vreg_type func (i_dst inst))"
    and size: "result_size inst = x64_width (ir_vreg_type func (i_dst inst))"
    and c: "computes x (i_dst inst) (result_size inst) v st ls" and v: "low_eq (result_size inst) u v"
  shows "\<exists>st'. exec_lines ls st = Some st' \<and> at_point m func x fp syms own b (Suc i) (env(nat (i_dst inst) := u)) mem st' \<and>
    free_kept x st st'"
proof -
  let ?d = "i_dst inst"
  note P = at_point_facts [OF p]
  have d_in: "in_play func b i ?d" "0 \<le> ?d" using target_in_play(1,2) [OF p i] d inst by simp_all
  have place: "int_place x ?d" using in_play_place(2) [OF p d_in(1) type] .
  from c obtain st' where run: "exec_lines ls st = Some st'"
    and low: "take_bit (8 * result_size inst) (vreg_value x st' ?d) = take_bit (8 * result_size inst) v"
    and k: "keeps_others x ?d st st'" unfolding computes_def by blast
  have "low_eq (vreg_width func w) ((env(nat ?d := u)) w) (vreg_value x st' (int w))" if w: "live_at func b (Suc i) w" for w
  proof (cases "int w = ?d")
    case True
    then show ?thesis using low v size by (auto simp: low_eq_def vreg_width_def)
  next
    case False
    then have "w \<notin> inst_defs inst" using d_in(2) by (auto simp: inst_defs_def)
    then have live: "live_at func b i w" using live_at.used_later [OF i _ w] inst by simp
    then have w_in: "in_play func b i (int w)" by (simp add: in_play_def)
    have "vreg_value x st' (int w) = vreg_value x st (int w)"
    proof (rule kept_value [OF k place])
      show "int_place x (int w) \<or> float_place x (int w)" using in_play_place [OF p w_in] by blast
      show "x64_loc x (int w) \<noteq> x64_loc x ?d" by (rule in_play_apart [OF p w_in d_in(1) False])
      show "s < 2 ^ 31" if "a = ?d \<or> a = int w" "x64_loc x a = LOCATION_SPILL s" for a s
        using in_play_place(3) [OF p] d_in(1) w_in that P(8) by (meson less_trans)
    qed
    then show ?thesis using P(12) [OF live] False d_in(2) by auto
  qed
  moreover have "xregs st' X64_RBP = fp"
  proof -
    have "x64_loc x ?d \<noteq> LOCATION_REG X64_RBP" using place_reg place by blast
    then show ?thesis using k P(9) unfolding keeps_others_def by (simp add: temporaries_def)
  qed
  moreover have "xmem st' a = mem a" if "a \<notin> own" for a
    using kept_memory [OF k P(9) in_play_place(3) [OF p d_in(1)] P(7) that] P(11) [OF that] by simp
  moreover have "xsyms st' = syms" using exec_lines_syms [OF run] P(10) by simp
  ultimately have "at_point m func x fp syms own b (Suc i) (env(nat ?d := u)) mem st'"
    using p i P(4) by (simp add: at_point_def holds_def)
  moreover have "nat ?d < length (ra_locations (x_ra x))"
    using in_play_covered [OF p d_in(1)] emits_for_result(1) [OF P(3,2)]
    by (simp add: covers_def allocation_ok_def)
  then have "x64_loc x ?d \<in> set (ra_locations (x_ra x))" by (simp add: x64_loc_def)
  then have "free_kept x st st'" using k unfolding free_kept_def keeps_others_def by metis
  ultimately show ?thesis using run by blast
qed

text \<open>The operands of such an instruction in the list of its uses.\<close>

lemma reads_same:
  "op \<in> value_ops \<Longrightarrow> IRVerify.reads_a op = X64Correct.reads_a op \<and> IRVerify.reads_b op = X64Correct.reads_b op"
  by (auto simp: value_ops_def op_groups X64Correct.reads_a_def X64Correct.reads_b_def IRVerify.reads_a_def
      IRVerify.reads_b_def)

lemma value_uses:
  assumes "ir_typed m func inst" and "fields_ok inst" and op: "i_op inst \<in> value_ops"
  shows "X64Correct.reads_a (i_op inst) \<Longrightarrow> i_a inst \<in> set (ir_inst_uses inst) \<and> hd (map f (ir_inst_uses inst)) = f (i_a inst)"
    and "X64Correct.reads_b (i_op inst) \<Longrightarrow> i_b inst \<in> set (ir_inst_uses inst) \<and> last (map f (ir_inst_uses inst)) = f (i_b inst)"
proof -
  have a: "i_a inst \<noteq> IR_NO_VREG" if "X64Correct.reads_a (i_op inst)"
    using typed_first [OF assms(1) op that] by (auto simp: vreg_ok_def)
  have b: "i_b inst \<noteq> IR_NO_VREG" if "X64Correct.reads_b (i_op inst)"
    using typed_second [OF assms(1) op that] by (auto simp: vreg_ok_def)
  have other: "i_op inst \<notin> {IR_LOAD, IR_STORE, IR_CALL}" using op by (auto simp: value_ops_def op_groups)
  show "i_a inst \<in> set (ir_inst_uses inst) \<and> hd (map f (ir_inst_uses inst)) = f (i_a inst)" if "X64Correct.reads_a (i_op inst)"
    using a [OF that] by (simp add: ir_inst_uses_eq inst_operands_def)
  show "i_b inst \<in> set (ir_inst_uses inst) \<and> last (map f (ir_inst_uses inst)) = f (i_b inst)" if "X64Correct.reads_b (i_op inst)"
    using b [OF that] other by (simp add: ir_inst_uses_eq inst_operands_def)
qed

lemma value_step:
  assumes p: "at_point m func x fp syms own b i env mem st" and i: "i < length (insts_of func b)"
    and inst: "inst = insts_of func b ! i"
    and v: "int_value func (slot_address x fp) (symbol_address x syms) inst
      (hd (map (\<lambda>v. env (nat v)) (ir_inst_uses inst))) (last (map (\<lambda>v. env (nat v)) (ir_inst_uses inst))) = Some v"
  shows "i_dst inst \<noteq> IR_NO_VREG \<and> (\<exists>ls st'. x64_emit_inst to_float x inst n = Some (ls, n) \<and> exec_lines ls st = Some st' \<and>
    at_point m func x fp syms own b (Suc i) (env(nat (i_dst inst) := v)) mem st' \<and> free_kept x st st')"
proof -
  note P = at_point_facts [OF p]
  have typed: "ir_typed m func inst" using valid_typed [OF P(1,5) i] inst by simp
  have "verify_pre func" using p by (simp add: at_point_def run_setup_def)
  then have fields: "fields_ok inst" using P(5) i inst by (simp add: verify_pre_def)
  have op: "i_op inst \<in> value_ops" and nf: "\<not> ir_type_is_float (i_type inst)" using int_value_ops [OF v] by simp_all
  note target = typed_target [OF typed op] and first = typed_first [OF typed op] and second = typed_second [OF typed op]
  note uses_a = value_uses(1) [OF typed fields op] and uses_b = value_uses(2) [OF typed fields op]
  have a: "in_play func b i (i_a inst) \<and> low_eq (x64_width (ir_vreg_type func (i_a inst))) (env (nat (i_a inst)))
      (vreg_value x st (i_a inst))" if "X64Correct.reads_a (i_op inst)"
    using operand_in_play [OF p i, of "i_a inst"] uses_a [OF that] first [OF that] inst by blast
  have b: "in_play func b i (i_b inst) \<and> low_eq (x64_width (ir_vreg_type func (i_b inst))) (env (nat (i_b inst)))
      (vreg_value x st (i_b inst))" if "X64Correct.reads_b (i_op inst)"
    using operand_in_play [OF p i, of "i_b inst"] uses_b [OF that] second [OF that] inst by blast
  obtain v' where v': "int_value func (slot_address x fp) (symbol_address x syms) inst
      (vreg_value x st (i_a inst)) (vreg_value x st (i_b inst)) = Some v'" "low_eq (result_size inst) v v'"
    using int_value_cong [OF typed v] a b uses_a uses_b by metis
  then have value': "ir_int_value x st inst = Some v'"
    using P(9,10) by (simp add: ir_int_value_eq [OF P(4)])
  have type_a: "\<not> ir_type_is_float (ir_vreg_type func (i_a inst))" if "X64Correct.reads_a (i_op inst)"
    using first [OF that] v nf by (auto simp: int_value_def Let_def ir_type_is_float_def split: if_splits)
  have type_b: "\<not> ir_type_is_float (ir_vreg_type func (i_b inst))" if "X64Correct.reads_b (i_op inst)"
    using second [OF that] nf by (auto simp: ir_type_is_float_def split: if_splits)
  have d: "in_play func b i (i_dst inst)" using target_in_play(1) [OF p i] target inst by simp
  have "int_place x (i_a inst)" if "X64Correct.reads_a (i_op inst)"
    using in_play_place(2) [OF p] a [OF that] type_a [OF that] by blast
  moreover have "int_place x (i_b inst)" if "X64Correct.reads_b (i_op inst)"
    using in_play_place(2) [OF p] b [OF that] type_b [OF that] by blast
  moreover have "int_place x (i_dst inst)"
    by (rule in_play_place(2) [OF p d typed_target_type [OF typed op nf]])
  moreover have "x64_loc x (i_dst inst) \<noteq> x64_loc x (i_b inst)" if r: "X64Correct.reads_b (i_op inst)"
  proof -
    have "nat (i_b inst) \<in> inst_uses (insts_of func b ! i)"
      using uses_b [OF r, of id] unfolding inst_uses_def inst by blast
    then have "live_at func b i (nat (i_b inst))" by (rule live_at.used_here [OF i])
    moreover have "\<not> live_at func b i (nat (i_dst inst))"
      using target_in_play(3) [OF p i, folded inst] target by blast
    ultimately have "i_dst inst \<noteq> i_b inst" by metis
    then show ?thesis using in_play_apart [OF p d] b [OF r] by blast
  qed
  ultimately have "places_ok x inst" by (simp add: places_ok_def)
  from emit_integer [OF this value', of to_float n] obtain ls where
    ls: "x64_emit_inst to_float x inst n = Some (ls, n)" "computes x (i_dst inst) (result_size inst) v' st ls"
    unfolding emits_def by blast
  have "i_dst inst \<noteq> IR_NO_VREG" and "result_size inst = x64_width (ir_vreg_type func (i_dst inst))"
    using target by blast+
  from this(1) computed_point [OF p i inst this(1) typed_target_type [OF typed op nf] this(2) ls(2) v'(2)] ls(1)
  show ?thesis by blast
qed

section \<open>Loads and stores of a point\<close>

lemma memory_types:
  assumes "ir_typed m func inst" and "i_op inst = IR_LOAD \<or> i_op inst = IR_STORE"
  shows "addr_typed m func (i_addr inst)"
    and "i_op inst = IR_STORE \<Longrightarrow> has_type func (i_a inst) (i_type inst)"
    and "i_op inst = IR_LOAD \<Longrightarrow> writes func inst (i_type inst)"
  using assms by (auto simp: ir_typed_iff op_groups)

lemma memory_uses:
  assumes "fields_ok inst" and "i_op inst = IR_LOAD \<or> i_op inst = IR_STORE"
  shows "ir_inst_uses inst = (if i_op inst = IR_STORE \<and> i_a inst \<noteq> IR_NO_VREG then [i_a inst] else []) @
    (if addr_kind (i_addr inst) = IR_ADDR_VREG then [addr_base (i_addr inst)] else [])"
proof -
  have "\<not> IRVerify.reads_b (i_op inst)" using assms(2) by (auto simp: IRVerify.reads_b_def op_groups)
  then have b: "i_b inst = IR_NO_VREG" using assms(1) by (simp add: fields_ok_def)
  have a: "i_a inst = IR_NO_VREG" if "i_op inst = IR_LOAD"
    using assms(1) that by (simp add: fields_ok_def IRVerify.reads_a_def)
  show ?thesis
    using assms(2) a b by (elim disjE) (simp_all add: ir_inst_uses_eq inst_operands_def)
qed

lemma address_here:
  assumes p: "at_point m func x fp syms own b i env mem st" and i: "i < length (insts_of func b)"
    and inst: "inst = insts_of func b ! i" and op: "i_op inst = IR_LOAD \<or> i_op inst = IR_STORE"
  shows "addr_place x (i_addr inst)"
    and "ir_address x st (i_addr inst) = address_value (slot_address x fp) (symbol_address x syms) (i_addr inst)
      (last (map (\<lambda>v. env (nat v)) (ir_inst_uses inst)))"
proof -
  note P = at_point_facts [OF p]
  have typed: "ir_typed m func inst" using valid_typed [OF P(1,5) i] inst by simp
  have "verify_pre func" using p by (simp add: at_point_def run_setup_def)
  then have fields: "fields_ok inst" using P(5) i inst by (simp add: verify_pre_def)
  note uses = memory_uses [OF fields op]
  have base: "in_play func b i (addr_base (i_addr inst))" "env (nat (addr_base (i_addr inst))) = vreg_value x st (addr_base (i_addr inst))"
      "ir_vreg_type func (addr_base (i_addr inst)) = IR_PTR"
    if k: "addr_kind (i_addr inst) = IR_ADDR_VREG"
  proof -
    have t: "has_type func (addr_base (i_addr inst)) IR_PTR" using memory_types(1) [OF typed op] k by simp
    have "addr_base (i_addr inst) \<in> set (ir_inst_uses (insts_of func b ! i))" using uses k inst by simp
    from operand_in_play [OF p i this has_type_ok [OF t]]
    show "in_play func b i (addr_base (i_addr inst))" "env (nat (addr_base (i_addr inst))) = vreg_value x st (addr_base (i_addr inst))"
      "ir_vreg_type func (addr_base (i_addr inst)) = IR_PTR"
      using t by (simp_all add: has_type_def x64_width_def low_eq_full)
  qed
  have "int_place x (addr_base (i_addr inst))" if "addr_kind (i_addr inst) = IR_ADDR_VREG"
    using in_play_place(2) [OF p base(1) [OF that]] base(3) [OF that] by (simp add: ir_type_is_float_def)
  moreover have "addr_kind (i_addr inst) \<noteq> IR_ADDR_NONE" using memory_types(1) [OF typed op] by (auto split: ir_addr_kind.splits)
  ultimately show "addr_place x (i_addr inst)" by (auto simp: addr_place_def split: ir_addr_kind.splits)
  show "ir_address x st (i_addr inst) = address_value (slot_address x fp) (symbol_address x syms) (i_addr inst)
      (last (map (\<lambda>v. env (nat v)) (ir_inst_uses inst)))"
  proof (cases "addr_kind (i_addr inst)")
    case IR_ADDR_VREG
    then have "last (map (\<lambda>v. env (nat v)) (ir_inst_uses inst)) = env (nat (addr_base (i_addr inst)))"
      using uses by simp
    then show ?thesis using base(2) IR_ADDR_VREG by (simp add: ir_address_def address_value_def)
  qed (simp_all add: ir_address_def address_value_def P(9,10))
qed

lemma load_step:
  assumes p: "at_point m func x fp syms own b i env mem st" and i: "i < length (insts_of func b)"
    and inst: "inst = insts_of func b ! i" and op: "i_op inst = IR_LOAD" and type: "\<not> ir_type_is_float (i_type inst)"
    and addr: "addr = address_value (slot_address x fp) (symbol_address x syms) (i_addr inst)
      (last (map (\<lambda>v. env (nat v)) (ir_inst_uses inst)))"
    and bytes: "bytes_at (x64_width (i_type inst)) addr \<inter> own = {}"
  shows "i_dst inst \<noteq> IR_NO_VREG \<and> (\<exists>ls st'. x64_emit_inst to_float x inst n = Some (ls, n) \<and> exec_lines ls st = Some st' \<and>
    at_point m func x fp syms own b (Suc i) (env(nat (i_dst inst) := load_bytes (x64_width (i_type inst)) addr mem)) mem st' \<and>
    free_kept x st st')"
proof -
  note P = at_point_facts [OF p]
  let ?w = "x64_width (i_type inst)"
  have typed: "ir_typed m func inst" using valid_typed [OF P(1,5) i] inst by simp
  have target: "i_dst inst \<noteq> IR_NO_VREG" "ir_vreg_type func (i_dst inst) = i_type inst"
    using memory_types(3) [OF typed _ op] op by (simp_all add: writes_def has_type_def)
  have size: "result_size inst = x64_width (ir_vreg_type func (i_dst inst))"
    using op target(2) by (simp add: result_size_def)
  have nf: "\<not> ir_type_is_float (ir_vreg_type func (i_dst inst))" using type target(2) by simp
  have d: "in_play func b i (i_dst inst)" using target_in_play(1) [OF p i] target inst by simp
  have same: "ir_address x st (i_addr inst) = addr" using address_here(2) [OF p i inst disjI1 [OF op]] addr by simp
  have "xmem st (addr + of_nat k) = mem (addr + of_nat k)" if "k < ?w" for k
    using bytes that P(11) [of "addr + of_nat k"] by (auto simp: bytes_at_def)
  then have loaded: "load_bytes ?w addr (xmem st) = load_bytes ?w addr mem" by (rule load_cong)
  have "emits to_float x n inst (load_bytes ?w addr mem) st"
    using emit_load [OF op type in_play_place(2) [OF p d nf] address_here(1) [OF p i inst disjI1 [OF op]],
        where st = st and to_float = to_float and n = n] same loaded by simp
  then obtain ls where ls: "x64_emit_inst to_float x inst n = Some (ls, n)"
    "computes x (i_dst inst) (result_size inst) (load_bytes ?w addr mem) st ls" unfolding emits_def by blast
  from computed_point [OF p i inst target(1) nf size ls(2) low_eq_refl] ls(1) target(1) show ?thesis by blast
qed

lemma store_step:
  assumes p: "at_point m func x fp syms own b i env mem st" and i: "i < length (insts_of func b)"
    and inst: "inst = insts_of func b ! i" and op: "i_op inst = IR_STORE" and type: "\<not> ir_type_is_float (i_type inst)"
    and addr: "addr = address_value (slot_address x fp) (symbol_address x syms) (i_addr inst)
      (last (map (\<lambda>v. env (nat v)) (ir_inst_uses inst)))"
    and bytes: "bytes_at (x64_width (i_type inst)) addr \<inter> own = {}" and no_dst: "i_dst inst = IR_NO_VREG"
  shows "\<exists>ls st'. x64_emit_inst to_float x inst n = Some (ls, n) \<and> exec_lines ls st = Some st' \<and>
    at_point m func x fp syms own b (Suc i) env
      (store_bytes (x64_width (i_type inst)) addr (hd (map (\<lambda>v. env (nat v)) (ir_inst_uses inst))) mem) st' \<and>
    free_kept x st st'"
proof -
  note P = at_point_facts [OF p]
  let ?w = "x64_width (i_type inst)"
  have typed: "ir_typed m func inst" using valid_typed [OF P(1,5) i] inst by simp
  have "verify_pre func" using p by (simp add: at_point_def run_setup_def)
  then have fields: "fields_ok inst" using P(5) i inst by (simp add: verify_pre_def)
  have t: "has_type func (i_a inst) (i_type inst)" using memory_types(2) [OF typed _ op] op by simp
  have uses: "i_a inst \<in> set (ir_inst_uses inst)" "hd (map (\<lambda>v. env (nat v)) (ir_inst_uses inst)) = env (nat (i_a inst))"
    using memory_uses [OF fields disjI2 [OF op]] op t by (auto simp: has_type_def vreg_ok_def)
  have a: "in_play func b i (i_a inst)" "low_eq ?w (env (nat (i_a inst))) (vreg_value x st (i_a inst))"
    using operand_in_play [OF p i _ has_type_ok [OF t]] uses(1) inst t by (auto simp: has_type_def)
  have place: "int_place x (i_a inst)" using in_play_place(2) [OF p a(1)] t type by (simp add: has_type_def)
  have same: "ir_address x st (i_addr inst) = addr" using address_here(2) [OF p i inst disjI2 [OF op]] addr by simp
  obtain ls st' where run: "x64_emit_inst to_float x inst n = Some (ls, n)" "exec_lines ls st = Some st'"
    and regs: "\<forall>r. r \<notin> temporaries \<longrightarrow> xregs st' r = xregs st r"
    and stored: "xmem st' = store_bytes ?w addr (vreg_value x st (i_a inst)) (xmem st)"
    using emit_store [OF op type place address_here(1) [OF p i inst disjI2 [OF op]], of to_float n st] same by auto
  have rbp: "xregs st' X64_RBP = xregs st X64_RBP" using regs by (simp add: temporaries_def)
  have outside: "xmem st' q = xmem st q" if "q \<in> own" for q
  proof -
    have "q \<notin> bytes_at ?w addr" using bytes that by blast
    then show ?thesis using unat_less_bytes stored by (auto simp: store_bytes_def)
  qed
  have "low_eq (vreg_width func w) (env w) (vreg_value x st' (int w))" if w: "live_at func b (Suc i) w" for w
  proof -
    have live: "live_at func b i w"
      using live_at.used_later [OF i _ w] no_dst inst by (simp add: inst_defs_def)
    then have w_in: "in_play func b i (int w)" by (simp add: in_play_def)
    have "vreg_value x st' (int w) = vreg_value x st (int w)"
    proof (cases "x64_loc x (int w)")
      case (LOCATION_REG r)
      then have "r \<notin> temporaries" using in_play_place [OF p w_in] place_reg by blast
      then show ?thesis using regs LOCATION_REG by (simp add: vreg_value_def move_vreg_def)
    next
      case (LOCATION_SPILL s)
      let ?q = "fp + word_of_int (x64_spill_offset x s)"
      have "?q + of_nat k \<in> own" if "k < 8" for k
        using in_play_place(3) [OF p w_in LOCATION_SPILL] P(7) that by (fastforce simp: spill_bytes_def bytes_at_def)
      then have "load_bytes 8 ?q (xmem st') = load_bytes 8 ?q (xmem st)" by (intro load_cong outside)
      then show ?thesis using LOCATION_SPILL rbp P(9) by (simp add: vreg_value_def move_vreg_def)
    next
      case LOCATION_NONE
      then show ?thesis using in_play_place [OF p w_in] by (auto simp: int_place_def float_place_def)
    qed
    then show ?thesis using P(12) [OF live] by simp
  qed
  moreover have "xmem st' q = store_bytes ?w addr (hd (map (\<lambda>v. env (nat v)) (ir_inst_uses inst))) mem q" if "q \<notin> own" for q
  proof -
    have "store_bytes ?w addr (vreg_value x st (i_a inst)) (xmem st) = store_bytes ?w addr (env (nat (i_a inst))) (xmem st)"
      using store_low [of ?w addr "vreg_value x st (i_a inst)"] store_low [of ?w addr "env (nat (i_a inst))"] a(2)
      by (simp add: low_eq_def)
    then show ?thesis using stored P(11) [OF that] uses(2) by (simp add: store_bytes_def)
  qed
  moreover have "xsyms st' = syms" using exec_lines_syms [OF run(2)] P(10) by simp
  ultimately have "at_point m func x fp syms own b (Suc i) env
      (store_bytes ?w addr (hd (map (\<lambda>v. env (nat v)) (ir_inst_uses inst))) mem) st'"
    using p i P(4,9) rbp by (simp add: at_point_def holds_def)
  then show ?thesis using run free_kept_temporaries [OF regs] by blast
qed

text \<open>Every instruction that has a step.\<close>

lemma inst_step:
  assumes p: "at_point m func x fp syms own b i env mem st" and i: "i < length (insts_of func b)"
    and inst: "inst = insts_of func b ! i"
    and e: "int_effect func (slot_address x fp) (symbol_address x syms) own inst
      (map (\<lambda>v. env (nat v)) (ir_inst_uses inst)) mem v mem'"
    and env': "env' = (if i_dst inst = IR_NO_VREG then env else env(nat (i_dst inst) := v))"
  shows "\<exists>ls st'. x64_emit_inst to_float x inst n = Some (ls, n) \<and> exec_lines ls st = Some st' \<and>
    at_point m func x fp syms own b (Suc i) env' mem' st' \<and> free_kept x st st'"
proof -
  let ?vals = "map (\<lambda>v. env (nat v)) (ir_inst_uses inst)"
  consider (nop) "i_op inst = IR_NOP" | (load) "i_op inst = IR_LOAD" | (store) "i_op inst = IR_STORE"
    | (other) "i_op inst \<notin> {IR_NOP, IR_LOAD, IR_STORE}" by blast
  then show ?thesis
  proof cases
    case nop
    then have d: "i_dst inst = IR_NO_VREG" "v = 0" "mem' = mem"
      using e by (auto simp: int_effect_def int_step_def Let_def split: if_splits)
    have "live_at func b i w" if "live_at func b (Suc i) w" for w
      using live_at.used_later [OF i _ that] d(1) inst by (simp add: inst_defs_def)
    then have "at_point m func x fp syms own b (Suc i) env mem st"
      using p i at_point_facts(4) [OF p] by (simp add: at_point_def holds_def)
    moreover have "free_kept x st st" by (simp add: free_kept_def)
    ultimately show ?thesis using nop d env' by (simp add: x64_emit_inst_def)
  next
    case load
    let ?addr = "address_value (slot_address x fp) (symbol_address x syms) (i_addr inst) (last ?vals)"
    have "\<not> ir_type_is_float (i_type inst)" "bytes_at (x64_width (i_type inst)) ?addr \<inter> own = {}"
        "v = load_bytes (x64_width (i_type inst)) ?addr mem" "mem' = mem"
      using e load by (auto simp: int_effect_def int_step_def Let_def split: if_splits)
    then show ?thesis using load_step [OF p i inst load _ refl] env' by auto
  next
    case store
    let ?addr = "address_value (slot_address x fp) (symbol_address x syms) (i_addr inst) (last ?vals)"
    have "\<not> ir_type_is_float (i_type inst)" "bytes_at (x64_width (i_type inst)) ?addr \<inter> own = {}"
        "i_dst inst = IR_NO_VREG" "mem' = store_bytes (x64_width (i_type inst)) ?addr (hd ?vals) mem"
      using e store by (auto simp: int_effect_def int_step_def Let_def split: if_splits)
    then show ?thesis using store_step [OF p i inst store _ refl] env' by auto
  next
    case other
    have "int_step func (slot_address x fp) (symbol_address x syms) own inst ?vals mem =
        map_option (\<lambda>v. (v, mem)) (int_value func (slot_address x fp) (symbol_address x syms) inst (hd ?vals) (last ?vals))"
      using other by (cases "i_op inst") (simp_all add: int_step_def Let_def)
    then have "int_value func (slot_address x fp) (symbol_address x syms) inst (hd ?vals) (last ?vals) = Some v" "mem' = mem"
      using e by (auto simp: int_effect_def)
    then show ?thesis using value_step [OF p i inst] env' by auto
  qed
qed

end
