(* ===== verification/X64Labels.thy ===== *)
theory X64Labels
  imports X64Frame
begin

text \<open>
  The labels in the code of a function: those of its blocks, of the debug information, of the conversions
  between floats and unsigned integers, and of the stack probes have different names, so the label of a
  block is in the code once.
\<close>

section \<open>Labels of lines\<close>

definition labels :: "x64_line list \<Rightarrow> string set" where
  "labels ls = {name. XLabel name \<in> set ls}"

lemma labels_simps [simp]:
  "labels [] = {}" "labels (XLine mnemonic operands # ls) = labels ls" "labels (XLabel name # ls) = insert name (labels ls)"
  "labels (ls @ ls') = labels ls \<union> labels ls'"
  by (auto simp: labels_def)

lemma labels_if [simp]: "labels (if c then ls else ls') = (if c then labels ls else labels ls')"
  by simp

lemma labels_map_line [simp]: "labels (map (\<lambda>r. XLine (f r) (g r)) rs) = {}"
  by (auto simp: labels_def)

section \<open>Moves\<close>

lemma labels_move_reg [simp]: "labels (x64_move_reg d s) = {}"
  by (simp add: x64_move_reg_def)

lemma labels_copy_at [simp]: "labels (copy_at w d a) = {}"
  by (simp add: copy_at_def)

lemma labels_finish [simp]: "labels (x64_finish_def x v r) = {}"
  by (simp add: x64_finish_def_def split: location.split)

lemma labels_use: "x64_use x v scratch = Some (ls, r) \<Longrightarrow> labels ls = {}"
  by (auto simp: x64_use_def split: location.splits)

lemma labels_address: "x64_address x addr scratch keyword = Some (ls, operand) \<Longrightarrow> labels ls = {}"
  by (auto simp: x64_address_def split: ir_addr_kind.splits Option.bind_splits dest: labels_use)

lemma labels_emit_move: "x64_emit_move d s = Some ls \<Longrightarrow> labels ls = {}"
  by (induction d s arbitrary: ls rule: x64_emit_move.induct) (auto split: if_splits Option.bind_splits)

lemma fold_option_invariant:
  assumes "fold_option f s xs = Some s'" and "P s" and "\<And>s x s'. f s x = Some s' \<Longrightarrow> P s \<Longrightarrow> P s'"
  shows "P s'"
  using assms(1,2)
proof (induction xs arbitrary: s)
  case (Cons x xs)
  then show ?case using assms(3) by (auto split: Option.bind_splits)
qed simp

lemma labels_pass_move: "pass_move p i = Some p' \<Longrightarrow> labels (mp_out p) = {} \<Longrightarrow> labels (mp_out p') = {}"
  by (auto simp: pass_move_def Let_def split: if_splits Option.bind_splits dest: labels_emit_move)

lemma labels_move_pass: "move_pass moves out = Some p \<Longrightarrow> labels out = {} \<Longrightarrow> labels (mp_out p) = {}"
  unfolding move_pass_def by (rule fold_option_invariant [where P = "\<lambda>p. labels (mp_out p) = {}"]) (auto dest: labels_pass_move)

lemma labels_break_cycle: "break_cycle moves = Some (moves', ls) \<Longrightarrow> labels ls = {}"
  by (auto simp: break_cycle_def Let_def split: option.splits Option.bind_splits)

lemma labels_register_moves:
  assumes "register_moves moves out = Some ls" and "labels out = {}"
  shows "labels ls = {}"
proof -
  have "labels out = {} \<longrightarrow> labels ls = {}"
  proof (rule register_moves.raw_induct [where P = "\<lambda>moves out ls. labels out = {} \<longrightarrow> labels ls = {}", OF _ assms(1)])
    fix again moves out ls
    assume "\<And>moves out ls. again moves out = Some ls \<Longrightarrow> labels out = {} \<longrightarrow> labels ls = {}"
      and "do { p \<leftarrow> move_pass moves out;
          (if \<not> mp_pending p then Some (mp_out p) else if mp_progress p then again (mp_moves p) (mp_out p)
           else do { (moves, ls) \<leftarrow> break_cycle (mp_moves p); again moves (mp_out p @ ls) }) } = Some ls"
    then show "labels out = {} \<longrightarrow> labels ls = {}"
      by (auto split: Option.bind_splits if_splits dest!: labels_move_pass labels_break_cycle)
  qed
  then show ?thesis using assms(2) by blast
qed

lemma labels_parallel_move:
  assumes "x64_parallel_move moves = Some ls"
  shows "labels ls = {}"
proof -
  obtain ms out where m: "fold_option memory_move (moves, []) [0..<length moves] = Some (ms, out)"
    "register_moves ms out = Some ls"
    using assms by (auto simp: x64_parallel_move_def split: Option.bind_splits)
  have "labels (snd (ms, out)) = {}"
    using m(1)
    by (rule fold_option_invariant [where P = "\<lambda>(moves, out). labels out = {}", simplified case_prod_beta])
      (auto simp: memory_move_def split: move_operand.splits Option.bind_splits dest!: labels_emit_move)
  then show ?thesis using labels_register_moves [OF m(2)] by simp
qed

section \<open>Instructions\<close>

lemma labels_extend [simp]: "labels (x64_extend_to_32 d a w sg) = {}"
  by (simp add: x64_extend_to_32_def)

lemma labels_int_binop: "x64_emit_int_binop x inst = Some ls \<Longrightarrow> labels ls = {}"
  by (auto simp: x64_emit_int_binop_def Let_def split: Option.bind_splits if_splits dest!: labels_use labels_address)

lemma labels_divide: "x64_emit_divide x inst = Some ls \<Longrightarrow> labels ls = {}"
  by (auto simp: x64_emit_divide_def Let_def split: Option.bind_splits if_splits dest!: labels_use labels_address)

lemma labels_shift: "x64_emit_shift x inst = Some ls \<Longrightarrow> labels ls = {}"
  by (auto simp: x64_emit_shift_def Let_def split: Option.bind_splits if_splits dest!: labels_use labels_address)

lemma labels_float_binop: "x64_emit_float_binop x inst = Some ls \<Longrightarrow> labels ls = {}"
  by (auto simp: x64_emit_float_binop_def Let_def split: Option.bind_splits if_splits dest!: labels_use labels_address)

lemma labels_copy: "x64_emit_copy x inst = Some ls \<Longrightarrow> labels ls = {}"
  by (auto simp: x64_emit_copy_def Let_def split: Option.bind_splits if_splits dest!: labels_use labels_address)

lemma labels_ptr_add: "x64_emit_ptr_add x inst = Some ls \<Longrightarrow> labels ls = {}"
  by (auto simp: x64_emit_ptr_add_def Let_def split: Option.bind_splits if_splits dest!: labels_use labels_address)

lemma labels_unop: "x64_emit_unop x inst = Some ls \<Longrightarrow> labels ls = {}"
  by (auto simp: x64_emit_unop_def Let_def split: Option.bind_splits if_splits dest!: labels_use labels_address)

lemma labels_fneg: "x64_emit_fneg x inst = Some ls \<Longrightarrow> labels ls = {}"
  by (auto simp: x64_emit_fneg_def Let_def split: Option.bind_splits if_splits dest!: labels_use labels_address)

lemma labels_icmp: "x64_emit_icmp x inst = Some ls \<Longrightarrow> labels ls = {}"
  by (auto simp: x64_emit_icmp_def Let_def split: Option.bind_splits if_splits dest!: labels_use labels_address)

lemma labels_load: "x64_emit_load x inst = Some ls \<Longrightarrow> labels ls = {}"
  by (auto simp: x64_emit_load_def Let_def split: Option.bind_splits if_splits dest!: labels_use labels_address)

lemma labels_store: "x64_emit_store x inst = Some ls \<Longrightarrow> labels ls = {}"
  by (auto simp: x64_emit_store_def Let_def split: Option.bind_splits if_splits dest!: labels_use labels_address)

lemma labels_fcmp_lines: "fcmp_lines cmp ucomis a b d = Some ls \<Longrightarrow> labels ls = {}"
  by (cases cmp) (auto simp: fcmp_lines_def Let_def)

lemma labels_fcmp: "x64_emit_fcmp x inst = Some ls \<Longrightarrow> labels ls = {}"
  by (auto simp: x64_emit_fcmp_def Let_def split: Option.bind_splits dest!: labels_use labels_fcmp_lines)

lemma labels_call_with_args: "x64_emit_call_with_args args target = Some ls \<Longrightarrow> labels ls = {}"
  by (auto simp: x64_emit_call_with_args_def split: if_splits Option.bind_splits dest!: labels_parallel_move)

lemma labels_memory_call: "x64_emit_memory_call x inst = Some ls \<Longrightarrow> labels ls = {}"
  by (auto simp: x64_emit_memory_call_def Let_def dest!: labels_call_with_args)

lemma labels_call: "x64_emit_call x inst = Some ls \<Longrightarrow> labels ls = {}"
  by (auto simp: x64_emit_call_def Let_def split: if_splits Option.bind_splits dest!: labels_call_with_args labels_emit_move)

lemma labels_conversion_lines:
  "conversion_lines to_float op src dst d a n = Some (ls, n') \<Longrightarrow> labels ls \<subseteq> range local_label"
  by (cases op) (auto simp: conversion_lines_def Let_def u64_to_float_def float_to_u64_def split: if_splits prod.splits)

lemma labels_conversion:
  assumes "x64_emit_conversion to_float x inst n = Some (ls, n')"
  shows "labels ls \<subseteq> range local_label"
proof -
  obtain la a d d' lc where c: "x64_use x (i_a inst) d' = Some (la, a)" "ls = la @ lc @ x64_finish_def x (i_dst inst) d"
    "conversion_lines to_float (i_op inst) (x64_vtype x (i_a inst)) (i_type inst) d a n = Some (lc, n')"
    using assms by (auto simp: x64_emit_conversion_def Let_def split: Option.bind_splits)
  show ?thesis using labels_use [OF c(1)] labels_conversion_lines [OF c(3)] by (simp add: c(2))
qed

lemma labels_inst:
  assumes "x64_emit_inst to_float x inst n = Some (ls, n')"
  shows "labels ls \<subseteq> range local_label"
proof -
  note emits = labels_int_binop labels_divide labels_shift labels_float_binop labels_copy labels_ptr_add labels_unop
    labels_fneg labels_icmp labels_load labels_store labels_fcmp labels_memory_call labels_call
  show ?thesis
    using assms
    by (cases "i_op inst")
      (auto simp: x64_emit_inst_def x64_emit_const_def x64_emit_const_float_def x64_emit_addr_def Let_def unchanged_def
        split: if_splits prod.splits dest!: emits labels_conversion [THEN subsetD])
qed

section \<open>The names of the labels\<close>

lemma decimal_starts: "\<exists>c cs. decimal n = c # cs \<and> 48 \<le> (of_char c :: nat) \<and> of_char c < (58 :: nat)"
proof (induction n rule: decimal.induct)
  case (1 n)
  show ?case
  proof (cases "n < 10")
    case True
    then show ?thesis by (simp add: decimal.simps [of n] of_char_mod_256)
  next
    case False
    then show ?thesis using 1 by (auto simp: decimal.simps [of n])
  qed
qed

definition number_label :: "nat \<Rightarrow> string" where
  "number_label n = ''.L'' @ decimal n"

lemma block_label_number: "block_label block = number_label (b_id block)"
  by (simp add: block_label_def number_label_def)

lemma number_label_inject: "number_label m = number_label n \<longleftrightarrow> m = n"
  by (simp add: number_label_def decimal_inject)

lemma number_label_other:
  "number_label n \<noteq> local_label k" "number_label n \<noteq> debug_label k" "number_label n \<noteq> ''.Lstack_probe''"
  "number_label n \<noteq> snprintf 160 (''$'' @ name)"
  using decimal_starts [of n]
  by (auto simp: number_label_def local_label_def debug_label_def snprintf_def take_Cons')

end
