(* ===== verification/X64Flow.thy ===== *)
theory X64Flow
  imports X64Run X64Labels
begin

text \<open>
  The control flow of a function: the machine that runs the lines of a function with their jumps, the place
  of every point of the function in these lines, and the simulation: every run of the blocks in the
  intermediate representation is one of the code, through the same points, with the same memory and the
  same values in the places of the live registers.
\<close>

section \<open>Running code with jumps\<close>

text \<open>A state is the number of the next line and the state of the machine. A jump goes to the line of its
  label, the first one that has the name.\<close>

fun label_position :: "x64_line list \<Rightarrow> string \<Rightarrow> nat option" where
  "label_position [] name = None"
| "label_position (l # ls) name = (if l = XLabel name then Some 0 else map_option Suc (label_position ls name))"

definition jump_condition :: "string \<Rightarrow> x64_flags option \<Rightarrow> bool option" where
  "jump_condition mnemonic f =
     (if mnemonic = ''jmp'' then Some True
      else if mnemonic = ''jz'' then map_option zf f
      else if mnemonic = ''jnz'' then map_option (\<lambda>f. \<not> zf f) f
      else if take 1 mnemonic = ''j'' then do { f \<leftarrow> f; condition_holds (drop 1 mnemonic) f } else None)"

fun jump_target :: "x64_line \<Rightarrow> string option" where
  "jump_target (XLine mnemonic [XName name]) = Some name"
| "jump_target _ = None"

fun line_mnemonic :: "x64_line \<Rightarrow> string" where
  "line_mnemonic (XLine mnemonic _) = mnemonic"
| "line_mnemonic (XLabel name) = []"

definition code_step :: "x64_line list \<Rightarrow> nat \<times> x64_state \<Rightarrow> (nat \<times> x64_state) option" where
  "code_step code = (\<lambda>(pc, st).
     if pc < length code
     then case jump_target (code ! pc) of
            Some name \<Rightarrow> do {
              taken \<leftarrow> jump_condition (line_mnemonic (code ! pc)) (xflags st);
              target \<leftarrow> label_position code name;
              Some (if taken then target else Suc pc, st)
            }
          | None \<Rightarrow> do { st' \<leftarrow> exec_line (code ! pc) st; Some (Suc pc, st') }
     else None)"

definition code_runs :: "x64_line list \<Rightarrow> nat \<times> x64_state \<Rightarrow> nat \<times> x64_state \<Rightarrow> bool" where
  "code_runs code = (\<lambda>s s'. code_step code s = Some s')\<^sup>*\<^sup>*"

lemma code_runs_refl [simp]: "code_runs code s s"
  by (simp add: code_runs_def)

lemma code_runs_trans: "code_runs code s s' \<Longrightarrow> code_runs code s' s'' \<Longrightarrow> code_runs code s s''"
  by (simp add: code_runs_def)

lemma code_runs_step: "code_step code s = Some s' \<Longrightarrow> code_runs code s s'"
  by (auto simp: code_runs_def)

lemma jump_target_stops: "jump_target l = Some name \<Longrightarrow> exec_line l st = None"
  by (cases l rule: jump_target.cases) (auto simp: exec_unary_def)

lemma lines_run:
  assumes "exec_lines ls st = Some st'" and "code = pre @ ls @ post"
  shows "code_runs code (length pre, st) (length (pre @ ls), st')"
  using assms
proof (induction ls arbitrary: st pre)
  case (Cons l ls)
  obtain st1 where st1: "exec_line l st = Some st1" "exec_lines ls st1 = Some st'"
    using Cons.prems(1) by (auto split: Option.bind_splits)
  have "jump_target l = None" using jump_target_stops [of l _ st] st1(1) by (cases "jump_target l") auto
  then have "code_step code (length pre, st) = Some (length (pre @ [l]), st1)"
    using st1(1) Cons.prems(2) by (simp add: code_step_def nth_append)
  moreover have "code_runs code (length (pre @ [l]), st1) (length ((pre @ [l]) @ ls), st')"
    by (rule Cons.IH [OF st1(2)]) (simp add: Cons.prems(2))
  ultimately show ?case using code_runs_trans code_runs_step by fastforce
qed simp

lemma label_position_first:
  "name \<notin> labels pre \<Longrightarrow> label_position (pre @ XLabel name # post) name = Some (length pre)"
  by (induction pre) (auto simp: labels_def)

text \<open>A jump that is taken runs to the line after the label, where the code goes on.\<close>

lemma jump_runs:
  assumes code: "code = pre @ XLine mnemonic [XName name] # post" "code = pre' @ XLabel name # post'"
    and fresh: "name \<notin> labels pre'" and c: "jump_condition mnemonic (xflags st) = Some True"
  shows "code_runs code (length pre, st) (length (pre' @ [XLabel name]), st)"
proof -
  have "label_position code name = Some (length pre')" unfolding code(2) by (rule label_position_first [OF fresh])
  moreover have "code ! length pre = XLine mnemonic [XName name]" "length pre < length code" by (simp_all add: code(1))
  ultimately have "code_step code (length pre, st) = Some (length pre', st)"
    using c by (simp add: code_step_def)
  moreover have "exec_lines [XLabel name] st = Some st" by simp
  then have "code_runs code (length pre', st) (length (pre' @ [XLabel name]), st)"
    by (rule lines_run) (simp add: code(2))
  ultimately show ?thesis using code_runs_trans code_runs_step by blast
qed

lemma jump_passes:
  assumes code: "code = pre @ XLine mnemonic [XName name] # post" "name \<in> labels code"
    and c: "jump_condition mnemonic (xflags st) = Some False"
  shows "code_runs code (length pre, st) (length (pre @ [XLine mnemonic [XName name]]), st)"
proof -
  have "\<exists>p. label_position ls name = Some p" if "name \<in> labels ls" for ls
    using that by (induction ls) (auto simp: labels_def)
  then obtain p where "label_position code name = Some p" using code(2) by blast
  then have "code_step code (length pre, st) = Some (Suc (length pre), st)"
    using c code(1) by (auto simp: code_step_def)
  then show ?thesis using code_runs_step by fastforce
qed

section \<open>The points in the code\<close>

text \<open>The emitter in block \<open>b\<close>, and what has been emitted before instruction \<open>i\<close> of it.\<close>

definition in_block :: "x64_emitter \<Rightarrow> nat \<Rightarrow> x64_emitter" where
  "in_block x b =
     x\<lparr>x_next_block := (if Suc b < block_count (x_func x) then Some (f_layout (x_func x) ! Suc b) else None)\<rparr>"

definition body_before :: "(u64 \<Rightarrow> u32) \<Rightarrow> bool \<Rightarrow> x64_emitter \<Rightarrow> x64_body \<Rightarrow> nat \<Rightarrow> x64_body option" where
  "body_before to_float debug x s b = fold_option (body_block to_float debug x) s [0..<b]"

definition body_at :: "(u64 \<Rightarrow> u32) \<Rightarrow> bool \<Rightarrow> x64_emitter \<Rightarrow> x64_body \<Rightarrow> nat \<Rightarrow> nat \<Rightarrow> x64_body option" where
  "body_at to_float debug x s b i = do {
     s \<leftarrow> body_before to_float debug x s b;
     fold_option (body_inst to_float debug (in_block x b))
       (s\<lparr>bd_lines := bd_lines s @ [XLabel (block_label (block_at (x_func x) b))]\<rparr>) (take i (insts_of (x_func x) b))
   }"

lemma fold_option_append: "fold_option f s (xs @ ys) = do { s' \<leftarrow> fold_option f s xs; fold_option f s' ys }"
  by (induction xs arbitrary: s) (auto split: Option.bind_splits)

lemma body_block_eq:
  "body_block to_float debug x s b = do {
     s \<leftarrow> fold_option (body_inst to_float debug (in_block x b))
       (s\<lparr>bd_lines := bd_lines s @ [XLabel (block_label (block_at (x_func x) b))]\<rparr>) (insts_of (x_func x) b);
     ls \<leftarrow> x64_emit_terminator (in_block x b) (b_term (block_at (x_func x) b));
     Some (s\<lparr>bd_lines := bd_lines s @ ls\<rparr>)
   }"
  by (simp add: body_block_def in_block_def insts_of_def Let_def)

lemma body_before_Suc:
  "body_before to_float debug x s (Suc b) = do {
     s \<leftarrow> body_at to_float debug x s b (length (insts_of (x_func x) b));
     ls \<leftarrow> x64_emit_terminator (in_block x b) (b_term (block_at (x_func x) b));
     Some (s\<lparr>bd_lines := bd_lines s @ ls\<rparr>)
   }"
  by (auto simp: body_before_def body_at_def fold_option_append body_block_eq split: Option.bind_splits)

lemma body_at_Suc:
  assumes "i < length (insts_of (x_func x) b)"
  shows "body_at to_float debug x s b (Suc i) = do {
     s \<leftarrow> body_at to_float debug x s b i;
     body_inst to_float debug (in_block x b) s (insts_of (x_func x) b ! i)
   }"
  using assms by (auto simp: body_at_def take_Suc_conv_app_nth fold_option_append split: Option.bind_splits)

lemma body_at_0:
  "body_at to_float debug x s b 0 = do {
     s \<leftarrow> body_before to_float debug x s b;
     Some (s\<lparr>bd_lines := bd_lines s @ [XLabel (block_label (block_at (x_func x) b))]\<rparr>)
   }"
  by (simp add: body_at_def)

lemma body_inst_lines:
  assumes "body_inst to_float debug x s inst = Some s'"
  shows "\<exists>mark ls n'. bd_lines s' = bd_lines s @ mark @ ls \<and> (mark = [] \<or> (\<exists>k. mark = [XLabel (debug_label k)])) \<and>
    x64_emit_inst to_float x inst (bd_counters s) = Some (ls, n')"
  using assms by (auto simp: body_inst_def Let_def mark_line_def split: if_splits Option.bind_splits)

section \<open>Names of the blocks\<close>

lemma in_block_simps [simp]:
  "x_func (in_block x b) = x_func x" "x_ra (in_block x b) = x_ra x" "x_slot_offsets (in_block x b) = x_slot_offsets x"
  "x_spill_base (in_block x b) = x_spill_base x" "x_module (in_block x b) = x_module x"
  "x_saved_offset (in_block x b) = x_saved_offset x"
  "x_next_block (in_block x b) = (if Suc b < block_count (x_func x) then Some (f_layout (x_func x) ! Suc b) else None)"
  by (simp_all add: in_block_def)

lemma in_block_places [simp]:
  "x64_loc (in_block x b) = x64_loc x" "x64_spill_offset (in_block x b) = x64_spill_offset x"
  "x64_symbol (in_block x b) = x64_symbol x" "x64_vtype (in_block x b) = x64_vtype x"
  by (simp_all add: fun_eq_iff x64_loc_def x64_spill_offset_def x64_symbol_def x64_vtype_def)

lemma in_block_move_vreg [simp]: "move_vreg (in_block x b) = move_vreg x"
  by (simp add: fun_eq_iff move_vreg_def split: location.split)

lemma in_block_use [simp]: "x64_use (in_block x b) = x64_use x"
  by (simp add: fun_eq_iff x64_use_def split: location.split)

lemma in_block_values [simp]: "vreg_value (in_block x b) st v = vreg_value x st v"
  by (simp add: vreg_value_def)

lemma in_block_free [simp]: "free_kept (in_block x b) st st' = free_kept x st st'"
  by (simp add: free_kept_def)

lemma in_block_point [simp]: "at_point m func (in_block x b) fp syms own c i env mem st = at_point m func x fp syms own c i env mem st"
  by (simp add: at_point_def run_setup_def holds_def emits_for_def spill_bytes_def)

lemma labels_epilogue [simp]: "labels (x64_emit_epilogue x) = {}"
  by (auto simp: x64_emit_epilogue_def labels_def)

lemma labels_terminator: "x64_emit_terminator x tm = Some ls \<Longrightarrow> labels ls = {}"
  by (auto simp: x64_emit_terminator_def split: ir_term_kind.splits Option.bind_splits if_splits
      dest!: labels_use labels_emit_move)

text \<open>The labels of the code before a block: those before the function's first block, of conversions and of
  the debug information, and of the blocks before it.\<close>

definition other_labels :: "string set" where
  "other_labels = range local_label \<union> range debug_label"

lemma labels_body_inst:
  assumes "body_inst to_float debug x s inst = Some s'"
  shows "labels (bd_lines s') \<subseteq> labels (bd_lines s) \<union> other_labels"
proof -
  obtain mark ls n' where l: "bd_lines s' = bd_lines s @ mark @ ls" "mark = [] \<or> (\<exists>k. mark = [XLabel (debug_label k)])"
    "x64_emit_inst to_float x inst (bd_counters s) = Some (ls, n')"
    using body_inst_lines [OF assms] by metis
  have "labels mark \<subseteq> other_labels" using l(2) by (auto simp: other_labels_def)
  moreover have "labels ls \<subseteq> other_labels" using labels_inst [OF l(3)] unfolding other_labels_def by blast
  ultimately show ?thesis unfolding l(1) labels_simps by blast
qed

lemma labels_body_at:
  assumes "body_at to_float debug x s b i = Some s'" and "body_before to_float debug x s b = Some s1"
  shows "labels (bd_lines s') \<subseteq> labels (bd_lines s1) \<union> other_labels \<union> {block_label (block_at (x_func x) b)}"
proof -
  let ?P = "\<lambda>s'. labels (bd_lines s') \<subseteq> labels (bd_lines s1) \<union> other_labels \<union> {block_label (block_at (x_func x) b)}"
  have "fold_option (body_inst to_float debug (in_block x b))
      (s1\<lparr>bd_lines := bd_lines s1 @ [XLabel (block_label (block_at (x_func x) b))]\<rparr>) (take i (insts_of (x_func x) b)) = Some s'"
    using assms by (simp add: body_at_def)
  then show ?thesis
  proof (rule fold_option_invariant [where P = ?P])
    show "?P (s1\<lparr>bd_lines := bd_lines s1 @ [XLabel (block_label (block_at (x_func x) b))]\<rparr>)" by auto
    show "?P t'" if "body_inst to_float debug (in_block x b) t inst = Some t'" "?P t" for t inst t'
      using labels_body_inst [OF that(1)] that(2) by auto
  qed
qed

lemma labels_body_before:
  assumes "body_before to_float debug x s b = Some s'"
  shows "labels (bd_lines s') \<subseteq> labels (bd_lines s) \<union> other_labels \<union> (\<lambda>c. block_label (block_at (x_func x) c)) ` {..<b}"
  using assms
proof (induction b arbitrary: s')
  case 0
  then show ?case by (simp add: body_before_def)
next
  case (Suc b)
  obtain s2 ls where s2: "body_at to_float debug x s b (length (insts_of (x_func x) b)) = Some s2"
    "x64_emit_terminator (in_block x b) (b_term (block_at (x_func x) b)) = Some ls" "bd_lines s' = bd_lines s2 @ ls"
    using Suc.prems by (auto simp: body_before_Suc split: Option.bind_splits)
  obtain s1 where s1: "body_before to_float debug x s b = Some s1"
    using s2(1) by (auto simp: body_at_def split: Option.bind_splits)
  show ?case
    using Suc.IH [OF s1] labels_body_at [OF s2(1) s1] labels_terminator [OF s2(2)] s2(3) by (auto simp: lessThan_Suc)
qed

section \<open>Where a point is\<close>

text \<open>The blocks of the function have different numbers, and the lines before the first block none of their
  labels.\<close>

definition labels_ok :: "ir_function \<Rightarrow> x64_body \<Rightarrow> bool" where
  "labels_ok func s \<longleftrightarrow>
     inj_on (\<lambda>b. b_id (block_at func b)) {..<block_count func} \<and> labels (bd_lines s) \<inter> range number_label = {}"

definition point_at :: "(u64 \<Rightarrow> u32) \<Rightarrow> bool \<Rightarrow> x64_emitter \<Rightarrow> x64_body \<Rightarrow> x64_line list \<Rightarrow> nat \<Rightarrow> nat \<Rightarrow> nat \<Rightarrow> bool" where
  "point_at to_float debug x s code b i pc \<longleftrightarrow>
     (\<exists>s' post. body_at to_float debug x s b i = Some s' \<and> code = bd_lines s' @ post \<and> pc = length (bd_lines s'))"

lemma body_extends:
  assumes "body_before to_float debug x s c = Some s'" and "b \<le> c"
  shows "\<exists>s1 post. body_before to_float debug x s b = Some s1 \<and> bd_lines s' = bd_lines s1 @ post"
  using assms
proof (induction c arbitrary: s')
  case (Suc c)
  show ?case
  proof (cases "b = Suc c")
    case False
    then have le: "b \<le> c" using Suc.prems(2) by simp
    obtain s2 ls where s2: "body_at to_float debug x s c (length (insts_of (x_func x) c)) = Some s2" "bd_lines s' = bd_lines s2 @ ls"
      using Suc.prems(1) by (auto simp: body_before_Suc split: Option.bind_splits)
    obtain s1 where s1: "body_before to_float debug x s c = Some s1"
      using s2(1) by (auto simp: body_at_def split: Option.bind_splits)
    obtain s0 post where s0: "body_before to_float debug x s b = Some s0" "bd_lines s1 = bd_lines s0 @ post"
      using Suc.IH [OF s1 le] by blast
    have "fold_option (body_inst to_float debug (in_block x c))
        (s1\<lparr>bd_lines := bd_lines s1 @ [XLabel (block_label (block_at (x_func x) c))]\<rparr>)
        (take (length (insts_of (x_func x) c)) (insts_of (x_func x) c)) = Some s2"
      using s2(1) s1 by (simp add: body_at_def)
    then have "\<exists>post. bd_lines s2 = bd_lines s1 @ post"
    proof (rule fold_option_invariant [where P = "\<lambda>s. \<exists>post. bd_lines s = bd_lines s1 @ post"])
      show "\<exists>post. bd_lines t' = bd_lines s1 @ post"
        if "body_inst to_float debug (in_block x c) t inst = Some t'" "\<exists>post. bd_lines t = bd_lines s1 @ post" for t inst t'
        using body_inst_lines [OF that(1)] that(2) by fastforce
    qed simp
    then show ?thesis using s0 s2(2) by fastforce
  qed (use Suc.prems in auto)
qed auto

lemma point_exists:
  assumes f: "body_before to_float debug x s (block_count (x_func x)) = Some s'" and b: "b < block_count (x_func x)"
    and i: "i \<le> length (insts_of (x_func x) b)" and code: "code = bd_lines s' @ post"
  shows "\<exists>pc. point_at to_float debug x s code b i pc"
proof -
  obtain s1 post1 where s1: "body_before to_float debug x s (Suc b) = Some s1" "bd_lines s' = bd_lines s1 @ post1"
    using body_extends [OF f, of "Suc b"] b by auto
  obtain s2 ls where s2: "body_at to_float debug x s b (length (insts_of (x_func x) b)) = Some s2" "bd_lines s1 = bd_lines s2 @ ls"
    using s1(1) by (auto simp: body_before_Suc split: Option.bind_splits)
  have "\<exists>s3 post. body_at to_float debug x s b i = Some s3 \<and> bd_lines s2 = bd_lines s3 @ post"
    using i
  proof (induction "length (insts_of (x_func x) b) - i" arbitrary: i)
    case (Suc n)
    then have "n = length (insts_of (x_func x) b) - Suc i" "Suc i \<le> length (insts_of (x_func x) b)" by simp_all
    then obtain s4 post where s4: "body_at to_float debug x s b (Suc i) = Some s4" "bd_lines s2 = bd_lines s4 @ post"
      using Suc.hyps(1) by blast
    then obtain s3 where s3: "body_at to_float debug x s b i = Some s3"
      "body_inst to_float debug (in_block x b) s3 (insts_of (x_func x) b ! i) = Some s4"
      using Suc.prems Suc.hyps(2) by (auto simp: body_at_Suc split: Option.bind_splits)
    show ?case using body_inst_lines [OF s3(2)] s3(1) s4(2) by fastforce
  qed (use s2(1) in auto)
  then show ?thesis using s1(2) s2(2) code by (auto simp: point_at_def)
qed

section \<open>One instruction in the code\<close>

definition compiled :: "(u64 \<Rightarrow> u32) \<Rightarrow> bool \<Rightarrow> x64_emitter \<Rightarrow> x64_body \<Rightarrow> x64_line list \<Rightarrow> bool" where
  "compiled to_float debug x s code \<longleftrightarrow> labels_ok (x_func x) s \<and>
     (\<exists>s' post. body_before to_float debug x s (block_count (x_func x)) = Some s' \<and> code = bd_lines s' @ post)"

lemma compiled_point:
  assumes "compiled to_float debug x s code" and "b < block_count (x_func x)" and "i \<le> length (insts_of (x_func x) b)"
  obtains s' post where "body_at to_float debug x s b i = Some s'" "code = bd_lines s' @ post"
    "point_at to_float debug x s code b i (length (bd_lines s'))"
proof -
  obtain s0 post0 where s0: "body_before to_float debug x s (block_count (x_func x)) = Some s0" "code = bd_lines s0 @ post0"
    using assms(1) by (auto simp: compiled_def)
  from point_exists [OF s0(1) assms(2,3) s0(2)] obtain s' post
    where s': "body_at to_float debug x s b i = Some s'" "code = bd_lines s' @ post" by (auto simp: point_at_def)
  then have "point_at to_float debug x s code b i (length (bd_lines s'))" by (auto simp: point_at_def)
  then show thesis using that s' by blast
qed

lemma marks_run: "mark = [] \<or> (\<exists>k. mark = [XLabel (debug_label k)]) \<Longrightarrow> exec_lines (mark @ ls) st = exec_lines ls st"
  by auto

lemma inst_in_code:
  assumes c: "compiled to_float debug x s code" and pc: "point_at to_float debug x s code b i pc"
    and p: "at_point m func x fp syms own b i env mem st" and i: "i < length (insts_of func b)"
    and e: "int_effect func (slot_address x fp) (symbol_address x syms) own (insts_of func b ! i)
      (map (\<lambda>v. env (nat v)) (ir_inst_uses (insts_of func b ! i))) mem v mem'"
    and env': "env' = (if i_dst (insts_of func b ! i) = IR_NO_VREG then env
      else env(nat (i_dst (insts_of func b ! i)) := v))"
  shows "\<exists>pc' st'. point_at to_float debug x s code b (Suc i) pc' \<and> code_runs code (pc, st) (pc', st') \<and>
    at_point m func x fp syms own b (Suc i) env' mem' st' \<and> free_kept x st st'"
proof -
  note P = at_point_facts [OF p]
  have i': "i < length (insts_of (x_func x) b)" "Suc i \<le> length (insts_of (x_func x) b)" "b < block_count (x_func x)"
    using i P(4,5) by simp_all
  obtain s2 post where s2: "body_at to_float debug x s b (Suc i) = Some s2" "code = bd_lines s2 @ post"
    "point_at to_float debug x s code b (Suc i) (length (bd_lines s2))"
    by (rule compiled_point [OF c i'(3,2)])
  obtain s1 where s1: "body_at to_float debug x s b i = Some s1"
    "body_inst to_float debug (in_block x b) s1 (insts_of func b ! i) = Some s2"
    using s2(1) body_at_Suc [OF i'(1)] P(4) by (auto split: Option.bind_splits)
  obtain mark ls n' where l: "bd_lines s2 = bd_lines s1 @ mark @ ls" "mark = [] \<or> (\<exists>k. mark = [XLabel (debug_label k)])"
    "x64_emit_inst to_float (in_block x b) (insts_of func b ! i) (bd_counters s1) = Some (ls, n')"
    using body_inst_lines [OF s1(2)] by metis
  have p': "at_point m func (in_block x b) fp syms own b i env mem st" using p by simp
  have e': "int_effect func (slot_address (in_block x b) fp) (symbol_address (in_block x b) syms) own (insts_of func b ! i)
      (map (\<lambda>v. env (nat v)) (ir_inst_uses (insts_of func b ! i))) mem v mem'" using e by simp
  obtain ls' st' where st': "x64_emit_inst to_float (in_block x b) (insts_of func b ! i) (bd_counters s1) = Some (ls', bd_counters s1)"
    "exec_lines ls' st = Some st'" "at_point m func x fp syms own b (Suc i) env' mem' st'" "free_kept x st st'"
    using inst_step [OF p' i refl e' env', of to_float "bd_counters s1"] by (simp only: in_block_point in_block_free) blast
  have "ls' = ls" using st'(1) l(3) by simp
  then have run: "exec_lines (mark @ ls) st = Some st'" using st'(2) marks_run [OF l(2)] by simp
  have "code_runs code (length (bd_lines s1), st) (length (bd_lines s1 @ mark @ ls), st')"
    by (rule lines_run [OF run]) (simp add: s2(2) l(1))
  moreover have "pc = length (bd_lines s1)" using pc s1(1) by (auto simp: point_at_def)
  ultimately show ?thesis using s2(3) st'(3,4) l(1) by auto
qed

section \<open>The end of a block\<close>

lemma block_label_fresh:
  assumes c: "compiled to_float debug x s code" and b: "b < block_count (x_func x)"
    and s': "body_before to_float debug x s b = Some s'"
  shows "block_label (block_at (x_func x) b) \<notin> labels (bd_lines s')"
proof
  let ?l = "block_label (block_at (x_func x) b)"
  have ok: "labels_ok (x_func x) s" using c by (simp add: compiled_def)
  assume "?l \<in> labels (bd_lines s')"
  then consider "?l \<in> labels (bd_lines s)" | "?l \<in> other_labels" | d where "d < b" "?l = block_label (block_at (x_func x) d)"
    using labels_body_before [OF s'] by blast
  then show False
  proof cases
    case 1
    then show False using ok by (auto simp: labels_ok_def block_label_number)
  next
    case 2
    then show False using number_label_other by (auto simp: other_labels_def block_label_number)
  next
    case 3
    then have "b_id (block_at (x_func x) b) = b_id (block_at (x_func x) d)"
      by (simp add: block_label_number number_label_inject)
    then have "b = d" using ok 3(1) b by (auto simp: labels_ok_def dest: inj_onD)
    then show False using 3(1) by simp
  qed
qed

lemma block_start:
  assumes c: "compiled to_float debug x s code" and b: "b < block_count (x_func x)"
  obtains s' post where "body_before to_float debug x s b = Some s'"
    "code = bd_lines s' @ XLabel (block_label (block_at (x_func x) b)) # post"
    "point_at to_float debug x s code b 0 (length (bd_lines s' @ [XLabel (block_label (block_at (x_func x) b))]))"
proof -
  obtain s2 post where s2: "body_at to_float debug x s b 0 = Some s2" "code = bd_lines s2 @ post"
    "point_at to_float debug x s code b 0 (length (bd_lines s2))"
    by (rule compiled_point [OF c b le0])
  obtain s' where s': "body_before to_float debug x s b = Some s'"
    "bd_lines s2 = bd_lines s' @ [XLabel (block_label (block_at (x_func x) b))]"
    using s2(1) by (auto simp: body_at_0 split: Option.bind_splits)
  show thesis using that s' s2(2,3) by simp
qed

text \<open>Getting to a block: by a jump, and from the end of the block before it.\<close>

lemma arrive_by_jump:
  assumes c: "compiled to_float debug x s code" and b: "b < block_count (x_func x)"
    and code: "code = pre @ XLine mnemonic [XName (block_label (block_at (x_func x) b))] # post"
    and j: "jump_condition mnemonic (xflags st) = Some True"
  shows "\<exists>pc. point_at to_float debug x s code b 0 pc \<and> code_runs code (length pre, st) (pc, st)"
proof -
  obtain s' post' where s': "body_before to_float debug x s b = Some s'"
    "code = bd_lines s' @ XLabel (block_label (block_at (x_func x) b)) # post'"
    "point_at to_float debug x s code b 0 (length (bd_lines s' @ [XLabel (block_label (block_at (x_func x) b))]))"
    by (rule block_start [OF c b])
  show ?thesis
    using jump_runs [where st = st, OF code s'(2) block_label_fresh [OF c b s'(1)] j] s'(3) by blast
qed

lemma block_label_in_code:
  assumes c: "compiled to_float debug x s code" and b: "b < block_count (x_func x)"
  shows "block_label (block_at (x_func x) b) \<in> labels code"
  by (rule block_start [OF c b]) simp

lemma arrive_next:
  assumes c: "compiled to_float debug x s code" and b: "b < block_count (x_func x)"
    and s': "body_before to_float debug x s b = Some s'"
  shows "\<exists>pc. point_at to_float debug x s code b 0 pc \<and> code_runs code (length (bd_lines s'), st) (pc, st)"
proof -
  obtain t post where t: "body_before to_float debug x s b = Some t"
    "code = bd_lines t @ XLabel (block_label (block_at (x_func x) b)) # post"
    "point_at to_float debug x s code b 0 (length (bd_lines t @ [XLabel (block_label (block_at (x_func x) b))]))"
    by (rule block_start [OF c b])
  have "exec_lines [XLabel (block_label (block_at (x_func x) b))] st = Some st" by simp
  then have "code_runs code (length (bd_lines t), st) (length (bd_lines t @ [XLabel (block_label (block_at (x_func x) b))]), st)"
    by (rule lines_run) (simp add: t(2))
  then show ?thesis using t(1,3) s' by auto
qed

text \<open>The places keep their values while only temporaries change.\<close>

lemma touched_point:
  assumes p: "at_point m func x fp syms own b (length (insts_of func b)) env mem st"
    and t: "touches temporaries st st'" and c: "c \<in> successors func b" "c < block_count func"
  shows "at_point m func x fp syms own c 0 env mem st'"
proof -
  note P = at_point_facts [OF p]
  have "low_eq (vreg_width func w) (env w) (vreg_value x st' (int w))" if w: "live_at func c 0 w" for w
  proof -
    have live: "live_at func b (length (insts_of func b)) w" by (rule live_at.used_after [OF c(1) w])
    then have w_in: "in_play func b (length (insts_of func b)) (int w)" by (simp add: in_play_def)
    have "vreg_value x st' (int w) = vreg_value x st (int w)"
    proof (cases "x64_loc x (int w)")
      case (LOCATION_REG r)
      then have "r \<notin> temporaries" using in_play_place [OF p w_in] place_reg by blast
      then show ?thesis using touchesD [OF t] LOCATION_REG by (simp add: vreg_value_def move_vreg_def)
    next
      case (LOCATION_SPILL s)
      have "xregs st' X64_RBP = xregs st X64_RBP" using touchesD [OF t] by (simp add: temporaries_def)
      then show ?thesis using t LOCATION_SPILL by (simp add: vreg_value_def move_vreg_def touches_def)
    next
      case LOCATION_NONE
      then show ?thesis using in_play_place [OF p w_in] by (auto simp: int_place_def float_place_def)
    qed
    then show ?thesis using P(12) [OF live] by simp
  qed
  moreover have "xregs st' X64_RBP = fp" using touchesD [OF t] P(9) by (simp add: temporaries_def)
  moreover have "(edge func)\<^sup>*\<^sup>* 0 c"
    using p c(1) by (auto simp: at_point_def edge_def intro: rtranclp.rtrancl_into_rtrancl)
  moreover have "xsyms st' = syms" "\<forall>a. a \<notin> own \<longrightarrow> xmem st' a = mem a"
    using t P(10,11) by (simp_all add: touches_def)
  ultimately show ?thesis using p c(2) P(4) by (simp add: at_point_def holds_def)
qed

lemma exec_test:
  "exec_lines [XLine ''test'' [XReg r 1, XReg r 1]] st =
    Some (st\<lparr>xflags := Some (compare_flags 1 (take_bit 8 (xregs st r) AND take_bit 8 (xregs st r)) 0)\<rparr>)"
  by (simp add: exec_binary_def pair_width_def)

lemma test_zf: "zf (compare_flags 1 (take_bit 8 v AND take_bit 8 v) 0) \<longleftrightarrow> take_bit 8 v = 0"
  by (simp add: compare_flags_def)

text \<open>The target of a valid terminator is the block with the index.\<close>

lemma valid_target:
  assumes "ir_valid m func" and "t \<in> set (f_layout func)"
  shows "successor_index func t < block_count func" "f_layout func ! successor_index func t = t"
    "f_made func ! t = block_at func (successor_index func t)"
proof -
  obtain c where c: "c < block_count func" "t = f_layout func ! c"
    using assms(2) by (auto simp: in_set_conv_nth block_count_def)
  then have "successor_index func t = c" using assms(1) by (simp add: successor_index_def ir_valid_def block_at_def)
  then show "successor_index func t < block_count func" "f_layout func ! successor_index func t = t"
    "f_made func ! t = block_at func (successor_index func t)"
    using c by (simp_all add: block_at_def)
qed

lemma block_end:
  assumes c: "compiled to_float debug x s code" and b: "b < block_count (x_func x)"
  obtains s2 ls post s3 where "body_at to_float debug x s b (length (insts_of (x_func x) b)) = Some s2"
    "x64_emit_terminator (in_block x b) (b_term (block_at (x_func x) b)) = Some ls"
    "code = bd_lines s2 @ ls @ post" "body_before to_float debug x s (Suc b) = Some s3" "bd_lines s3 = bd_lines s2 @ ls"
proof -
  obtain s0 post0 where s0: "body_before to_float debug x s (block_count (x_func x)) = Some s0" "code = bd_lines s0 @ post0"
    using c by (auto simp: compiled_def)
  obtain s3 post where s3: "body_before to_float debug x s (Suc b) = Some s3" "bd_lines s0 = bd_lines s3 @ post"
    using body_extends [OF s0(1), of "Suc b"] b by auto
  then obtain s2 ls where "body_at to_float debug x s b (length (insts_of (x_func x) b)) = Some s2"
    "x64_emit_terminator (in_block x b) (b_term (block_at (x_func x) b)) = Some ls" "bd_lines s3 = bd_lines s2 @ ls"
    by (auto simp: body_before_Suc split: Option.bind_splits)
  then show thesis using that s3 s0(2) by auto
qed

text \<open>The lines after the test of a condition: they run to the block that the condition chooses.\<close>

lemma branch_runs:
  assumes c: "compiled to_float debug x s code" and b: "b < block_count (x_func x)"
    and t: "t < block_count (x_func x)" and e: "e < block_count (x_func x)"
    and code: "code = pre @ ls @ post" and s3: "body_before to_float debug x s (Suc b) = Some s3" "bd_lines s3 = pre @ ls"
    and ls: "ls = (if Suc b < block_count (x_func x) \<and> t = Suc b then [XLine ''jz'' [XName (block_label (block_at (x_func x) e))]]
      else if Suc b < block_count (x_func x) \<and> e = Suc b then [XLine ''jnz'' [XName (block_label (block_at (x_func x) t))]]
      else [XLine ''jnz'' [XName (block_label (block_at (x_func x) t))], XLine ''jmp'' [XName (block_label (block_at (x_func x) e))]])"
    and f: "xflags st = Some f"
  shows "\<exists>pc. point_at to_float debug x s code (if zf f then e else t) 0 pc \<and> code_runs code (length pre, st) (pc, st)"
proof -
  have jz: "jump_condition ''jz'' (xflags st) = Some (zf f)" and jnz: "jump_condition ''jnz'' (xflags st) = Some (\<not> zf f)"
    and jmp: "jump_condition ''jmp'' (xflags st) = Some True" using f by (simp_all add: jump_condition_def)
  consider (next_t) "Suc b < block_count (x_func x)" "t = Suc b" "ls = [XLine ''jz'' [XName (block_label (block_at (x_func x) e))]]"
    | (next_e) "Suc b < block_count (x_func x)" "e = Suc b" "ls = [XLine ''jnz'' [XName (block_label (block_at (x_func x) t))]]"
    | (far) "ls = [XLine ''jnz'' [XName (block_label (block_at (x_func x) t))], XLine ''jmp'' [XName (block_label (block_at (x_func x) e))]]"
    using ls by argo
  then show ?thesis
  proof cases
    case next_t
    have code': "code = pre @ XLine ''jz'' [XName (block_label (block_at (x_func x) e))] # post" using code next_t(3) by simp
    show ?thesis
    proof (cases "zf f")
      case True
      then show ?thesis using arrive_by_jump [OF c e code', where st = st] jz by simp
    next
      case False
      have "code_runs code (length pre, st) (length (pre @ ls), st)"
        using jump_passes [OF code' block_label_in_code [OF c e], where st = st] jz False next_t(3) by simp
      then show ?thesis
        using arrive_next [OF c next_t(1) s3(1), of st] False s3(2) next_t(2) code_runs_trans by fastforce
    qed
  next
    case next_e
    have code': "code = pre @ XLine ''jnz'' [XName (block_label (block_at (x_func x) t))] # post" using code next_e(3) by simp
    show ?thesis
    proof (cases "zf f")
      case False
      then show ?thesis using arrive_by_jump [OF c t code', where st = st] jnz by simp
    next
      case True
      have "code_runs code (length pre, st) (length (pre @ ls), st)"
        using jump_passes [OF code' block_label_in_code [OF c t], where st = st] jnz True next_e(3) by simp
      then show ?thesis
        using arrive_next [OF c next_e(1) s3(1), of st] True s3(2) next_e(2) code_runs_trans by fastforce
    qed
  next
    case far
    let ?jnz = "XLine ''jnz'' [XName (block_label (block_at (x_func x) t))]"
    let ?jmp = "XLine ''jmp'' [XName (block_label (block_at (x_func x) e))]"
    have code': "code = pre @ ?jnz # (?jmp # post)" "code = (pre @ [?jnz]) @ ?jmp # post" using code far by simp_all
    show ?thesis
    proof (cases "zf f")
      case False
      then show ?thesis using arrive_by_jump [OF c t code'(1), where st = st] jnz by simp
    next
      case True
      have "code_runs code (length pre, st) (length (pre @ [?jnz]), st)"
        using jump_passes [OF code'(1) block_label_in_code [OF c t], where st = st] jnz True by simp
      then show ?thesis
        using arrive_by_jump [OF c e code'(2), where st = st] jmp True code_runs_trans by fastforce
    qed
  qed
qed

lemma goto_in_code:
  assumes c: "compiled to_float debug x s code" and pc: "point_at to_float debug x s code b (length (insts_of func b)) pc"
    and p: "at_point m func x fp syms own b (length (insts_of func b)) env mem st"
    and target: "term_target cond_taken (\<lambda>v. env (nat v)) (b_term (block_at func b)) = Some t"
  shows "\<exists>pc' st'. point_at to_float debug x s code (successor_index func t) 0 pc' \<and> code_runs code (pc, st) (pc', st') \<and>
    at_point m func x fp syms own (successor_index func t) 0 env mem st' \<and> free_kept x st st'"
proof -
  note P = at_point_facts [OF p]
  have same: "free_kept x st st" by (simp add: free_kept_def)
  let ?tm = "b_term (block_at func b)" and ?n = "length (insts_of func b)" and ?c = "successor_index func t"
  have func: "x_func x = func" by (rule P(4))
  have b: "b < block_count (x_func x)" using P(4,5) by simp
  have typed: "term_typed func ?tm" using P(1,5) by (simp add: ir_valid_def)
  have succ: "?c \<in> successors func b" by (rule term_target_successor [OF target])
  obtain s2 ls post s3 where B: "body_at to_float debug x s b ?n = Some s2" "x64_emit_terminator (in_block x b) ?tm = Some ls"
    "code = bd_lines s2 @ ls @ post" "body_before to_float debug x s (Suc b) = Some s3" "bd_lines s3 = bd_lines s2 @ ls"
    using block_end [OF c b] unfolding func by blast
  have pc_eq: "pc = length (bd_lines s2)" using pc B(1) by (auto simp: point_at_def)
  have label: "target_label (in_block x b) t = block_label (block_at func (successor_index func t))"
    and near: "Some t = x_next_block (in_block x b) \<longleftrightarrow> Suc b < block_count func \<and> successor_index func t = Suc b"
    and here: "successor_index func t < block_count func"
    if "t \<in> set (f_layout func)" for t
  proof -
    note V = valid_target [OF P(1) that]
    show "target_label (in_block x b) t = block_label (block_at func (successor_index func t))" "successor_index func t < block_count func"
      using V func by (simp_all add: target_label_def)
    have "successor_index func (f_layout func ! Suc b) = Suc b" if "Suc b < block_count func"
      using P(1) that by (simp add: ir_valid_def successor_index_def block_at_def)
    then have "t = f_layout func ! Suc b \<longleftrightarrow> successor_index func t = Suc b" if "Suc b < block_count func"
      using V(2) that by metis
    then show "Some t = x_next_block (in_block x b) \<longleftrightarrow> Suc b < block_count func \<and> successor_index func t = Suc b"
      by (simp add: func)
  qed
  consider (jmp) "t_kind ?tm = IR_TERM_JMP" "t_target ?tm = Some t"
    | (br) t1 e1 where "t_kind ?tm = IR_TERM_BR" "t_target ?tm = Some t1" "t_else_target ?tm = Some e1"
        "t = (if cond_taken (env (nat (t_cond ?tm))) then t1 else e1)"
    using target typed by (auto simp: term_typed_def split: ir_term_kind.splits if_splits)
  then show ?thesis
  proof cases
    case jmp
    have t: "t \<in> set (f_layout func)" using typed jmp by (simp add: term_typed_def)
    have c': "?c < block_count (x_func x)" using here [OF t] func by simp
    have ls: "ls = (if Some t \<noteq> x_next_block (in_block x b) then [XLine ''jmp'' [XName (target_label (in_block x b) t)]] else [])"
      using B(2) jmp by (simp add: x64_emit_terminator_def del: in_block_simps(7))
    have p': "at_point m func x fp syms own ?c 0 env mem st"
      using touched_point [OF p touches_refl succ here [OF t]] .
    show ?thesis
    proof (cases "Some t = x_next_block (in_block x b)")
      case True
      then have "ls = []" using ls by simp
      moreover have "?c = Suc b" "Suc b < block_count (x_func x)" using near [OF t] True func by simp_all
      ultimately show ?thesis using arrive_next [OF c _ B(4), of st] p' pc_eq B(5) same by auto
    next
      case False
      then have "ls = [XLine ''jmp'' [XName (target_label (in_block x b) t)]]"
        using ls by simp
      then have "code = bd_lines s2 @ XLine ''jmp'' [XName (block_label (block_at (x_func x) ?c))] # post"
        using B(3) label [OF t] func by simp
      from arrive_by_jump [OF c c' this, of st] show ?thesis using p' pc_eq same by (auto simp: jump_condition_def)
    qed
  next
    case br
    have t1: "t1 \<in> set (f_layout func)" and e1: "e1 \<in> set (f_layout func)" and cond: "has_type func (t_cond ?tm) IR_I8"
      using typed br by (simp_all add: term_typed_def)
    have live: "live_at func b ?n (nat (t_cond ?tm))"
      using br(1) by (intro live_at.used_at_end) (simp add: term_uses_def ir_term_uses_eq)
    have cond_ok: "0 \<le> t_cond ?tm" "ir_vreg_type func (t_cond ?tm) = IR_I8" using cond by (simp_all add: has_type_def vreg_ok_def)
    have in_p: "in_play func b ?n (t_cond ?tm)" using live cond_ok(1) by (simp add: in_play_def)
    have place: "int_place x (t_cond ?tm)"
      using in_play_place(2) [OF p in_p] cond_ok(2) by (simp add: ir_type_is_float_def)
    have "low_eq 1 (env (nat (t_cond ?tm))) (vreg_value x st (t_cond ?tm))"
      using P(12) [OF live] cond_ok by (simp add: vreg_width_def x64_width_def)
    then have taken: "cond_taken (env (nat (t_cond ?tm))) \<longleftrightarrow> take_bit 8 (vreg_value x st (t_cond ?tm)) \<noteq> 0"
      by (simp add: cond_taken_def low_eq_def)
    from load_operand [OF place disjI1 [OF refl]] obtain lc r where u: "x64_use x (t_cond ?tm) X64_R10 = Some (lc, r)"
      "\<And>R st st1. touches R st st1 \<Longrightarrow> R \<subseteq> temporaries \<Longrightarrow> \<exists>st2. exec_lines lc st1 = Some st2 \<and> touches {X64_R10} st1 st2 \<and>
         xregs st2 r = vreg_value x st (t_cond ?tm)" by blast
    from u(2) [of "{}" st st] obtain st1 where st1: "exec_lines lc st = Some st1" "touches {X64_R10} st st1"
      "xregs st1 r = vreg_value x st (t_cond ?tm)" by auto
    define f where "f = compare_flags 1 (take_bit 8 (xregs st1 r) AND take_bit 8 (xregs st1 r)) 0"
    define st2 where "st2 = st1\<lparr>xflags := Some f\<rparr>"
    let ?test = "XLine ''test'' [XReg r 1, XReg r 1]"
    have run: "exec_lines (lc @ [?test]) st = Some st2"
      using st1(1) exec_test by (simp only: exec_lines_append Option.bind.simps st2_def f_def)
    have flags: "xflags st2 = Some f" by (simp add: st2_def)
    have zf: "zf f \<longleftrightarrow> \<not> cond_taken (env (nat (t_cond ?tm)))" using taken st1(3) test_zf [of "xregs st1 r"] unfolding f_def by metis
    have use': "x64_use (in_block x b) (t_cond ?tm) X64_R10 = Some (lc, r)" using u(1) by (simp only: in_block_use)
    define jumps where "jumps = (if Suc b < block_count (x_func x) \<and> successor_index func t1 = Suc b
        then [XLine ''jz'' [XName (block_label (block_at (x_func x) (successor_index func e1)))]]
      else if Suc b < block_count (x_func x) \<and> successor_index func e1 = Suc b
        then [XLine ''jnz'' [XName (block_label (block_at (x_func x) (successor_index func t1)))]]
      else [XLine ''jnz'' [XName (block_label (block_at (x_func x) (successor_index func t1)))],
            XLine ''jmp'' [XName (block_label (block_at (x_func x) (successor_index func e1)))]])"
    have "ls = lc @ [?test] @
        (if Some t1 = x_next_block (in_block x b) then [XLine ''jz'' [XName (target_label (in_block x b) e1)]]
         else if Some e1 = x_next_block (in_block x b) then [XLine ''jnz'' [XName (target_label (in_block x b) t1)]]
         else [XLine ''jnz'' [XName (target_label (in_block x b) t1)], XLine ''jmp'' [XName (target_label (in_block x b) e1)]])"
      using B(2) br(1-3) use' by (simp add: x64_emit_terminator_def del: in_block_simps(7))
    then have ls: "ls = lc @ [?test] @ jumps"
      by (simp only: jumps_def func near [OF t1] near [OF e1] label [OF t1] label [OF e1])
    have code': "code = (bd_lines s2 @ lc @ [?test]) @ jumps @ post" using B(3) ls by simp
    have s3': "bd_lines s3 = (bd_lines s2 @ lc @ [?test]) @ jumps" using B(5) ls by simp
    have "successor_index func t1 < block_count (x_func x)" "successor_index func e1 < block_count (x_func x)"
      using here [OF t1] here [OF e1] func by simp_all
    from branch_runs [OF c b this code' B(4) s3' jumps_def flags] obtain pc' where
      "point_at to_float debug x s code (if zf f then successor_index func e1 else successor_index func t1) 0 pc'"
      and go: "code_runs code (length (bd_lines s2 @ lc @ [?test]), st2) (pc', st2)" by blast
    then have arrived: "point_at to_float debug x s code ?c 0 pc'" using br(4) zf by (simp split: if_splits)
    have "code_runs code (length (bd_lines s2), st) (length (bd_lines s2 @ lc @ [?test]), st2)"
      by (rule lines_run [OF run]) (simp add: B(3) ls)
    then have "code_runs code (pc, st) (pc', st2)" using go pc_eq code_runs_trans by blast
    moreover have t: "touches temporaries st st2"
      using st1(2) by (auto simp: st2_def touches_def temporaries_def)
    moreover have "free_kept x st st2" using touchesD [OF t] by (intro free_kept_temporaries) blast
    moreover have "at_point m func x fp syms own ?c 0 env mem st2"
      using touched_point [OF p t succ] br(4) here [OF t1] here [OF e1] by (simp split: if_splits)
    ultimately show ?thesis using arrived by blast
  qed
qed

section \<open>Runs\<close>

lemma body_simulates:
  assumes c: "compiled to_float debug x s code"
    and p: "at_point m func x fp syms own 0 0 env mem st" and pc: "point_at to_float debug x s code 0 0 pc"
    and run: "(ir_step func (int_effect func (slot_address x fp) (symbol_address x syms) own) cond_taken)\<^sup>*\<^sup>*
      (0, 0, env, mem) (b, i, env', mem')"
  shows "\<exists>pc' st'. point_at to_float debug x s code b i pc' \<and> code_runs code (pc, st) (pc', st') \<and>
    at_point m func x fp syms own b i env' mem' st' \<and> free_kept x st st'"
  using run
proof (induction "(b, i, env', mem')" arbitrary: b i env' mem' rule: rtranclp_induct)
  case base
  then show ?case using p pc by (intro exI [of _ pc] exI [of _ st]) (simp add: free_kept_def)
next
  case (step q)
  obtain b1 i1 env1 mem1 where q: "q = (b1, i1, env1, mem1)" by (cases q)
  obtain pc1 st1 where 1: "point_at to_float debug x s code b1 i1 pc1" "code_runs code (pc, st) (pc1, st1)"
    "at_point m func x fp syms own b1 i1 env1 mem1 st1" "free_kept x st st1"
    using step.hyps(3) [OF q] by blast
  from step.hyps(2) [unfolded q] have "\<exists>pc' st'. point_at to_float debug x s code b i pc' \<and> code_runs code (pc1, st1) (pc', st') \<and>
      at_point m func x fp syms own b i env' mem' st' \<and> free_kept x st1 st'"
  proof cases
    case (ir_inst inst v)
    then show ?thesis using inst_in_code [OF c 1(1,3)] by blast
  next
    case (ir_goto t)
    have "term_target cond_taken (\<lambda>v. env1 (nat v)) (b_term (block_at func b1)) = Some t"
      and eq: "i1 = length (insts_of func b1)" "b = successor_index func t" "i = 0" "env' = env1" "mem' = mem1"
      using ir_goto by simp_all
    from goto_in_code [OF c 1(1) [unfolded eq(1)] 1(3) [unfolded eq(1)] this(1)] show ?thesis by (simp only: eq)
  qed
  then show ?case using 1(2,4) code_runs_trans free_kept_trans by blast
qed

end
