(* ===== verification/X64Function.thy ===== *)
theory X64Function
  imports X64Flow
begin

text \<open>
  A call of a function: its prologue saves the registers it uses and moves the arguments from where the Win64
  convention has them, its blocks run as the function does, and its epilogue restores the registers, so that
  at \<^verbatim>\<open>ret\<close> the stack and the callee-saved registers are as they were and the result is in \<^verbatim>\<open>rax\<close>.
\<close>

section \<open>Bytes at offsets\<close>

lemma uint_of_int: "uint (word_of_int k :: u64) = k mod 2 ^ 64"
  by (simp add: uint_word_of_int)

lemma bytes_apart:
  assumes "x + int n \<le> y" and "y + int k - x \<le> 2 ^ 64"
  shows "bytes_at n (a + word_of_int x) \<inter> bytes_at k (a + word_of_int y) = {}"
proof -
  have "a + word_of_int x + of_nat i \<noteq> a + word_of_int y + of_nat j" if "i < n" "j < k" for i j
  proof
    assume "a + word_of_int x + of_nat i = a + word_of_int y + of_nat j"
    then have "word_of_int (x + int i) = (word_of_int (y + int j) :: u64)" by simp
    then have "uint (word_of_int (x + int i) :: u64) = uint (word_of_int (y + int j) :: u64)" by (rule arg_cong)
    then have "(x + int i) mod 2 ^ 64 = (y + int j) mod 2 ^ 64" unfolding uint_of_int .
    then have "2 ^ 64 dvd (y + int j) - (x + int i)" by (metis mod_eq_dvd_iff)
    moreover have "0 < (y + int j) - (x + int i)" "(y + int j) - (x + int i) < 2 ^ 64" using assms that by simp_all
    ultimately show False by (meson zdvd_not_zless)
  qed
  then show ?thesis by (auto simp: bytes_at_def)
qed

lemma bytes_subset: "n \<le> k \<Longrightarrow> bytes_at n a \<subseteq> bytes_at k a"
  by (auto simp: bytes_at_def)

lemma store_outside: "q \<notin> bytes_at n a \<Longrightarrow> store_bytes n a v mem q = mem q"
  using unat_less_bytes by (auto simp: store_bytes_def)

lemma load_outside:
  assumes "\<And>q. q \<in> bytes_at n a \<Longrightarrow> mem q = mem' q"
  shows "load_bytes n a mem = load_bytes n a mem'"
  using assms by (intro load_cong) (auto simp: bytes_at_def)

text \<open>The bytes of an area of the frame.\<close>

definition area_bytes :: "u64 \<Rightarrow> int \<times> int \<Rightarrow> u64 set" where
  "area_bytes fp = (\<lambda>(off, sz). bytes_at (nat sz) (fp + word_of_int off))"

lemma stacked_areas:
  assumes "stacked d areas" and "d < 2 ^ 32" and "i < j" and "j < length areas" and "\<forall>(off, sz) \<in> set areas. 0 \<le> sz"
  shows "area_bytes fp (areas ! i) \<inter> area_bytes fp (areas ! j) = {}"
proof -
  obtain oi si oj sj where a: "areas ! i = (oi, si)" "areas ! j = (oj, sj)" by (metis surj_pair)
  have "below (areas ! i) (areas ! j)" using assms(1,3,4) by (auto simp: stacked_def sorted_wrt_iff_nth_less)
  moreover have m: "(oi, si) \<in> set areas" "(oj, sj) \<in> set areas" using a assms(3,4) by (metis less_trans nth_mem)+
  moreover have "0 \<le> si" "0 \<le> sj" "- d \<le> oj" "oi + si \<le> 0"
    using m assms(1,5) by (auto simp: stacked_def)
  ultimately have "bytes_at (nat sj) (fp + word_of_int oj) \<inter> bytes_at (nat si) (fp + word_of_int oi) = {}"
    using a assms(2) by (intro bytes_apart) (auto simp: below_def)
  then show ?thesis using a by (auto simp: area_bytes_def)
qed

section \<open>Saving and restoring registers\<close>

definition save_line :: "x64_emitter \<Rightarrow> nat \<Rightarrow> x64_line" where
  "save_line x r = XLine (if x64_is_xmm r then ''movaps'' else ''mov'')
     [XMem '''' X64_RBP (Some (x_saved_offset x ! r)), XReg r 8]"

definition restore_line :: "x64_emitter \<Rightarrow> nat \<Rightarrow> x64_line" where
  "restore_line x r = XLine (if x64_is_xmm r then ''movaps'' else ''mov'')
     [XReg r 8, XMem '''' X64_RBP (Some (x_saved_offset x ! r))]"

definition saved_at :: "x64_emitter \<Rightarrow> u64 \<Rightarrow> nat \<Rightarrow> u64" where
  "saved_at x fp r = fp + word_of_int (x_saved_offset x ! r)"

lemma exec_save:
  "exec_lines [save_line x r] st =
    Some (st\<lparr>xmem := store_bytes 8 (saved_at x (xregs st X64_RBP) r) (xregs st r) (xmem st)\<rparr>)"
  by (simp add: save_line_def exec_binary_def pair_width_def keyword_width_def saved_at_def)

lemma exec_restore:
  "exec_lines [restore_line x r] st =
    Some (set_reg r (load_bytes 8 (saved_at x (xregs st X64_RBP) r) (xmem st)) st)"
  by (simp add: restore_line_def exec_binary_def pair_width_def keyword_width_def saved_at_def merge_width_def)

definition cells_distinct :: "x64_emitter \<Rightarrow> u64 \<Rightarrow> nat list \<Rightarrow> bool" where
  "cells_distinct x fp rs \<longleftrightarrow> distinct rs \<and>
     (\<forall>r \<in> set rs. \<forall>q \<in> set rs. r \<noteq> q \<longrightarrow> bytes_at 8 (saved_at x fp r) \<inter> bytes_at 8 (saved_at x fp q) = {})"

lemma saves_run:
  assumes "cells_distinct x (xregs st X64_RBP) rs"
  shows "\<exists>st'. exec_lines (map (save_line x) rs) st = Some st' \<and> xregs st' = xregs st \<and>
    (\<forall>r \<in> set rs. load_bytes 8 (saved_at x (xregs st X64_RBP) r) (xmem st') = xregs st r) \<and>
    (\<forall>q. q \<notin> (\<Union>r \<in> set rs. bytes_at 8 (saved_at x (xregs st X64_RBP) r)) \<longrightarrow> xmem st' q = xmem st q)"
  using assms
proof (induction rs arbitrary: st)
  case (Cons r rs)
  let ?fp = "xregs st X64_RBP"
  define st1 where "st1 = st\<lparr>xmem := store_bytes 8 (saved_at x ?fp r) (xregs st r) (xmem st)\<rparr>"
  have regs: "xregs st1 = xregs st" by (simp add: st1_def)
  have "cells_distinct x (xregs st1 X64_RBP) rs" using Cons.prems by (simp add: cells_distinct_def regs)
  from Cons.IH [OF this] obtain st' where st': "exec_lines (map (save_line x) rs) st1 = Some st'" "xregs st' = xregs st"
    "\<forall>r \<in> set rs. load_bytes 8 (saved_at x ?fp r) (xmem st') = xregs st r"
    "\<forall>q. q \<notin> (\<Union>r \<in> set rs. bytes_at 8 (saved_at x ?fp r)) \<longrightarrow> xmem st' q = xmem st1 q" by (auto simp: regs)
  have run: "exec_lines (map (save_line x) (r # rs)) st = Some st'"
    using exec_save [of x r st] st'(1) exec_lines_append [of "[save_line x r]" "map (save_line x) rs" st]
    by (simp add: st1_def del: exec_lines.simps(2))
  have "load_bytes 8 (saved_at x ?fp r) (xmem st') = load_bytes 8 (saved_at x ?fp r) (xmem st1)"
  proof (rule load_outside)
    fix q assume "q \<in> bytes_at 8 (saved_at x ?fp r)"
    then have "q \<notin> (\<Union>r \<in> set rs. bytes_at 8 (saved_at x ?fp r))"
      using Cons.prems by (fastforce simp: cells_distinct_def)
    then show "xmem st' q = xmem st1 q" using st'(4) by blast
  qed
  also have "\<dots> = xregs st r" by (simp add: st1_def load_store_same)
  finally have "load_bytes 8 (saved_at x ?fp r) (xmem st') = xregs st r" .
  moreover have "xmem st' q = xmem st q" if "q \<notin> (\<Union>r \<in> set (r # rs). bytes_at 8 (saved_at x ?fp r))" for q
    using that st'(4) store_outside by (simp add: st1_def)
  ultimately show ?case using run st'(2,3) by (intro exI [of _ st']) simp
qed simp

lemma restores_run:
  assumes "X64_RBP \<notin> set rs"
  shows "\<exists>st'. exec_lines (map (restore_line x) rs) st = Some st' \<and> xmem st' = xmem st \<and>
    (\<forall>r. xregs st' r = (if r \<in> set rs then load_bytes 8 (saved_at x (xregs st X64_RBP) r) (xmem st) else xregs st r))"
  using assms
proof (induction rs arbitrary: st)
  case (Cons r rs)
  define st1 where "st1 = set_reg r (load_bytes 8 (saved_at x (xregs st X64_RBP) r) (xmem st)) st"
  have rbp: "xregs st1 X64_RBP = xregs st X64_RBP" using Cons.prems by (auto simp: st1_def)
  from Cons.IH [of st1] Cons.prems obtain st' where st': "exec_lines (map (restore_line x) rs) st1 = Some st'" "xmem st' = xmem st"
    "\<forall>r. xregs st' r = (if r \<in> set rs then load_bytes 8 (saved_at x (xregs st X64_RBP) r) (xmem st) else xregs st1 r)"
    by (auto simp: rbp) (auto simp: st1_def)
  have "exec_lines (map (restore_line x) (r # rs)) st = Some st'"
    using exec_restore [of x r st] st'(1) exec_lines_append [of "[restore_line x r]" "map (restore_line x) rs" st]
    by (simp add: st1_def del: exec_lines.simps(2))
  then show ?case using st'(2,3) by (intro exI [of _ st']) (auto simp: st1_def)
qed simp

section \<open>The registers of a function\<close>

lemma fold_mark_used:
  "length used = TARGET_MAX_REGS \<Longrightarrow> q < TARGET_MAX_REGS \<Longrightarrow>
    foldl (mark_used target) used locs ! q \<longleftrightarrow> used ! q \<or> (is_callee_saved target q \<and> LOCATION_REG q \<in> set locs)"
proof (induction locs arbitrary: used)
  case (Cons l locs)
  have "length (mark_used target used l) = TARGET_MAX_REGS"
    using Cons.prems by (auto simp: mark_used_def split: location.split)
  moreover have "mark_used target used l ! q \<longleftrightarrow> used ! q \<or> (is_callee_saved target q \<and> l = LOCATION_REG q)"
  proof (cases l)
    case (LOCATION_REG q')
    then show ?thesis using Cons.prems by (cases "q' = q") (auto simp: mark_used_def)
  qed (simp_all add: mark_used_def)
  ultimately show ?case using Cons.IH [of "mark_used target used l"] Cons.prems by auto
qed simp

lemma used_iff:
  assumes "regalloc_function func target = Some r" and "q < TARGET_MAX_REGS"
  shows "is_used r q \<longleftrightarrow> is_callee_saved target q \<and> LOCATION_REG q \<in> set (ra_locations r)"
  using assms fold_mark_used [of "replicate TARGET_MAX_REGS False" q target]
  by (auto simp: regalloc_function_def Let_def is_used_def split: option.splits)

text \<open>The frame of a function, and the emitter that has it.\<close>

definition emitter_of :: "ir_module \<Rightarrow> ir_function \<Rightarrow> regalloc_result \<Rightarrow> x64_emitter" where
  "emitter_of m func ra = x64_layout_frame (new_emitter m func ra)"

lemma emitter_of_simps [simp]:
  "x_func (emitter_of m func ra) = func" "x_ra (emitter_of m func ra) = ra" "x_module (emitter_of m func ra) = m"
  by (simp_all add: emitter_of_def x64_layout_frame_def new_emitter_def Let_def split: prod.split)

definition frame_own :: "x64_emitter \<Rightarrow> u64 \<Rightarrow> u64 set" where
  "frame_own x fp =
     spill_bytes x fp \<union> (\<Union>r \<in> set (used_regs (x_ra x)). bytes_at 8 (saved_at x fp r)) \<union> bytes_at 16 fp"

definition saving_order :: "regalloc_result \<Rightarrow> nat list" where
  "saving_order ra = filter (is_used ra) ([X64_XMM0..<Suc X64_XMM15] @ [0..<16])"

lemma saving_order_set: "set (saving_order ra) = set (used_regs ra)" "distinct (saving_order ra)"
proof -
  have order: "set ([X64_XMM0..<Suc X64_XMM15] @ [0..<16]) = set [0..<X64_REG_COUNT]"
    unfolding set_append set_upt by auto
  show "set (saving_order ra) = set (used_regs ra)" unfolding saving_order_def used_regs_def set_filter order ..
  have "distinct ([X64_XMM0..<Suc X64_XMM15] @ [0..<16])" unfolding distinct_append set_upt by auto
  then show "distinct (saving_order ra)" unfolding saving_order_def by (rule distinct_filter)
qed

lemma frame_areas_split:
  "frame_areas x = map (\<lambda>r. (x_saved_offset x ! r, if 16 \<le> r then 16 else 8)) (saving_order (x_ra x)) @
     zip (x_slot_offsets x) (map s_size (f_slots (x_func x))) @
     map (\<lambda>s. (x64_spill_offset x s, 8)) [0..<spill_slot_count (x_ra x)]"
  by (auto simp: frame_areas_def saved_areas_def saving_order_def)

lemma below_bytes:
  assumes "below (oi, si) (oj, sj)" and "0 \<le> sj" and "0 \<le> si" and "- d \<le> oj" and "oi + si \<le> 0" and "d < 2 ^ 32"
  shows "bytes_at (nat sj) (fp + word_of_int oj) \<inter> bytes_at (nat si) (fp + word_of_int oi) = {}"
  using assms by (intro bytes_apart) (auto simp: below_def)

lemma saved_cells:
  assumes st: "stacked d (frame_areas x)" and d: "d < 2 ^ 32"
  shows "cells_distinct x fp (used_regs (x_ra x))"
    and "r \<in> set (used_regs (x_ra x)) \<Longrightarrow> bytes_at 8 (saved_at x fp r) \<inter> spill_bytes x fp = {}"
    and "r \<in> set (used_regs (x_ra x)) \<Longrightarrow> - d \<le> x_saved_offset x ! r \<and> x_saved_offset x ! r + 8 \<le> 0"
    and "s < spill_slot_count (x_ra x) \<Longrightarrow> - d \<le> x64_spill_offset x s \<and> x64_spill_offset x s + 8 \<le> 0"
proof -
  let ?f = "\<lambda>r. (x_saved_offset x ! r, if 16 \<le> r then 16 else 8 :: int)"
  let ?saved = "map ?f (saving_order (x_ra x))"
  let ?spills = "map (\<lambda>s. (x64_spill_offset x s, 8 :: int)) [0..<spill_slot_count (x_ra x)]"
  have sorted: "sorted_wrt below ?saved" and across: "\<forall>a \<in> set ?saved. \<forall>b \<in> set ?spills. below a b"
    and bounds: "\<forall>(off, sz) \<in> set ?saved \<union> set ?spills. - d \<le> off \<and> off + sz \<le> 0"
    using st unfolding stacked_def frame_areas_split sorted_wrt_append by auto
  show bound: "- d \<le> x_saved_offset x ! r \<and> x_saved_offset x ! r + 8 \<le> 0" if "r \<in> set (used_regs (x_ra x))" for r
  proof -
    have "?f r \<in> set ?saved" using that saving_order_set(1) [of "x_ra x"] by auto
    then have "?f r \<in> set ?saved \<union> set ?spills" by blast
    with bounds have "case ?f r of (off, sz) \<Rightarrow> - d \<le> off \<and> off + sz \<le> 0" by (rule bspec)
    then show ?thesis by (simp split: if_splits)
  qed
  show slot_bound: "- d \<le> x64_spill_offset x s \<and> x64_spill_offset x s + 8 \<le> 0" if "s < spill_slot_count (x_ra x)" for s
  proof -
    have "(x64_spill_offset x s, 8) \<in> set ?saved \<union> set ?spills" using that by auto
    with bounds have "case (x64_spill_offset x s, 8 :: int) of (off, sz) \<Rightarrow> - d \<le> off \<and> off + sz \<le> 0" by (rule bspec)
    then show ?thesis by simp
  qed
  have apart: "bytes_at 8 (saved_at x fp r) \<inter> bytes_at 8 (saved_at x fp q) = {}"
    if ij: "i < j" "j < length (saving_order (x_ra x))" "r = saving_order (x_ra x) ! i" "q = saving_order (x_ra x) ! j" for i j r q
  proof -
    have "below (?f r) (?f q)" using sorted ij by (simp add: sorted_wrt_iff_nth_less)
    moreover have "r \<in> set (used_regs (x_ra x))" "q \<in> set (used_regs (x_ra x))"
      using ij saving_order_set(1) [of "x_ra x"] by (metis less_trans nth_mem)+
    ultimately have "bytes_at (nat 8) (fp + word_of_int (x_saved_offset x ! q)) \<inter>
        bytes_at (nat 8) (fp + word_of_int (x_saved_offset x ! r)) = {}"
      using bound [of r] bound [of q] d by (intro below_bytes) (auto simp: below_def split: if_splits)
    then show ?thesis by (auto simp: saved_at_def)
  qed
  have "bytes_at 8 (saved_at x fp r) \<inter> bytes_at 8 (saved_at x fp q) = {}"
    if rq: "r \<in> set (used_regs (x_ra x))" "q \<in> set (used_regs (x_ra x))" "r \<noteq> q" for r q
  proof -
    obtain i j where ij: "i < length (saving_order (x_ra x))" "r = saving_order (x_ra x) ! i"
      "j < length (saving_order (x_ra x))" "q = saving_order (x_ra x) ! j"
      using rq saving_order_set(1) [of "x_ra x"] by (metis in_set_conv_nth)
    then have "i < j \<or> j < i" using rq(3) by (metis nat_neq_iff)
    then show ?thesis using apart [of i j r q] apart [of j i q r] ij by blast
  qed
  moreover have "distinct (used_regs (x_ra x))" by (simp add: used_regs_def)
  ultimately show "cells_distinct x fp (used_regs (x_ra x))" by (simp add: cells_distinct_def)
  show "bytes_at 8 (saved_at x fp r) \<inter> spill_bytes x fp = {}" if r: "r \<in> set (used_regs (x_ra x))" for r
  proof -
    have "bytes_at (nat 8) (fp + word_of_int (x64_spill_offset x s)) \<inter> bytes_at (nat 8) (fp + word_of_int (x_saved_offset x ! r)) = {}"
      if s: "s < spill_slot_count (x_ra x)" for s
    proof -
      have "below (?f r) (x64_spill_offset x s, 8)"
        using across r s saving_order_set(1) [of "x_ra x"] by auto
      then show ?thesis
        using bound [OF r] slot_bound [OF s] d by (intro below_bytes) (auto simp: below_def split: if_splits)
    qed
    then show ?thesis by (auto simp: spill_bytes_def saved_at_def)
  qed
qed

text \<open>What is above the frame pointer is not in the frame.\<close>

lemma above_frame:
  assumes "stacked d (frame_areas x)" and "d < 2 ^ 32" and "0 \<le> off" and "off + int n \<le> 2 ^ 32"
  shows "bytes_at n (fp + word_of_int off) \<inter> spill_bytes x fp = {}"
    and "r \<in> set (used_regs (x_ra x)) \<Longrightarrow> bytes_at n (fp + word_of_int off) \<inter> bytes_at 8 (saved_at x fp r) = {}"
proof -
  note B = saved_cells(3,4) [OF assms(1,2)]
  have cell: "bytes_at 8 (fp + word_of_int o') \<inter> bytes_at n (fp + word_of_int off) = {}" if "- d \<le> o'" "o' + 8 \<le> 0" for o'
    using that assms(2-4) by (intro bytes_apart) auto
  show "bytes_at n (fp + word_of_int off) \<inter> spill_bytes x fp = {}"
    using cell B(2) by (fastforce simp: spill_bytes_def)
  show "bytes_at n (fp + word_of_int off) \<inter> bytes_at 8 (saved_at x fp r) = {}" if "r \<in> set (used_regs (x_ra x))"
    using cell B(1) [OF that] by (fastforce simp: saved_at_def)
qed

lemma high_half: "bytes_at 8 (fp + 8) \<subseteq> bytes_at 16 fp"
proof
  fix q assume "q \<in> bytes_at 8 (fp + 8)"
  then obtain i where "i < 8" "q = fp + 8 + of_nat i" by (auto simp: bytes_at_def)
  then have "q = fp + of_nat (i + 8)" "i + 8 < 16" by simp_all
  then show "q \<in> bytes_at 16 fp" unfolding bytes_at_def by blast
qed

section \<open>The prologue\<close>

lemma prologue_lines:
  "x64_emit_prologue x = [XLine ''push'' [XReg X64_RBP 8], XLine ''mov'' [XReg X64_RBP 8, XReg X64_RSP 8]] @
     x64_allocate_frame (x_frame_size x) @ map (save_line x) (used_regs (x_ra x))"
  by (simp add: x64_emit_prologue_def save_line_def)

lemma epilogue_lines:
  "x64_emit_epilogue x = map (restore_line x) (used_regs (x_ra x)) @ [XLine ''leave'' [], XLine ''ret'' []]"
  by (simp add: x64_emit_epilogue_def restore_line_def)

lemma enter_frame:
  assumes "f < 4096"
  shows "\<exists>st'. exec_lines ([XLine ''push'' [XReg X64_RBP 8], XLine ''mov'' [XReg X64_RBP 8, XReg X64_RSP 8]] @ x64_allocate_frame f) st =
      Some st' \<and> xregs st' X64_RBP = xregs st X64_RSP - 8 \<and>
    (\<forall>r. r \<noteq> X64_RBP \<longrightarrow> r \<noteq> X64_RSP \<longrightarrow> xregs st' r = xregs st r) \<and>
    xmem st' = store_bytes 8 (xregs st X64_RSP - 8) (xregs st X64_RBP) (xmem st) \<and> xsyms st' = xsyms st"
proof -
  define st1 where "st1 = st\<lparr>xregs := (xregs st)(X64_RSP := xregs st X64_RSP - 8),
      xmem := store_bytes 8 (xregs st X64_RSP - 8) (xregs st X64_RBP) (xmem st)\<rparr>"
  define st2 where "st2 = set_reg X64_RBP (xregs st X64_RSP - 8) st1"
  have full: "take_bit 64 (v :: u64) = v" for v by (intro bit_word_eqI) (simp add: bit_simps)
  have "exec_lines [XLine ''push'' [XReg X64_RBP 8]] st = Some st1"
    by (simp add: exec_unary_def st1_def full)
  moreover have "exec_lines [XLine ''mov'' [XReg X64_RBP 8, XReg X64_RSP 8]] st1 = Some st2"
    using exec_full_move(1) [of "''mov''" X64_RBP X64_RSP st1] by (simp add: st2_def st1_def del: exec_lines.simps(2))
  ultimately have start: "exec_lines [XLine ''push'' [XReg X64_RBP 8], XLine ''mov'' [XReg X64_RBP 8, XReg X64_RSP 8]] st = Some st2"
    by (simp only: exec_lines_split [of _ "XLine ''mov'' _"] Option.bind.simps)
  show ?thesis
  proof (cases "0 < f")
    case True
    have "exec_lines [XLine ''sub'' [XReg X64_RSP 8, XImm f]] st2 =
        Some (set_reg X64_RSP (xregs st2 X64_RSP - word_of_int f) (no_flags st2))"
      by (simp add: exec_binary_def pair_width_def arithmetic_def merge_width_def full)
    then show ?thesis
      using True assms start unfolding exec_lines_append x64_allocate_frame_def
      by (simp add: st2_def st1_def del: exec_lines.simps(2))
  next
    case False
    then show ?thesis
      using assms start unfolding exec_lines_append x64_allocate_frame_def
      by (simp add: st2_def st1_def del: exec_lines.simps(2))
  qed
qed

lemma prologue_runs:
  assumes size: "x_frame_size x < 4096" and areas: "stacked (x_frame_size x) (frame_areas x)"
    and fp: "fp = xregs st X64_RSP - 8" and rbp: "X64_RBP \<notin> set (used_regs (x_ra x))" "X64_RSP \<notin> set (used_regs (x_ra x))"
  shows "\<exists>st'. exec_lines (x64_emit_prologue x) st = Some st' \<and> xregs st' X64_RBP = fp \<and>
    (\<forall>r. r \<noteq> X64_RBP \<longrightarrow> r \<noteq> X64_RSP \<longrightarrow> xregs st' r = xregs st r) \<and>
    (\<forall>r \<in> set (used_regs (x_ra x)). load_bytes 8 (saved_at x fp r) (xmem st') = xregs st r) \<and>
    load_bytes 8 fp (xmem st') = xregs st X64_RBP \<and>
    (\<forall>q. q \<notin> frame_own x fp \<or> q \<in> bytes_at 8 (xregs st X64_RSP) \<longrightarrow> xmem st' q = xmem st q)"
proof -
  have d: "x_frame_size x < 2 ^ 32" using size by simp
  obtain st1 where st1: "exec_lines ([XLine ''push'' [XReg X64_RBP 8], XLine ''mov'' [XReg X64_RBP 8, XReg X64_RSP 8]] @
        x64_allocate_frame (x_frame_size x)) st = Some st1" "xregs st1 X64_RBP = fp"
    "\<forall>r. r \<noteq> X64_RBP \<longrightarrow> r \<noteq> X64_RSP \<longrightarrow> xregs st1 r = xregs st r"
    "xmem st1 = store_bytes 8 fp (xregs st X64_RBP) (xmem st)"
    using enter_frame [OF size, of st] fp by auto
  let ?cells = "\<Union>r \<in> set (used_regs (x_ra x)). bytes_at 8 (saved_at x fp r)"
  have "cells_distinct x (xregs st1 X64_RBP) (used_regs (x_ra x))" by (rule saved_cells(1) [OF areas d])
  from saves_run [OF this] obtain st2 where st2: "exec_lines (map (save_line x) (used_regs (x_ra x))) st1 = Some st2"
    "xregs st2 = xregs st1" "\<forall>r \<in> set (used_regs (x_ra x)). load_bytes 8 (saved_at x fp r) (xmem st2) = xregs st1 r"
    "\<forall>q. q \<notin> ?cells \<longrightarrow> xmem st2 q = xmem st1 q" by (auto simp: st1(2))
  have run: "exec_lines (x64_emit_prologue x) st = Some st2"
    using exec_lines_append [of "[XLine ''push'' [XReg X64_RBP 8], XLine ''mov'' [XReg X64_RBP 8, XReg X64_RSP 8]] @
        x64_allocate_frame (x_frame_size x)" "map (save_line x) (used_regs (x_ra x))" st]
    unfolding prologue_lines append_assoc [symmetric] st1(1) by (simp only: Option.bind.simps st2(1))
  have above: "bytes_at 16 fp \<inter> ?cells = {}"
    using above_frame(2) [OF areas d, of 0 16] by fastforce
  have low: "bytes_at 8 fp \<subseteq> bytes_at 16 fp" by (rule bytes_subset) simp
  have "load_bytes 8 fp (xmem st2) = load_bytes 8 fp (xmem st1)"
    using above low st2(4) by (intro load_outside) blast
  then have old: "load_bytes 8 fp (xmem st2) = xregs st X64_RBP" by (simp add: st1(4) load_store_same)
  have ret: "bytes_at 8 (xregs st X64_RSP) \<subseteq> bytes_at 16 fp"
    using high_half [of fp] by (simp add: fp)
  have "bytes_at 8 (fp + word_of_int 0) \<inter> bytes_at 8 (fp + word_of_int 8) = {}" by (rule bytes_apart) simp_all
  then have ret_apart: "bytes_at 8 fp \<inter> bytes_at 8 (xregs st X64_RSP) = {}" by (simp add: fp)
  have "xmem st2 q = xmem st q" if q: "q \<notin> frame_own x fp \<or> q \<in> bytes_at 8 (xregs st X64_RSP)" for q
  proof -
    have "q \<notin> ?cells" "q \<notin> bytes_at 8 fp"
      using q above low ret ret_apart by (auto simp: frame_own_def)
    then show ?thesis using st2(4) store_outside by (simp add: st1(4))
  qed
  moreover have "xregs st2 r = xregs st r" if "r \<noteq> X64_RBP" "r \<noteq> X64_RSP" for r
    using that st1(3) st2(2) by simp
  moreover have "load_bytes 8 (saved_at x fp r) (xmem st2) = xregs st r" if "r \<in> set (used_regs (x_ra x))" for r
    using that st2(3) st1(3) rbp by metis
  ultimately show ?thesis using run old st1(2) st2(2) by (intro exI [of _ st2]) simp
qed

section \<open>The parameters\<close>

lemma param_place:
  assumes x: "emits_for x func" and valid: "ir_valid m func" and wf: "ir_wf func" and p: "p \<in> set (f_params func)"
  shows "int_place x p \<or> float_place x p" and "x64_loc x p = LOCATION_SPILL s \<Longrightarrow> s < spill_slot_count (x_ra x)"
    and "q \<in> set (f_params func) \<Longrightarrow> p \<noteq> q \<Longrightarrow> x64_loc x p \<noteq> x64_loc x q"
    and "\<not> is_unused x p" and "x64_loc x p \<in> set (ra_locations (x_ra x))"
proof -
  have cov: "covers (ra_intervals (x_ra x)) (nat v) 0" "0 \<le> v" if "v \<in> set (f_params func)" for v
    using covers_param [OF emits_for_result(3) [OF x wf] that] valid that by (auto simp: ir_valid_def vreg_ok_def)
  show "int_place x p \<or> float_place x p"
    using covered_place [OF x wf cov [OF p]] by blast
  show "s < spill_slot_count (x_ra x)" if "x64_loc x p = LOCATION_SPILL s"
    by (rule covered_slot [OF x wf cov [OF p] that])
  show "x64_loc x p \<noteq> x64_loc x q" if q: "q \<in> set (f_params func)" "p \<noteq> q"
    using covered_apart [OF x wf cov(1) [OF p] cov(1) [OF q(1)]] cov(2) [OF p] cov(2) [OF q(1)] q(2) by simp
  show "\<not> is_unused x p" using cov(1) [OF p] by (auto simp: is_unused_def covers_def)
  have "nat p < length (ra_locations (x_ra x))"
    using cov(1) [OF p] emits_for_result(1) [OF x wf] by (simp add: covers_def allocation_ok_def)
  then show "x64_loc x p \<in> set (ra_locations (x_ra x))" by (simp add: x64_loc_def)
qed

lemma place_move:
  assumes "int_place x p \<or> float_place x p"
  shows "(\<exists>r. move_vreg x p = MOVE_REG r \<and> x64_loc x p = LOCATION_REG r \<and> \<not> scratch_reg r \<and> \<not> base_reg r) \<or>
    (\<exists>s. move_vreg x p = MOVE_MEM X64_RBP (x64_spill_offset x s) \<and> x64_loc x p = LOCATION_SPILL s)"
  using assms
  by (cases "x64_loc x p")
    (auto simp: move_vreg_def int_place_def float_place_def x64_target_def scratch_reg_def base_reg_def)

lemma params_all_moved:
  assumes "x_func x = func" and "length (f_params func) \<le> 64" and "\<forall>p \<in> set (f_params func). \<not> is_unused x p"
  shows "x64_param_moves x =
    map (\<lambda>i. new_move (move_vreg x (f_params func ! i)) (param_source x i (f_params func ! i))) [0..<length (f_params func)]"
proof -
  have "filter (\<lambda>i. \<not> is_unused x (f_params func ! i)) [0..<length (f_params func)] = [0..<length (f_params func)]"
    using assms(3) by (intro filter_True) auto
  then show ?thesis using assms(1,2) by (simp add: x64_param_moves_def Let_def)
qed

lemma params_run:
  assumes x: "emits_for x func" and valid: "ir_valid m func" and wf: "ir_wf func" and n: "length (f_params func) \<le> 64"
    and areas: "stacked d (frame_areas x)" "d < 2 ^ 31" and fp: "xregs st X64_RBP = fp"
  shows "\<exists>ls st'. x64_parallel_move (x64_param_moves x) = Some ls \<and> exec_lines ls st = Some st' \<and>
    (\<forall>i < length (f_params func). vreg_value x st' (f_params func ! i) = move_value (param_source x i (f_params func ! i)) st) \<and>
    (\<forall>r. \<not> scratch_reg r \<longrightarrow> LOCATION_REG r \<notin> set (ra_locations (x_ra x)) \<longrightarrow> xregs st' r = xregs st r) \<and>
    (\<forall>q. q \<notin> spill_bytes x fp \<longrightarrow> xmem st' q = xmem st q)"
proof -
  have func: "x_func x = func" using x by (simp add: emits_for_def)
  note P = param_place [OF x valid wf]
  let ?ps = "f_params func"
  let ?f = "\<lambda>i. new_move (move_vreg x (?ps ! i)) (param_source x i (?ps ! i))"
  have moves: "x64_param_moves x = map ?f [0..<length ?ps]"
    by (rule params_all_moved [OF func n]) (use P(4) in blast)
  have d: "d < 2 ^ 32" using areas(2) by simp
  note bound = saved_cells(4) [OF areas(1) d]
  have distinct: "distinct ?ps" using valid by (simp add: ir_valid_def definitions_def)
  have cell: "\<not> same_register (mv_dst (?f i)) (mv_dst (?f j)) \<and> cells_apart st (mv_dst (?f i)) (mv_dst (?f j)) \<and>
      cells_apart st (mv_dst (?f i)) (mv_src (?f j))" if ij: "i < length ?ps" "j < length ?ps" "i \<noteq> j" for i j
  proof -
    have pi: "?ps ! i \<in> set ?ps" and pj: "?ps ! j \<in> set ?ps" using ij by simp_all
    have ne: "x64_loc x (?ps ! i) \<noteq> x64_loc x (?ps ! j)" using P(3) [OF pi pj] ij distinct by (simp add: nth_eq_iff_index_eq)
    have spills: "apart 8 (xregs st X64_RBP + word_of_int (x64_spill_offset x s)) 8
        (xregs st X64_RBP + word_of_int (x64_spill_offset x t))"
      if st': "s < spill_slot_count (x_ra x)" "t < spill_slot_count (x_ra x)" "s \<noteq> t" for s t
    proof -
      have b: "- d \<le> x64_spill_offset x s" "x64_spill_offset x s + 8 \<le> 0" "- d \<le> x64_spill_offset x t" "x64_spill_offset x t + 8 \<le> 0"
        using bound st' by blast+
      show ?thesis
      proof (cases "s < t")
        case True
        then have "x64_spill_offset x t + 8 \<le> x64_spill_offset x s" by (simp add: x64_spill_offset_def)
        then have "apart 8 (xregs st X64_RBP + word_of_int (x64_spill_offset x t)) 8
            (xregs st X64_RBP + word_of_int (x64_spill_offset x s))"
          using b areas(2) by (intro apart_offsets) auto
        then show ?thesis using apart_sym by blast
      next
        case False
        then have "x64_spill_offset x s + 8 \<le> x64_spill_offset x t" using st'(3) by (simp add: x64_spill_offset_def)
        then show ?thesis using b areas(2) by (intro apart_offsets) auto
      qed
    qed
    have stack: "apart 8 (xregs st X64_RBP + word_of_int (x64_spill_offset x s)) 8 (xregs st X64_RBP + word_of_int (16 + 8 * int j))"
      if "s < spill_slot_count (x_ra x)" for s
      using bound [OF that] areas(2) ij n by (intro apart_offsets) auto
    from place_move [OF P(1) [OF pi]] place_move [OF P(1) [OF pj]] show ?thesis
      using ne P(2) [OF pi] P(2) [OF pj] spills stack
      by (elim disjE exE conjE) (auto simp: new_move_def param_source_def)
  qed
  have "move_ok (?f i)" if i: "i < length ?ps" for i
  proof -
    have pi: "?ps ! i \<in> set ?ps" using i by simp
    have "dst_ok (move_vreg x (?ps ! i))" using place_move [OF P(1) [OF pi]] by (auto simp: base_reg_def)
    moreover have "src_ok (param_source x i (?ps ! i))"
      by (auto simp: param_source_def scratch_reg_def base_reg_def x64_gpr_arg_regs_def less_4)
    moreover have "\<not> xmm_immediate (move_vreg x (?ps ! i)) (param_source x i (?ps ! i))"
      by (cases "move_vreg x (?ps ! i)") (auto simp: param_source_def)
    ultimately show ?thesis by (simp add: move_ok_def new_move_def)
  qed
  then have ok: "moves_ok st (x64_param_moves x)" using cell by (auto simp: moves_ok_def moves)
  from parallel_moves [OF ok] obtain ls st' where run: "x64_parallel_move (x64_param_moves x) = Some ls" "exec_lines ls st = Some st'"
    and all: "all_moved st (x64_param_moves x) st'" by blast
  have "vreg_value x st' (?ps ! i) = move_value (param_source x i (?ps ! i)) st" if "i < length ?ps" for i
    using all that by (auto simp: all_moved_def moves new_move_def vreg_value_def)
  moreover have "xregs st' r = xregs st r" if r: "\<not> scratch_reg r" "LOCATION_REG r \<notin> set (ra_locations (x_ra x))" for r
  proof -
    have "move_vreg x p \<noteq> MOVE_REG r" if "p \<in> set ?ps" for p
      using place_move [OF P(1) [OF that]] P(5) [OF that] r(2) by auto
    then have "\<not> written_reg (x64_param_moves x) r" using r(1) by (auto simp: written_reg_def moves new_move_def)
    then show ?thesis using all by (simp add: all_moved_def others_kept_def)
  qed
  moreover have "xmem st' q = xmem st q" if q: "q \<notin> spill_bytes x fp" for q
  proof -
    have "\<not> written_byte st (x64_param_moves x) q"
    proof
      assume "written_byte st (x64_param_moves x) q"
      then obtain i where i: "i < length ?ps"
        "case move_vreg x (?ps ! i) of MOVE_MEM b off \<Rightarrow> unat (q - move_address st b off) < 8 | _ \<Rightarrow> False"
        by (auto simp: written_byte_def moves new_move_def)
      then obtain b off where m: "move_vreg x (?ps ! i) = MOVE_MEM b off" "unat (q - move_address st b off) < 8"
        by (cases "move_vreg x (?ps ! i)") simp_all
      define p where "p = ?ps ! i"
      have p: "p \<in> set ?ps" "move_vreg x p = MOVE_MEM b off" "unat (q - move_address st b off) < 8"
        using m i(1) by (simp_all add: p_def)
      then obtain s where "b = X64_RBP" "off = x64_spill_offset x s" "s < spill_slot_count (x_ra x)"
        using place_move [OF P(1) [OF p(1)]] P(2) [OF p(1)] by auto
      then have "q \<in> spill_bytes x fp" using unat_less_bytes [OF p(3)] fp by (auto simp: spill_bytes_def)
      then show False using q by simp
    qed
    then show ?thesis using all by (simp add: all_moved_def others_kept_def)
  qed
  ultimately show ?thesis using run by blast
qed

section \<open>Runs that leave the frame alone\<close>

text \<open>The steps of the representation neither read nor write the bytes of \<open>own\<close>: what these hold is kept, and
  does not matter.\<close>

lemma int_effect_frame:
  assumes e: "int_effect func slot global own inst vals mem v mem'" and sub: "own' \<subseteq> own" and same: "\<forall>q. q \<notin> own \<longrightarrow> mem1 q = mem q"
  shows "\<exists>mem1'. int_effect func slot global own' inst vals mem1 v mem1' \<and> (\<forall>q. q \<notin> own \<longrightarrow> mem1' q = mem' q) \<and>
    (\<forall>q \<in> own. mem1' q = mem1 q)"
proof -
  let ?s = "x64_width (i_type inst)"
  let ?a = "address_value slot global (i_addr inst) (last vals)"
  consider (load) "i_op inst = IR_LOAD" | (store) "i_op inst = IR_STORE" | (other) "i_op inst \<notin> {IR_LOAD, IR_STORE}" by blast
  then show ?thesis
  proof cases
    case load
    have l: "\<not> ir_type_is_float (i_type inst)" "bytes_at ?s ?a \<inter> own = {}" "v = load_bytes ?s ?a mem" "mem' = mem"
      using e load by (auto simp: int_effect_def int_step_def Let_def split: if_splits)
    have "load_bytes ?s ?a mem1 = load_bytes ?s ?a mem" using l(2) same by (intro load_outside) blast
    moreover have "bytes_at ?s ?a \<inter> own' = {}" using l(2) sub by blast
    ultimately have "int_effect func slot global own' inst vals mem1 v mem1"
      using load l by (simp add: int_effect_def int_step_def Let_def)
    then show ?thesis using same l(4) by blast
  next
    case store
    have l: "\<not> ir_type_is_float (i_type inst)" "bytes_at ?s ?a \<inter> own = {}" "v = 0" "i_dst inst = IR_NO_VREG"
        "mem' = store_bytes ?s ?a (hd vals) mem"
      using e store by (auto simp: int_effect_def int_step_def Let_def split: if_splits)
    have "bytes_at ?s ?a \<inter> own' = {}" using l(2) sub by blast
    then have "int_effect func slot global own' inst vals mem1 v (store_bytes ?s ?a (hd vals) mem1)"
      using store l by (simp add: int_effect_def int_step_def Let_def)
    moreover have "store_bytes ?s ?a (hd vals) mem1 q = mem1 q" if "q \<in> own" for q
      using l(2) that by (intro store_outside) blast
    moreover have "store_bytes ?s ?a (hd vals) mem1 q = mem' q" if "q \<notin> own" for q
      using same that l(5) by (simp add: store_bytes_def)
    ultimately show ?thesis by blast
  next
    case other
    have eq: "int_step func slot global priv inst vals m = (case int_step func slot global own inst vals mem of
        None \<Rightarrow> None | Some (v, _) \<Rightarrow> Some (v, m))" for priv m
      using other by (cases "i_op inst") (auto simp: int_step_def Let_def split: option.splits)
    have "mem' = mem"
      using e other by (cases "i_op inst") (auto simp: int_effect_def int_step_def Let_def split: if_splits)
    have "int_step func slot global own' inst vals mem1 = (case Some (v, mem') of None \<Rightarrow> None | Some (v, _) \<Rightarrow> Some (v, mem1))"
      unfolding eq [of own' mem1] e [unfolded int_effect_def] ..
    then have "int_effect func slot global own' inst vals mem1 v mem1" by (simp add: int_effect_def)
    then show ?thesis using same \<open>mem' = mem\<close> by blast
  qed
qed

lemma runs_frame:
  assumes run: "(ir_step func (int_effect func slot global own) taken)\<^sup>*\<^sup>* (b0, i0, env0, mem) (b, i, env, mem')"
    and sub: "own' \<subseteq> own" and same: "\<forall>q. q \<notin> own \<longrightarrow> mem1 q = mem q"
  shows "\<exists>mem1'. (ir_step func (int_effect func slot global own') taken)\<^sup>*\<^sup>* (b0, i0, env0, mem1) (b, i, env, mem1') \<and>
    (\<forall>q. q \<notin> own \<longrightarrow> mem1' q = mem' q) \<and> (\<forall>q \<in> own. mem1' q = mem1 q)"
  using run
proof (induction "(b, i, env, mem')" arbitrary: b i env mem' rule: rtranclp_induct)
  case base
  then show ?case using same by blast
next
  case (step q)
  obtain b1 i1 env1 m1 where q: "q = (b1, i1, env1, m1)" by (cases q)
  obtain m2 where 1: "(ir_step func (int_effect func slot global own') taken)\<^sup>*\<^sup>* (b0, i0, env0, mem1) (b1, i1, env1, m2)"
    "\<forall>q. q \<notin> own \<longrightarrow> m2 q = m1 q" "\<forall>q \<in> own. m2 q = mem1 q"
    using step.hyps(3) [OF q] by blast
  from step.hyps(2) [unfolded q] have "\<exists>m3. ir_step func (int_effect func slot global own') taken (b1, i1, env1, m2) (b, i, env, m3) \<and>
      (\<forall>q. q \<notin> own \<longrightarrow> m3 q = mem' q) \<and> (\<forall>q \<in> own. m3 q = m2 q)"
  proof cases
    case (ir_inst inst v)
    then have e: "int_effect func slot global own inst (map (\<lambda>v. env1 (nat v)) (ir_inst_uses inst)) m1 v mem'" by simp
    from int_effect_frame [OF e sub 1(2)] obtain m3 where m3:
      "int_effect func slot global own' inst (map (\<lambda>v. env1 (nat v)) (ir_inst_uses inst)) m2 v m3"
      "\<forall>q. q \<notin> own \<longrightarrow> m3 q = mem' q" "\<forall>q \<in> own. m3 q = m2 q" by blast
    have "ir_step func (int_effect func slot global own') taken (b1, i1, env1, m2) (b1, Suc i1, env, m3)"
      using ir_inst m3(1) by (intro ir_step.ir_inst) auto
    then show ?thesis using ir_inst m3(2,3) by blast
  next
    case (ir_goto t)
    then have "ir_step func (int_effect func slot global own') taken (b1, i1, env1, m2) (successor_index func t, 0, env1, m2)"
      by (intro ir_step.ir_goto) simp_all
    then show ?thesis using ir_goto 1(2) by blast
  qed
  then show ?case using 1(1,3) by (metis (no_types, lifting) rtranclp.rtrancl_into_rtrancl)
qed

section \<open>Returning\<close>

lemma return_move:
  assumes p: "at_point m func x fp syms own b (length (insts_of func b)) env mem st"
    and tm: "t_kind (b_term (block_at func b)) = IR_TERM_RET"
    and ls: "x64_emit_terminator x (b_term (block_at func b)) = Some ls"
  shows "\<exists>ls' st'. ls = ls' @ x64_emit_epilogue x \<and> exec_lines ls' st = Some st' \<and> xmem st' = xmem st \<and>
    (\<forall>r. r \<noteq> X64_RAX \<longrightarrow> r \<noteq> X64_XMM0 \<longrightarrow> xregs st' r = xregs st r) \<and>
    (t_value (b_term (block_at func b)) \<noteq> IR_NO_VREG \<longrightarrow>
       low_eq (x64_width (ir_vreg_type func (t_value (b_term (block_at func b))))) (env (nat (t_value (b_term (block_at func b)))))
         (xregs st' (if ir_type_is_float (ir_vreg_type func (t_value (b_term (block_at func b)))) then X64_XMM0 else X64_RAX))) \<and>
    (t_value (b_term (block_at func b)) = IR_NO_VREG \<longrightarrow> f_is_entry_point func \<longrightarrow> take_bit 32 (xregs st' X64_RAX) = 0)"
proof -
  note P = at_point_facts [OF p]
  let ?tm = "b_term (block_at func b)" and ?n = "length (insts_of func b)"
  let ?v = "t_value ?tm"
  consider (result) "?v \<noteq> IR_NO_VREG" | (entry) "?v = IR_NO_VREG" "f_is_entry_point func" | (none) "?v = IR_NO_VREG" "\<not> f_is_entry_point func"
    by blast
  then show ?thesis
  proof cases
    case result
    define d where "d = (if ir_type_is_float (ir_vreg_type func ?v) then X64_XMM0 else X64_RAX)"
    have "term_typed func ?tm" using P(1,5) by (simp add: ir_valid_def)
    then have v: "vreg_ok func ?v" using tm result by (auto simp: term_typed_def has_type_def split: if_splits)
    have live: "live_at func b ?n (nat ?v)"
      using tm result by (intro live_at.used_at_end) (simp add: term_uses_def ir_term_uses_eq)
    have in_p: "in_play func b ?n ?v" using live v by (simp add: in_play_def vreg_ok_def)
    have place: "int_place x ?v \<or> float_place x ?v" using in_play_place [OF p in_p] by blast
    have no_imm: "\<And>i. move_vreg x ?v \<noteq> MOVE_IMM i" using place_move [OF place] by auto
    obtain lm where lm: "x64_emit_move (MOVE_REG d) (move_vreg x ?v) = Some lm"
      "exec_lines lm st = Some (set_reg d (vreg_value x st ?v) st)"
      using exec_reg_move [of "move_vreg x ?v" d st] no_imm by (auto simp: vreg_value_def)
    have "ls = lm @ x64_emit_epilogue x"
      using ls tm result lm(1) P(4) by (simp add: x64_emit_terminator_def x64_vtype_def d_def)
    moreover have "low_eq (x64_width (ir_vreg_type func ?v)) (env (nat ?v)) (vreg_value x st ?v)"
      using P(12) [OF live] v by (simp add: vreg_width_def vreg_ok_def)
    ultimately show ?thesis using lm(2) result by (auto simp: d_def)
  next
    case entry
    have "exec_lines [XLine ''xor'' [XReg X64_RAX 4, XReg X64_RAX 4]] st =
        Some (set_reg X64_RAX (merge_width 4 (xregs st X64_RAX) 0) (no_flags st))"
      by (simp add: exec_binary_def pair_width_def arithmetic_def)
    moreover have "ls = [XLine ''xor'' [XReg X64_RAX 4, XReg X64_RAX 4]] @ x64_emit_epilogue x"
      using ls tm entry P(4) by (simp add: x64_emit_terminator_def)
    ultimately show ?thesis using entry by (auto simp: merge_width_def simp del: exec_lines.simps(2))
  next
    case none
    then have "ls = x64_emit_epilogue x" using ls tm P(4) by (simp add: x64_emit_terminator_def)
    then show ?thesis using none by (intro exI [of _ "[]"]) simp
  qed
qed

lemma epilogue_runs:
  assumes "X64_RBP \<notin> set (used_regs (x_ra x))" and "X64_RSP \<notin> set (used_regs (x_ra x))" and fp: "xregs st X64_RBP = fp"
  shows "\<exists>st'. exec_lines (map (restore_line x) (used_regs (x_ra x)) @ [XLine ''leave'' []]) st = Some st' \<and> xmem st' = xmem st \<and>
    xregs st' X64_RSP = fp + 8 \<and> xregs st' X64_RBP = load_bytes 8 fp (xmem st) \<and>
    (\<forall>r. r \<noteq> X64_RSP \<longrightarrow> r \<noteq> X64_RBP \<longrightarrow> xregs st' r =
       (if r \<in> set (used_regs (x_ra x)) then load_bytes 8 (saved_at x fp r) (xmem st) else xregs st r))"
proof -
  obtain st1 where st1: "exec_lines (map (restore_line x) (used_regs (x_ra x))) st = Some st1" "xmem st1 = xmem st"
    "\<forall>r. xregs st1 r = (if r \<in> set (used_regs (x_ra x)) then load_bytes 8 (saved_at x fp r) (xmem st) else xregs st r)"
    using restores_run [OF assms(1), of x st] fp by auto
  have "xregs st1 X64_RBP = fp" using st1(3) assms(1) fp by simp
  then have "exec_lines (map (restore_line x) (used_regs (x_ra x)) @ [XLine ''leave'' []]) st = Some (leave_frame st1)"
    using st1(1) by (simp add: exec_lines_append)
  then show ?thesis using st1 \<open>xregs st1 X64_RBP = fp\<close> by (simp add: leave_frame_def)
qed

section \<open>A call\<close>

lemma used_allocatable:
  assumes x: "emits_for x func" and wf: "ir_wf func" and r: "r \<in> set (used_regs (x_ra x))"
  shows "r \<in> set (allocatable x64_target REG_CLASS_GPR) \<union> set (allocatable x64_target REG_CLASS_FPR)"
    and "is_callee_saved x64_target r"
proof -
  have ra: "regalloc_function func x64_target = Some (x_ra x)" using x by (simp add: emits_for_def)
  have "r < TARGET_MAX_REGS" "is_used (x_ra x) r" using r by (auto simp: used_regs_def TARGET_MAX_REGS_def)
  then have u: "is_callee_saved x64_target r" "LOCATION_REG r \<in> set (ra_locations (x_ra x))"
    using used_iff [OF ra] by simp_all
  then obtain v where "v < length (ra_locations (x_ra x))" "ra_locations (x_ra x) ! v = LOCATION_REG r"
    by (metis in_set_conv_nth)
  then have "r \<in> set (allocatable x64_target (iv_class (ra_intervals (x_ra x) ! v)))"
    using emits_for_result(1) [OF x wf] by (simp add: allocation_ok_def reg_allowed_def)
  then show "r \<in> set (allocatable x64_target REG_CLASS_GPR) \<union> set (allocatable x64_target REG_CLASS_FPR)"
    by (cases "iv_class (ra_intervals (x_ra x) ! v)") auto
  show "is_callee_saved x64_target r" by (rule u(1))
qed

lemma callee_saved_cases:
  assumes "is_callee_saved x64_target r"
  shows "r < TARGET_MAX_REGS" "r \<notin> temporaries" "r \<noteq> X64_RSP" "r \<noteq> X64_RAX" "r \<noteq> X64_XMM0" "r \<noteq> X64_R11"
    "r < X64_REG_COUNT"
  using assms by (auto simp: x64_target_def TARGET_MAX_REGS_def temporaries_def)

lemma special_not_used:
  assumes "emits_for x func" and "ir_wf func"
  shows "X64_RBP \<notin> set (used_regs (x_ra x))" "X64_RSP \<notin> set (used_regs (x_ra x))" "X64_RAX \<notin> set (used_regs (x_ra x))"
    "X64_XMM0 \<notin> set (used_regs (x_ra x))"
proof -
  show "X64_RBP \<notin> set (used_regs (x_ra x))"
    using used_allocatable(1) [OF assms, of X64_RBP] by (auto simp: x64_target_def)
  show "X64_RSP \<notin> set (used_regs (x_ra x))" using used_allocatable(2) [OF assms] callee_saved_cases(3) by blast
  show "X64_RAX \<notin> set (used_regs (x_ra x))" using used_allocatable(2) [OF assms] callee_saved_cases(4) by blast
  show "X64_XMM0 \<notin> set (used_regs (x_ra x))" using used_allocatable(2) [OF assms] callee_saved_cases(5) by blast
qed

lemma spills_bounded:
  assumes "stacked d (frame_areas x)" and "d < 4096"
  shows "spill_slot_count (x_ra x) < 2 ^ 31"
proof (rule ccontr)
  assume n: "\<not> spill_slot_count (x_ra x) < 2 ^ 31"
  have "- d \<le> x64_spill_offset x (2 ^ 30)" "x64_spill_offset x 0 + 8 \<le> 0"
    using saved_cells(4) [OF assms(1)] assms(2) n by force+
  then show False using assms(2) by (simp add: x64_spill_offset_def)
qed

text \<open>Where the Win64 convention has the arguments when the function is called: the first four in
  registers, by their place and class, the others on the stack above the return address and the shadow
  space.\<close>

definition arg_value :: "ir_function \<Rightarrow> x64_state \<Rightarrow> nat \<Rightarrow> u64" where
  "arg_value func st i =
     (if i < 4
      then xregs st (if ir_type_is_float (ir_vreg_type func (f_params func ! i)) then X64_XMM0 + i else x64_gpr_arg_regs ! i)
      else load_bytes 8 (xregs st X64_RSP + 8 + word_of_int (8 * int i)) (xmem st))"

definition passes_args :: "ir_function \<Rightarrow> x64_state \<Rightarrow> (nat \<Rightarrow> u64) \<Rightarrow> bool" where
  "passes_args func st env \<longleftrightarrow>
     (\<forall>i < length (f_params func).
        low_eq (vreg_width func (nat (f_params func ! i))) (env (nat (f_params func ! i))) (arg_value func st i))"

lemma entry_point:
  assumes x: "emits_for x func" and valid: "ir_valid m func" and pre: "verify_pre func" and n: "length (f_params func) \<le> 64"
    and size: "x_frame_size x < 4096" and areas: "stacked (x_frame_size x) (frame_areas x)"
    and fp: "fp = xregs st X64_RSP - 8" and args: "passes_args func st env"
  shows "\<exists>params st'. x64_parallel_move (x64_param_moves x) = Some params \<and>
    exec_lines (x64_emit_prologue x @ params) st = Some st' \<and>
    at_point m func x fp (xsyms st) (spill_bytes x fp) 0 0 env (xmem st') st' \<and>
    (\<forall>r. r \<noteq> X64_RBP \<longrightarrow> r \<noteq> X64_RSP \<longrightarrow> \<not> scratch_reg r \<longrightarrow> LOCATION_REG r \<notin> set (ra_locations (x_ra x)) \<longrightarrow>
       xregs st' r = xregs st r) \<and>
    (\<forall>r \<in> set (used_regs (x_ra x)). load_bytes 8 (saved_at x fp r) (xmem st') = xregs st r) \<and>
    load_bytes 8 fp (xmem st') = xregs st X64_RBP \<and>
    (\<forall>q. q \<notin> frame_own x fp \<or> q \<in> bytes_at 8 (xregs st X64_RSP) \<longrightarrow> xmem st' q = xmem st q)"
proof -
  have wf: "ir_wf func" by (rule valid_wf [OF pre valid])
  have func: "x_func x = func" using x by (simp add: emits_for_def)
  have d: "x_frame_size x < 2 ^ 32" "x_frame_size x < 2 ^ 31" using size by simp_all
  obtain st1 where st1: "exec_lines (x64_emit_prologue x) st = Some st1" "xregs st1 X64_RBP = fp"
    "\<forall>r. r \<noteq> X64_RBP \<longrightarrow> r \<noteq> X64_RSP \<longrightarrow> xregs st1 r = xregs st r"
    "\<forall>r \<in> set (used_regs (x_ra x)). load_bytes 8 (saved_at x fp r) (xmem st1) = xregs st r"
    "load_bytes 8 fp (xmem st1) = xregs st X64_RBP"
    "\<forall>q. q \<notin> frame_own x fp \<or> q \<in> bytes_at 8 (xregs st X64_RSP) \<longrightarrow> xmem st1 q = xmem st q"
    using prologue_runs [OF size areas fp special_not_used(1,2) [OF x wf]] by blast
  obtain params st2 where st2: "x64_parallel_move (x64_param_moves x) = Some params" "exec_lines params st1 = Some st2"
    "\<forall>i < length (f_params func). vreg_value x st2 (f_params func ! i) = move_value (param_source x i (f_params func ! i)) st1"
    "\<forall>r. \<not> scratch_reg r \<longrightarrow> LOCATION_REG r \<notin> set (ra_locations (x_ra x)) \<longrightarrow> xregs st2 r = xregs st1 r"
    "\<forall>q. q \<notin> spill_bytes x fp \<longrightarrow> xmem st2 q = xmem st1 q"
    using params_run [OF x valid wf n areas d(2) st1(2)] by blast
  have run: "exec_lines (x64_emit_prologue x @ params) st = Some st2"
    using st1(1) st2(2) by (simp add: exec_lines_append)
  have above: "q \<notin> spill_bytes x fp" if "q \<in> bytes_at k (fp + word_of_int off)" "0 \<le> off" "off + int k \<le> 2 ^ 32" for q k off
    using above_frame(1) [OF areas d(1) that(2,3)] that(1) by blast
  have source: "move_value (param_source x i (f_params func ! i)) st1 = arg_value func st i" if i: "i < length (f_params func)" for i
  proof (cases "i < 4")
    case True
    then have "x64_gpr_arg_regs ! i \<noteq> X64_RBP \<and> x64_gpr_arg_regs ! i \<noteq> X64_RSP"
      by (auto simp: x64_gpr_arg_regs_def less_4)
    then show ?thesis using True st1(3) func by (simp add: param_source_def arg_value_def x64_vtype_def)
  next
    case False
    let ?a = "fp + word_of_int (16 + 8 * int i)"
    have "bytes_at 16 (fp + word_of_int 0) \<inter> bytes_at 8 ?a = {}" using i n by (intro bytes_apart) simp_all
    moreover have "bytes_at 8 ?a \<inter> bytes_at 8 (saved_at x fp r) = {}" if "r \<in> set (used_regs (x_ra x))" for r
      using above_frame(2) [OF areas d(1) _ _ that, of "16 + 8 * int i" 8] i n by simp
    moreover have "bytes_at 8 ?a \<inter> spill_bytes x fp = {}"
      using above_frame(1) [OF areas d(1), of "16 + 8 * int i" 8] i n by simp
    ultimately have "bytes_at 8 ?a \<inter> frame_own x fp = {}" by (auto simp: frame_own_def)
    then have "load_bytes 8 ?a (xmem st1) = load_bytes 8 ?a (xmem st)" using st1(6) by (intro load_outside) blast
    moreover have "?a = xregs st X64_RSP + 8 + word_of_int (8 * int i)" by (simp add: fp)
    ultimately show ?thesis using False st1(2) by (simp only: param_source_def arg_value_def if_False move_value.simps move_address.simps)
  qed
  have "low_eq (vreg_width func v) (env v) (vreg_value x st2 (int v))" if "live_at func 0 0 v" for v
  proof -
    have "int v \<in> set (f_params func)" using valid that by (simp add: ir_valid_def)
    then obtain i where i: "i < length (f_params func)" "f_params func ! i = int v" by (metis in_set_conv_nth)
    have "low_eq (vreg_width func (nat (f_params func ! i))) (env (nat (f_params func ! i))) (arg_value func st i)"
      using args i(1) unfolding passes_args_def by blast
    moreover have "vreg_value x st2 (f_params func ! i) = arg_value func st i" using st2(3) source [OF i(1)] i(1) by simp
    ultimately show ?thesis unfolding i(2) nat_int by simp
  qed
  moreover have "xregs st2 X64_RBP = fp"
  proof -
    have "LOCATION_REG X64_RBP \<notin> set (ra_locations (x_ra x))"
      using used_iff [of func x64_target "x_ra x" X64_RBP] x special_not_used(1) [OF x wf]
      by (auto simp: emits_for_def used_regs_def TARGET_MAX_REGS_def x64_target_def)
    then show ?thesis using st2(4) st1(2) by (simp add: scratch_reg_def)
  qed
  moreover have "run_setup m func x fp (spill_bytes x fp)"
    using pre valid x spills_bounded [OF areas size] by (simp add: run_setup_def)
  moreover have "0 < block_count func" using valid by (simp add: ir_valid_def)
  moreover have "xsyms st2 = xsyms st" by (rule exec_lines_syms [OF run])
  ultimately have "at_point m func x fp (xsyms st) (spill_bytes x fp) 0 0 env (xmem st2) st2"
    by (simp add: at_point_def holds_def func)
  moreover have "load_bytes 8 (saved_at x fp r) (xmem st2) = xregs st r" if r: "r \<in> set (used_regs (x_ra x))" for r
  proof -
    have "load_bytes 8 (saved_at x fp r) (xmem st2) = load_bytes 8 (saved_at x fp r) (xmem st1)"
      using saved_cells(2) [OF areas d(1) r] st2(5) by (intro load_outside) blast
    then show ?thesis using st1(4) r by simp
  qed
  moreover have "load_bytes 8 fp (xmem st2) = xregs st X64_RBP"
  proof -
    have "load_bytes 8 fp (xmem st2) = load_bytes 8 fp (xmem st1)"
      using above [of _ 8 0] st2(5) by (intro load_outside) simp
    then show ?thesis using st1(5) by simp
  qed
  moreover have "xmem st2 q = xmem st q" if q: "q \<notin> frame_own x fp \<or> q \<in> bytes_at 8 (xregs st X64_RSP)" for q
  proof -
    have "q \<notin> spill_bytes x fp" using q above [of q 8 8] by (auto simp: frame_own_def fp)
    then show ?thesis using st2(5) st1(6) q by simp
  qed
  moreover have "xregs st2 r = xregs st r"
    if "r \<noteq> X64_RBP" "r \<noteq> X64_RSP" "\<not> scratch_reg r" "LOCATION_REG r \<notin> set (ra_locations (x_ra x))" for r
    using that st1(3) st2(4) by simp
  ultimately show ?thesis using st2(1) run by blast
qed

section \<open>The function\<close>

text \<open>A run of the function to the end of block \<open>b\<close>, when it is called in the state \<open>st\<close>: the slots are in its
  frame, the memory is the machine's, and no step reads or writes the cells of the frame that the code keeps
  for itself.\<close>

definition frame_pointer :: "x64_state \<Rightarrow> u64" where
  "frame_pointer st = xregs st X64_RSP - 8"

definition called_run :: "ir_function \<Rightarrow> x64_emitter \<Rightarrow> x64_state \<Rightarrow> (nat \<Rightarrow> u64) \<Rightarrow> nat \<Rightarrow> (nat \<Rightarrow> u64) \<Rightarrow> (u64 \<Rightarrow> u8) \<Rightarrow> bool" where
  "called_run func x st env b env' mem' \<longleftrightarrow>
     (ir_step func (int_effect func (slot_address x (frame_pointer st)) (symbol_address x (xsyms st)) (frame_own x (frame_pointer st)))
        cond_taken)\<^sup>*\<^sup>* (0, 0, env, xmem st) (b, length (insts_of func b), env', mem')"

text \<open>The state at \<^verbatim>\<open>ret\<close>: the stack pointer and the return address are as at the call, so are the registers
  that the convention has the function keep, but for the scratch register of the moves; the memory is that
  of the run, and the result is where the convention has it.\<close>

definition returned :: "ir_function \<Rightarrow> x64_emitter \<Rightarrow> x64_state \<Rightarrow> ir_term \<Rightarrow> (nat \<Rightarrow> u64) \<Rightarrow> (u64 \<Rightarrow> u8) \<Rightarrow> x64_state \<Rightarrow> bool" where
  "returned func x st tm env' mem' st' \<longleftrightarrow>
     xregs st' X64_RSP = xregs st X64_RSP \<and>
     (\<forall>q \<in> bytes_at 8 (xregs st X64_RSP). xmem st' q = xmem st q) \<and>
     (\<forall>r. is_callee_saved x64_target r \<longrightarrow> r \<noteq> X64_XMM15 \<longrightarrow> xregs st' r = xregs st r) \<and>
     (\<forall>q. q \<notin> frame_own x (frame_pointer st) \<longrightarrow> xmem st' q = mem' q) \<and>
     (t_value tm \<noteq> IR_NO_VREG \<longrightarrow>
        low_eq (x64_width (ir_vreg_type func (t_value tm))) (env' (nat (t_value tm)))
          (xregs st' (if ir_type_is_float (ir_vreg_type func (t_value tm)) then X64_XMM0 else X64_RAX)))"

lemma labels_allocate: "labels (x64_allocate_frame f) \<subseteq> {''.Lstack_probe''}"
  by (simp add: x64_allocate_frame_def)

lemma labels_prologue: "labels (x64_emit_prologue x) \<subseteq> {''.Lstack_probe''}"
  using labels_allocate by (simp add: x64_emit_prologue_def)

lemma epilogue_in_block [simp]: "x64_emit_epilogue (in_block x b) = x64_emit_epilogue x"
  by (simp add: x64_emit_epilogue_def)

text \<open>The lines of the function and what is before its first block.\<close>

lemma function_compiled:
  assumes emit: "x64_emit_function to_float debug m func tx = Some tx'"
    and ra: "regalloc_function func x64_target = Some ra" and x: "x = emitter_of m func ra"
    and params: "x64_parallel_move (x64_param_moves x) = Some params"
    and ids: "inj_on (\<lambda>b. b_id (block_at func b)) {..<block_count func}"
  obtains s name start code where "compiled to_float debug x s code" "bd_lines s = XLabel name # x64_emit_prologue x @ params @ start"
    "start = [] \<or> (\<exists>k. start = [XLabel (debug_label k)])"
    "tx_text tx' = tx_text tx @ [CHR 0x0A] @ concat (map x64_line_text code)"
proof -
  let ?label = "tx_next_debug_label tx"
  define start where "start = (if debug then [XLabel (debug_label ?label)] else [])"
  define s where "s = \<lparr>bd_lines = XLabel (x64_symbol x (int (f_global func))) # x64_emit_prologue x @ params @ start,
      bd_counters = (tx_counters tx)\<lparr>next_local_label := 0\<rparr>, bd_next_debug_label = (if debug then Suc ?label else ?label),
      bd_marks = [], bd_line = - 1, bd_scope = - 1\<rparr>"
  have func: "x_func x = func" by (simp add: x)
  obtain s' where s': "fold_option (body_block to_float debug x) s [0..<block_count func] = Some s'"
    and listing: "tx_text tx' = tx_text tx @ [CHR 0x0A] @
      concat (map x64_line_text (bd_lines s' @ (if debug then [XLabel (debug_label (bd_next_debug_label s'))] else [])))"
    using emit params
    unfolding x64_emit_function_def ra Option.bind.simps Let_def emitter_of_def [symmetric] x [symmetric] s_def start_def
    by (auto split: Option.bind_splits)
  have "labels params = {}" by (rule labels_parallel_move [OF params])
  moreover have "labels start \<subseteq> range debug_label" by (auto simp: start_def)
  ultimately have "labels (bd_lines s) \<subseteq> {x64_symbol x (int (f_global func)), ''.Lstack_probe''} \<union> range debug_label"
    using labels_prologue [of x] by (auto simp: s_def)
  moreover have "number_label n \<notin> {x64_symbol x (int (f_global func)), ''.Lstack_probe''} \<union> range debug_label" for n
    using number_label_other [of n] by (auto simp: x64_symbol_def)
  ultimately have "labels_ok func s" using ids by (auto simp: labels_ok_def)
  then have "compiled to_float debug x s (bd_lines s' @ (if debug then [XLabel (debug_label (bd_next_debug_label s'))] else []))"
    using s' by (auto simp: compiled_def body_before_def func)
  moreover have "bd_lines s = XLabel (x64_symbol x (int (f_global func))) # x64_emit_prologue x @ params @ start" by (simp add: s_def)
  moreover have "start = [] \<or> (\<exists>k. start = [XLabel (debug_label k)])" by (auto simp: start_def)
  ultimately show thesis using that listing by blast
qed

text \<open>From the entry to the point before the first instruction.\<close>

lemma entry_in_code:
  assumes c: "compiled to_float debug x s code" and lines: "bd_lines s = XLabel name # x64_emit_prologue x @ params @ start"
    and start: "start = [] \<or> (\<exists>k. start = [XLabel (debug_label k)])" and b: "0 < block_count (x_func x)"
    and run: "exec_lines (x64_emit_prologue x @ params) st = Some st'"
  shows "\<exists>pc. point_at to_float debug x s code 0 0 pc \<and> code_runs code (0, st) (pc, st')"
proof -
  have before: "body_before to_float debug x s 0 = Some s" by (simp add: body_before_def)
  obtain post where code: "code = bd_lines s @ post"
    using block_start [OF c b] before by (metis append_Cons option.inject)
  have "exec_lines start st' = Some st'" using start by auto
  then have "exec_lines (bd_lines s) st = Some st'"
    using run unfolding lines by (simp add: exec_lines_append del: append_assoc flip: append_assoc)
  then have "code_runs code (0, st) (length (bd_lines s), st')"
    using lines_run [of "bd_lines s" st st' code "[]" post] code by simp
  then show ?thesis using arrive_next [OF c b before, of st'] code_runs_trans by fastforce
qed

text \<open>From the end of the block to \<^verbatim>\<open>ret\<close>.\<close>

lemma return_in_code:
  assumes c: "compiled to_float debug x s code" and pc: "point_at to_float debug x s code b (length (insts_of func b)) pc"
    and p: "at_point m func x fp syms own b (length (insts_of func b)) env mem st"
    and tm: "t_kind (b_term (block_at func b)) = IR_TERM_RET"
  shows "\<exists>pc' st'. code_runs code (pc, st) (pc', st') \<and> pc' < length code \<and> code ! pc' = XLine ''ret'' [] \<and>
    xregs st' X64_RSP = fp + 8 \<and> xregs st' X64_RBP = load_bytes 8 fp (xmem st) \<and> xmem st' = xmem st \<and>
    (\<forall>r \<in> set (used_regs (x_ra x)). xregs st' r = load_bytes 8 (saved_at x fp r) (xmem st)) \<and>
    (\<forall>r. r \<notin> set (used_regs (x_ra x)) \<longrightarrow> r \<noteq> X64_RSP \<longrightarrow> r \<noteq> X64_RBP \<longrightarrow> r \<noteq> X64_RAX \<longrightarrow> r \<noteq> X64_XMM0 \<longrightarrow>
       xregs st' r = xregs st r) \<and>
    (t_value (b_term (block_at func b)) \<noteq> IR_NO_VREG \<longrightarrow>
       low_eq (x64_width (ir_vreg_type func (t_value (b_term (block_at func b))))) (env (nat (t_value (b_term (block_at func b)))))
         (xregs st' (if ir_type_is_float (ir_vreg_type func (t_value (b_term (block_at func b)))) then X64_XMM0 else X64_RAX)))"
proof -
  note P = at_point_facts [OF p]
  let ?used = "used_regs (x_ra x)"
  note special = special_not_used [OF P(3,2)]
  have b: "b < block_count (x_func x)" using P(4,5) by simp
  obtain s2 ls post where B: "body_at to_float debug x s b (length (insts_of func b)) = Some s2"
    "x64_emit_terminator (in_block x b) (b_term (block_at func b)) = Some ls" "code = bd_lines s2 @ ls @ post"
    using block_end [OF c b] unfolding P(4) by metis
  have p': "at_point m func (in_block x b) fp syms own b (length (insts_of func b)) env mem st" using p by simp
  obtain ls' st1 where r: "ls = ls' @ x64_emit_epilogue x" "exec_lines ls' st = Some st1" "xmem st1 = xmem st"
    "\<forall>r. r \<noteq> X64_RAX \<longrightarrow> r \<noteq> X64_XMM0 \<longrightarrow> xregs st1 r = xregs st r"
    "t_value (b_term (block_at func b)) \<noteq> IR_NO_VREG \<longrightarrow>
       low_eq (x64_width (ir_vreg_type func (t_value (b_term (block_at func b))))) (env (nat (t_value (b_term (block_at func b)))))
         (xregs st1 (if ir_type_is_float (ir_vreg_type func (t_value (b_term (block_at func b)))) then X64_XMM0 else X64_RAX))"
    using return_move [OF p' tm B(2)] unfolding epilogue_in_block by blast
  have "xregs st1 X64_RBP = fp" using r(4) P(9) by simp
  from epilogue_runs [OF special(1,2) this] obtain st2 where e:
    "exec_lines (map (restore_line x) ?used @ [XLine ''leave'' []]) st1 = Some st2" "xmem st2 = xmem st1"
    "xregs st2 X64_RSP = fp + 8" "xregs st2 X64_RBP = load_bytes 8 fp (xmem st1)"
    "\<forall>r. r \<noteq> X64_RSP \<longrightarrow> r \<noteq> X64_RBP \<longrightarrow> xregs st2 r =
       (if r \<in> set ?used then load_bytes 8 (saved_at x fp r) (xmem st1) else xregs st1 r)" by blast
  define ex where "ex = ls' @ map (restore_line x) ?used @ [XLine ''leave'' []]"
  have code: "code = bd_lines s2 @ ex @ XLine ''ret'' [] # post" using B(3) r(1) by (simp add: epilogue_lines ex_def)
  have "exec_lines ex st = Some st2" using r(2) e(1) by (simp add: ex_def exec_lines_append)
  then have "code_runs code (length (bd_lines s2), st) (length (bd_lines s2 @ ex), st2)" by (rule lines_run) (rule code)
  moreover have "pc = length (bd_lines s2)" using pc B(1) by (auto simp: point_at_def)
  moreover have "length (bd_lines s2 @ ex) < length code" "code ! length (bd_lines s2 @ ex) = XLine ''ret'' []"
    unfolding code append_assoc [symmetric] by (simp_all add: nth_append)
  moreover have "xregs st2 r = load_bytes 8 (saved_at x fp r) (xmem st)" if "r \<in> set ?used" for r
    using e(5) r(3) that special(1,2) by metis
  moreover have "xregs st2 r = xregs st r"
    if "r \<notin> set ?used" "r \<noteq> X64_RSP" "r \<noteq> X64_RBP" "r \<noteq> X64_RAX" "r \<noteq> X64_XMM0" for r
    using e(5) r(4) that by simp
  moreover have "xregs st2 q = xregs st1 q" if "q = X64_RAX \<or> q = X64_XMM0" for q
    using e(5) special(3,4) that by auto
  moreover have "(if c then X64_XMM0 else X64_RAX) = X64_RAX \<or> (if c then X64_XMM0 else X64_RAX) = X64_XMM0" for c by simp
  ultimately show ?thesis
    using r(5) by (intro exI [of _ "length (bd_lines s2 @ ex)"] exI [of _ st2] conjI) (simp_all only: e(2-4) r(3), simp_all)
qed


section \<open>A concrete call\<close>

text \<open>The sum of two integers.\<close>

definition sum_example :: ir_function where
  "sum_example = example_function [IR_I64, IR_I64, IR_I64] [0, 1]
     [example_block 0 [example_inst IR_ADD IR_I64 2 0 1] (example_ret 2)]"

definition sum_module :: ir_module where
  "sum_module = ir_module_new\<lparr>m_functions := [sum_example], m_globals := [new_global 0 IR_GLOBAL_FUNCTION ''sum'']\<rparr>"

definition no_text :: x64_text where
  "no_text = \<lparr>tx_text = [], tx_counters = \<lparr>float_constants = [], next_local_label = 0\<rparr>, tx_next_debug_label = 0,
     tx_debug_functions = []\<rparr>"

definition sum_state :: x64_state where
  "sum_state = \<lparr>xregs = (\<lambda>r. if r = X64_RCX then 5 else if r = X64_RDX then 7 else 4096), xmem = (\<lambda>_. 0), xflags = None,
     xsyms = (\<lambda>_. 0)\<rparr>"

lemma sum_example_allocated: "regalloc_function sum_example x64_target \<noteq> None"
  by code_simp

lemma sum_example_small: "x_frame_size (emitter_of sum_module sum_example (the (regalloc_function sum_example x64_target))) < 4096"
  by code_simp

declare register_moves.simps [code]

lemma sum_example_emitted: "x64_emit_function (\<lambda>b. 0) False sum_module sum_example no_text \<noteq> None"
  by code_simp

lemma sum_example_pre: "verify_pre sum_example"
  unfolding verify_pre_checked by code_simp

lemma sum_example_verified: "ir_verify_function sum_module sum_example = Some True"
  by code_simp

lemma sum_example_simps:
  "block_count sum_example = 1" "insts_of sum_example 0 = [example_inst IR_ADD IR_I64 2 0 1]"
  "b_term (block_at sum_example 0) = example_ret 2" "f_params sum_example = [0, 1]" "f_slots sum_example = []"
  "ir_vreg_type sum_example 0 = IR_I64" "ir_vreg_type sum_example 1 = IR_I64" "ir_vreg_type sum_example 2 = IR_I64"
  by (simp_all add: sum_example_def example_function_def example_block_def block_count_def insts_of_def block_at_def ir_vreg_type_def)


section \<open>The scratch registers of the moves\<close>

text \<open>A function of two floats that calls itself with its arguments exchanged.\<close>

definition exchange_example :: ir_function where
  "exchange_example = example_function [IR_F64, IR_F64] [0, 1]
     [example_block 0
        [(example_inst IR_CALL IR_VOID IR_NO_VREG IR_NO_VREG IR_NO_VREG)\<lparr>i_call :=
           \<lparr>callee_kind = IR_CALLEE_DIRECT, callee = 0, call_return_type = IR_VOID, call_args = [1, 0],
            arg_is_vararg = [False, False]\<rparr>\<rparr>]
        (example_ret IR_NO_VREG)]"

definition exchange_module :: ir_module where
  "exchange_module = ir_module_new\<lparr>m_globals := [new_global 0 IR_GLOBAL_FUNCTION ''f'']\<rparr>"

definition exchange_code :: "x64_line list" where
  "exchange_code =
     [XLabel ''$f'', XLine ''push'' [XReg X64_RBP 8], XLine ''mov'' [XReg X64_RBP 8, XReg X64_RSP 8],
      XLine ''sub'' [XReg X64_RSP 8, XImm 32], XLabel ''.L0'',
      XLine ''movaps'' [XReg X64_XMM15 8, XReg (X64_XMM0 + 1) 8], XLine ''movaps'' [XReg (X64_XMM0 + 1) 8, XReg X64_XMM0 8],
      XLine ''movaps'' [XReg X64_XMM0 8, XReg X64_XMM15 8],
      XLine ''call'' [XName ''$f''], XLine ''leave'' [], XLine ''ret'' []]"

lemma exchange_emitted:
  "map_option tx_text (x64_emit_function (\<lambda>b. 0) False exchange_module exchange_example no_text) =
    Some (CHR 0x0A # concat (map x64_line_text exchange_code))"
  by code_simp

lemma exchange_runs:
  "\<exists>st'. exec_lines (take 8 exchange_code) st = Some st' \<and> xregs st' X64_XMM15 = xregs st (X64_XMM0 + 1)"
proof -
  have enter: "\<exists>st1. exec_lines [XLine ''push'' [XReg X64_RBP 8], XLine ''mov'' [XReg X64_RBP 8, XReg X64_RSP 8],
      XLine ''sub'' [XReg X64_RSP 8, XImm 32]] st = Some st1 \<and> xregs st1 (X64_XMM0 + 1) = xregs st (X64_XMM0 + 1)"
    using enter_frame [of 32 st] by (auto simp: x64_allocate_frame_def simp del: exec_lines.simps(2))
  then obtain st1 where st1: "exec_lines [XLine ''push'' [XReg X64_RBP 8], XLine ''mov'' [XReg X64_RBP 8, XReg X64_RSP 8],
      XLine ''sub'' [XReg X64_RSP 8, XImm 32]] st = Some st1" "xregs st1 (X64_XMM0 + 1) = xregs st (X64_XMM0 + 1)" by blast
  have "take 8 exchange_code = [XLabel ''$f''] @ [XLine ''push'' [XReg X64_RBP 8], XLine ''mov'' [XReg X64_RBP 8, XReg X64_RSP 8],
      XLine ''sub'' [XReg X64_RSP 8, XImm 32]] @ [XLabel ''.L0''] @ [XLine ''movaps'' [XReg X64_XMM15 8, XReg (X64_XMM0 + 1) 8]] @
      [XLine ''movaps'' [XReg (X64_XMM0 + 1) 8, XReg X64_XMM0 8]] @ [XLine ''movaps'' [XReg X64_XMM0 8, XReg X64_XMM15 8]]"
    by (simp add: exchange_code_def)
  moreover have "exec_lines [XLabel name] st = Some st" for name st by simp
  moreover have "exec_lines [XLine ''movaps'' [XReg d 8, XReg s 8]] st = Some (set_reg d (xregs st s) st)" for d s st
    by (rule exec_full_move) simp
  ultimately show ?thesis using st1 by (simp add: exec_lines_append del: exec_lines.simps(2) append_Cons)
qed

text \<open>C15: the code of a function does not keep every register that it has to. The target's \<^verbatim>\<open>xmm15\<close> is callee-saved;
  a function that calls itself with its two arguments exchanged writes it to break the cycle of its moves, and
  after that there is only the call and the return, so its caller finds its first value lost.\<close>

theorem xmm15_is_lost:
  "is_callee_saved x64_target X64_XMM15 \<and>
   map_option tx_text (x64_emit_function (\<lambda>b. 0) False exchange_module exchange_example no_text) =
     Some (CHR 0x0A # concat (map x64_line_text exchange_code)) \<and>
   (\<exists>st'. exec_lines (take 8 exchange_code) st = Some st' \<and> xregs st' X64_XMM15 = xregs st (X64_XMM0 + 1)) \<and>
   drop 8 exchange_code = [XLine ''call'' [XName ''$f''], XLine ''leave'' [], XLine ''ret'' []]"
proof (intro conjI)
  show "is_callee_saved x64_target X64_XMM15" by (simp add: x64_target_def)
  show "drop 8 exchange_code = [XLine ''call'' [XName ''$f''], XLine ''leave'' [], XLine ''ret'' []]"
    by (simp add: exchange_code_def)
qed (rule exchange_emitted exchange_runs)+

end
