(* ===== verification/Spec2Isabelle.thy ===== *)
theory Spec2Isabelle
  imports DynArray IRVerify Diagnostics AsmDecode AsmLayout X64Function
begin

text \<open>
  A verification development for the Saad compiler.
\<close>

end
